(* ===== verification/Prelude.thy ===== *)
theory Prelude
  imports "HOL-Library.Word"
begin

text \<open>
  Shared vocabulary of the development: the machine integer types of the C++ code, the
  theorem collections the component theories extend, and the generic facts on words,
  lists and sorted lists that several components use.
\<close>

unbundle bit_operations_syntax

type_synonym u8 = "8 word"
type_synonym u16 = "16 word"
type_synonym u32 = "32 word"
type_synonym u64 = "64 word"

named_theorems container_simps \<open>contents of a container after an operation on it\<close>
named_theorems inv_intros \<open>an operation keeps the invariant of its component\<close>
named_theorems byte_simps \<open>reading back bytes that were written\<close>

section \<open>Words as numbers\<close>

lemma unat_diff_cases:
  fixes a b :: "'a::len word"
  shows "unat (a - b) =
    (if unat b \<le> unat a then unat a - unat b else unat a + 2 ^ LENGTH('a) - unat b)"
  by (simp add: unat_sub_if')

lemma u8_bound: "unat (x :: u8) < 256"
  using unsigned_less [of x] by simp

lemma u16_bound: "unat (x :: u16) < 65536"
  using unsigned_less [of x] by simp

lemma u32_bound: "unat (x :: u32) < 4294967296"
  using unsigned_less [of x] by simp

lemma u64_bound: "unat (x :: u64) < 18446744073709551616"
  using unsigned_less [of x] by simp

lemma unat_of_nat_16: "n < 65536 \<Longrightarrow> unat (word_of_nat n :: u16) = n"
  by (simp add: unsigned_of_nat take_bit_nat_eq_self)

lemma unat_of_nat_32: "n < 4294967296 \<Longrightarrow> unat (word_of_nat n :: u32) = n"
  by (simp add: unsigned_of_nat take_bit_nat_eq_self)

lemma word_diff_eq_iff: "(a - c = b - c) = (a = (b :: 'a::len word))"
  by simp

lemma unat_plus_one:
  fixes x :: "'a::len word"
  assumes "Suc (unat x) < 2 ^ LENGTH('a)"
  shows "unat (x + 1) = Suc (unat x)"
proof -
  have "LENGTH('a) \<noteq> 0" by simp
  then have "unat (1 :: 'a word) = 1" by simp
  then have "unat x + unat (1 :: 'a word) < 2 ^ LENGTH('a)" using assms by simp
  from unat_add_lem [THEN iffD1, OF this] show ?thesis by simp
qed

text \<open>Distances on the circle of 16-bit numbers.\<close>

lemma unat_dist_step:
  fixes seq :: u16
  assumes "seq \<noteq> seq_end"
  shows "unat (seq_end - seq) = Suc (unat (seq_end - (seq + 1)))"
proof -
  have e: "seq_end - (seq + 1) = (seq_end - seq) - 1" by simp
  have "unat (seq_end - seq) \<noteq> 0" using assms by (simp add: unat_eq_zero)
  then show ?thesis unfolding e using unat_minus_one [of "seq_end - seq"] assms by simp
qed

lemma unat_dist_less: "seq \<noteq> seq_end \<Longrightarrow> unat (seq_end - (seq + 1)) < unat (seq_end - (seq :: u16))"
  using unat_dist_step by simp

lemma unat_step_dist:
  fixes seq :: u16
  assumes "unat (seq - b) < 65535"
  shows "unat (seq + 1 - b) = Suc (unat (seq - b))"
proof -
  have e: "seq + 1 - b = (seq - b) + 1" by simp
  have "unat (seq - b) + unat (1 :: u16) < 2 ^ LENGTH(16)" using assms by simp
  then have "unat ((seq - b) + 1) = unat (seq - b) + unat (1 :: u16)"
    by (rule unat_add_lem [THEN iffD1])
  then show ?thesis unfolding e by simp
qed

lemma seq_range_step:
  fixes seq :: u16
  assumes "seq \<noteq> seq_end"
  shows "{k. unat (k - seq) < unat (seq_end - seq) \<and> P k} =
    (if P seq then {seq} else {}) \<union>
    {k. unat (k - (seq + 1)) < unat (seq_end - (seq + 1)) \<and> P k}"
proof -
  have "unat (k - seq) = (if k = seq then 0 else Suc (unat (k - (seq + 1))))" for k
    using unat_dist_step [of seq k] by auto
  then show ?thesis using unat_dist_step [OF assms] by auto
qed

lemma unat_add_dist:
  fixes k :: u16
  assumes "unat (a - m) + unat (m - k) < 65536"
  shows "unat (a - k) = unat (a - m) + unat (m - k)"
proof -
  have e: "a - k = (a - m) + (m - k)" by simp
  show ?thesis unfolding e
    by (rule unat_add_lem [THEN iffD1]) (use assms in simp)
qed

lemma unat_ucast_16_32: "unat (ucast (x :: u16) :: u32) = unat x"
  using u16_bound [of x] by (simp add: unsigned_ucast_eq take_bit_nat_eq_self)

lemma ucast_step:
  fixes a b :: u16
  shows "(ucast b :: u32) + (if b < a then 65536 else 0) = ucast a + ucast (b - a)"
proof -
  have e: "(ucast x :: u32) = word_of_nat (unat x)" for x :: u16 by (simp add: unat_ucast_16_32)
  have "unat b + (if b < a then 65536 else 0) = unat a + unat (b - a)"
    using unat_diff_cases [of b a] u16_bound [of a]
    by (cases "unat a \<le> unat b") (simp_all add: word_less_nat_alt)
  then have "(word_of_nat (unat b + (if b < a then 65536 else 0)) :: u32) =
      word_of_nat (unat a + unat (b - a))" by simp
  then show ?thesis unfolding e by (cases "b < a") simp_all
qed

section \<open>Lists\<close>

lemma sorted_wrt_dropWhile: "sorted_wrt P xs \<Longrightarrow> sorted_wrt P (dropWhile Q xs)"
  by (induction xs) auto

lemma sorted_wrt_map_iff: "sorted_wrt P (map f xs) = sorted_wrt (\<lambda>x y. P (f x) (f y)) xs"
  by (simp add: sorted_wrt_map)

lemma length_dropWhile_less:
  "xs \<noteq> [] \<Longrightarrow> Q (hd xs) \<Longrightarrow> length (dropWhile Q xs) < length xs"
  by (cases xs) (auto simp: le_imp_less_Suc length_dropWhile_le)

lemma dropWhile_neq_iff: "(dropWhile Q xs \<noteq> xs) = (xs \<noteq> [] \<and> Q (hd xs))"
proof (cases xs)
  case Nil
  then show ?thesis by simp
next
  case (Cons x ys)
  have "length (dropWhile Q ys) < length (x # ys)"
    by (simp add: le_imp_less_Suc length_dropWhile_le)
  then have "dropWhile Q ys \<noteq> x # ys" by force
  with Cons show ?thesis by auto
qed

end
