(* ===== verification/Seq_Order.thy ===== *)
theory Seq_Order
  imports Prelude
begin

text \<open>
  Sequence number arithmetic of \<^verbatim>\<open>core/include/rtc/seq_manager.h\<close> and
  \<^verbatim>\<open>core/src/rtc/seq_manager.cpp\<close>: the cyclic comparisons every other component uses.
  The template argument \<^verbatim>\<open>T\<close> is the word length of the type, \<^verbatim>\<open>N\<close> is the first argument
  of each definition. The class \<^verbatim>\<open>SeqManager<T, N>\<close> itself is in theory \<open>Seq_Manager\<close>.
\<close>

section \<open>The comparisons\<close>

definition MaxValue :: "nat \<Rightarrow> 'a::len word" where
  "MaxValue N = (if N = 0 then - 1 else push_bit N 1 - 1)"

definition IsSeqLowerThan :: "nat \<Rightarrow> 'a::len word \<Rightarrow> 'a word \<Rightarrow> bool" where
  "IsSeqLowerThan N lhs rhs \<longleftrightarrow>
     (rhs > lhs \<and> rhs - lhs \<le> MaxValue N div 2) \<or> (lhs > rhs \<and> lhs - rhs > MaxValue N div 2)"

definition IsSeqHigherThan :: "nat \<Rightarrow> 'a::len word \<Rightarrow> 'a word \<Rightarrow> bool" where
  "IsSeqHigherThan N lhs rhs \<longleftrightarrow>
     (lhs > rhs \<and> lhs - rhs \<le> MaxValue N div 2) \<or> (rhs > lhs \<and> rhs - lhs > MaxValue N div 2)"

text \<open>The two instances the transport uses: sequence numbers and RTP timestamps.\<close>

abbreviation seq_lower :: "'a::len word \<Rightarrow> 'a word \<Rightarrow> bool" where
  "seq_lower \<equiv> IsSeqLowerThan 0"

abbreviation seq_higher :: "'a::len word \<Rightarrow> 'a word \<Rightarrow> bool" where
  "seq_higher \<equiv> IsSeqHigherThan 0"

section \<open>Laws of the comparisons\<close>

lemma IsSeqHigherThan_swap: "IsSeqHigherThan N a b = IsSeqLowerThan N b a"
  by (auto simp: IsSeqHigherThan_def IsSeqLowerThan_def)

lemma IsSeqLowerThan_irrefl [simp]: "\<not> IsSeqLowerThan N a a"
  by (simp add: IsSeqLowerThan_def)

lemma IsSeqLowerThan_asym: "IsSeqLowerThan N a b \<Longrightarrow> \<not> IsSeqLowerThan N b a"
  by (auto simp: IsSeqLowerThan_def)

lemma IsSeqLowerThan_total: "a \<noteq> b \<Longrightarrow> IsSeqLowerThan N a b \<or> IsSeqLowerThan N b a"
  by (auto simp: IsSeqLowerThan_def neq_iff)

text \<open>
  On 16 and 32 bits, "lower" is "ahead by at most half of the number circle": the distance
  decides alone, except for the single distance that is exactly half.
\<close>

lemma MaxValue_half_16: "unat (MaxValue 0 div 2 :: u16) = 32767"
  by (simp add: MaxValue_def)

lemma MaxValue_half_32: "unat (MaxValue 0 div 2 :: u32) = 2147483647"
  by (simp add: MaxValue_def)

lemma seq_lower_dist16:
  "seq_lower a b \<longleftrightarrow>
     (0 < unat (b - a) \<and> unat (b - a) \<le> 32767) \<or> (unat (b - a) = 32768 \<and> b < (a :: u16))"
proof -
  note u16_bound [of a] u16_bound [of b]
  then show ?thesis
    unfolding IsSeqLowerThan_def word_less_nat_alt word_le_nat_alt MaxValue_half_16
      unat_diff_cases
    by (auto split: if_splits)
qed

lemma seq_lower_dist32:
  "seq_lower a b \<longleftrightarrow>
     (0 < unat (b - a) \<and> unat (b - a) \<le> 2147483647)
     \<or> (unat (b - a) = 2147483648 \<and> b < (a :: u32))"
proof -
  note u32_bound [of a] u32_bound [of b]
  then show ?thesis
    unfolding IsSeqLowerThan_def word_less_nat_alt word_le_nat_alt MaxValue_half_32
      unat_diff_cases
    by (auto split: if_splits)
qed

end
