(* ===== verification/Std_Tree.thy ===== *)
theory Std_Tree
  imports Seq_Order
begin

text \<open>
  What the code uses of \<^verbatim>\<open>std::map\<close> and \<^verbatim>\<open>std::set\<close> with a comparator. A container is the
  list of its elements in iteration order, an iterator into it is the remaining suffix,
  and \<open>key\<close> reads the key of an element (\<open>fst\<close> for a map, the identity for a set). Every
  operation asks only the comparator, as the tree does. The locale \<open>key_order\<close> is the
  standard's contract on a comparator (a strict total order on the keys in use); its
  lemmas say what the operations then do to the contents. Sequence numbers satisfy it on
  every window of half the number circle, which \<open>seq16\<close> and \<open>seq32\<close> below prove.
\<close>

section \<open>The operations\<close>

definition lower_bound :: "('k \<Rightarrow> 'k \<Rightarrow> bool) \<Rightarrow> ('e \<Rightarrow> 'k) \<Rightarrow> 'k \<Rightarrow> 'e list \<Rightarrow> 'e list" where
  "lower_bound lt key k xs = dropWhile (\<lambda>e. lt (key e) k) xs"

definition tree_find :: "('k \<Rightarrow> 'k \<Rightarrow> bool) \<Rightarrow> ('e \<Rightarrow> 'k) \<Rightarrow> 'k \<Rightarrow> 'e list \<Rightarrow> 'e option" where
  "tree_find lt key k xs =
     (case lower_bound lt key k xs of
        [] \<Rightarrow> None
      | e # es \<Rightarrow> if lt k (key e) then None else Some e)"

fun tree_emplace :: "('k \<Rightarrow> 'k \<Rightarrow> bool) \<Rightarrow> ('e \<Rightarrow> 'k) \<Rightarrow> 'e \<Rightarrow> 'e list \<Rightarrow> 'e list" where
  "tree_emplace lt key e [] = [e]"
| "tree_emplace lt key e (x # xs) =
     (if lt (key x) (key e) then x # tree_emplace lt key e xs
      else if lt (key e) (key x) then e # x # xs
      else x # xs)"

text \<open>
  Insertion with the end as the hint: an element above the last one goes to the end at once.
\<close>

definition tree_emplace_back ::
  "('k \<Rightarrow> 'k \<Rightarrow> bool) \<Rightarrow> ('e \<Rightarrow> 'k) \<Rightarrow> 'e \<Rightarrow> 'e list \<Rightarrow> 'e list"
where
  "tree_emplace_back lt key e xs =
     (if xs = [] \<or> lt (key (last xs)) (key e) then xs @ [e] else tree_emplace lt key e xs)"

fun tree_erase :: "('k \<Rightarrow> 'k \<Rightarrow> bool) \<Rightarrow> ('e \<Rightarrow> 'k) \<Rightarrow> 'k \<Rightarrow> 'e list \<Rightarrow> 'e list" where
  "tree_erase lt key k [] = []"
| "tree_erase lt key k (x # xs) =
     (if lt (key x) k then x # tree_erase lt key k xs
      else if lt k (key x) then x # xs
      else xs)"

text \<open>A container whose keys lie in \<open>W\<close> and whose elements are in comparator order.\<close>

definition sorted_tree :: "('k \<Rightarrow> 'k \<Rightarrow> bool) \<Rightarrow> 'k set \<Rightarrow> ('e \<Rightarrow> 'k) \<Rightarrow> 'e list \<Rightarrow> bool" where
  "sorted_tree lt W key xs \<longleftrightarrow>
     key ` set xs \<subseteq> W \<and> sorted_wrt (\<lambda>x y. lt (key x) (key y)) xs"

lemma sorted_tree_Nil [simp]: "sorted_tree lt W key []"
  by (simp add: sorted_tree_def)

lemma sorted_tree_Cons:
  "sorted_tree lt W key (x # xs) \<longleftrightarrow>
     key x \<in> W \<and> (\<forall>y\<in>set xs. lt (key x) (key y)) \<and> sorted_tree lt W key xs"
  by (auto simp: sorted_tree_def)

lemma sorted_tree_dropWhile:
  "sorted_tree lt W key xs \<Longrightarrow> sorted_tree lt W key (dropWhile P xs)"
  by (auto simp: sorted_tree_def sorted_wrt_dropWhile dest: set_dropWhileD)

lemma sorted_tree_filter:
  "sorted_tree lt W key xs \<Longrightarrow> sorted_tree lt W key (filter P xs)"
  by (auto simp: sorted_tree_def sorted_wrt_filter)

lemma sorted_tree_lower_bound [inv_intros]:
  "sorted_tree lt W key xs \<Longrightarrow> sorted_tree lt W key (lower_bound lt key k xs)"
  by (simp add: lower_bound_def sorted_tree_dropWhile)

lemma set_lower_bound_subset: "set (lower_bound lt key k xs) \<subseteq> set xs"
  by (auto simp: lower_bound_def dest: set_dropWhileD)

lemma length_lower_bound: "length (lower_bound lt key k xs) \<le> length xs"
  by (simp add: lower_bound_def length_dropWhile_le)

lemma sorted_tree_mono:
  "sorted_tree lt W key xs \<Longrightarrow> key ` set xs \<subseteq> W' \<Longrightarrow> sorted_tree lt W' key xs"
  by (auto simp: sorted_tree_def)

lemma set_emplace_subset: "set (tree_emplace lt key e xs) \<subseteq> insert e (set xs)"
  by (induction xs) auto

lemma length_emplace: "length (tree_emplace lt key e xs) \<le> Suc (length xs)"
  by (induction xs) auto

lemma set_erase_subset: "set (tree_erase lt key k xs) \<subseteq> set xs"
  by (induction xs) auto

lemma length_erase: "length (tree_erase lt key k xs) \<le> length xs"
  by (induction xs) auto

lemma sorted_tree_drop: "sorted_tree lt W key xs \<Longrightarrow> sorted_tree lt W key (drop n xs)"
  by (auto simp: sorted_tree_def sorted_wrt_drop dest: in_set_dropD)

section \<open>The comparator contract\<close>

locale key_order =
  fixes lt :: "'k \<Rightarrow> 'k \<Rightarrow> bool" and W :: "'k set"
  assumes irrefl: "a \<in> W \<Longrightarrow> \<not> lt a a"
    and trans: "a \<in> W \<Longrightarrow> b \<in> W \<Longrightarrow> c \<in> W \<Longrightarrow> lt a b \<Longrightarrow> lt b c \<Longrightarrow> lt a c"
    and total: "a \<in> W \<Longrightarrow> b \<in> W \<Longrightarrow> a \<noteq> b \<Longrightarrow> lt a b \<or> lt b a"
begin

lemma asym: "a \<in> W \<Longrightarrow> b \<in> W \<Longrightarrow> lt a b \<Longrightarrow> \<not> lt b a"
  using irrefl trans by blast

lemma lower_bound_filter:
  assumes "sorted_tree lt W key xs" and "k \<in> W"
  shows "lower_bound lt key k xs = filter (\<lambda>e. \<not> lt (key e) k) xs"
  using assms
proof (induction xs)
  case Nil
  then show ?case by (simp add: lower_bound_def)
next
  case (Cons x xs)
  then have IH: "lower_bound lt key k xs = filter (\<lambda>e. \<not> lt (key e) k) xs"
    by (simp add: sorted_tree_Cons)
  show ?case
  proof (cases "lt (key x) k")
    case True
    with IH show ?thesis by (simp add: lower_bound_def)
  next
    case False
    have "\<not> lt (key y) k" if "y \<in> set xs" for y
    proof
      assume "lt (key y) k"
      moreover from Cons.prems that have "key x \<in> W" "key y \<in> W" "lt (key x) (key y)"
        by (auto simp: sorted_tree_def)
      ultimately show False using False trans Cons.prems(2) by blast
    qed
    then have "filter (\<lambda>e. \<not> lt (key e) k) xs = xs" by (simp add: filter_id_conv)
    with False show ?thesis by (simp add: lower_bound_def)
  qed
qed

lemma distinct_keys:
  assumes "sorted_tree lt W key xs"
  shows "distinct (map key xs)"
  using assms
proof (induction xs)
  case Nil
  then show ?case by simp
next
  case (Cons x xs)
  then have "key x \<in> W" "\<forall>y\<in>set xs. lt (key x) (key y)" by (auto simp: sorted_tree_Cons)
  then have "key x \<notin> key ` set xs" using irrefl by force
  with Cons show ?case by (simp add: sorted_tree_Cons)
qed

lemma find_iff:
  assumes "sorted_tree lt W key xs" and "k \<in> W"
  shows "tree_find lt key k xs = Some e \<longleftrightarrow> e \<in> set xs \<and> key e = k"
  using assms
proof (induction xs)
  case Nil
  then show ?case by (simp add: tree_find_def lower_bound_def)
next
  case (Cons x xs)
  then have IH: "tree_find lt key k xs = Some e \<longleftrightarrow> e \<in> set xs \<and> key e = k"
    and x: "key x \<in> W" "\<And>y. y \<in> set xs \<Longrightarrow> key y \<in> W"
    and lt: "\<And>y. y \<in> set xs \<Longrightarrow> lt (key x) (key y)"
    by (auto simp: sorted_tree_def)
  show ?case
  proof (cases "lt (key x) k")
    case True
    then have "tree_find lt key k (x # xs) = tree_find lt key k xs"
      by (simp add: tree_find_def lower_bound_def)
    with IH True irrefl x(1) show ?thesis by auto
  next
    case False
    have notin: "e \<in> set xs \<and> key e = k \<longleftrightarrow> False" using False lt by blast
    have "key x = k \<longleftrightarrow> \<not> lt k (key x)"
      using total [OF x(1) Cons.prems(2)] irrefl [OF x(1)] False by auto
    with False notin show ?thesis by (auto simp: tree_find_def lower_bound_def)
  qed
qed

lemma find_None_iff:
  assumes "sorted_tree lt W key xs" and "k \<in> W"
  shows "tree_find lt key k xs = None \<longleftrightarrow> k \<notin> key ` set xs"
proof (cases "tree_find lt key k xs")
  case None
  then have "\<not> (e \<in> set xs \<and> key e = k)" for e using find_iff [OF assms] by simp
  with None show ?thesis by auto
next
  case (Some e)
  then have "e \<in> set xs" "key e = k" using find_iff [OF assms] by simp_all
  with Some show ?thesis by auto
qed

lemma emplace_set:
  assumes "sorted_tree lt W key xs" and "key e \<in> W"
  shows "set (tree_emplace lt key e xs) =
    (if key e \<in> key ` set xs then set xs else insert e (set xs))"
  using assms
proof (induction xs)
  case Nil
  then show ?case by simp
next
  case (Cons x xs)
  then have IH: "set (tree_emplace lt key e xs) =
      (if key e \<in> key ` set xs then set xs else insert e (set xs))"
    and x: "key x \<in> W" "\<And>y. y \<in> set xs \<Longrightarrow> key y \<in> W"
    and lt: "\<And>y. y \<in> set xs \<Longrightarrow> lt (key x) (key y)"
    by (auto simp: sorted_tree_def)
  show ?case
  proof (cases "lt (key x) (key e)")
    case True
    with IH irrefl x(1) show ?thesis by auto
  next
    case False
    have "key e \<notin> key ` set xs" using False lt by auto
    with False total [OF x(1) Cons.prems(2)] irrefl [OF x(1)] show ?thesis by auto
  qed
qed

lemma emplace_sorted:
  assumes "sorted_tree lt W key xs" and "key e \<in> W"
  shows "sorted_tree lt W key (tree_emplace lt key e xs)"
  using assms
proof (induction xs)
  case Nil
  then show ?case by (simp add: sorted_tree_def)
next
  case (Cons x xs)
  then have IH: "sorted_tree lt W key (tree_emplace lt key e xs)"
    and s: "sorted_tree lt W key xs" and x: "key x \<in> W" "\<And>y. y \<in> set xs \<Longrightarrow> key y \<in> W"
    and lt: "\<And>y. y \<in> set xs \<Longrightarrow> lt (key x) (key y)"
    by (auto simp: sorted_tree_def)
  show ?case
  proof (cases "lt (key x) (key e)")
    case True
    with IH x(1) lt emplace_set [OF s Cons.prems(2)] show ?thesis
      by (auto simp: sorted_tree_Cons split: if_splits)
  next
    case False
    show ?thesis
    proof (cases "lt (key e) (key x)")
      case True
      with False Cons.prems trans [OF Cons.prems(2) x(1)] x(2) lt show ?thesis
        by (simp add: sorted_tree_Cons)
    next
      case nlt: False
      with False Cons.prems show ?thesis by simp
    qed
  qed
qed

lemma erase_filter:
  assumes "sorted_tree lt W key xs" and "k \<in> W"
  shows "tree_erase lt key k xs = filter (\<lambda>e. key e \<noteq> k) xs"
  using assms
proof (induction xs)
  case Nil
  then show ?case by simp
next
  case (Cons x xs)
  then have IH: "tree_erase lt key k xs = filter (\<lambda>e. key e \<noteq> k) xs"
    and x: "key x \<in> W" and lt: "\<And>y. y \<in> set xs \<Longrightarrow> lt (key x) (key y)"
    by (auto simp: sorted_tree_def)
  show ?case
  proof (cases "lt (key x) k")
    case True
    with IH irrefl x show ?thesis by auto
  next
    case False
    have "filter (\<lambda>e. key e \<noteq> k) xs = xs" using False lt by (auto simp: filter_id_conv)
    with False total [OF x Cons.prems(2)] irrefl [OF x] show ?thesis by auto
  qed
qed

lemma erase_sorted:
  assumes "sorted_tree lt W key xs" and "k \<in> W"
  shows "sorted_tree lt W key (tree_erase lt key k xs)"
  using assms by (simp add: erase_filter sorted_tree_filter)

lemmas contents = lower_bound_filter find_iff find_None_iff emplace_set erase_filter
lemmas keeps_sorted = emplace_sorted erase_sorted

end

text \<open>Keys ranked by a number, with the comparator following the ranks, obey the contract.\<close>

locale ranked_keys =
  fixes lt :: "'k \<Rightarrow> 'k \<Rightarrow> bool" and W :: "'k set" and rank :: "'k \<Rightarrow> nat"
  assumes lt_rank: "a \<in> W \<Longrightarrow> b \<in> W \<Longrightarrow> lt a b \<longleftrightarrow> rank a < rank b"
    and rank_eq: "a \<in> W \<Longrightarrow> b \<in> W \<Longrightarrow> rank a = rank b \<Longrightarrow> a = b"

sublocale ranked_keys \<subseteq> key_order lt W
  by unfold_locales (auto simp: lt_rank neq_iff dest: rank_eq)

section \<open>Sequence numbers satisfy the contract on every half circle\<close>

definition window16 :: "u16 \<Rightarrow> u16 set" where
  "window16 b = {k. unat (k - b) < 32768}"

definition window32 :: "u32 \<Rightarrow> u32 set" where
  "window32 b = {k. unat (k - b) < 2147483648}"

lemma diff_diff_window: "a - c = (a - b) - (c - (b :: 'a::len word))"
  by simp

lemma seq_lower_window16:
  assumes "a \<in> window16 b" and "c \<in> window16 b"
  shows "seq_lower a c \<longleftrightarrow> unat (a - b) < unat (c - b)"
proof -
  have "unat (c - a) = (if unat (a - b) \<le> unat (c - b) then unat (c - b) - unat (a - b)
      else unat (c - b) + 65536 - unat (a - b))"
    using unat_diff_cases [of "c - b" "a - b"] by simp
  moreover have "unat (a - b) < 32768" "unat (c - b) < 32768"
    using assms by (simp_all add: window16_def)
  ultimately show ?thesis by (auto simp: seq_lower_dist16 split: if_splits)
qed

lemma seq_lower_window32:
  assumes "a \<in> window32 b" and "c \<in> window32 b"
  shows "seq_lower a c \<longleftrightarrow> unat (a - b) < unat (c - b)"
proof -
  have "unat (c - a) = (if unat (a - b) \<le> unat (c - b) then unat (c - b) - unat (a - b)
      else unat (c - b) + 4294967296 - unat (a - b))"
    using unat_diff_cases [of "c - b" "a - b"] by simp
  moreover have "unat (a - b) < 2147483648" "unat (c - b) < 2147483648"
    using assms by (simp_all add: window32_def)
  ultimately show ?thesis by (auto simp: seq_lower_dist32 split: if_splits)
qed

lemma unat_diff_inj: "unat (a - b) = unat (c - b) \<longleftrightarrow> a = (c :: 'a::len word)"
  by (simp add: word_unat_eq_iff [symmetric])

text \<open>
  Everything that is not newer than \<open>m\<close>: the half circle that ends at \<open>m\<close>, with its far
  end point included when the tie at exactly half the circle goes that way.
\<close>

definition not_newer16 :: "u16 \<Rightarrow> u16 set" where
  "not_newer16 m = {k. \<not> seq_higher k m}"

lemma not_newer16_dist:
  "k \<in> not_newer16 m \<longleftrightarrow> unat (m - k) \<le> 32767 \<or> (unat (m - k) = 32768 \<and> m < k)"
proof -
  have "unat (k - m) = (if unat (m - k) = 0 then 0 else 65536 - unat (m - k))"
    using unat_diff_cases [of 0 "m - k"] by (auto simp: unat_eq_zero)
  moreover have "m - k = 0 \<longleftrightarrow> k = m" by auto
  ultimately show ?thesis using u16_bound [of "m - k"]
    unfolding not_newer16_def mem_Collect_eq IsSeqHigherThan_swap seq_lower_dist16
    by (cases "k = m") (auto split: if_splits simp: not_less order.order_iff_strict)
qed

lemma seq_lower_not_newer16:
  assumes "a \<in> not_newer16 m" and "c \<in> not_newer16 m"
  shows "seq_lower a c \<longleftrightarrow> 32768 - unat (m - a) < 32768 - unat (m - c)"
proof -
  have d: "unat (c - a) = (if unat (m - c) \<le> unat (m - a) then unat (m - a) - unat (m - c)
      else unat (m - a) + 65536 - unat (m - c))"
    using unat_diff_cases [of "m - a" "m - c"] by simp
  have m: "unat (m - x) = 0 \<longleftrightarrow> x = m" for x by (auto simp: unat_eq_zero)
  from assms show ?thesis
    unfolding not_newer16_dist seq_lower_dist16 d
    using m [of a] m [of c] by (auto split: if_splits)
qed

interpretation seq16: ranked_keys seq_lower "window16 b" "\<lambda>k. unat (k - b)" for b
  by unfold_locales (simp_all add: seq_lower_window16 unat_diff_inj)

interpretation seq32: ranked_keys seq_lower "window32 b" "\<lambda>k. unat (k - b)" for b
  by unfold_locales (simp_all add: seq_lower_window32 unat_diff_inj)


interpretation seq16_back: ranked_keys seq_lower "not_newer16 m" "\<lambda>k. 32768 - unat (m - k)" for m
proof
  fix a c assume a: "a \<in> not_newer16 m" "c \<in> not_newer16 m"
  then show "seq_lower a c \<longleftrightarrow> 32768 - unat (m - a) < 32768 - unat (m - c)"
    by (rule seq_lower_not_newer16)
  assume "32768 - unat (m - a) = 32768 - unat (m - c)"
  with a have "unat (m - a) = unat (m - c)" by (auto simp: not_newer16_dist)
  then have "m - a = m - c" by (simp add: word_unat_eq_iff [symmetric])
  then show "a = c" by simp
qed

end
