(* ===== verification/Nack_Generator.thy ===== *)
theory Nack_Generator
  imports Std_Tree
begin

text \<open>
  The class \<^verbatim>\<open>NackGenerator\<close> of \<^verbatim>\<open>core/src/rtc/nack_generator.cpp\<close>: the receiver's list of
  missing sequence numbers. A step takes the state to the new state and the list of calls
  made on the listener. Readings of the clock are arguments: \<open>now\<close> for the one reading a
  function makes, \<open>clk s\<close> for the reading made when \<open>s\<close> is put into the list.
\<close>

section \<open>Constants, state and calls\<close>

definition kMaxPacketAge :: u16 where "kMaxPacketAge = 10000"
definition kMaxNackPackets :: nat where "kMaxNackPackets = 1000"
definition kDefaultRtt :: u32 where "kDefaultRtt = 100"
definition kMaxNackRetries :: u8 where "kMaxNackRetries = 10"

record NackInfo =
  created_at_ms :: u64
  nack_seq :: u16
  send_at_seq :: u16
  sent_at_ms :: u64
  retries :: u8

definition mk_NackInfo :: "u64 \<Rightarrow> u16 \<Rightarrow> u16 \<Rightarrow> NackInfo" where
  "mk_NackInfo created seq at =
     \<lparr>created_at_ms = created, nack_seq = seq, send_at_seq = at, sent_at_ms = 0, retries = 0\<rparr>"

datatype NackFilter = SEQ | TIME

datatype nack_call = OnNackGeneratorNackRequired "u16 list" | OnNackGeneratorKeyFrameRequired

type_synonym nack_map = "(u16 \<times> NackInfo) list"

record NackGenerator =
  send_nack_delay_ms :: u32
  nack_list :: nack_map
  key_frame_list :: "u16 list"
  recovered_list :: "u16 list"
  ng_started :: bool
  last_seq :: u16
  ng_rtt :: u32

definition NackGenerator_init :: "u32 \<Rightarrow> NackGenerator" where
  "NackGenerator_init delay =
     \<lparr>send_nack_delay_ms = delay, nack_list = [], key_frame_list = [], recovered_list = [],
      ng_started = False, last_seq = 0, ng_rtt = kDefaultRtt\<rparr>"

definition GetNackListLength :: "NackGenerator \<Rightarrow> nat" where
  "GetNackListLength g = length (nack_list g)"

definition UpdateRtt :: "u32 \<Rightarrow> NackGenerator \<Rightarrow> NackGenerator" where
  "UpdateRtt rtt g = g\<lparr>ng_rtt := rtt\<rparr>"

definition NackGenerator_Reset :: "NackGenerator \<Rightarrow> NackGenerator" where
  "NackGenerator_Reset g =
     g\<lparr>nack_list := [], key_frame_list := [], recovered_list := [], ng_started := False,
       last_seq := 0\<rparr>"

section \<open>The operations\<close>

text \<open>\<open>it != begin()\<close> compares iterators, that is suffixes of the same list.\<close>

fun RemoveNackItemsUntilKeyFrame :: "u16 list \<Rightarrow> nack_map \<Rightarrow> bool \<times> u16 list \<times> nack_map" where
  "RemoveNackItemsUntilKeyFrame [] nl = (False, [], nl)"
| "RemoveNackItemsUntilKeyFrame (k # ks) nl =
     (let it = lower_bound seq_lower fst k nl in
      if it \<noteq> nl then (True, k # ks, it)
      else RemoveNackItemsUntilKeyFrame ks nl)"

definition nack_list_too_large :: "nack_map \<Rightarrow> u16 \<Rightarrow> bool" where
  "nack_list_too_large nl num_new \<longleftrightarrow>
     unat (word_of_nat (length nl) :: u16) + unat num_new > kMaxNackPackets"

lemma RemoveNackItemsUntilKeyFrame_shrinks:
  "RemoveNackItemsUntilKeyFrame ks nl = (True, ks', nl') \<Longrightarrow> length nl' < length nl"
proof (induction ks)
  case Nil
  then show ?case by simp
next
  case (Cons k ks)
  then show ?case
    by (auto simp: Let_def lower_bound_def dropWhile_neq_iff split: if_splits
        intro: length_dropWhile_less)
qed

text \<open>The \<open>while (RemoveNackItemsUntilKeyFrame() && too large)\<close> loop.\<close>

function nack_shrink_loop :: "u16 list \<Rightarrow> nack_map \<Rightarrow> u16 \<Rightarrow> u16 list \<times> nack_map" where
  "nack_shrink_loop ks nl num_new =
     (case RemoveNackItemsUntilKeyFrame ks nl of (removed, ks', nl') \<Rightarrow>
        if removed \<and> nack_list_too_large nl' num_new
        then nack_shrink_loop ks' nl' num_new
        else (ks', nl'))"
  by pat_completeness auto
termination
  by (relation "measure (\<lambda>(ks, nl, n). length nl)")
    (auto intro: RemoveNackItemsUntilKeyFrame_shrinks [OF sym])

declare nack_shrink_loop.simps [simp del]

text \<open>The \<open>for (seq = seq_start; seq != seq_end; ++seq)\<close> loop, on 16-bit words.\<close>

function nack_add_loop ::
  "(u16 \<Rightarrow> u64) \<Rightarrow> u16 list \<Rightarrow> u16 \<Rightarrow> u16 \<Rightarrow> nack_map \<Rightarrow> nack_map" where
  "nack_add_loop clk recovered seq seq_end nl =
     (if seq = seq_end then nl
      else if tree_find seq_lower (\<lambda>k. k) seq recovered \<noteq> None
        then nack_add_loop clk recovered (seq + 1) seq_end nl
      else nack_add_loop clk recovered (seq + 1) seq_end
             (tree_emplace seq_lower fst (seq, mk_NackInfo (clk seq) seq seq) nl))"
  by pat_completeness auto

termination nack_add_loop
  by (relation "measure (\<lambda>(clk, r, seq, seq_end, nl). unat (seq_end - seq))")
    (auto intro: unat_dist_less)

declare nack_add_loop.simps [simp del]

definition AddPacketsToNackList ::
  "(u16 \<Rightarrow> u64) \<Rightarrow> u16 \<Rightarrow> u16 \<Rightarrow> NackGenerator \<Rightarrow> nack_call list \<times> NackGenerator" where
  "AddPacketsToNackList clk seq_start seq_end g =
     (let nl = lower_bound seq_lower fst (seq_end - kMaxPacketAge) (nack_list g);
          num_new_nacks = seq_end - seq_start;
          (ks', nl') = (if nack_list_too_large nl num_new_nacks
                        then nack_shrink_loop (key_frame_list g) nl num_new_nacks
                        else (key_frame_list g, nl))
      in if nack_list_too_large nl num_new_nacks \<and> nack_list_too_large nl' num_new_nacks
         then ([OnNackGeneratorKeyFrameRequired], g\<lparr>key_frame_list := ks', nack_list := []\<rparr>)
         else ([], g\<lparr>key_frame_list := ks',
                     nack_list := nack_add_loop clk (recovered_list g) seq_start seq_end nl'\<rparr>))"

text \<open>The two \<^verbatim>\<open>if\<close>s of the batch loop that send: by sequence number, and by time.\<close>

definition nack_delayed :: "u64 \<Rightarrow> NackGenerator \<Rightarrow> NackInfo \<Rightarrow> bool" where
  "nack_delayed now g i \<longleftrightarrow>
     send_nack_delay_ms g > 0 \<and> now - created_at_ms i < ucast (send_nack_delay_ms g)"

definition nack_due :: "NackFilter \<Rightarrow> u64 \<Rightarrow> NackGenerator \<Rightarrow> NackInfo \<Rightarrow> bool" where
  "nack_due filt now g i \<longleftrightarrow>
     (filt = SEQ \<and> sent_at_ms i = 0
        \<and> (send_at_seq i = last_seq g \<or> seq_higher (last_seq g) (send_at_seq i)))
     \<or> (filt = TIME
        \<and> (sent_at_ms i = 0
           \<or> now - sent_at_ms i \<ge> ucast (if ng_rtt g > 0 then ng_rtt g else kDefaultRtt)))"

fun nack_batch_loop ::
  "NackFilter \<Rightarrow> u64 \<Rightarrow> NackGenerator \<Rightarrow> nack_map \<Rightarrow> u16 list \<times> nack_map" where
  "nack_batch_loop filt now g [] = ([], [])"
| "nack_batch_loop filt now g ((k, i) # it) =
     (let (batch, rest) = nack_batch_loop filt now g it in
      if nack_delayed now g i then (batch, (k, i) # rest)
      else if nack_due filt now g i then
        (let i' = i\<lparr>retries := retries i + 1, sent_at_ms := now\<rparr> in
         (nack_seq i # batch, if retries i' \<ge> kMaxNackRetries then rest else (k, i') # rest))
      else (batch, (k, i) # rest))"

definition GetNackBatch :: "NackFilter \<Rightarrow> u64 \<Rightarrow> NackGenerator \<Rightarrow> u16 list \<times> NackGenerator" where
  "GetNackBatch filt now g =
     (let (batch, nl) = nack_batch_loop filt now g (nack_list g) in (batch, g\<lparr>nack_list := nl\<rparr>))"

definition nack_required :: "u16 list \<Rightarrow> nack_call list" where
  "nack_required batch = (if batch \<noteq> [] then [OnNackGeneratorNackRequired batch] else [])"

text \<open>
  \<^verbatim>\<open>ReceivePacket\<close>. Every packet counts as a key frame (\<^verbatim>\<open>is_key_frame = true\<close>). The result
  is the function's return value, the listener calls and the new state.
\<close>

definition NackGenerator_ReceivePacket ::
  "(u16 \<Rightarrow> u64) \<Rightarrow> u64 \<Rightarrow> u16 \<Rightarrow> bool \<Rightarrow> NackGenerator \<Rightarrow>
   bool \<times> nack_call list \<times> NackGenerator" where
  "NackGenerator_ReceivePacket clk now seq is_recovered g =
     (if \<not> ng_started g then
        (False, [], g\<lparr>ng_started := True, last_seq := seq,
                      key_frame_list := tree_emplace seq_lower (\<lambda>k. k) seq (key_frame_list g)\<rparr>)
      else if seq = last_seq g then (False, [], g)
      else if seq_lower seq (last_seq g) then
        (case tree_find seq_lower fst seq (nack_list g) of
           Some (k, i) \<Rightarrow>
             (retries i \<noteq> 0, [], g\<lparr>nack_list := tree_erase seq_lower fst seq (nack_list g)\<rparr>)
         | None \<Rightarrow> (False, [], g))
      else
        (let g1 = g\<lparr>key_frame_list := lower_bound seq_lower (\<lambda>k. k) (seq - kMaxPacketAge)
                      (tree_emplace seq_lower (\<lambda>k. k) seq (key_frame_list g))\<rparr>
         in if is_recovered then
              (False, [], g1\<lparr>recovered_list := lower_bound seq_lower (\<lambda>k. k) (seq - kMaxPacketAge)
                               (tree_emplace seq_lower (\<lambda>k. k) seq (recovered_list g1))\<rparr>)
            else
              (let (calls, g2) = AddPacketsToNackList clk (last_seq g1 + 1) seq g1;
                   (batch, g3) = GetNackBatch SEQ now (g2\<lparr>last_seq := seq\<rparr>)
               in (False, calls @ nack_required batch, g3))))"

definition NackGenerator_OnTimer ::
  "u64 \<Rightarrow> NackGenerator \<Rightarrow> nack_call list \<times> NackGenerator" where
  "NackGenerator_OnTimer now g =
     (let (batch, g') = GetNackBatch TIME now g in (nack_required batch, g'))"


section \<open>The invariant\<close>

text \<open>
  The keys of \<^verbatim>\<open>nack_list_\<close> are the missing numbers of the last 10000 before \<open>last_seq\<close>; they
  are in comparator order, at most 1000, and every entry is stored under its own number
  and has retries left. Nothing is said of the sets of key frames and recovered numbers.
\<close>

definition nack_window :: "u16 \<Rightarrow> u16 set" where
  "nack_window m = {k. 0 < unat (m - k) \<and> unat (m - k) \<le> 10000}"

definition nack_entry_ok :: "u16 \<times> NackInfo \<Rightarrow> bool" where
  "nack_entry_ok e \<longleftrightarrow> nack_seq (snd e) = fst e \<and> send_at_seq (snd e) = fst e \<and>
     retries (snd e) < kMaxNackRetries"

definition nack_inv :: "NackGenerator \<Rightarrow> bool" where
  "nack_inv g \<longleftrightarrow> sorted_tree seq_lower (nack_window (last_seq g)) fst (nack_list g) \<and>
     length (nack_list g) \<le> kMaxNackPackets \<and> list_all nack_entry_ok (nack_list g) \<and>
     (ng_started g \<or> nack_list g = [])"

lemma nack_window_below: "nack_window m \<subseteq> not_newer16 m"
  by (auto simp: nack_window_def not_newer16_dist)

lemma nack_window_offset:
  assumes "k \<in> nack_window m"
  shows "unat (k - (m - kMaxPacketAge)) = 10000 - unat (m - k)"
proof -
  have k: "k - (m - kMaxPacketAge) = 10000 - (m - k)" by (simp add: kMaxPacketAge_def)
  moreover have "unat (m - k) \<le> 10000" using assms by (simp add: nack_window_def)
  ultimately show ?thesis unfolding k unat_diff_cases [of 10000 "m - k"] by simp
qed

lemma nack_window_in_window16: "nack_window m \<subseteq> window16 (m - kMaxPacketAge)"
  using nack_window_offset by (fastforce simp: window16_def)

lemma nack_window_lower: "k \<in> nack_window m \<Longrightarrow> seq_lower k m"
  by (auto simp: nack_window_def seq_lower_dist16)

text \<open>Suffixes, which is what every removal from the front leaves, keep all of it.\<close>

lemma RemoveNackItems_suffix:
  "RemoveNackItemsUntilKeyFrame ks nl = (b, ks', nl') \<Longrightarrow> \<exists>n. nl' = drop n nl"
proof (induction ks)
  case Nil
  then show ?case by (auto intro: exI [of _ 0])
next
  case (Cons k ks)
  show ?case
  proof (cases "lower_bound seq_lower fst k nl = nl")
    case True
    with Cons show ?thesis by simp
  next
    case False
    with Cons.prems have "nl' = lower_bound seq_lower fst k nl" by (simp add: Let_def)
    then show ?thesis by (auto simp: lower_bound_def dropWhile_eq_drop)
  qed
qed

lemma nack_shrink_loop_suffix: "\<exists>n. snd (nack_shrink_loop ks nl num_new) = drop n nl"
proof (induction ks nl num_new rule: nack_shrink_loop.induct)
  case (1 ks nl num_new)
  obtain b ks' nl' where r: "RemoveNackItemsUntilKeyFrame ks nl = (b, ks', nl')"
    by (cases "RemoveNackItemsUntilKeyFrame ks nl") auto
  then obtain n where n: "nl' = drop n nl" using RemoveNackItems_suffix by blast
  show ?case
  proof (cases "b \<and> nack_list_too_large nl' num_new")
    case True
    with "1.IH" [OF r [symmetric] refl] obtain m
      where "snd (nack_shrink_loop ks' nl' num_new) = drop m nl'" by auto
    with r True n show ?thesis
      by (auto simp: nack_shrink_loop.simps [of ks])
  next
    case False
    with r n show ?thesis by (auto simp: nack_shrink_loop.simps [of ks])
  qed
qed

text \<open>Dropping what is too old for the new packet leaves keys that are recent for it.\<close>

lemma nack_drop_old:
  assumes inv: "sorted_tree seq_lower (nack_window m) fst nl"
    and d: "unat (seq - m) < 32768"
  shows "lower_bound seq_lower fst (seq - kMaxPacketAge) nl =
      filter (\<lambda>e. unat (seq - m) + unat (m - fst e) \<le> 10000) nl"
proof -
  let ?b = "m - kMaxPacketAge"
  have off: "unat (seq - kMaxPacketAge - ?b) = unat (seq - m)" by (simp add: algebra_simps)
  have probe: "seq - kMaxPacketAge \<in> window16 ?b" unfolding window16_def using off d by simp
  have nl: "sorted_tree seq_lower (window16 ?b) fst nl"
    using inv nack_window_in_window16 [of m] by (auto simp: sorted_tree_def)
  have "seq_lower (fst e) (seq - kMaxPacketAge) \<longleftrightarrow>
      \<not> unat (seq - m) + unat (m - fst e) \<le> 10000" if "e \<in> set nl" for e
  proof -
    have k: "fst e \<in> nack_window m" using inv that by (auto simp: sorted_tree_def)
    then have "seq_lower (fst e) (seq - kMaxPacketAge) \<longleftrightarrow>
        10000 - unat (m - fst e) < unat (seq - m)"
      using seq_lower_window16 [of "fst e" ?b, OF _ probe] nack_window_in_window16 [of m]
        nack_window_offset [OF k] off by auto
    moreover have "unat (m - fst e) \<le> 10000" using k by (simp add: nack_window_def)
    ultimately show ?thesis by linarith
  qed
  then show ?thesis
    unfolding seq16.lower_bound_filter [OF nl probe] by (auto intro: filter_cong)
qed

text \<open>What the insertion loop adds: every number of the gap not already recovered.\<close>

lemma nack_add_loop_props:
  assumes "sorted_tree seq_lower (window16 b) fst nl"
    and "unat (seq - b) + unat (seq_end - seq) \<le> 32767"
    and "list_all nack_entry_ok nl"
  shows "sorted_tree seq_lower (window16 b) fst (nack_add_loop clk rcv seq seq_end nl) \<and>
    fst ` set (nack_add_loop clk rcv seq seq_end nl) =
      fst ` set nl \<union> {k. unat (k - seq) < unat (seq_end - seq) \<and>
                        tree_find seq_lower (\<lambda>k. k) k rcv = None} \<and>
    length (nack_add_loop clk rcv seq seq_end nl) \<le> length nl + unat (seq_end - seq) \<and>
    list_all nack_entry_ok (nack_add_loop clk rcv seq seq_end nl)"
  using assms
proof (induction clk rcv seq seq_end nl rule: nack_add_loop.induct)
  case (1 clk rcv seq seq_end nl)
  note unfold = nack_add_loop.simps [of clk rcv seq seq_end nl]
  show ?case
  proof (cases "seq = seq_end")
    case True
    with 1 unfold show ?thesis by simp
  next
    case False
    note Suc = unat_dist_step [OF False] and range = seq_range_step [OF False]
    have b: "seq \<in> window16 b" using "1.prems"(2) by (simp add: window16_def)
    have Sb: "unat (seq + 1 - b) = Suc (unat (seq - b))"
      by (rule unat_step_dist) (use "1.prems"(2) in simp)
    have arith: "unat (seq + 1 - b) + unat (seq_end - (seq + 1)) \<le> 32767"
      using "1.prems"(2) Sb Suc by simp
    show ?thesis
    proof (cases "tree_find seq_lower (\<lambda>k. k) seq rcv = None")
      case True
      let ?nl = "tree_emplace seq_lower fst (seq, mk_NackInfo (clk seq) seq seq) nl"
      have s: "sorted_tree seq_lower (window16 b) fst ?nl"
        using seq16.emplace_sorted [OF "1.prems"(1)] b by simp
      have keys: "fst ` set ?nl = insert seq (fst ` set nl)"
        using seq16.emplace_set [OF "1.prems"(1)] b by auto
      have ok: "list_all nack_entry_ok ?nl"
        using "1.prems"(3) set_emplace_subset [of seq_lower fst _ nl]
        by (fastforce simp: list_all_iff nack_entry_ok_def mk_NackInfo_def kMaxNackRetries_def)
      have len: "length ?nl \<le> Suc (length nl)" by (rule length_emplace)
      have u: "nack_add_loop clk rcv seq seq_end nl =
          nack_add_loop clk rcv (seq + 1) seq_end ?nl"
        unfolding unfold using False True by simp
      have "\<not> tree_find seq_lower (\<lambda>k. k) seq rcv \<noteq> None" using True by simp
      note IH = "1.IH"(2) [OF False this s arith ok]
      show ?thesis unfolding u range using IH len keys True Suc by simp
    next
      case rec: False
      have u: "nack_add_loop clk rcv seq seq_end nl = nack_add_loop clk rcv (seq + 1) seq_end nl"
        unfolding unfold using False rec by simp
      note IH = "1.IH"(1) [OF False rec "1.prems"(1) arith "1.prems"(3)]
      show ?thesis unfolding u range if_not_P [OF rec] using IH Suc by simp
    qed
  qed
qed


text \<open>
  The batch loop in closed form: which entries it asks for, and what each entry becomes.
\<close>

definition nack_asks :: "NackFilter \<Rightarrow> u64 \<Rightarrow> NackGenerator \<Rightarrow> NackInfo \<Rightarrow> bool" where
  "nack_asks filt now g i \<longleftrightarrow> \<not> nack_delayed now g i \<and> nack_due filt now g i"

definition nack_asked :: "u64 \<Rightarrow> NackInfo \<Rightarrow> NackInfo" where
  "nack_asked now i = i\<lparr>retries := retries i + 1, sent_at_ms := now\<rparr>"

definition nack_after ::
  "NackFilter \<Rightarrow> u64 \<Rightarrow> NackGenerator \<Rightarrow> u16 \<times> NackInfo \<Rightarrow> (u16 \<times> NackInfo) option" where
  "nack_after filt now g e =
     (if nack_asks filt now g (snd e)
      then (if retries (snd e) + 1 \<ge> kMaxNackRetries then None
            else Some (fst e, nack_asked now (snd e)))
      else Some e)"

lemma nack_batch_loop_eq:
  "nack_batch_loop filt now g nl =
     (map (nack_seq \<circ> snd) (filter (\<lambda>e. nack_asks filt now g (snd e)) nl),
      List.map_filter (nack_after filt now g) nl)"
  by (induction nl)
    (auto simp: Let_def nack_asks_def nack_asked_def nack_after_def List.map_filter_def)

lemma nack_after_fst: "nack_after filt now g e = Some e' \<Longrightarrow> fst e' = fst e"
  by (auto simp: nack_after_def split: if_splits)

lemma set_map_filter_eq: "set (List.map_filter f xs) = {y. \<exists>x\<in>set xs. f x = Some y}"
  by (induction xs) (auto simp: List.map_filter_simps split: option.splits)

lemma length_map_filter_le: "length (List.map_filter f xs) \<le> length xs"
  by (simp add: List.map_filter_def)

lemma nack_batch_loop_keys:
  "fst ` set (snd (nack_batch_loop filt now g nl)) \<subseteq> fst ` set nl"
  by (auto simp: nack_batch_loop_eq set_map_filter_eq dest: nack_after_fst)

lemma nack_batch_loop_length: "length (snd (nack_batch_loop filt now g nl)) \<le> length nl"
  by (simp add: nack_batch_loop_eq length_map_filter_le)

lemma nack_batch_loop_sorted:
  "sorted_tree lt W fst nl \<Longrightarrow> sorted_tree lt W fst (snd (nack_batch_loop filt now g nl))"
proof (induction nl)
  case Nil
  then show ?case by simp
next
  case (Cons e nl)
  let ?r = "snd (nack_batch_loop filt now g nl)"
  have step: "snd (nack_batch_loop filt now g (e # nl)) =
      (case nack_after filt now g e of None \<Rightarrow> ?r | Some e' \<Rightarrow> e' # ?r)"
    by (auto simp: nack_batch_loop_eq List.map_filter_def split: option.splits)
  have "lt (fst e) (fst y)" if "y \<in> set ?r" for y
  proof -
    have "fst y \<in> fst ` set nl" using that nack_batch_loop_keys by blast
    with Cons.prems show ?thesis by (auto simp: sorted_tree_Cons)
  qed
  with Cons step nack_after_fst [of filt now g e] show ?case
    by (auto simp: sorted_tree_Cons split: option.splits)
qed

lemma nack_batch_loop_entries:
  assumes "list_all nack_entry_ok nl"
  shows "list_all nack_entry_ok (snd (nack_batch_loop filt now g nl))"
proof -
  have "nack_entry_ok e'" if "e \<in> set nl" "nack_after filt now g e = Some e'" for e e'
    using assms that
    by (auto simp: list_all_iff nack_entry_ok_def nack_after_def nack_asked_def not_le
        split: if_splits)
  then show ?thesis by (auto simp: nack_batch_loop_eq list_all_iff set_map_filter_eq)
qed

lemma nack_batch_loop_batch:
  assumes "list_all nack_entry_ok nl"
  shows "fst (nack_batch_loop filt now g nl) =
    map fst (filter (\<lambda>e. nack_asks filt now g (snd e)) nl)"
  using assms by (auto simp: nack_batch_loop_eq list_all_iff nack_entry_ok_def)


section \<open>Adding the packets of a gap\<close>

text \<open>
  A gap from \<open>m\<close> (the newest number so far) to \<open>seq\<close>: what survives of the list, and the
  numbers in between.
\<close>

definition gap_numbers :: "u16 \<Rightarrow> u16 \<Rightarrow> u16 set" where
  "gap_numbers m seq = {k. unat (k - (m + 1)) < unat (seq - (m + 1))}"

definition nack_kept :: "u16 \<Rightarrow> u16 \<Rightarrow> nack_map \<Rightarrow> nack_map" where
  "nack_kept m seq nl = filter (\<lambda>e. unat (seq - m) + unat (m - fst e) \<le> 10000) nl"

lemma gap_numbers_window:
  assumes "seq \<noteq> m" and "unat (seq - m) \<le> 10001"
  shows "gap_numbers m seq \<subseteq> nack_window seq"
proof
  fix k assume k: "k \<in> gap_numbers m seq"
  have e: "seq - k = (seq - (m + 1)) - (k - (m + 1))" by simp
  have "unat (seq - k) = unat (seq - (m + 1)) - unat (k - (m + 1))"
    using k unfolding e unat_diff_cases gap_numbers_def by simp
  moreover have "unat (seq - (m + 1)) \<le> 10000"
    using unat_dist_step [OF assms(1) [symmetric]] assms(2) by simp
  ultimately show "k \<in> nack_window seq" using k by (auto simp: nack_window_def gap_numbers_def)
qed

lemma nack_kept_sorted:
  assumes "sorted_tree seq_lower (nack_window m) fst nl"
  shows "sorted_tree seq_lower (nack_window seq) fst (nack_kept m seq nl)"
proof (rule sorted_tree_mono)
  show "sorted_tree seq_lower (nack_window m) fst (nack_kept m seq nl)"
    unfolding nack_kept_def by (rule sorted_tree_filter [OF assms])
  show "fst ` set (nack_kept m seq nl) \<subseteq> nack_window seq"
  proof
    fix k assume "k \<in> fst ` set (nack_kept m seq nl)"
    then have k: "k \<in> nack_window m" "unat (seq - m) + unat (m - k) \<le> 10000"
      using assms by (auto simp: nack_kept_def sorted_tree_def)
    then have "unat (seq - k) = unat (seq - m) + unat (m - k)"
      by (intro unat_add_dist) simp
    with k show "k \<in> nack_window seq" by (simp add: nack_window_def)
  qed
qed

lemma nack_add_gap:
  assumes nl: "sorted_tree seq_lower (nack_window seq) fst nl" "list_all nack_entry_ok nl"
    and d: "seq \<noteq> m" "unat (seq - m) \<le> 1001"
  shows "sorted_tree seq_lower (nack_window seq) fst (nack_add_loop clk rcv (m + 1) seq nl) \<and>
    fst ` set (nack_add_loop clk rcv (m + 1) seq nl) = fst ` set nl \<union>
      {k \<in> gap_numbers m seq. tree_find seq_lower (\<lambda>k. k) k rcv = None} \<and>
    length (nack_add_loop clk rcv (m + 1) seq nl) \<le> length nl + unat (seq - (m + 1)) \<and>
    list_all nack_entry_ok (nack_add_loop clk rcv (m + 1) seq nl)"
proof -
  let ?b = "seq - kMaxPacketAge"
  have e: "m + 1 - ?b = 10000 - (seq - (m + 1))" by (simp add: kMaxPacketAge_def)
  have g: "unat (seq - (m + 1)) \<le> 1000" using unat_dist_step [OF d(1) [symmetric]] d(2) by simp
  then have "unat (m + 1 - ?b) = 10000 - unat (seq - (m + 1))"
    unfolding e unat_diff_cases by simp
  then have r: "unat (m + 1 - ?b) + unat (seq - (m + 1)) \<le> 32767" using g by simp
  have "sorted_tree seq_lower (window16 ?b) fst nl"
    using nl(1) nack_window_in_window16 [of seq] by (auto simp: sorted_tree_def)
  note props = nack_add_loop_props [OF this r nl(2), of clk rcv]
  have keys: "fst ` set (nack_add_loop clk rcv (m + 1) seq nl) = fst ` set nl \<union>
      {k \<in> gap_numbers m seq. tree_find seq_lower (\<lambda>k. k) k rcv = None}"
    using props by (simp add: gap_numbers_def)
  also have "\<dots> \<subseteq> nack_window seq"
    using nl(1) gap_numbers_window [OF d(1)] d(2) by (auto simp: sorted_tree_def)
  finally have "sorted_tree seq_lower (nack_window seq) fst
      (nack_add_loop clk rcv (m + 1) seq nl)"
    by (rule sorted_tree_mono [OF props [THEN conjunct1]])
  then show ?thesis using keys props by simp
qed

lemma nack_list_too_large_iff:
  "length nl \<le> 1000 \<Longrightarrow> nack_list_too_large nl n \<longleftrightarrow> length nl + unat n > 1000"
  by (simp add: nack_list_too_large_def kMaxNackPackets_def unat_of_nat_16)

lemma AddPackets_props:
  assumes inv: "nack_inv g" and seq: "seq \<noteq> last_seq g"
    and add: "AddPacketsToNackList clk (last_seq g + 1) seq g = (calls, g')"
  shows "sorted_tree seq_lower (nack_window seq) fst (nack_list g') \<and>
    length (nack_list g') \<le> 1000 \<and> list_all nack_entry_ok (nack_list g') \<and>
    (\<exists>ks nl. g' = g\<lparr>key_frame_list := ks, nack_list := nl\<rparr>)"
proof -
  let ?m = "last_seq g"
  define n where "n = seq - (?m + 1)"
  define nl where "nl = lower_bound seq_lower fst (seq - kMaxPacketAge) (nack_list g)"
  define r where "r = (if nack_list_too_large nl n then nack_shrink_loop (key_frame_list g) nl n
    else (key_frame_list g, nl))"
  have g': "g' = (if nack_list_too_large nl n \<and> nack_list_too_large (snd r) n
      then g\<lparr>key_frame_list := fst r, nack_list := []\<rparr>
      else g\<lparr>key_frame_list := fst r,
             nack_list := nack_add_loop clk (recovered_list g) (?m + 1) seq (snd r)\<rparr>)"
    using add unfolding AddPacketsToNackList_def nl_def [symmetric] n_def [symmetric] Let_def
    by (auto simp: r_def split: prod.splits if_splits)
  have len: "length nl \<le> 1000"
    using inv length_lower_bound [of seq_lower fst _ "nack_list g"]
    by (auto simp: nl_def nack_inv_def kMaxNackPackets_def intro: le_trans)
  obtain j where j: "snd r = drop j nl"
  proof (cases "nack_list_too_large nl n")
    case True
    then show ?thesis
      using nack_shrink_loop_suffix [of "key_frame_list g" nl n] that by (auto simp: r_def)
  next
    case False
    then show ?thesis using that [of 0] by (simp add: r_def)
  qed
  have lenr: "length (snd r) \<le> 1000" using len j by simp
  show ?thesis
  proof (cases "nack_list_too_large nl n \<and> nack_list_too_large (snd r) n")
    case True
    with g' show ?thesis by auto
  next
    case False
    then have small: "length (snd r) + unat n \<le> 1000"
      using lenr len by (auto simp: nack_list_too_large_iff r_def split: if_splits)
    then have d: "unat (seq - ?m) \<le> 1001"
      using unat_dist_step [OF seq [symmetric]] by (simp add: n_def)
    have nl: "nl = nack_kept ?m seq (nack_list g)"
      unfolding nl_def nack_kept_def
      by (rule nack_drop_old) (use inv d in \<open>simp_all add: nack_inv_def\<close>)
    have srt: "sorted_tree seq_lower (nack_window seq) fst (snd r)"
      unfolding j nl using inv
      by (intro sorted_tree_drop nack_kept_sorted) (simp add: nack_inv_def)
    have ok: "list_all nack_entry_ok (snd r)"
      unfolding j nl nack_kept_def using inv
      by (auto simp: nack_inv_def list_all_iff dest: in_set_dropD)
    from nack_add_gap [OF srt ok seq d, of clk "recovered_list g"] g' False small
    show ?thesis by (auto simp: n_def)
  qed
qed


section \<open>Every operation keeps the invariant\<close>

lemma nack_inv_fields:
  "nack_inv (g\<lparr>key_frame_list := ks\<rparr>) = nack_inv g"
  "nack_inv (g\<lparr>recovered_list := rs\<rparr>) = nack_inv g"
  "nack_inv (g\<lparr>ng_rtt := rtt\<rparr>) = nack_inv g"
  by (simp_all add: nack_inv_def)

lemma NackGenerator_init_inv [inv_intros]: "nack_inv (NackGenerator_init delay)"
  by (simp add: nack_inv_def NackGenerator_init_def)

lemma NackGenerator_Reset_inv [inv_intros]: "nack_inv (NackGenerator_Reset g)"
  by (simp add: nack_inv_def NackGenerator_Reset_def)

lemma UpdateRtt_inv [inv_intros]: "nack_inv g \<Longrightarrow> nack_inv (UpdateRtt rtt g)"
  by (simp add: UpdateRtt_def nack_inv_fields)

lemma GetNackBatch_inv:
  assumes "nack_inv g"
  shows "nack_inv (snd (GetNackBatch filt now g))"
proof -
  let ?r = "snd (nack_batch_loop filt now g (nack_list g))"
  have g': "snd (GetNackBatch filt now g) = g\<lparr>nack_list := ?r\<rparr>"
    by (simp add: GetNackBatch_def split: prod.split)
  show ?thesis
    using assms nack_batch_loop_sorted nack_batch_loop_entries
      nack_batch_loop_length [of filt now g "nack_list g"] order_trans
    unfolding g' nack_inv_def by (fastforce simp: nack_batch_loop_eq)
qed

lemma GetNackBatch_last_seq: "last_seq (snd (GetNackBatch filt now g)) = last_seq g"
  by (simp add: GetNackBatch_def case_prod_beta)

lemma NackGenerator_OnTimer_inv [inv_intros]:
  "nack_inv g \<Longrightarrow> nack_inv (snd (NackGenerator_OnTimer now g))"
  using GetNackBatch_inv [of g TIME now]
  by (simp add: NackGenerator_OnTimer_def case_prod_beta)

lemma ReceivePacket_newer:
  assumes "ng_started g" "seq \<noteq> last_seq g" "\<not> seq_lower seq (last_seq g)"
    and g1: "g1 = g\<lparr>key_frame_list := lower_bound seq_lower (\<lambda>k. k) (seq - kMaxPacketAge)
                      (tree_emplace seq_lower (\<lambda>k. k) seq (key_frame_list g))\<rparr>"
    and "AddPacketsToNackList clk (last_seq g + 1) seq g1 = (calls, g2)"
    and "GetNackBatch SEQ now (g2\<lparr>last_seq := seq\<rparr>) = (batch, g3)"
  shows "NackGenerator_ReceivePacket clk now seq False g =
    (False, calls @ nack_required batch, g3)"
  using assms by (simp add: NackGenerator_ReceivePacket_def Let_def)

lemma NackGenerator_ReceivePacket_inv [inv_intros]:
  assumes inv: "nack_inv g"
  shows "nack_inv (snd (snd (NackGenerator_ReceivePacket clk now seq is_recovered g)))"
proof -
  have W: "seq \<in> not_newer16 (last_seq g)" if "seq_lower seq (last_seq g)"
    using IsSeqLowerThan_asym [OF that] by (simp add: not_newer16_def IsSeqHigherThan_swap)
  have s: "sorted_tree seq_lower (not_newer16 (last_seq g)) fst (nack_list g)"
    using inv nack_window_below by (auto simp: nack_inv_def sorted_tree_def)
  have erase: "nack_inv (g\<lparr>nack_list := tree_erase seq_lower fst seq (nack_list g)\<rparr>)"
    if "seq_lower seq (last_seq g)"
    unfolding nack_inv_def using inv length_erase [of seq_lower fst seq "nack_list g"]
    by (auto simp: seq16_back.erase_filter [OF s W [OF that]] nack_inv_def list_all_iff
        sorted_tree_filter intro: order_trans [OF length_filter_le])
  let ?g1 = "g\<lparr>key_frame_list := lower_bound seq_lower (\<lambda>k. k) (seq - kMaxPacketAge)
                      (tree_emplace seq_lower (\<lambda>k. k) seq (key_frame_list g))\<rparr>"
  obtain calls g2 where add: "AddPacketsToNackList clk (last_seq g + 1) seq ?g1 = (calls, g2)"
    by (cases "AddPacketsToNackList clk (last_seq g + 1) seq ?g1")
  obtain batch g3 where batch: "GetNackBatch SEQ now (g2\<lparr>last_seq := seq\<rparr>) = (batch, g3)"
    by (cases "GetNackBatch SEQ now (g2\<lparr>last_seq := seq\<rparr>)")
  have newer: "nack_inv (snd (snd (NackGenerator_ReceivePacket clk now seq False g)))"
    if new: "ng_started g" "seq \<noteq> last_seq g" "\<not> seq_lower seq (last_seq g)"
  proof -
    have "nack_inv (g2\<lparr>last_seq := seq\<rparr>)"
      using AddPackets_props [of ?g1 seq clk calls g2] inv add new
      by (auto simp: nack_inv_def nack_inv_fields kMaxNackPackets_def)
    from GetNackBatch_inv [OF this, of SEQ now] batch have "nack_inv g3" by simp
    with ReceivePacket_newer [OF new refl add batch] show ?thesis by simp
  qed
  show ?thesis
  proof (cases "ng_started g \<and> seq \<noteq> last_seq g \<and> \<not> seq_lower seq (last_seq g)")
    case True
    then show ?thesis
      using newer inv
      by (cases is_recovered)
        (simp_all add: NackGenerator_ReceivePacket_def Let_def nack_inv_fields)
  next
    case False
    then show ?thesis
      using inv erase
      by (auto simp: NackGenerator_ReceivePacket_def split: option.split)
        (auto simp: nack_inv_def)
  qed
qed


section \<open>What the generator asks for\<close>

text \<open>One step of the generator: any call the code makes on it, at any time.\<close>

inductive nack_step :: "NackGenerator \<Rightarrow> nack_call list \<Rightarrow> NackGenerator \<Rightarrow> bool" where
  receive: "NackGenerator_ReceivePacket clk now seq is_recovered g = (found, calls, g') \<Longrightarrow>
     nack_step g calls g'"
| timer: "NackGenerator_OnTimer now g = (calls, g') \<Longrightarrow> nack_step g calls g'"
| rtt: "nack_step g [] (UpdateRtt r g)"
| reset: "nack_step g [] (NackGenerator_Reset g)"

inductive nack_reachable :: "NackGenerator \<Rightarrow> bool" where
  init: "nack_reachable (NackGenerator_init delay)"
| step: "nack_reachable g \<Longrightarrow> nack_step g calls g' \<Longrightarrow> nack_reachable g'"

inductive_cases nack_stepE: "nack_step g calls g'"

lemma nack_step_inv: "nack_step g calls g' \<Longrightarrow> nack_inv g \<Longrightarrow> nack_inv g'"
proof (erule nack_stepE)
  fix clk now seq rcv found
  assume i: "nack_inv g" and "NackGenerator_ReceivePacket clk now seq rcv g = (found, calls, g')"
  then show "nack_inv g'" using NackGenerator_ReceivePacket_inv [OF i, of clk now seq rcv] by simp
next
  fix now
  assume i: "nack_inv g" and "NackGenerator_OnTimer now g = (calls, g')"
  then show "nack_inv g'" using NackGenerator_OnTimer_inv [OF i, of now] by simp
qed (auto intro: inv_intros)

text \<open>
  Claim C5. In every state the generator can reach, the list of pending numbers (\<^verbatim>\<open>nack_list_\<close>) is in
  comparator order with every key among the 10000 numbers before the newest one (so the
  comparator is a strict total order on it, as \<^verbatim>\<open>std::map\<close> requires), has at most 1000
  entries, and holds each entry under its own number with requests left. The sets of key frames and
  of recovered numbers have no such order, see below; the list keeps it whatever they hold.
\<close>

theorem nack_reachable_inv:
  assumes "nack_reachable g"
  shows "nack_inv g"
  using assms
proof induction
  case (init delay)
  show ?case by (rule NackGenerator_init_inv)
next
  case (step g calls g')
  then show ?case by (blast intro: nack_step_inv)
qed

theorem nack_reachable_inv_witness:
  "nack_inv (snd (snd (NackGenerator_ReceivePacket (\<lambda>_. 5) 5 7 False (NackGenerator_init 10))))"
proof (rule nack_reachable_inv)
  show "nack_reachable
      (snd (snd (NackGenerator_ReceivePacket (\<lambda>_. 5) 5 7 False (NackGenerator_init 10))))"
    by (rule nack_reachable.step [OF nack_reachable.init],
        rule nack_step.receive [of "\<lambda>_. 5" 5 7 False _ False "[]"])
      (simp add: NackGenerator_ReceivePacket_def NackGenerator_init_def)
qed

text \<open>
  The key frames leave the order. A recovered packet does not advance \<^verbatim>\<open>last_seq_\<close>, so two numbers
  accepted one after the other can be half the circle apart and more; after the packets 0, 1 and 2 and
  the recovered packets 32767 and 32769 the comparator puts 32769 in front of 1 and behind 2. In such a
  state \<^verbatim>\<open>std::set\<close> promises nothing; the operations of this model search the list from its front.
\<close>

definition nack_trace :: "(u16 \<times> bool) list \<Rightarrow> NackGenerator \<Rightarrow> NackGenerator" where
  "nack_trace ps g =
     fold (\<lambda>(seq, rcv) g. snd (snd (NackGenerator_ReceivePacket (\<lambda>_. 5) 5 seq rcv g))) ps g"

lemma nack_trace_reachable: "nack_reachable g \<Longrightarrow> nack_reachable (nack_trace ps g)"
proof (induction ps arbitrary: g)
  case (Cons p ps)
  obtain seq rcv where p: "p = (seq, rcv)" by fastforce
  obtain f cs g' where r: "NackGenerator_ReceivePacket (\<lambda>_. 5) 5 seq rcv g = (f, cs, g')" by (metis prod_cases3)
  from nack_reachable.step [OF Cons.prems nack_step.receive [OF r]] have "nack_reachable g'" .
  from Cons.IH [OF this] show ?case by (simp add: nack_trace_def p r)
qed (simp add: nack_trace_def)

lemma key_frames_leave_order:
  "\<exists>g. nack_reachable g \<and> key_frame_list g = [32769, 1, 2, 32767]
     \<and> seq_lower (2::u16) 32769 \<and> seq_lower (32767::u16) 32769"
proof (intro exI conjI)
  let ?g = "nack_trace [(0, False), (32767, True), (1, False), (2, False), (32769, True)] (NackGenerator_init 10)"
  show "nack_reachable ?g" by (rule nack_trace_reachable [OF nack_reachable.init])
  show "key_frame_list ?g = [32769, 1, 2, 32767]"
    by (simp add: nack_trace_def NackGenerator_ReceivePacket_def NackGenerator_init_def IsSeqLowerThan_def
        IsSeqHigherThan_def MaxValue_def lower_bound_def kMaxPacketAge_def AddPacketsToNackList_def
        nack_add_loop.simps nack_list_too_large_def kMaxNackPackets_def GetNackBatch_def)
qed (simp_all add: IsSeqLowerThan_def IsSeqHigherThan_def MaxValue_def)


text \<open>
  Claim C15. A packet that is newer than the newest one, and whose gap fits into the list,
  makes the list hold exactly the entries that are still recent enough and the numbers
  strictly between the two packets, less those recovered through retransmission; nothing
  is signalled to the listener.
\<close>

theorem AddPacketsToNackList_gap:
  assumes inv: "nack_inv g" and seq: "seq \<noteq> last_seq g"
    and room: "length (nack_kept (last_seq g) seq (nack_list g)) + unat (seq - (last_seq g + 1))
      \<le> kMaxNackPackets"
  shows "fst (AddPacketsToNackList clk (last_seq g + 1) seq g) = [] \<and>
    fst ` set (nack_list (snd (AddPacketsToNackList clk (last_seq g + 1) seq g))) =
      fst ` set (nack_kept (last_seq g) seq (nack_list g)) \<union>
      {k \<in> gap_numbers (last_seq g) seq.
         tree_find seq_lower (\<lambda>k. k) k (recovered_list g) = None}"
proof -
  let ?m = "last_seq g"
  have d: "unat (seq - ?m) \<le> 1001"
    using unat_dist_step [OF seq [symmetric]] room by (simp add: kMaxNackPackets_def)
  have nl: "lower_bound seq_lower fst (seq - kMaxPacketAge) (nack_list g) =
      nack_kept ?m seq (nack_list g)"
    unfolding nack_kept_def
    by (rule nack_drop_old) (use inv d in \<open>simp_all add: nack_inv_def\<close>)
  have small: "\<not> nack_list_too_large (nack_kept ?m seq (nack_list g)) (seq - (?m + 1))"
    using room by (simp add: nack_list_too_large_iff kMaxNackPackets_def)
  have srt: "sorted_tree seq_lower (nack_window seq) fst (nack_kept ?m seq (nack_list g))"
    using inv by (intro nack_kept_sorted) (simp add: nack_inv_def)
  have ok: "list_all nack_entry_ok (nack_kept ?m seq (nack_list g))"
    using inv by (auto simp: nack_inv_def list_all_iff nack_kept_def)
  from nack_add_gap [OF srt ok seq d, of clk "recovered_list g"] small
  show ?thesis by (simp add: AddPacketsToNackList_def Let_def nl)
qed

text \<open>
  Once a packet has arrived, its number is not (or no longer) on the list of
  numbers to ask for.
\<close>

lemma received_number_not_pending:
  assumes inv: "nack_inv g"
  shows "seq \<notin> fst ` set
    (nack_list (snd (snd (NackGenerator_ReceivePacket clk now seq False g))))"
    (is "_ \<notin> fst ` set (nack_list ?g')")
proof -
  have inv': "nack_inv ?g'" by (rule NackGenerator_ReceivePacket_inv [OF inv])
  consider (older) "ng_started g" "seq_lower seq (last_seq g)"
    | (newest) "\<not> (ng_started g \<and> seq_lower seq (last_seq g))" by blast
  then show ?thesis
  proof cases
    case older
    then have W: "seq \<in> not_newer16 (last_seq g)" "seq \<noteq> last_seq g"
      using IsSeqLowerThan_asym [OF older(2)] by (auto simp: not_newer16_def IsSeqHigherThan_swap)
    have s: "sorted_tree seq_lower (not_newer16 (last_seq g)) fst (nack_list g)"
      using inv nack_window_below by (auto simp: nack_inv_def sorted_tree_def)
    from older W show ?thesis
      using seq16_back.find_None_iff [OF s W(1)] seq16_back.erase_filter [OF s W(1)]
      by (cases "tree_find seq_lower fst seq (nack_list g)")
        (auto simp: NackGenerator_ReceivePacket_def)
  next
    case newest
    have "last_seq ?g' = seq"
      using newest
      by (simp add: NackGenerator_ReceivePacket_def Let_def case_prod_beta GetNackBatch_last_seq)
    moreover have "seq \<notin> nack_window seq" by (simp add: nack_window_def)
    ultimately show ?thesis using inv' by (auto simp: nack_inv_def sorted_tree_def)
  qed
qed

text \<open>
  A packet older than the newest one reports "this was a packet asked for"
  exactly when its number was on the list and had been asked for at least once, and it
  takes just that number off the list.
\<close>

lemma ReceivePacket_older:
  assumes inv: "nack_inv g" and started: "ng_started g" and lower: "seq_lower seq (last_seq g)"
  shows "NackGenerator_ReceivePacket clk now seq is_recovered g =
    (\<exists>i. (seq, i) \<in> set (nack_list g) \<and> retries i \<noteq> 0, [],
     g\<lparr>nack_list := filter (\<lambda>e. fst e \<noteq> seq) (nack_list g)\<rparr>)"
proof -
  have W: "seq \<in> not_newer16 (last_seq g)" "seq \<noteq> last_seq g"
    using IsSeqLowerThan_asym [OF lower] lower by (auto simp: not_newer16_def IsSeqHigherThan_swap)
  have s: "sorted_tree seq_lower (not_newer16 (last_seq g)) fst (nack_list g)"
    using inv nack_window_below by (auto simp: nack_inv_def sorted_tree_def)
  note find = seq16_back.find_iff [OF s W(1)] and none = seq16_back.find_None_iff [OF s W(1)]
    and erase = seq16_back.erase_filter [OF s W(1)]
  show ?thesis
  proof (cases "tree_find seq_lower fst seq (nack_list g)")
    case None
    then have "filter (\<lambda>e. fst e \<noteq> seq) (nack_list g) = nack_list g"
      using none by (force simp: filter_id_conv)
    moreover have "\<nexists>i. (seq, i) \<in> set (nack_list g)" using None none by force
    ultimately show ?thesis
      using None W(2) started lower by (simp add: NackGenerator_ReceivePacket_def)
  next
    case (Some e)
    then obtain i where e: "e = (seq, i)" "(seq, i) \<in> set (nack_list g)"
      using find by (cases e) auto
    have "j = i" if "(seq, j) \<in> set (nack_list g)" for j
      using that find [of "(seq, j)"] Some e by simp
    then have "(\<exists>j. (seq, j) \<in> set (nack_list g) \<and> retries j \<noteq> 0) \<longleftrightarrow> retries i \<noteq> 0"
      using e by blast
    then show ?thesis
      using Some e W(2) started lower erase by (simp add: NackGenerator_ReceivePacket_def)
  qed
qed

text \<open>The requests the entries of a list have left.\<close>

definition nack_budget :: "nack_map \<Rightarrow> nat" where
  "nack_budget nl = sum_list (map (\<lambda>e. 10 - unat (retries (snd e))) nl)"

text \<open>
  A batch asks for each number that is due and not delayed, in list order, and
  what it asks for is paid from a budget of ten requests per entry: the number of requests
  made plus the requests the remaining entries have left equals the requests left before.
\<close>

lemma GetNackBatch_budget:
  assumes inv: "nack_inv g" and batch: "GetNackBatch filt now g = (batch, g')"
  shows "batch = map fst (filter (\<lambda>e. nack_asks filt now g (snd e)) (nack_list g)) \<and>
    length batch + nack_budget (nack_list g') = nack_budget (nack_list g)"
proof -
  have count: "length (filter (\<lambda>e. nack_asks filt now g (snd e)) nl) +
      nack_budget (List.map_filter (nack_after filt now g) nl) = nack_budget nl"
    if "list_all nack_entry_ok nl" for nl
    using that
  proof (induction nl)
    case Nil
    then show ?case by (simp add: nack_budget_def)
  next
    case (Cons e nl)
    have r: "unat (retries (snd e)) < 10"
      using Cons.prems by (simp add: nack_entry_ok_def kMaxNackRetries_def word_less_nat_alt)
    then have s: "unat (retries (snd e) + 1) = Suc (unat (retries (snd e)))"
      by (intro unat_plus_one) simp
    then have last: "retries (snd e) + 1 \<ge> kMaxNackRetries \<longleftrightarrow> unat (retries (snd e)) = 9"
      using r by (simp add: word_le_nat_alt kMaxNackRetries_def) linarith
    have IH: "length (filter (\<lambda>e. nack_asks filt now g (snd e)) nl) +
        nack_budget (List.map_filter (nack_after filt now g) nl) = nack_budget nl"
      using Cons by simp
    have budget: "nack_budget (x # xs) = 10 - unat (retries (snd x)) + nack_budget xs" for x xs
      by (simp add: nack_budget_def)
    show ?case
    proof (cases "nack_asks filt now g (snd e)")
      case False
      then have "nack_after filt now g e = Some e" by (simp add: nack_after_def)
      with IH False show ?thesis by (simp add: budget)
    next
      case True
      show ?thesis
      proof (cases "unat (retries (snd e)) = 9")
        case nine: True
        then have "nack_after filt now g e = None" using True last by (simp add: nack_after_def)
        with IH True nine show ?thesis by (simp add: budget)
      next
        case False
        then have "nack_after filt now g e = Some (fst e, nack_asked now (snd e))"
          using True last by (simp add: nack_after_def)
        with IH True False r s show ?thesis by (simp add: budget nack_asked_def)
      qed
    qed
  qed
  have ok: "list_all nack_entry_ok (nack_list g)" using inv by (simp add: nack_inv_def)
  have "batch = fst (nack_batch_loop filt now g (nack_list g))"
    "nack_list g' = snd (nack_batch_loop filt now g (nack_list g))"
    using batch by (auto simp: GetNackBatch_def split: prod.splits)
  then show ?thesis
    using nack_batch_loop_batch [OF ok, of filt now g] count [OF ok]
    by (simp add: nack_batch_loop_eq)
qed


text \<open>
  A gap of more than 1000 missing numbers empties the list and asks the listener
  for a key frame, whatever the list and the key frames held.
\<close>

lemma AddPacketsToNackList_overflow:
  assumes "unat (seq_end - seq_start) > kMaxNackPackets"
  shows "fst (AddPacketsToNackList clk seq_start seq_end g) = [OnNackGeneratorKeyFrameRequired] \<and>
    nack_list (snd (AddPacketsToNackList clk seq_start seq_end g)) = []"
  using assms
  by (simp add: AddPacketsToNackList_def Let_def nack_list_too_large_def case_prod_beta)

text \<open>
  Arriving packets ask for a number at most once: what one batch by sequence
  number asked for, no later batch by sequence number asks for, at whatever time and
  newest number it runs.
\<close>

lemma seq_batch_asks_once:
  assumes inv: "nack_inv g" and now: "now \<noteq> 0"
    and first: "GetNackBatch SEQ now g = (batch, g')"
    and second: "GetNackBatch SEQ later (g'\<lparr>last_seq := newest\<rparr>) = (batch', g'')"
  shows "set batch \<inter> set batch' = {}"
proof -
  have ok: "list_all nack_entry_ok (nack_list g)"
    and srt: "sorted_tree seq_lower (nack_window (last_seq g)) fst (nack_list g)"
    using inv by (simp_all add: nack_inv_def)
  have nl': "nack_list g' = List.map_filter (nack_after SEQ now g) (nack_list g)"
    using first by (auto simp: GetNackBatch_def nack_batch_loop_eq)
  have "batch = map fst (filter (\<lambda>e. nack_asks SEQ now g (snd e)) (nack_list g))"
    using first nack_batch_loop_batch [OF ok, of SEQ now g]
    by (auto simp: GetNackBatch_def split: prod.splits)
  then have asked: "\<exists>e \<in> set (nack_list g). fst e = k \<and> nack_asks SEQ now g (snd e)"
    if "k \<in> set batch" for k using that by auto
  have ok': "list_all nack_entry_ok (nack_list g')"
    using nack_batch_loop_entries [OF ok, of SEQ now g] nl' by (simp add: nack_batch_loop_eq)
  define later_g where "later_g = g'\<lparr>last_seq := newest\<rparr>"
  have "batch' = map fst (filter (\<lambda>e. nack_asks SEQ later later_g (snd e)) (nack_list g'))"
    using second nack_batch_loop_batch [OF ok', of SEQ later later_g]
    by (auto simp: GetNackBatch_def later_g_def split: prod.splits)
  then have again: "\<exists>e' \<in> set (nack_list g'). fst e' = k \<and> sent_at_ms (snd e') = 0"
    if "k \<in> set batch'" for k
    using that by (force simp: nack_asks_def nack_due_def)
  have dist: "distinct (map fst (nack_list g))"
    using seq16_back.distinct_keys [of "last_seq g" fst "nack_list g"] srt nack_window_below
    by (auto simp: sorted_tree_def)
  show ?thesis
  proof (rule ccontr)
    assume "set batch \<inter> set batch' \<noteq> {}"
    then obtain k where k: "k \<in> set batch" "k \<in> set batch'" by blast
    from asked [OF k(1)] obtain e
      where e: "e \<in> set (nack_list g)" "fst e = k" "nack_asks SEQ now g (snd e)" by blast
    from again [OF k(2)] obtain e' f
      where e': "f \<in> set (nack_list g)" "nack_after SEQ now g f = Some e'" "fst e' = k"
        "sent_at_ms (snd e') = 0"
      unfolding nl' by (auto simp: set_map_filter_eq)
    then have "f = e"
      using e nack_after_fst [OF e'(2)] dist by (metis eq_key_imp_eq_value prod.collapse)
    with e e'(2) have "sent_at_ms (snd e') = now"
      by (auto simp: nack_after_def nack_asked_def split: if_splits)
    with e'(4) now show False by simp
  qed
qed

section \<open>The hypotheses can hold\<close>

theorem AddPacketsToNackList_gap_witness:
  "fst ` set (nack_list (snd (AddPacketsToNackList (\<lambda>_. 5) 11 13
      ((NackGenerator_init 0)\<lparr>ng_started := True, last_seq := 10\<rparr>)))) =
    {k \<in> gap_numbers 10 13. tree_find seq_lower (\<lambda>k. k) k [] = None}"
  using AddPacketsToNackList_gap
    [of "(NackGenerator_init 0)\<lparr>ng_started := True, last_seq := 10\<rparr>" 13 "\<lambda>_. 5"]
  by (simp add: nack_inv_def NackGenerator_init_def nack_kept_def kMaxNackPackets_def)

theorem received_number_not_pending_witness:
  "8 \<notin> fst ` set (nack_list (snd (snd (NackGenerator_ReceivePacket (\<lambda>_. 5) 5 8 False
      ((NackGenerator_init 0)\<lparr>ng_started := True, last_seq := 10,
         nack_list := [(8, mk_NackInfo 3 8 8)]\<rparr>)))))"
  by (rule received_number_not_pending)
    (simp add: nack_inv_def NackGenerator_init_def sorted_tree_def nack_window_def
      kMaxNackPackets_def nack_entry_ok_def mk_NackInfo_def kMaxNackRetries_def)

theorem ReceivePacket_older_witness:
  "NackGenerator_ReceivePacket (\<lambda>_. 5) 5 8 False
      ((NackGenerator_init 0)\<lparr>ng_started := True, last_seq := 10,
         nack_list := [(8, (mk_NackInfo 3 8 8)\<lparr>retries := 1\<rparr>)]\<rparr>) =
    (True, [], (NackGenerator_init 0)\<lparr>ng_started := True, last_seq := 10, nack_list := []\<rparr>)"
  by (subst ReceivePacket_older)
    (simp_all add: nack_inv_def NackGenerator_init_def sorted_tree_def nack_window_def
      kMaxNackPackets_def nack_entry_ok_def mk_NackInfo_def kMaxNackRetries_def
      IsSeqLowerThan_def MaxValue_def)

theorem GetNackBatch_budget_witness:
  "length (fst (GetNackBatch TIME 200
      ((NackGenerator_init 0)\<lparr>ng_started := True, last_seq := 10,
         nack_list := [(8, mk_NackInfo 3 8 8)]\<rparr>))) +
    nack_budget (nack_list (snd (GetNackBatch TIME 200
      ((NackGenerator_init 0)\<lparr>ng_started := True, last_seq := 10,
         nack_list := [(8, mk_NackInfo 3 8 8)]\<rparr>)))) =
    nack_budget [(8, mk_NackInfo 3 8 8)]"
proof -
  let ?g = "(NackGenerator_init 0)\<lparr>ng_started := True, last_seq := 10,
         nack_list := [(8, mk_NackInfo 3 8 8)]\<rparr>"
  have "nack_inv ?g"
    by (simp add: nack_inv_def NackGenerator_init_def sorted_tree_def nack_window_def
        kMaxNackPackets_def nack_entry_ok_def mk_NackInfo_def kMaxNackRetries_def)
  from GetNackBatch_budget [OF this prod.collapse [symmetric], of TIME 200, THEN conjunct2]
  moreover have "nack_list ?g = [(8, mk_NackInfo 3 8 8)]" by simp
  ultimately show ?thesis by (simp only:)
qed

theorem AddPacketsToNackList_overflow_witness:
  "nack_list (snd (AddPacketsToNackList (\<lambda>_. 5) 11 2000 (NackGenerator_init 0))) = []"
  using AddPacketsToNackList_overflow [of 2000 11 "\<lambda>_. 5" "NackGenerator_init 0"]
  by (simp add: kMaxNackPackets_def)

theorem seq_batch_asks_once_witness:
  "set [8] \<inter> set (fst (GetNackBatch SEQ 900
      (snd (GetNackBatch SEQ 200 ((NackGenerator_init 0)\<lparr>ng_started := True, last_seq := 10,
         nack_list := [(8, mk_NackInfo 3 8 8)]\<rparr>)) \<lparr>last_seq := 12\<rparr>))) = ({} :: u16 set)"
proof (rule seq_batch_asks_once [OF _ _ _ prod.collapse [symmetric]])
  show "GetNackBatch SEQ 200 ((NackGenerator_init 0)\<lparr>ng_started := True, last_seq := 10,
         nack_list := [(8, mk_NackInfo 3 8 8)]\<rparr>) =
    ([8], snd (GetNackBatch SEQ 200 ((NackGenerator_init 0)\<lparr>ng_started := True, last_seq := 10,
         nack_list := [(8, mk_NackInfo 3 8 8)]\<rparr>)))"
    by (simp add: GetNackBatch_def nack_delayed_def nack_due_def NackGenerator_init_def
        mk_NackInfo_def IsSeqHigherThan_def MaxValue_def kMaxNackRetries_def)
qed (simp_all add: nack_inv_def NackGenerator_init_def sorted_tree_def nack_window_def
      kMaxNackPackets_def nack_entry_ok_def mk_NackInfo_def kMaxNackRetries_def)

end
