(* ===== verification/Bytes.thy ===== *)
theory Bytes
  imports Prelude
begin

text \<open>
  The byte accessors of \<^verbatim>\<open>RTCUtils::Byte\<close>, \<^verbatim>\<open>RTCUtils::Bits\<close> and \<^verbatim>\<open>RTCUtils::Time\<close>
  (\<^verbatim>\<open>core/include/utils/utils.h\<close>). A buffer is the list of its bytes. Reading outside it is
  undefined behaviour in C++ and an unspecified value here, so every lemma about a read
  has the bound as a premise. The locale \<open>byte_field\<close> is the contract between these
  accessors and the packet formats: what was written is read back, and a write changes its
  own bytes only.
\<close>

section \<open>Big-endian accessors\<close>

definition Get1Byte :: "u8 list \<Rightarrow> nat \<Rightarrow> u8" where
  "Get1Byte data i = data ! i"

definition Get2Bytes :: "u8 list \<Rightarrow> nat \<Rightarrow> u16" where
  "Get2Bytes data i = ucast (data ! (i + 1)) OR push_bit 8 (ucast (data ! i))"

definition Get3Bytes :: "u8 list \<Rightarrow> nat \<Rightarrow> u32" where
  "Get3Bytes data i = ucast (data ! (i + 2)) OR push_bit 8 (ucast (data ! (i + 1)))
     OR push_bit 16 (ucast (data ! i))"

definition Get4Bytes :: "u8 list \<Rightarrow> nat \<Rightarrow> u32" where
  "Get4Bytes data i = ucast (data ! (i + 3)) OR push_bit 8 (ucast (data ! (i + 2)))
     OR push_bit 16 (ucast (data ! (i + 1))) OR push_bit 24 (ucast (data ! i))"

definition Get8Bytes :: "u8 list \<Rightarrow> nat \<Rightarrow> u64" where
  "Get8Bytes data i = push_bit 32 (ucast (Get4Bytes data i)) OR ucast (Get4Bytes data (i + 4))"

definition Set1Byte :: "u8 list \<Rightarrow> nat \<Rightarrow> u8 \<Rightarrow> u8 list" where
  "Set1Byte data i v = data[i := v]"

definition Set2Bytes :: "u8 list \<Rightarrow> nat \<Rightarrow> u16 \<Rightarrow> u8 list" where
  "Set2Bytes data i v = data[i + 1 := ucast v, i := ucast (drop_bit 8 v)]"

definition Set3Bytes :: "u8 list \<Rightarrow> nat \<Rightarrow> u32 \<Rightarrow> u8 list" where
  "Set3Bytes data i v =
     data[i + 2 := ucast v, i + 1 := ucast (drop_bit 8 v), i := ucast (drop_bit 16 v)]"

definition Set4Bytes :: "u8 list \<Rightarrow> nat \<Rightarrow> u32 \<Rightarrow> u8 list" where
  "Set4Bytes data i v =
     data[i + 3 := ucast v, i + 2 := ucast (drop_bit 8 v), i + 1 := ucast (drop_bit 16 v),
          i := ucast (drop_bit 24 v)]"

definition Set8Bytes :: "u8 list \<Rightarrow> nat \<Rightarrow> u64 \<Rightarrow> u8 list" where
  "Set8Bytes data i v =
     data[i + 7 := ucast v, i + 6 := ucast (drop_bit 8 v), i + 5 := ucast (drop_bit 16 v),
          i + 4 := ucast (drop_bit 24 v), i + 3 := ucast (drop_bit 32 v),
          i + 2 := ucast (drop_bit 40 v), i + 1 := ucast (drop_bit 48 v),
          i := ucast (drop_bit 56 v)]"

text \<open>
  Fields the packet classes read and write in host byte order, which is little endian
  (\<^verbatim>\<open>MS_LITTLE_ENDIAN\<close> in \<^verbatim>\<open>rtp_packet.h\<close>).
\<close>

definition host16 :: "u8 list \<Rightarrow> nat \<Rightarrow> u16" where
  "host16 data i = ucast (data ! i) OR push_bit 8 (ucast (data ! (i + 1)))"

definition host32 :: "u8 list \<Rightarrow> nat \<Rightarrow> u32" where
  "host32 data i = ucast (data ! i) OR push_bit 8 (ucast (data ! (i + 1)))
     OR push_bit 16 (ucast (data ! (i + 2))) OR push_bit 24 (ucast (data ! (i + 3)))"

definition put_host16 :: "u8 list \<Rightarrow> nat \<Rightarrow> u16 \<Rightarrow> u8 list" where
  "put_host16 data i v = data[i := ucast v, i + 1 := ucast (drop_bit 8 v)]"

definition put_host32 :: "u8 list \<Rightarrow> nat \<Rightarrow> u32 \<Rightarrow> u8 list" where
  "put_host32 data i v =
     data[i := ucast v, i + 1 := ucast (drop_bit 8 v), i + 2 := ucast (drop_bit 16 v),
          i + 3 := ucast (drop_bit 24 v)]"

lemma length_put_bytes [simp]:
  "length (Set1Byte data i v1) = length data"
  "length (Set2Bytes data i v2) = length data"
  "length (Set3Bytes data i v4) = length data"
  "length (Set4Bytes data i v4) = length data"
  "length (Set8Bytes data i v8) = length data"
  "length (put_host16 data i v2) = length data"
  "length (put_host32 data i v4) = length data"
  by (simp_all add: Set1Byte_def Set2Bytes_def Set3Bytes_def Set4Bytes_def Set8Bytes_def
      put_host16_def put_host32_def)

section \<open>The contract of a field in a buffer\<close>

locale byte_field =
  fixes width :: nat and fits :: "'v \<Rightarrow> bool"
    and get :: "u8 list \<Rightarrow> nat \<Rightarrow> 'v" and put :: "u8 list \<Rightarrow> nat \<Rightarrow> 'v \<Rightarrow> u8 list"
  assumes get_put: "fits v \<Longrightarrow> i + width \<le> length d \<Longrightarrow> get (put d i v) i = v"
    and length_put: "length (put d i v) = length d"
    and put_frame: "k < i \<or> i + width \<le> k \<Longrightarrow> put d i v ! k = d ! k"
    and get_local: "(\<And>k. i \<le> k \<Longrightarrow> k < i + width \<Longrightarrow> d ! k = d' ! k) \<Longrightarrow> get d i = get d' i"
begin

text \<open>A field reads the same in a longer or shorter buffer, and after a write elsewhere.\<close>

lemma get_append: "i + width \<le> length d \<Longrightarrow> get (d @ e) i = get d i"
  by (rule get_local) (simp add: nth_append)

lemma get_take: "i + width \<le> n \<Longrightarrow> n \<le> length d \<Longrightarrow> get (take n d) i = get d i"
  by (rule get_local) simp

lemma get_other:
  assumes "i + width \<le> j \<or> j + width \<le> i"
  shows "get (put d j v) i = get d i"
  using assms by (intro get_local put_frame) auto

end

text \<open>Splitting a word into bytes and joining them again.\<close>

lemma join16: "ucast (ucast v :: u8) OR push_bit 8 (ucast (ucast (drop_bit 8 v) :: u8)) = (v :: u16)"
  by (rule bit_word_eqI) (auto simp: bit_simps)

lemma join32:
  "ucast (ucast v :: u8) OR push_bit 8 (ucast (ucast (drop_bit 8 v) :: u8))
     OR push_bit 16 (ucast (ucast (drop_bit 16 v) :: u8))
     OR push_bit 24 (ucast (ucast (drop_bit 24 v) :: u8)) = (v :: u32)" (is "?l = v")
proof (rule bit_word_eqI)
  fix n
  show "bit ?l n = bit v n" if "n < LENGTH(32)"
    using that by (cases "n < 8"; cases "n < 16"; cases "n < 24") (auto simp: bit_simps)
qed

lemma join24:
  assumes "v < 16777216"
  shows "ucast (ucast v :: u8) OR push_bit 8 (ucast (ucast (drop_bit 8 v) :: u8))
     OR push_bit 16 (ucast (ucast (drop_bit 16 v) :: u8)) = (v :: u32)" (is "?l = v")
proof (rule bit_word_eqI)
  fix n
  have "unat (take_bit 24 v) = unat v"
    using assms by (simp add: unsigned_take_bit_eq take_bit_nat_eq_self word_less_nat_alt)
  then have "v = take_bit 24 v" by (simp only: word_unat_eq_iff)
  then have high: "\<not> bit v n" if "24 \<le> n" using that by (metis bit_take_bit_iff not_less)
  show "bit ?l n = bit v n" if "n < LENGTH(32)"
    using that high by (cases "n < 8"; cases "n < 16"; cases "n < 24") (auto simp: bit_simps)
qed

lemma join64:
  "push_bit 32 (ucast (
      ucast (ucast (drop_bit 32 v) :: u8) OR push_bit 8 (ucast (ucast (drop_bit 40 v) :: u8))
        OR push_bit 16 (ucast (ucast (drop_bit 48 v) :: u8))
        OR push_bit 24 (ucast (ucast (drop_bit 56 v) :: u8)) :: u32))
   OR ucast (
      ucast (ucast v :: u8) OR push_bit 8 (ucast (ucast (drop_bit 8 v) :: u8))
        OR push_bit 16 (ucast (ucast (drop_bit 16 v) :: u8))
        OR push_bit 24 (ucast (ucast (drop_bit 24 v) :: u8)) :: u32) = (v :: u64)" (is "?l = v")
proof (rule bit_word_eqI)
  fix n
  assume n: "n < LENGTH(64)"
  then consider "n < 8" | "8 \<le> n" "n < 16" | "16 \<le> n" "n < 24" | "24 \<le> n" "n < 32"
    | "32 \<le> n" "n < 40" | "40 \<le> n" "n < 48" | "48 \<le> n" "n < 56" | "56 \<le> n"
    by linarith
  then show "bit ?l n = bit v n"
    using n by cases (auto simp: bit_simps)
qed

section \<open>The accessors obey the contract\<close>

interpretation byte1: byte_field 1 "\<lambda>_. True" Get1Byte Set1Byte
  by unfold_locales (auto simp: Get1Byte_def Set1Byte_def)

interpretation be16: byte_field 2 "\<lambda>_. True" Get2Bytes Set2Bytes
  by unfold_locales (auto simp: Get2Bytes_def Set2Bytes_def join16)

interpretation be24: byte_field 3 "\<lambda>v. v < 16777216" Get3Bytes Set3Bytes
  by unfold_locales (auto simp: Get3Bytes_def Set3Bytes_def join24)

interpretation be32: byte_field 4 "\<lambda>_. True" Get4Bytes Set4Bytes
  by unfold_locales (auto simp: Get4Bytes_def Set4Bytes_def join32)

interpretation be64: byte_field 8 "\<lambda>_. True" Get8Bytes Set8Bytes
  by unfold_locales (auto simp: Get8Bytes_def Get4Bytes_def Set8Bytes_def nth_list_update join64)

interpretation le16: byte_field 2 "\<lambda>_. True" host16 put_host16
  by unfold_locales (auto simp: host16_def put_host16_def join16)

interpretation le32: byte_field 4 "\<lambda>_. True" host32 put_host32
  by unfold_locales (auto simp: host32_def put_host32_def join32)

lemmas field_reads = byte1.get_put be16.get_put be24.get_put be32.get_put be64.get_put
  le16.get_put le32.get_put

end
