(* ===== verification/Rtp_Packet.thy ===== *)
theory Rtp_Packet
  imports Bytes
begin

text \<open>
  The class \<^verbatim>\<open>RtpPacket\<close> of \<^verbatim>\<open>core/include/rtc/rtp_packet.h\<close> and
  \<^verbatim>\<open>core/src/rtc/rtp_packet.cpp\<close>. A packet is its buffer and the offsets of its parts in
  it (\<open>None\<close> is a null pointer). The members \<^verbatim>\<open>ssrc_\<close> and \<^verbatim>\<open>timestamp_\<close>, which no code
  reads or writes, are left out.
\<close>

section \<open>The fixed header\<close>

definition kMtuSize :: nat where "kMtuSize = 1500"
definition kHeaderSize :: nat where "kHeaderSize = 12"

definition hdr_csrc_count :: "u8 list \<Rightarrow> u8" where "hdr_csrc_count d = d ! 0 AND 15"
definition hdr_extension :: "u8 list \<Rightarrow> bool" where "hdr_extension d = bit (d ! 0) 4"
definition hdr_padding :: "u8 list \<Rightarrow> bool" where "hdr_padding d = bit (d ! 0) 5"
definition hdr_version :: "u8 list \<Rightarrow> u8" where "hdr_version d = drop_bit 6 (d ! 0)"
definition hdr_payload_type :: "u8 list \<Rightarrow> u8" where "hdr_payload_type d = d ! 1 AND 127"
definition hdr_marker :: "u8 list \<Rightarrow> bool" where "hdr_marker d = bit (d ! 1) 7"

record RtpPacket =
  rp_data :: "u8 list"
  rp_size :: u32
  rp_header_extension :: "nat option"
  rp_payload :: "nat option"
  rp_payload_length :: u32
  rp_payload_padding :: u8

section \<open>Reading and writing the header\<close>

definition GetData :: "RtpPacket \<Rightarrow> u8 list" where
  "GetData p = take (unat (rp_size p)) (rp_data p)"

definition GetSize :: "RtpPacket \<Rightarrow> nat" where "GetSize p = unat (rp_size p)"
definition GetPayloadType :: "RtpPacket \<Rightarrow> u8" where "GetPayloadType p = hdr_payload_type (rp_data p)"
definition GetSequenceNumber :: "RtpPacket \<Rightarrow> u16" where "GetSequenceNumber p = host16 (rp_data p) 2"
definition GetTimestamp :: "RtpPacket \<Rightarrow> u32" where "GetTimestamp p = host32 (rp_data p) 4"
definition GetSsrc :: "RtpPacket \<Rightarrow> u32" where "GetSsrc p = host32 (rp_data p) 8"
definition GetPayload :: "RtpPacket \<Rightarrow> nat option" where "GetPayload p = rp_payload p"
definition GetPayloadLength :: "RtpPacket \<Rightarrow> u32" where "GetPayloadLength p = rp_payload_length p"
definition HasMarker :: "RtpPacket \<Rightarrow> bool" where "HasMarker p = hdr_marker (rp_data p)"

definition SetVersion :: "u8 \<Rightarrow> RtpPacket \<Rightarrow> RtpPacket" where
  "SetVersion v p = p\<lparr>rp_data := (rp_data p)[0 := (rp_data p ! 0 AND 63) OR push_bit 6 v]\<rparr>"

definition SetPayloadType :: "u8 \<Rightarrow> RtpPacket \<Rightarrow> RtpPacket" where
  "SetPayloadType pt p = p\<lparr>rp_data := (rp_data p)[1 := (rp_data p ! 1 AND 128) OR (pt AND 127)]\<rparr>"

definition SetTimestamp :: "u32 \<Rightarrow> RtpPacket \<Rightarrow> RtpPacket" where
  "SetTimestamp ts p = p\<lparr>rp_data := put_host32 (rp_data p) 4 ts\<rparr>"

definition SetMarker :: "bool \<Rightarrow> RtpPacket \<Rightarrow> RtpPacket" where
  "SetMarker m p =
     p\<lparr>rp_data := (rp_data p)[1 := (rp_data p ! 1 AND 127) OR (if m then 128 else 0)]\<rparr>"

definition SetPayloadPaddingFlag :: "bool \<Rightarrow> RtpPacket \<Rightarrow> RtpPacket" where
  "SetPayloadPaddingFlag f p =
     p\<lparr>rp_data := (rp_data p)[0 := (rp_data p ! 0 AND 223) OR (if f then 32 else 0)]\<rparr>"

definition SetSequenceNumber :: "u16 \<Rightarrow> RtpPacket \<Rightarrow> RtpPacket" where
  "SetSequenceNumber s p = p\<lparr>rp_data := put_host16 (rp_data p) 2 s\<rparr>"

definition SetSsrc :: "u32 \<Rightarrow> RtpPacket \<Rightarrow> RtpPacket" where
  "SetSsrc s p = p\<lparr>rp_data := put_host32 (rp_data p) 8 s\<rparr>"

text \<open>
  \<^verbatim>\<open>CopyPayload\<close> copies without looking at the size of the buffer; writing past its end is
  \<open>None\<close>.
\<close>

definition CopyPayload :: "u8 list \<Rightarrow> RtpPacket \<Rightarrow> RtpPacket option" where
  "CopyPayload pl p =
     (if kHeaderSize + length pl \<le> length (rp_data p)
      then Some (p\<lparr>rp_data := take kHeaderSize (rp_data p) @ pl @ drop (kHeaderSize + length pl) (rp_data p),
                   rp_size := rp_size p + word_of_nat (kHeaderSize + length pl)\<rparr>)
      else None)"

section \<open>Parsing\<close>

definition IsRtp :: "u8 list \<Rightarrow> bool" where
  "IsRtp data \<longleftrightarrow> length data \<ge> kHeaderSize \<and> data ! 0 > 127 \<and> data ! 0 < 192 \<and> hdr_version data = 2"

text \<open>The padding step at the end of the parsing constructor.\<close>

definition rtp_parse_padding :: "u8 list \<Rightarrow> RtpPacket \<Rightarrow> RtpPacket" where
  "rtp_parse_padding data p =
     (if \<not> hdr_padding data then p
      else if rp_payload_length p = 0 then p
      else (let pad = data ! (length data - 1); p' = p\<lparr>rp_payload_padding := pad\<rparr> in
        if pad = 0 then p'
        else if rp_payload_length p < ucast pad then p'
        else p'\<lparr>rp_payload_length := rp_payload_length p - ucast pad\<rparr>))"

definition RtpPacket_of_data :: "u8 list \<Rightarrow> RtpPacket" where
  "RtpPacket_of_data data =
     (let size = length data;
          p = \<lparr>rp_data = data, rp_size = word_of_nat size, rp_header_extension = None, rp_payload = None,
               rp_payload_length = 0, rp_payload_padding = 0\<rparr>;
          ptr = kHeaderSize + unat (hdr_csrc_count data) * 4
      in if hdr_csrc_count data \<noteq> 0 \<and> size < ptr then p
      else if hdr_extension data \<and> size < ptr + 4 then p
      else
        (let p1 = (if hdr_extension data then p\<lparr>rp_header_extension := Some ptr\<rparr> else p);
             extension_value_size = unat (host32 data ptr);
             ptr2 = (if hdr_extension data then ptr + 4 + extension_value_size else ptr)
         in if hdr_extension data \<and> size < ptr2 then p1
            else rtp_parse_padding data
              (p1\<lparr>rp_payload := Some ptr2,
                  rp_payload_length := word_of_int (int size - int ptr2)\<rparr>)))"

definition RtpPacket_Parse :: "u8 list \<Rightarrow> RtpPacket option" where
  "RtpPacket_Parse data = (if \<not> IsRtp data then None else Some (RtpPacket_of_data data))"

text \<open>
  The constructor from a header allocates 1400 bytes, whose initial contents \<open>mem\<close> are
  arbitrary, and copies the twelve header bytes.
\<close>

definition RtpPacket_of_header :: "u8 list \<Rightarrow> u8 list \<Rightarrow> RtpPacket" where
  "RtpPacket_of_header mem header =
     \<lparr>rp_data = header @ drop kHeaderSize mem, rp_size = 0, rp_header_extension = None, rp_payload = None,
      rp_payload_length = 0, rp_payload_padding = 0\<rparr>"

section \<open>Laws of the accessors\<close>

lemmas rtp_accessors =
  GetSequenceNumber_def GetTimestamp_def GetSsrc_def GetPayloadType_def HasMarker_def
  SetVersion_def SetPayloadType_def SetTimestamp_def SetMarker_def SetPayloadPaddingFlag_def
  SetSequenceNumber_def SetSsrc_def hdr_payload_type_def hdr_marker_def

lemma length_data_set [simp]:
  "length (rp_data (SetVersion v p)) = length (rp_data p)"
  "length (rp_data (SetPayloadType w p)) = length (rp_data p)"
  "length (rp_data (SetTimestamp ts p)) = length (rp_data p)"
  "length (rp_data (SetSequenceNumber s p)) = length (rp_data p)"
  "length (rp_data (SetSsrc ss p)) = length (rp_data p)"
  by (simp_all add: rtp_accessors)

lemma size_set [simp]:
  "rp_size (SetVersion v p) = rp_size p"
  "rp_size (SetPayloadType w p) = rp_size p"
  "rp_size (SetTimestamp ts p) = rp_size p"
  "rp_size (SetSequenceNumber s p) = rp_size p"
  "rp_size (SetSsrc ss p) = rp_size p"
  by (simp_all add: rtp_accessors)

text \<open>Each number is read back, and setting one leaves the others.\<close>

lemma rtp_get_set [byte_simps]:
  assumes "kHeaderSize \<le> length (rp_data p)"
  shows "GetSequenceNumber (SetSequenceNumber s p) = s"
    and "GetTimestamp (SetTimestamp ts p) = ts"
    and "GetSsrc (SetSsrc ss p) = ss"
  using assms by (simp_all add: rtp_accessors kHeaderSize_def le16.get_put le32.get_put)

lemma rtp_get_other [byte_simps]:
  "GetSequenceNumber (SetTimestamp ts p) = GetSequenceNumber p"
  "GetSequenceNumber (SetSsrc ss p) = GetSequenceNumber p"
  "GetSequenceNumber (SetVersion v p) = GetSequenceNumber p"
  "GetSequenceNumber (SetPayloadType w p) = GetSequenceNumber p"
  "GetTimestamp (SetSequenceNumber s p) = GetTimestamp p"
  "GetTimestamp (SetSsrc ss p) = GetTimestamp p"
  "GetTimestamp (SetVersion v p) = GetTimestamp p"
  "GetTimestamp (SetPayloadType w p) = GetTimestamp p"
  "GetSsrc (SetSequenceNumber s p) = GetSsrc p"
  "GetSsrc (SetTimestamp ts p) = GetSsrc p"
  "GetSsrc (SetVersion v p) = GetSsrc p"
  "GetSsrc (SetPayloadType w p) = GetSsrc p"
  by (simp_all add: rtp_accessors host16_def host32_def put_host16_def put_host32_def)

text \<open>A small packet with given numbers, for concrete instances.\<close>

definition rtp_sample :: "u16 \<Rightarrow> u32 \<Rightarrow> RtpPacket" where
  "rtp_sample seq ts = SetTimestamp ts (SetSequenceNumber seq
     (SetVersion 2 (RtpPacket_of_header (replicate 16 0) (replicate 12 0))))"

lemma rtp_sample_get [simp]:
  "GetSequenceNumber (rtp_sample seq ts) = seq"
  "GetTimestamp (rtp_sample seq ts) = ts"
  by (simp_all add: rtp_sample_def byte_simps RtpPacket_of_header_def kHeaderSize_def)

section \<open>Parsing stays inside the buffer\<close>

lemma IsRtp_length: "IsRtp data \<Longrightarrow> kHeaderSize \<le> length data"
  by (simp add: IsRtp_def)

lemma rtp_parse_padding_fields:
  "rp_payload (rtp_parse_padding data p) = rp_payload p"
  "rp_data (rtp_parse_padding data p) = rp_data p"
  "rp_size (rtp_parse_padding data p) = rp_size p"
  "rp_header_extension (rtp_parse_padding data p) = rp_header_extension p"
  by (simp_all add: rtp_parse_padding_def Let_def)

lemma rtp_parse_padding_shrinks:
  "unat (rp_payload_length (rtp_parse_padding data p)) \<le> unat (rp_payload_length p)"
proof -
  have "unat (a - b) \<le> unat a" if "\<not> a < b" for a b :: u32
    using that by (simp add: unat_sub_if' word_less_nat_alt not_less)
  then show ?thesis by (simp add: rtp_parse_padding_def Let_def)
qed

text \<open>
  Claim C11. The payload of a parsed packet lies behind the fixed header and inside the
  received bytes, whatever they are: no reader of payload and length leaves the buffer. The
  header extension, if there is one, has its four length bytes in the buffer.
\<close>

theorem RtpPacket_Parse_bounds:
  assumes parse: "RtpPacket_Parse data = Some p" and len: "length data < 2 ^ 32"
  shows "rp_data p = data \<and> GetSize p = length data
    \<and> (\<forall>off. GetPayload p = Some off \<longrightarrow>
         kHeaderSize \<le> off \<and> off + unat (GetPayloadLength p) \<le> length data)
    \<and> (\<forall>off. rp_header_extension p = Some off \<longrightarrow> kHeaderSize \<le> off \<and> off + 4 \<le> length data)"
proof -
  have hdr: "kHeaderSize \<le> length data" and p: "p = RtpPacket_of_data data"
    using parse IsRtp_length by (auto simp: RtpPacket_Parse_def split: if_splits)
  define ptr where "ptr = kHeaderSize + unat (hdr_csrc_count data) * 4"
  define ptr2 where "ptr2 = (if hdr_extension data then ptr + 4 + unat (host32 data ptr) else ptr)"
  define plen where "plen = (word_of_int (int (length data) - int ptr2) :: u32)"
  have le: "unat plen = length data - ptr2" if "ptr2 \<le> length data"
  proof -
    have "plen = word_of_nat (length data - ptr2)" using that by (simp add: plen_def of_nat_diff)
    then show ?thesis using len by (simp add: unat_of_nat_32)
  qed
  have shrink: "unat (rp_payload_length (rtp_parse_padding data q)) \<le> unat (rp_payload_length q)" for q
    by (rule rtp_parse_padding_shrinks)
  have size: "unat (word_of_nat (length data) :: u32) = length data"
    using len by (simp add: unat_of_nat_32)
  have p0: "hdr_csrc_count data = 0 \<Longrightarrow> ptr = kHeaderSize" by (simp add: ptr_def)
  have p2: "\<not> hdr_extension data \<Longrightarrow> ptr2 = ptr" "ptr \<le> ptr2" by (simp_all add: ptr2_def)
  have p1: "kHeaderSize \<le> ptr" by (simp add: ptr_def)
  consider "hdr_csrc_count data \<noteq> 0" "length data < ptr"
    | "ptr \<le> length data" "hdr_extension data" "length data < ptr + 4"
    | "ptr + 4 \<le> length data" "hdr_extension data" "length data < ptr2"
    | "ptr2 \<le> length data" "hdr_extension data \<Longrightarrow> ptr + 4 \<le> length data" "ptr \<le> length data"
    using hdr p0 p2 not_le by metis
  then show ?thesis
  proof cases
    case 4
    have "kHeaderSize \<le> ptr" "ptr \<le> ptr2" by (simp_all add: ptr_def ptr2_def)
    moreover have "ptr2 + unat (rp_payload_length (rtp_parse_padding data q)) \<le> length data"
      if "rp_payload_length q = plen" for q
      using le [OF 4(1)] 4(1) shrink [of q] that by simp
    ultimately show ?thesis
      using 4 size
      unfolding p RtpPacket_of_data_def Let_def ptr_def [symmetric] ptr2_def [symmetric]
        plen_def [symmetric]
      by (auto simp: rtp_parse_padding_fields GetPayload_def GetPayloadLength_def GetSize_def not_less)
  qed (use size p1 in \<open>auto simp: p RtpPacket_of_data_def Let_def ptr_def [symmetric] ptr2_def [symmetric]
        GetPayload_def GetPayloadLength_def GetSize_def ptr2_def\<close>)
qed

section \<open>Building a packet and parsing it\<close>

text \<open>
  The packet \<^verbatim>\<open>RtcTransport::OnSendPacket\<close> builds around its data: a zero header, the copied
  payload, and the fields. \<open>mem\<close> is the memory the constructor allocates.
\<close>

definition rtp_compose ::
  "u8 list \<Rightarrow> u32 \<Rightarrow> u16 \<Rightarrow> u32 \<Rightarrow> u8 list \<Rightarrow> RtpPacket option"
where
  "rtp_compose mem ssrc seq timestamp data =
     map_option (SetPayloadType 100 \<circ> SetTimestamp timestamp \<circ> SetSequenceNumber seq
                 \<circ> SetSsrc ssrc \<circ> SetVersion 2)
       (CopyPayload data (RtpPacket_of_header mem (replicate kHeaderSize 0)))"

lemma rtp_compose_data:
  assumes "rtp_compose mem ssrc seq ts data = Some p" and mem: "length mem = 1400"
    and len: "length data \<le> 1388"
  shows "GetSequenceNumber p = seq" "GetTimestamp p = ts" "GetSsrc p = ssrc"
    and "rp_data p ! 0 = 128" "rp_data p ! 1 = 100"
    and "take (kHeaderSize + length data) (rp_data p) = take kHeaderSize (rp_data p) @ data"
    and "length (rp_data p) = 1400" "GetSize p = kHeaderSize + length data"
proof -
  let ?h = "replicate kHeaderSize 0 :: u8 list"
  let ?d = "?h @ data @ drop (kHeaderSize + length data) mem"
  obtain q where q: "CopyPayload data (RtpPacket_of_header mem ?h) = Some q"
    and p: "p = SetPayloadType 100 (SetTimestamp ts (SetSequenceNumber seq (SetSsrc ssrc (SetVersion 2 q))))"
    using assms(1) by (auto simp: rtp_compose_def)
  have qd: "rp_data q = ?d" and qs: "rp_size q = word_of_nat (kHeaderSize + length data)"
    using q mem len
    by (auto simp: CopyPayload_def RtpPacket_of_header_def kHeaderSize_def add.commute split: if_splits)
  have lq: "length (rp_data q) = 1400" using qd mem len by (simp add: kHeaderSize_def)
  show "GetSequenceNumber p = seq" "GetTimestamp p = ts" "GetSsrc p = ssrc"
    using lq by (simp_all add: p byte_simps kHeaderSize_def)
  show "length (rp_data p) = 1400" using lq by (simp add: p)
  have "?d ! 0 = 0" "?d ! 1 = 0" by (simp_all add: nth_append kHeaderSize_def)
  then show "rp_data p ! 0 = 128" "rp_data p ! 1 = 100"
    using lq qd by (simp_all add: p rtp_accessors put_host16_def put_host32_def)
  have "rp_data p ! i = rp_data q ! i" if "kHeaderSize \<le> i" for i
    using that by (simp add: p rtp_accessors put_host16_def put_host32_def kHeaderSize_def)
  then have "rp_data p ! i = (take kHeaderSize (rp_data p) @ data) ! i"
    if "i < kHeaderSize + length data" for i
    using that lq qd len
    by (cases "i < kHeaderSize") (auto simp: nth_append p kHeaderSize_def)
  then show "take (kHeaderSize + length data) (rp_data p) = take kHeaderSize (rp_data p) @ data"
    using lq len by (intro nth_equalityI) (simp_all add: p kHeaderSize_def)
  show "GetSize p = kHeaderSize + length data"
    using qs len unat_of_nat_32 [of "kHeaderSize + length data"]
    by (simp add: p GetSize_def kHeaderSize_def)
qed

lemma composed_is_parsed:
  assumes p: "rtp_compose mem ssrc seq ts data = Some p" and mem: "length mem = 1400"
    and len: "length data \<le> 1388"
  shows "\<exists>q. RtpPacket_Parse (GetData p) = Some q
    \<and> GetSequenceNumber q = seq \<and> GetTimestamp q = ts \<and> GetSsrc q = ssrc
    \<and> GetPayload q = Some kHeaderSize \<and> unat (GetPayloadLength q) = length data
    \<and> drop kHeaderSize (rp_data q) = data"
proof -
  note c = rtp_compose_data [OF assms]
  let ?d = "GetData p"
  have d: "?d = take kHeaderSize (rp_data p) @ data" using c(6,8) by (simp add: GetData_def GetSize_def)
  have tk: "?d = take (kHeaderSize + length data) (rp_data p)" using c(8) by (simp add: GetData_def GetSize_def)
  have ld: "length ?d = kHeaderSize + length data" using c(7) len tk by (simp add: kHeaderSize_def)
  have b: "?d ! 0 = 128" "?d ! 1 = 100" using c(4,5,7) tk by (simp_all add: kHeaderSize_def)
  have rtp: "IsRtp ?d" using b ld by (simp add: IsRtp_def hdr_version_def)
  define q where "q = RtpPacket_of_data ?d"
  have z: "hdr_csrc_count ?d = 0" "\<not> hdr_extension ?d" "\<not> hdr_padding ?d"
    using b by (simp_all add: hdr_csrc_count_def hdr_extension_def hdr_padding_def)
  have q: "rp_data q = ?d" "rp_payload q = Some kHeaderSize" "rp_payload_length q = word_of_nat (length data)"
    using z ld by (simp_all add: q_def RtpPacket_of_data_def rtp_parse_padding_def Let_def)
  have "GetSequenceNumber q = seq" "GetTimestamp q = ts" "GetSsrc q = ssrc"
    using c(1-3,7) len le16.get_take [of 2 "kHeaderSize + length data" "rp_data p"]
      le32.get_take [of 4 "kHeaderSize + length data" "rp_data p"]
      le32.get_take [of 8 "kHeaderSize + length data" "rp_data p"]
    by (simp_all add: GetSequenceNumber_def GetTimestamp_def GetSsrc_def q(1) tk kHeaderSize_def)
  moreover have "drop kHeaderSize (rp_data q) = data" using q(1) d c(7) by (simp add: kHeaderSize_def)
  ultimately show ?thesis
    using rtp q len by (simp add: RtpPacket_Parse_def q_def [symmetric] GetPayload_def
        GetPayloadLength_def unat_of_nat_32)
qed

text \<open>
  Claim C13. What a sender composes, the receiving side parses: the bytes of the packet are
  accepted and give back its number, timestamp, source and payload.
\<close>

theorem rtp_compose_Parse:
  assumes p: "rtp_compose mem ssrc seq ts data = Some p" and mem: "length mem = 1400"
    and len: "length data \<le> 1388"
  shows "\<exists>q. RtpPacket_Parse (GetData p) = Some q
    \<and> GetSequenceNumber q = seq \<and> GetTimestamp q = ts \<and> GetSsrc q = ssrc
    \<and> GetPayload q = Some kHeaderSize \<and> unat (GetPayloadLength q) = length data
    \<and> drop kHeaderSize (rp_data q) = data"
  using assms by (rule composed_is_parsed)

lemma composed_iff:
  assumes "length mem = 1400"
  shows "rtp_compose mem ssrc seq ts data = None \<longleftrightarrow> 1388 < length data"
  using assms by (auto simp: rtp_compose_def CopyPayload_def RtpPacket_of_header_def kHeaderSize_def)

text \<open>
  Composing fails exactly for data of more than 1388 bytes: the copy then leaves
  the 1400 bytes the constructor allocated, which the code does not check.
\<close>

lemma rtp_compose_overflow:
  assumes "length mem = 1400"
  shows "rtp_compose mem ssrc seq ts data = None \<longleftrightarrow> 1388 < length data"
  using assms by (rule composed_iff)

section \<open>Concrete instances\<close>

lemma RtpPacket_Parse_bounds_witness:
  "\<exists>p. RtpPacket_Parse ([160, 100, 0, 0, 0, 0, 0, 0, 0, 0, 0, 0, 0, 0, 7, 2]) = Some p
     \<and> GetPayload p = Some 12 \<and> unat (GetPayloadLength p) = 2
     \<and> 12 + unat (GetPayloadLength p) \<le> 16"
proof -
  let ?d = "[160, 100, 0, 0, 0, 0, 0, 0, 0, 0, 0, 0, 0, 0, 7, 2] :: u8 list"
  let ?p = "RtpPacket_of_data ?d"
  have p: "RtpPacket_Parse ?d = Some ?p"
    by (simp add: RtpPacket_Parse_def IsRtp_def kHeaderSize_def hdr_version_def)
  have "hdr_csrc_count ?d = 0" "\<not> hdr_extension ?d" "hdr_padding ?d"
    by (simp_all add: hdr_csrc_count_def hdr_extension_def hdr_padding_def bit_numeral_rec)
  then have "rp_payload ?p = Some 12" "rp_payload_length ?p = 2"
    unfolding RtpPacket_of_data_def rtp_parse_padding_def Let_def
    by (simp_all add: kHeaderSize_def)
  then show ?thesis using RtpPacket_Parse_bounds [OF p] p
    by (simp add: GetPayload_def GetPayloadLength_def kHeaderSize_def)
qed

lemma rtp_compose_Parse_witness:
  "\<exists>p q. rtp_compose (replicate 1400 0) 9 1 2000 [1, 2, 3] = Some p
     \<and> RtpPacket_Parse (GetData p) = Some q \<and> drop 12 (rp_data q) = [1, 2, 3]"
proof -
  obtain p where p: "rtp_compose (replicate 1400 0) 9 1 2000 [1, 2, 3] = Some p"
    by (simp add: rtp_compose_def CopyPayload_def RtpPacket_of_header_def kHeaderSize_def)
  show ?thesis using rtp_compose_Parse [OF p] p by (auto simp: kHeaderSize_def)
qed

lemma rtp_compose_overflow_witness:
  "rtp_compose (replicate 1400 0) 9 1 2000 (replicate 1389 0) = None"
  using rtp_compose_overflow [of "replicate 1400 0" 9 1 2000 "replicate 1389 0"] by simp

end
