(* ===== verification/Retransmission_Buffer.thy ===== *)
theory Retransmission_Buffer
  imports Rtp_Packet Seq_Order "HOL-Library.Monad_Syntax"
begin

text \<open>
  The class \<^verbatim>\<open>RtpRetransmissionBuffer\<close> (\<^verbatim>\<open>core/src/rtc/rtp_retransmission_buffer.cpp\<close>): the
  packets a sender can retransmit, in a deque whose slots are consecutive sequence numbers.
  A slot is \<open>None\<close> where the code has a null pointer. An operation returns \<open>None\<close> where the
  code would use a null pointer, index the deque out of range, or divide by zero.
\<close>

section \<open>State\<close>

record Item =
  it_packet :: "RtpPacket option"
  it_ssrc :: u32
  it_seq :: u16
  it_timestamp :: u32
  it_resent_at_ms :: u64
  it_sent_times :: u8

record RtpRetransmissionBuffer =
  rb_buffer :: "Item option list"
  rb_max_items :: u16
  rb_max_delay_ms :: u32
  rb_clock_rate :: u32

definition RetransmissionBuffer_init :: "u16 \<Rightarrow> u32 \<Rightarrow> u32 \<Rightarrow> RtpRetransmissionBuffer" where
  "RetransmissionBuffer_init max_items max_delay clock_rate =
     \<lparr>rb_buffer = [], rb_max_items = max_items, rb_max_delay_ms = max_delay,
      rb_clock_rate = clock_rate\<rparr>"

definition Item_of_packet :: "RtpPacket \<Rightarrow> Item" where
  "Item_of_packet p =
     \<lparr>it_packet = Some p, it_ssrc = GetSsrc p, it_seq = GetSequenceNumber p,
      it_timestamp = GetTimestamp p, it_resent_at_ms = 0, it_sent_times = 0\<rparr>"

definition Item_Reset :: "Item \<Rightarrow> Item" where
  "Item_Reset it =
     \<lparr>it_packet = None, it_ssrc = 0, it_seq = 0, it_timestamp = 0, it_resent_at_ms = 0,
      it_sent_times = 0\<rparr>"

section \<open>Operations\<close>

definition GetOldest :: "RtpRetransmissionBuffer \<Rightarrow> Item option" where
  "GetOldest b = (if rb_buffer b = [] then None else hd (rb_buffer b))"

definition GetNewest :: "RtpRetransmissionBuffer \<Rightarrow> Item option" where
  "GetNewest b = (if rb_buffer b = [] then None else last (rb_buffer b))"

text \<open>Clearing resets and deletes the items, which no one else owns, and empties the deque.\<close>

definition RetransmissionBuffer_Clear :: "RtpRetransmissionBuffer \<Rightarrow> RtpRetransmissionBuffer" where
  "RetransmissionBuffer_Clear b = b\<lparr>rb_buffer := []\<rparr>"

definition RetransmissionBuffer_Get :: "u16 \<Rightarrow> RtpRetransmissionBuffer \<Rightarrow> Item option" where
  "RetransmissionBuffer_Get seq b =
     (case GetOldest b of
        None \<Rightarrow> None
      | Some oldest \<Rightarrow>
          if seq_lower seq (it_seq oldest) then None
          else (let idx = unat (seq - it_seq oldest) in
            if idx > length (rb_buffer b) - 1 then None else rb_buffer b ! idx))"

definition RemoveOldest :: "RtpRetransmissionBuffer \<Rightarrow> RtpRetransmissionBuffer option" where
  "RemoveOldest b =
     (case rb_buffer b of
        [] \<Rightarrow> Some b
      | None # rest \<Rightarrow> None
      | Some item # rest \<Rightarrow> Some (b\<lparr>rb_buffer := dropWhile (\<lambda>s. s = None) rest\<rparr>))"

definition RemoveOldest_num :: "u16 \<Rightarrow> RtpRetransmissionBuffer \<Rightarrow> RtpRetransmissionBuffer option" where
  "RemoveOldest_num numItems b =
     (let intended_buffer_size = (int (length (rb_buffer b)) - uint numItems) mod 2 ^ 64
      in if int (length (rb_buffer b)) > intended_buffer_size then RemoveOldest b else Some b)"

definition IsTooOldTimestamp :: "RtpRetransmissionBuffer \<Rightarrow> u32 \<Rightarrow> u32 \<Rightarrow> bool option" where
  "IsTooOldTimestamp b timestamp newest_timestamp =
     (if seq_higher timestamp newest_timestamp then Some False
      else (let diff_ts = unat (newest_timestamp - timestamp) in
        if rb_clock_rate b = 0 then None
        else Some (word_of_nat (diff_ts * 1000 div unat (rb_clock_rate b)) > rb_max_delay_ms b)))"

function ClearTooOldByTimestamp ::
  "u32 \<Rightarrow> RtpRetransmissionBuffer \<Rightarrow> (bool \<times> RtpRetransmissionBuffer) option"
where
  "ClearTooOldByTimestamp newest_timestamp b =
     (case GetOldest b of
        None \<Rightarrow> Some (False, b)
      | Some oldest \<Rightarrow>
          (case IsTooOldTimestamp b (it_timestamp oldest) newest_timestamp of
             None \<Rightarrow> None
           | Some False \<Rightarrow> Some (False, b)
           | Some True \<Rightarrow>
               (case RemoveOldest b of
                  None \<Rightarrow> None
                | Some b' \<Rightarrow> map_option (\<lambda>(_, b''). (True, b''))
                               (ClearTooOldByTimestamp newest_timestamp b'))))"
  by pat_completeness auto

text \<open>Removing an item shortens the deque, so the loop ends.\<close>

lemma RemoveOldest_shorter:
  assumes "GetOldest b = Some it" "RemoveOldest b = Some b'"
  shows "length (rb_buffer b') < length (rb_buffer b)"
  using assms by (auto simp: GetOldest_def RemoveOldest_def le_imp_less_Suc length_dropWhile_le
      split: list.splits option.splits if_splits)

termination ClearTooOldByTimestamp
  by (relation "measure (\<lambda>(_, b). length (rb_buffer b))") (auto dest: RemoveOldest_shorter)

declare ClearTooOldByTimestamp.simps [simp del]

definition rb_push :: "nat \<Rightarrow> RtpPacket \<Rightarrow> RtpRetransmissionBuffer \<Rightarrow> RtpRetransmissionBuffer" where
  "rb_push blanks p b =
     b\<lparr>rb_buffer := rb_buffer b @ replicate blanks None @ [Some (Item_of_packet p)]\<rparr>"

text \<open>A packet newer than the newest stored one.\<close>

definition rb_insert_newer ::
  "RtpPacket \<Rightarrow> Item \<Rightarrow> RtpRetransmissionBuffer \<Rightarrow> RtpRetransmissionBuffer option"
where
  "rb_insert_newer p newest b =
     (if seq_lower (GetTimestamp p) (it_timestamp newest) then Some b
      else
        (let blanks = unat (GetSequenceNumber p - it_seq newest - 1);
             size = length (rb_buffer b)
         in if size + blanks + 1 > unat (rb_max_items b) then
              (let to_remove = word_of_nat (size + blanks + 1 - unat (rb_max_items b)) :: u16
               in if unat to_remove > size - 1
                  then Some (rb_push 0 p (RetransmissionBuffer_Clear b))
                  else do { b' \<leftarrow> RemoveOldest_num to_remove b; Some (rb_push blanks p b') })
            else Some (rb_push blanks p b)))"

text \<open>A packet older than the oldest stored one.\<close>

definition rb_insert_older ::
  "RtpPacket \<Rightarrow> Item \<Rightarrow> Item \<Rightarrow> RtpRetransmissionBuffer \<Rightarrow> RtpRetransmissionBuffer option"
where
  "rb_insert_older p oldest newest b =
     do { too_old \<leftarrow> IsTooOldTimestamp b (GetTimestamp p) (it_timestamp newest);
          if too_old then Some b
          else if seq_higher (GetTimestamp p) (it_timestamp oldest) then Some b
          else (let blanks = unat (it_seq oldest - GetSequenceNumber p - 1) in
            if length (rb_buffer b) + blanks + 1 > unat (rb_max_items b) then Some b
            else Some (b\<lparr>rb_buffer :=
              Some (Item_of_packet p) # replicate blanks None @ rb_buffer b\<rparr>)) }"

text \<open>The two scans for the neighbours of a packet in between.\<close>

fun rb_older_ok :: "u32 \<Rightarrow> Item option list \<Rightarrow> nat \<Rightarrow> bool option" where
  "rb_older_ok ts buf 0 = Some True"
| "rb_older_ok ts buf (Suc k) =
     (if k < length buf
      then (case buf ! k of None \<Rightarrow> rb_older_ok ts buf k | Some older \<Rightarrow> Some (it_timestamp older \<le> ts))
      else None)"

fun rb_newer_ok :: "u32 \<Rightarrow> Item option list \<Rightarrow> bool" where
  "rb_newer_ok ts [] = True"
| "rb_newer_ok ts (None # rest) = rb_newer_ok ts rest"
| "rb_newer_ok ts (Some newer # rest) = (ts \<le> it_timestamp newer)"

definition rb_insert_between ::
  "RtpPacket \<Rightarrow> Item \<Rightarrow> RtpRetransmissionBuffer \<Rightarrow> RtpRetransmissionBuffer option"
where
  "rb_insert_between p oldest b =
     (case RetransmissionBuffer_Get (GetSequenceNumber p) b of
        Some _ \<Rightarrow> Some b
      | None \<Rightarrow>
          (let idx = unat (GetSequenceNumber p - it_seq oldest) in
           do { older \<leftarrow> rb_older_ok (GetTimestamp p) (rb_buffer b) idx;
                if \<not> older then Some b
                else if \<not> rb_newer_ok (GetTimestamp p) (drop (idx + 1) (rb_buffer b)) then Some b
                else if idx < length (rb_buffer b)
                then Some (b\<lparr>rb_buffer := (rb_buffer b)[idx := Some (Item_of_packet p)]\<rparr>)
                else None }))"

definition rb_insert_placed ::
  "RtpPacket \<Rightarrow> RtpRetransmissionBuffer \<Rightarrow> RtpRetransmissionBuffer option"
where
  "rb_insert_placed p b =
     do { newest \<leftarrow> GetNewest b;
          if seq_higher (GetSequenceNumber p) (it_seq newest) then rb_insert_newer p newest b
          else do { oldest \<leftarrow> GetOldest b;
            if seq_lower (GetSequenceNumber p) (it_seq oldest)
            then rb_insert_older p oldest newest b
            else rb_insert_between p oldest b } }"

definition RetransmissionBuffer_Insert ::
  "RtpPacket \<Rightarrow> RtpRetransmissionBuffer \<Rightarrow> RtpRetransmissionBuffer option"
where
  "RetransmissionBuffer_Insert p b =
     (if rb_buffer b = [] then Some (rb_push 0 p b)
      else do { newest \<leftarrow> GetNewest b;
        if seq_lower (GetSequenceNumber p) (it_seq newest)
           \<and> seq_higher (GetTimestamp p) (it_timestamp newest)
        then Some (rb_push 0 p (RetransmissionBuffer_Clear b))
        else
          do { (_, b') \<leftarrow> ClearTooOldByTimestamp
                 (if seq_higher (GetTimestamp p) (it_timestamp newest)
                  then GetTimestamp p else it_timestamp newest) b;
               if rb_buffer b' = [] then Some (rb_push 0 p b')
               else rb_insert_placed p b' } })"

section \<open>Invariant\<close>

text \<open>Slot \<open>i\<close> holds the packet whose number is \<open>i\<close> after the first, or nothing.\<close>

fun slots_from :: "u16 \<Rightarrow> Item option list \<Rightarrow> bool" where
  "slots_from s [] = True"
| "slots_from s (x # xs) =
     ((case x of None \<Rightarrow> True | Some it \<Rightarrow> it_seq it = s) \<and> slots_from (s + 1) xs)"

definition rb_inv :: "RtpRetransmissionBuffer \<Rightarrow> bool" where
  "rb_inv b \<longleftrightarrow>
     (case rb_buffer b of
        [] \<Rightarrow> True
      | None # _ \<Rightarrow> False
      | Some it # _ \<Rightarrow> last (rb_buffer b) \<noteq> None \<and> slots_from (it_seq it) (rb_buffer b))"

lemma slots_from_append:
  "slots_from s (xs @ ys) = (slots_from s xs \<and> slots_from (s + word_of_nat (length xs)) ys)"
  by (induction xs arbitrary: s) (auto simp: algebra_simps)

lemma slots_from_replicate [simp]: "slots_from s (replicate n None)"
  by (induction n arbitrary: s) auto

lemma slots_from_nth:
  "slots_from s xs \<Longrightarrow> i < length xs \<Longrightarrow> xs ! i = Some it \<Longrightarrow> it_seq it = s + word_of_nat i"
proof (induction xs arbitrary: s i)
  case (Cons x xs)
  then show ?case by (cases i) (auto simp: algebra_simps)
qed simp

lemma slots_from_update:
  "slots_from s xs \<Longrightarrow> i < length xs \<Longrightarrow> it_seq it = s + word_of_nat i
     \<Longrightarrow> slots_from s (xs[i := Some it])"
proof (induction xs arbitrary: s i)
  case (Cons x xs)
  then show ?case by (cases i) (auto simp: algebra_simps)
qed simp

lemma rb_inv_cases:
  assumes "rb_inv b"
  obtains "rb_buffer b = []"
  | oldest newest where "GetOldest b = Some oldest" "GetNewest b = Some newest"
      "rb_buffer b \<noteq> []" "hd (rb_buffer b) = Some oldest" "last (rb_buffer b) = Some newest"
      "slots_from (it_seq oldest) (rb_buffer b)"
      "it_seq newest = it_seq oldest + word_of_nat (length (rb_buffer b) - 1)"
proof (cases "rb_buffer b")
  case (Cons x xs)
  with assms obtain it where x: "x = Some it" and last: "last (rb_buffer b) \<noteq> None"
    and slots: "slots_from (it_seq it) (rb_buffer b)"
    by (auto simp: rb_inv_def split: option.splits)
  from last obtain nw where nw: "last (rb_buffer b) = Some nw" by auto
  have "rb_buffer b ! (length (rb_buffer b) - 1) = Some nw"
    using nw Cons by (metis last_conv_nth list.distinct(1))
  then have "it_seq nw = it_seq it + word_of_nat (length (rb_buffer b) - 1)"
    using Cons by (intro slots_from_nth [OF slots]) auto
  then show thesis using that(2) [of it nw] x nw slots Cons
    by (simp add: GetOldest_def GetNewest_def)
qed (use that in simp)

lemma rb_invI:
  assumes "rb_buffer b = Some it # xs" "last (rb_buffer b) \<noteq> None"
    "slots_from (it_seq it) (rb_buffer b)"
  shows "rb_inv b"
  using assms by (simp add: rb_inv_def)

lemma rb_inv_init [inv_intros]: "rb_inv (RetransmissionBuffer_init n d c)"
  by (simp add: rb_inv_def RetransmissionBuffer_init_def)

lemma rb_inv_Clear [inv_intros]: "rb_inv (RetransmissionBuffer_Clear b)"
  by (simp add: rb_inv_def RetransmissionBuffer_Clear_def)

lemma rb_buffer_Clear [simp]: "rb_buffer (RetransmissionBuffer_Clear b) = []"
  by (simp add: RetransmissionBuffer_Clear_def)

lemma rb_inv_push_empty [inv_intros]: "rb_buffer b = [] \<Longrightarrow> rb_inv (rb_push 0 p b)"
  by (simp add: rb_inv_def rb_push_def Item_of_packet_def)

lemma it_seq_of_packet [simp]: "it_seq (Item_of_packet p) = GetSequenceNumber p"
  by (simp add: Item_of_packet_def)

text \<open>Removing the oldest packet leaves a suffix of the deque.\<close>

lemma RemoveOldest_works:
  assumes "rb_inv b"
  obtains b' k where "RemoveOldest b = Some b'" "rb_inv b'"
    "b' = b\<lparr>rb_buffer := drop k (rb_buffer b)\<rparr>" "GetNewest b' = GetNewest b \<or> rb_buffer b' = []"
    "rb_buffer b \<noteq> [] \<Longrightarrow> 0 < k" "2 \<le> length (rb_buffer b) \<Longrightarrow> rb_buffer b' \<noteq> []"
proof (cases "rb_buffer b")
  case Nil
  then show thesis using that [of b 0] assms by (simp add: RemoveOldest_def)
next
  case (Cons x xs)
  then obtain it where x: "x = Some it" and lst: "last (Some it # xs) \<noteq> None"
    and slots: "slots_from (it_seq it) (Some it # xs)"
    using assms by (auto simp: rb_inv_def split: option.splits)
  let ?P = "\<lambda>s :: Item option. s = None"
  let ?r = "dropWhile ?P xs" and ?k = "length (takeWhile ?P xs)"
  let ?b = "b\<lparr>rb_buffer := ?r\<rparr>"
  have r: "?r = drop ?k xs" by (simp add: dropWhile_eq_drop)
  have ex: "xs \<noteq> [] \<Longrightarrow> ?r \<noteq> []"
  proof
    assume "xs \<noteq> []" "?r = []"
    then have "last xs \<in> set xs" "\<forall>s\<in>set xs. s = None" by (simp_all add: dropWhile_eq_Nil_conv)
    then show False using lst \<open>xs \<noteq> []\<close> by simp
  qed
  have sl: "slots_from (it_seq it + 1 + word_of_nat ?k) ?r"
    using slots slots_from_append [of "it_seq it + 1" "takeWhile ?P xs" ?r] by simp
  have lr: "?r \<noteq> [] \<Longrightarrow> last ?r = last xs"
    unfolding r by (cases "?k < length xs") (auto simp: last_drop)
  have inv: "rb_inv ?b"
  proof (cases ?r)
    case Nil
    then show ?thesis by (simp add: rb_inv_def del: dropWhile_eq_Nil_conv)
  next
    case (Cons y ys)
    then have "y \<noteq> None" by (metis (mono_tags) hd_dropWhile list.sel(1) list.distinct(1))
    then obtain jt where y: "y = Some jt" by auto
    have "it_seq jt = it_seq it + 1 + word_of_nat ?k" using sl Cons y by simp
    then show ?thesis using Cons y sl lr lst by (intro rb_invI [of _ jt ys]) (auto split: if_splits)
  qed
  show thesis
  proof (rule that [of ?b "Suc ?k"])
    show "RemoveOldest b = Some ?b" using Cons x by (simp add: RemoveOldest_def)
    show "?b = b\<lparr>rb_buffer := drop (Suc ?k) (rb_buffer b)\<rparr>" using Cons r by simp
    show "GetNewest ?b = GetNewest b \<or> rb_buffer ?b = []"
      using Cons lr by (auto simp: GetNewest_def)
    show "2 \<le> length (rb_buffer b) \<Longrightarrow> rb_buffer ?b \<noteq> []"
      using ex Cons by (cases xs) (auto simp del: dropWhile_eq_Nil_conv)
  qed (use inv Cons in auto)
qed

lemma RemoveOldest_num_works:
  assumes inv: "rb_inv b" and ne: "rb_buffer b \<noteq> []" and n: "unat n \<le> length (rb_buffer b) - 1"
  obtains b' where "RemoveOldest_num n b = Some b'" "rb_inv b'" "GetNewest b' = GetNewest b"
    "rb_buffer b' \<noteq> []"
proof (cases "2 \<le> length (rb_buffer b)")
  case True
  obtain b' k where "RemoveOldest b = Some b'" "rb_inv b'" "rb_buffer b' \<noteq> []"
      "GetNewest b' = GetNewest b \<or> rb_buffer b' = []"
    using RemoveOldest_works [OF inv] True by metis
  moreover have "RemoveOldest_num n b = RemoveOldest b \<or> RemoveOldest_num n b = Some b"
    by (simp add: RemoveOldest_num_def Let_def)
  ultimately show thesis using that inv ne by fastforce
next
  case False
  with ne have len: "length (rb_buffer b) = 1" by (simp flip: length_greater_0_conv)
  with n have "n = 0" by (simp add: unat_eq_zero)
  then show thesis using that [of b] len inv ne by (simp add: RemoveOldest_num_def)
qed

lemma IsTooOldTimestamp_Some:
  "rb_clock_rate b \<noteq> 0 \<Longrightarrow> \<exists>r. IsTooOldTimestamp b ts nts = Some r"
  by (cases "IsTooOldTimestamp b ts nts") (auto simp: IsTooOldTimestamp_def Let_def split: if_splits)

lemma rb_drop_same [simp]:
  "rb_clock_rate (b\<lparr>rb_buffer := xs\<rparr>) = rb_clock_rate b"
  "rb_max_items (b\<lparr>rb_buffer := xs\<rparr>) = rb_max_items b"
  "rb_max_delay_ms (b\<lparr>rb_buffer := xs\<rparr>) = rb_max_delay_ms b"
  by simp_all

text \<open>
  Clearing by timestamp always ends without a null pointer. It drops a prefix of the deque,
  and the oldest packet that stays is not too old.
\<close>

lemma ClearTooOldByTimestamp_works:
  assumes "rb_inv b" "rb_clock_rate b \<noteq> 0"
  shows "\<exists>r b' k. ClearTooOldByTimestamp nts b = Some (r, b') \<and> rb_inv b'
     \<and> b' = b\<lparr>rb_buffer := drop k (rb_buffer b)\<rparr>
     \<and> (GetNewest b' = GetNewest b \<or> rb_buffer b' = [])
     \<and> (\<forall>it. GetOldest b' = Some it \<longrightarrow> IsTooOldTimestamp b (it_timestamp it) nts = Some False)"
  using assms
proof (induction nts b rule: ClearTooOldByTimestamp.induct)
  case (1 nts b)
  show ?case
  proof (cases "GetOldest b")
    case None
    then show ?thesis using 1(2)
      by (subst ClearTooOldByTimestamp.simps) (auto intro: exI [of _ 0])
  next
    case (Some it)
    obtain old where old: "IsTooOldTimestamp b (it_timestamp it) nts = Some old"
      using IsTooOldTimestamp_Some [OF 1(3)] by auto
    show ?thesis
    proof (cases old)
      case False
      then show ?thesis using 1(2) Some old
        by (subst ClearTooOldByTimestamp.simps) (auto intro: exI [of _ 0])
    next
      case True
      obtain b1 k where b1: "RemoveOldest b = Some b1" "rb_inv b1"
          "b1 = b\<lparr>rb_buffer := drop k (rb_buffer b)\<rparr>" "GetNewest b1 = GetNewest b \<or> rb_buffer b1 = []"
        using RemoveOldest_works [OF 1(2)] by metis
      have same: "IsTooOldTimestamp b1 = IsTooOldTimestamp b"
        using b1(3) by (auto simp: IsTooOldTimestamp_def fun_eq_iff)
      have "rb_clock_rate b1 \<noteq> 0" using b1(3) 1(3) by simp
      from 1(1) [OF Some _ _ b1(1) b1(2) this] old True
      obtain r b2 j where b2: "ClearTooOldByTimestamp nts b1 = Some (r, b2)" "rb_inv b2"
          "b2 = b1\<lparr>rb_buffer := drop j (rb_buffer b1)\<rparr>"
          "GetNewest b2 = GetNewest b1 \<or> rb_buffer b2 = []"
          "\<forall>it. GetOldest b2 = Some it \<longrightarrow> IsTooOldTimestamp b1 (it_timestamp it) nts = Some False"
        by metis
      have "ClearTooOldByTimestamp nts b = Some (True, b2)"
        using Some old True b1(1) b2(1) by (subst ClearTooOldByTimestamp.simps) simp
      moreover have "b2 = b\<lparr>rb_buffer := drop (j + k) (rb_buffer b)\<rparr>"
        using b2(3) b1(3) by simp
      moreover have "GetNewest b2 = GetNewest b \<or> rb_buffer b2 = []"
        using b2(3,4) b1(4) by (auto simp: GetNewest_def)
      ultimately show ?thesis using b2(2,5) same by auto
    qed
  qed
qed

section \<open>Inserting keeps the invariant and meets no null pointer\<close>

lemma rb_inv_push:
  assumes inv: "rb_inv b" and new: "GetNewest b = Some newest"
  shows "rb_inv (rb_push (unat (GetSequenceNumber p - it_seq newest - 1)) p b)"
  using inv
proof (cases rule: rb_inv_cases)
  case 1
  then show ?thesis using new by (simp add: GetNewest_def)
next
  case (2 oldest nw)
  obtain n where n: "length (rb_buffer b) = Suc n" using 2(3) by (cases "rb_buffer b") auto
  have "GetSequenceNumber p =
      it_seq oldest + word_of_nat (Suc n) + (GetSequenceNumber p - it_seq newest - 1)"
    using 2(2,7) new n by simp
  moreover obtain xs where "rb_buffer b = Some oldest # xs" using 2(3,4) by (cases "rb_buffer b") auto
  ultimately show ?thesis using 2(6) n
    by (intro rb_invI [of _ oldest]) (simp_all add: rb_push_def slots_from_append)
qed

lemma rb_insert_newer_inv:
  assumes inv: "rb_inv b" and new: "GetNewest b = Some newest"
  shows "\<exists>b'. rb_insert_newer p newest b = Some b' \<and> rb_inv b'"
proof -
  define blanks where "blanks = unat (GetSequenceNumber p - it_seq newest - 1)"
  define n where "n = (word_of_nat (length (rb_buffer b) + blanks + 1 - unat (rb_max_items b)) :: u16)"
  have push: "rb_inv b' \<Longrightarrow> GetNewest b' = Some newest \<Longrightarrow> rb_inv (rb_push blanks p b')" for b'
    unfolding blanks_def by (rule rb_inv_push)
  have ne: "rb_buffer b \<noteq> []" using new by (auto simp: GetNewest_def)
  have "\<exists>b'. RemoveOldest_num n b = Some b' \<and> rb_inv (rb_push blanks p b')"
    if "unat n \<le> length (rb_buffer b) - 1"
    using RemoveOldest_num_works [OF inv ne that] push new by metis
  moreover have "rb_inv (rb_push 0 p (RetransmissionBuffer_Clear b))"
    by (intro inv_intros) simp
  ultimately show ?thesis
    using inv push [OF inv new]
    unfolding rb_insert_newer_def Let_def blanks_def [symmetric] n_def [symmetric]
    by (cases "unat n \<le> length (rb_buffer b) - 1") (auto simp: not_le)
qed

lemma rb_insert_older_inv:
  assumes inv: "rb_inv b" and old: "GetOldest b = Some oldest" and clock: "rb_clock_rate b \<noteq> 0"
  shows "\<exists>b'. rb_insert_older p oldest newest b = Some b' \<and> rb_inv b'"
  using inv
proof (cases rule: rb_inv_cases)
  case 1
  then show ?thesis using old by (simp add: GetOldest_def)
next
  case (2 od nw)
  then have od: "od = oldest" using old by simp
  define blanks where "blanks = unat (it_seq oldest - GetSequenceNumber p - 1)"
  have w: "word_of_nat blanks = it_seq oldest - GetSequenceNumber p - 1"
    by (simp add: blanks_def)
  let ?b = "b\<lparr>rb_buffer := Some (Item_of_packet p) # replicate blanks None @ rb_buffer b\<rparr>"
  have "rb_inv ?b"
    using 2 od by (intro rb_invI [of _ "Item_of_packet p"]) (simp_all add: slots_from_append w)
  moreover obtain r where "IsTooOldTimestamp b (GetTimestamp p) (it_timestamp newest) = Some r"
    using IsTooOldTimestamp_Some [OF clock] by metis
  ultimately show ?thesis
    using inv unfolding rb_insert_older_def Let_def blanks_def [symmetric] by auto
qed

lemma rb_older_ok_Some: "n \<le> length buf \<Longrightarrow> \<exists>r. rb_older_ok ts buf n = Some r"
  by (induction n) (auto split: option.splits)

text \<open>A number between the oldest and the newest has its slot inside the deque.\<close>

lemma between_index:
  assumes inv: "rb_inv b" and old: "GetOldest b = Some oldest" and new: "GetNewest b = Some newest"
    and "\<not> seq_higher seq (it_seq newest)" "\<not> seq_lower seq (it_seq oldest)"
  shows "unat (seq - it_seq oldest) < length (rb_buffer b)"
  using inv
proof (cases rule: rb_inv_cases)
  case 1
  then show ?thesis using old by (simp add: GetOldest_def)
next
  case (2 od nw)
  let ?o = "it_seq oldest" and ?n = "it_seq newest"
  have e: "?n = ?o + word_of_nat (length (rb_buffer b) - 1)" using 2 old new by simp
  have len: "0 < length (rb_buffer b)" using 2 by simp
  show ?thesis
  proof (rule ccontr)
    assume "\<not> ?thesis"
    then have big: "length (rb_buffer b) \<le> unat (seq - ?o)" by simp
    then have small: "length (rb_buffer b) - 1 < 65536" using u16_bound [of "seq - ?o"] by simp
    have d: "unat (?n - ?o) = length (rb_buffer b) - 1" using e small by (simp add: unat_of_nat_16)
    have "unat (seq - ?n) + unat (?n - ?o) = unat (seq - ?o)"
    proof -
      have "seq - ?n = (seq - ?o) - (?n - ?o)" by simp
      then show ?thesis using big d unat_diff_cases [of "seq - ?o" "?n - ?o"] by simp
    qed
    then have E: "unat (seq - ?n) \<le> unat (seq - ?o)" "seq \<noteq> ?n" "seq \<noteq> ?o"
    proof -
      show "unat (seq - ?n) \<le> unat (seq - ?o)" using \<open>_ = unat (seq - ?o)\<close> by linarith
      have pos: "0 < unat (seq - ?n)" using \<open>_ = unat (seq - ?o)\<close> big len d by linarith
      then show "seq \<noteq> ?n" by auto
      show "seq \<noteq> ?o" using big len by auto
    qed
    have D: "unat (seq - ?o) \<le> 32768"
    proof -
      have "unat (?o - seq) = 65536 - unat (seq - ?o)"
        using E(3) unat_diff_cases [of seq ?o] unat_diff_cases [of ?o seq] u16_bound [of seq]
          u16_bound [of ?o] by (auto split: if_splits simp: word_unat_eq_iff)
      then show ?thesis using assms(5) E(3) u16_bound [of "seq - ?o"]
        unfolding seq_lower_dist16 by linarith
    qed
    moreover have "32768 \<le> unat (seq - ?n)"
      using assms(4) E(2) unat_eq_zero [of "seq - ?n"]
      unfolding IsSeqHigherThan_swap seq_lower_dist16 by (simp add: not_le)
    ultimately have "unat (?n - ?o) = 0" using E(1) \<open>unat (seq - ?n) + _ = _\<close> by linarith
    then have "?n = ?o" by (simp add: unat_eq_zero)
    then show False
      using assms(4,5) E(3) IsSeqLowerThan_total [of seq ?o 0] by (simp add: IsSeqHigherThan_swap)
  qed
qed

lemma rb_insert_between_inv:
  assumes inv: "rb_inv b" and old: "GetOldest b = Some oldest"
    and idx: "unat (GetSequenceNumber p - it_seq oldest) < length (rb_buffer b)"
  shows "\<exists>b'. rb_insert_between p oldest b = Some b' \<and> rb_inv b'"
  using inv
proof (cases rule: rb_inv_cases)
  case 1
  then show ?thesis using old by (simp add: GetOldest_def)
next
  case (2 od nw)
  then have od: "od = oldest" using old by simp
  define i where "i = unat (GetSequenceNumber p - it_seq oldest)"
  have w: "word_of_nat i = GetSequenceNumber p - it_seq oldest" by (simp add: i_def)
  let ?buf = "(rb_buffer b)[i := Some (Item_of_packet p)]"
  have i: "i < length (rb_buffer b)" using idx by (simp add: i_def)
  have sl: "slots_from (it_seq oldest) ?buf"
    using 2 od i by (intro slots_from_update) (simp_all add: w)
  obtain it xs where hd: "?buf = Some it # xs"
    using 2(3,4) od by (cases "rb_buffer b"; cases i) auto
  have "it_seq it = it_seq oldest" using sl hd by simp
  moreover have "last ?buf \<noteq> None"
    using 2(3,5) i by (simp add: last_list_update)
  ultimately have "rb_inv (b\<lparr>rb_buffer := ?buf\<rparr>)"
    using sl hd by (intro rb_invI [of _ it xs]) auto
  moreover obtain r where "rb_older_ok (GetTimestamp p) (rb_buffer b) i = Some r"
    using rb_older_ok_Some i by (metis less_imp_le)
  ultimately show ?thesis
    using inv i unfolding rb_insert_between_def Let_def i_def [symmetric]
    by (auto split: option.splits)
qed

lemma rb_insert_placed_inv:
  assumes inv: "rb_inv b" and ne: "rb_buffer b \<noteq> []" and clock: "rb_clock_rate b \<noteq> 0"
  shows "\<exists>b'. rb_insert_placed p b = Some b' \<and> rb_inv b'"
  using inv
proof (cases rule: rb_inv_cases)
  case (2 oldest newest)
  then show ?thesis
    using rb_insert_newer_inv [OF inv 2(2), of p] rb_insert_older_inv [OF inv 2(1) clock, of p newest]
      rb_insert_between_inv [OF inv 2(1), of p] between_index [OF inv 2(1,2), of "GetSequenceNumber p"]
    by (simp add: rb_insert_placed_def)
qed (use ne in simp)

lemma Insert_works:
  assumes inv: "rb_inv b" and clock: "rb_clock_rate b \<noteq> 0"
  shows "\<exists>b'. RetransmissionBuffer_Insert p b = Some b' \<and> rb_inv b'"
proof (cases "rb_buffer b = []")
  case True
  then show ?thesis by (simp add: RetransmissionBuffer_Insert_def rb_inv_push_empty)
next
  case False
  obtain newest where new: "GetNewest b = Some newest"
    using inv False by (cases rule: rb_inv_cases) auto
  define nts where "nts = (if seq_higher (GetTimestamp p) (it_timestamp newest)
                           then GetTimestamp p else it_timestamp newest)"
  obtain r b1 k where b1: "ClearTooOldByTimestamp nts b = Some (r, b1)" "rb_inv b1"
      "b1 = b\<lparr>rb_buffer := drop k (rb_buffer b)\<rparr>"
    using ClearTooOldByTimestamp_works [OF inv clock, of nts] by metis
  have "rb_clock_rate b1 \<noteq> 0" using b1(3) clock by simp
  then have "rb_buffer b1 \<noteq> [] \<Longrightarrow> \<exists>b'. rb_insert_placed p b1 = Some b' \<and> rb_inv b'"
    using rb_insert_placed_inv [OF b1(2)] by metis
  moreover have "rb_inv (rb_push 0 p (RetransmissionBuffer_Clear b))" by (intro inv_intros) simp
  ultimately show ?thesis
    using False new b1(1) rb_inv_push_empty [of b1 p]
    by (simp add: RetransmissionBuffer_Insert_def nts_def [symmetric])
qed

text \<open>
  Claim C9. Inserting any packet into a well-formed buffer meets no null pointer and no index
  out of range, ends, and leaves a well-formed buffer.
\<close>

theorem RetransmissionBuffer_Insert_inv:
  assumes inv: "rb_inv b" and clock: "rb_clock_rate b \<noteq> 0"
  shows "\<exists>b'. RetransmissionBuffer_Insert p b = Some b' \<and> rb_inv b'"
  using assms by (rule Insert_works)

section \<open>The buffer as a lookup table\<close>

lemma Get_stored_iff:
  assumes inv: "rb_inv b" and len: "length (rb_buffer b) \<le> 32768"
  shows "RetransmissionBuffer_Get seq b = Some it \<longleftrightarrow> Some it \<in> set (rb_buffer b) \<and> it_seq it = seq"
  using inv
proof (cases rule: rb_inv_cases)
  case 1
  then show ?thesis by (simp add: RetransmissionBuffer_Get_def GetOldest_def)
next
  case (2 oldest newest)
  let ?o = "it_seq oldest"
  have at: "it_seq jt = ?o + word_of_nat i" if "i < length (rb_buffer b)" "rb_buffer b ! i = Some jt"
    for i jt using slots_from_nth [OF 2(6)] that by simp
  show ?thesis
  proof
    assume get: "RetransmissionBuffer_Get seq b = Some it"
    let ?i = "unat (seq - ?o)"
    have i: "?i < length (rb_buffer b)" "rb_buffer b ! ?i = Some it"
      using get 2(1,3) by (auto simp: RetransmissionBuffer_Get_def Let_def not_less le_diff_conv2
          Suc_le_eq split: if_splits)
    then show "Some it \<in> set (rb_buffer b) \<and> it_seq it = seq"
      using at [OF i] nth_mem [OF i(1)] by simp
  next
    assume "Some it \<in> set (rb_buffer b) \<and> it_seq it = seq"
    then obtain i where i: "i < length (rb_buffer b)" "rb_buffer b ! i = Some it" "it_seq it = seq"
      by (auto simp: in_set_conv_nth)
    then have "seq - ?o = word_of_nat i" using at [OF i(1,2)] by auto
    then have d: "unat (seq - ?o) = i" using i(1) len by (simp add: unat_of_nat_16)
    have "\<not> seq_lower seq ?o"
    proof
      assume low: "seq_lower seq ?o"
      then have "seq \<noteq> ?o" by auto
      then have "unat (?o - seq) = 65536 - i"
        using d unat_diff_cases [of seq ?o] unat_diff_cases [of ?o seq] u16_bound [of seq]
          u16_bound [of ?o] by (auto split: if_splits simp: word_unat_eq_iff)
      with low i(1) len show False unfolding seq_lower_dist16 by auto
    qed
    then show "RetransmissionBuffer_Get seq b = Some it"
      using i d 2(1,3) by (auto simp: RetransmissionBuffer_Get_def)
  qed
qed

text \<open>
  A lookup returns exactly the stored item with that sequence number, as long as
  the deque spans no more than half of the number circle.
\<close>

lemma RetransmissionBuffer_Get_iff:
  assumes inv: "rb_inv b" and len: "length (rb_buffer b) \<le> 32768"
  shows "RetransmissionBuffer_Get seq b = Some it \<longleftrightarrow> Some it \<in> set (rb_buffer b) \<and> it_seq it = seq"
  using assms by (rule Get_stored_iff)

lemma GetNewest_push [simp]: "GetNewest (rb_push n p b) = Some (Item_of_packet p)"
  by (simp add: GetNewest_def rb_push_def)

lemma rb_insert_newer_stores:
  assumes inv: "rb_inv b" and new: "GetNewest b = Some newest"
    and ts: "\<not> seq_lower (GetTimestamp p) (it_timestamp newest)"
  shows "\<exists>b'. rb_insert_newer p newest b = Some b' \<and> GetNewest b' = Some (Item_of_packet p)"
proof -
  define blanks where "blanks = unat (GetSequenceNumber p - it_seq newest - 1)"
  define n where "n = (word_of_nat (length (rb_buffer b) + blanks + 1 - unat (rb_max_items b)) :: u16)"
  have ne: "rb_buffer b \<noteq> []" using new by (auto simp: GetNewest_def)
  have "\<exists>b'. RemoveOldest_num n b = Some b'" if "unat n \<le> length (rb_buffer b) - 1"
    using RemoveOldest_num_works [OF inv ne that] by metis
  then show ?thesis
    using ts unfolding rb_insert_newer_def Let_def blanks_def [symmetric] n_def [symmetric]
    by (cases "unat n \<le> length (rb_buffer b) - 1") (auto simp: not_le)
qed

lemma Insert_stores:
  assumes inv: "rb_inv b" and clock: "rb_clock_rate b \<noteq> 0"
    and new: "GetNewest b = Some newest"
    and seq: "seq_higher (GetSequenceNumber p) (it_seq newest)"
    and ts: "\<not> seq_lower (GetTimestamp p) (it_timestamp newest)"
  shows "\<exists>b'. RetransmissionBuffer_Insert p b = Some b' \<and> GetNewest b' = Some (Item_of_packet p)"
proof -
  define nts where "nts = (if seq_higher (GetTimestamp p) (it_timestamp newest)
                           then GetTimestamp p else it_timestamp newest)"
  obtain r b1 where b1: "ClearTooOldByTimestamp nts b = Some (r, b1)" "rb_inv b1"
      "GetNewest b1 = GetNewest b \<or> rb_buffer b1 = []"
    using ClearTooOldByTimestamp_works [OF inv clock, of nts] by metis
  have "\<not> seq_lower (GetSequenceNumber p) (it_seq newest)"
    using seq IsSeqLowerThan_asym by (auto simp: IsSeqHigherThan_swap)
  moreover have "rb_buffer b \<noteq> []" using new by (auto simp: GetNewest_def)
  moreover have "rb_buffer b1 \<noteq> [] \<Longrightarrow>
      \<exists>b'. rb_insert_placed p b1 = Some b' \<and> GetNewest b' = Some (Item_of_packet p)"
    using rb_insert_newer_stores [OF b1(2) _ ts] b1(3) new seq by (auto simp: rb_insert_placed_def)
  ultimately show ?thesis
    using new b1(1) by (simp add: RetransmissionBuffer_Insert_def nts_def [symmetric])
qed

text \<open>
  A packet whose sequence number is higher than the newest stored one and whose
  timestamp is not lower is always stored, as the newest, whatever has to be removed for it.
\<close>

lemma RetransmissionBuffer_Insert_in_order:
  assumes inv: "rb_inv b" and clock: "rb_clock_rate b \<noteq> 0"
    and new: "GetNewest b = Some newest"
    and seq: "seq_higher (GetSequenceNumber p) (it_seq newest)"
    and ts: "\<not> seq_lower (GetTimestamp p) (it_timestamp newest)"
  shows "\<exists>b'. RetransmissionBuffer_Insert p b = Some b' \<and> GetNewest b' = Some (Item_of_packet p)"
  using assms by (rule Insert_stores)

section \<open>The size of the buffer\<close>

lemma RemoveOldest_num_max:
  "RemoveOldest_num n b = Some b' \<Longrightarrow> rb_max_items b' = rb_max_items b"
  by (auto simp: RemoveOldest_num_def Let_def RemoveOldest_def
      split: if_splits list.splits option.splits)

lemma RemoveOldest_num_one:
  assumes "RemoveOldest_num 1 b = Some b'" "rb_buffer b \<noteq> []" "length (rb_buffer b) < 2 ^ 64"
  shows "length (rb_buffer b') < length (rb_buffer b)"
proof -
  have "int (length (rb_buffer b)) - 1 < 2 ^ 64" "0 \<le> int (length (rb_buffer b)) - 1"
    using assms(2,3) by (auto simp: Suc_le_eq)
  then have "RemoveOldest b = Some b'"
    using assms(1) by (simp add: RemoveOldest_num_def Let_def)
  then show ?thesis using assms(2)
    by (auto simp: RemoveOldest_def le_imp_less_Suc length_dropWhile_le
        split: list.splits option.splits)
qed

lemma rb_insert_newer_bound:
  assumes "rb_insert_newer p newest b = Some b'" "GetNewest b = Some newest"
    and le: "length (rb_buffer b) \<le> unat (rb_max_items b)" and pos: "rb_max_items b \<noteq> 0"
    and seq: "GetSequenceNumber p = it_seq newest + 1"
  shows "length (rb_buffer b') \<le> unat (rb_max_items b)"
proof -
  let ?l = "length (rb_buffer b)" and ?m = "unat (rb_max_items b)"
  have m: "0 < ?m" using pos by (simp add: unat_gt_0)
  have ne: "rb_buffer b \<noteq> []" using assms(2) by (auto simp: GetNewest_def)
  have l: "?l < 2 ^ 64" using le u16_bound [of "rb_max_items b"] by simp
  show ?thesis
  proof (cases "?l < ?m")
    case True
    then show ?thesis using assms(1) seq le
      by (auto simp: rb_insert_newer_def rb_push_def split: if_splits)
  next
    case False
    then have lm: "?l = ?m" using le by simp
    then have n: "word_of_nat (?l + 0 + 1 - ?m) = (1 :: u16)" by simp
    show ?thesis using assms(1) seq lm m RemoveOldest_num_one [OF _ ne l]
      by (auto simp: rb_insert_newer_def rb_push_def Let_def bind_eq_Some_conv split: if_splits)
  qed
qed

lemma rb_insert_older_bound:
  assumes "rb_insert_older p oldest newest b = Some b'"
    and "length (rb_buffer b) \<le> unat (rb_max_items b)"
  shows "length (rb_buffer b') \<le> unat (rb_max_items b)"
  using assms by (auto simp: rb_insert_older_def Let_def bind_eq_Some_conv split: if_splits)

lemma rb_insert_between_bound:
  "rb_insert_between p oldest b = Some b' \<Longrightarrow> length (rb_buffer b') = length (rb_buffer b)"
  by (auto simp: rb_insert_between_def Let_def bind_eq_Some_conv split: if_splits option.splits)

lemma Insert_size:
  assumes inv: "rb_inv b" and clock: "rb_clock_rate b \<noteq> 0"
    and le: "length (rb_buffer b) \<le> unat (rb_max_items b)" and pos: "rb_max_items b \<noteq> 0"
    and seq: "\<And>newest. GetNewest b = Some newest \<Longrightarrow> seq_higher (GetSequenceNumber p) (it_seq newest)
                \<Longrightarrow> GetSequenceNumber p = it_seq newest + 1"
    and ins: "RetransmissionBuffer_Insert p b = Some b'"
  shows "length (rb_buffer b') \<le> unat (rb_max_items b)"
proof -
  have m: "1 \<le> unat (rb_max_items b)" using pos by (simp add: Suc_le_eq unat_gt_0)
  have push: "length (rb_buffer (rb_push 0 p c)) \<le> unat (rb_max_items b)" if "rb_buffer c = []" for c
    using that m by (simp add: rb_push_def)
  show ?thesis
  proof (cases "rb_buffer b = []")
    case True
    then show ?thesis using ins push by (auto simp: RetransmissionBuffer_Insert_def)
  next
    case False
    obtain newest where new: "GetNewest b = Some newest"
      using inv False by (cases rule: rb_inv_cases) auto
    define nts where "nts = (if seq_higher (GetTimestamp p) (it_timestamp newest)
                             then GetTimestamp p else it_timestamp newest)"
    obtain r b1 k where b1: "ClearTooOldByTimestamp nts b = Some (r, b1)" "rb_inv b1"
        "b1 = b\<lparr>rb_buffer := drop k (rb_buffer b)\<rparr>" "GetNewest b1 = GetNewest b \<or> rb_buffer b1 = []"
      using ClearTooOldByTimestamp_works [OF inv clock, of nts] by metis
    have le1: "length (rb_buffer b1) \<le> unat (rb_max_items b1)" and max1: "rb_max_items b1 = rb_max_items b"
      using b1(3) le by auto
    have placed: "length (rb_buffer b') \<le> unat (rb_max_items b)"
      if pl: "rb_insert_placed p b1 = Some b'" and ne: "rb_buffer b1 \<noteq> []"
    proof -
      have new1: "GetNewest b1 = Some newest" using b1(4) ne new by simp
      show ?thesis
        using pl new1 seq [OF new] rb_insert_newer_bound [OF _ new1 le1, of p b'] pos max1 le1
          rb_insert_older_bound [OF _ le1, of p _ newest b'] rb_insert_between_bound [of p _ b1 b']
        by (auto simp: rb_insert_placed_def bind_eq_Some_conv split: if_splits)
    qed
    show ?thesis
      using ins False new b1(1) push placed
      by (auto simp: RetransmissionBuffer_Insert_def nts_def [symmetric] split: if_splits)
  qed
qed

text \<open>
  Inserting keeps the deque within its configured size as long as a packet newer
  than all stored ones is the direct successor of the newest.
\<close>

lemma RetransmissionBuffer_Insert_bound:
  assumes inv: "rb_inv b" and clock: "rb_clock_rate b \<noteq> 0"
    and le: "length (rb_buffer b) \<le> unat (rb_max_items b)" and pos: "rb_max_items b \<noteq> 0"
    and seq: "\<And>newest. GetNewest b = Some newest \<Longrightarrow> seq_higher (GetSequenceNumber p) (it_seq newest)
                \<Longrightarrow> GetSequenceNumber p = it_seq newest + 1"
    and ins: "RetransmissionBuffer_Insert p b = Some b'"
  shows "length (rb_buffer b') \<le> unat (rb_max_items b)"
  using assms by (rule Insert_size)

text \<open>
  A packet that skips numbers makes a full buffer exceed its configured size: the
  code removes one item for it, whatever number it computed, and adds all the blank slots.
\<close>

lemma RetransmissionBuffer_Insert_gap_exceeds:
  assumes buf: "rb_buffer b = Some x # Some y # xs" and full: "length (rb_buffer b) = unat (rb_max_items b)"
    and new: "GetNewest b = Some newest"
    and seq: "seq_higher (GetSequenceNumber p) (it_seq newest)"
    and ts: "GetTimestamp p = it_timestamp newest"
    and young: "ClearTooOldByTimestamp (it_timestamp newest) b = Some (False, b)"
    and gap: "unat (GetSequenceNumber p - it_seq newest - 1) + 1 < length (rb_buffer b)"
  shows "\<exists>b'. RetransmissionBuffer_Insert p b = Some b' \<and>
    length (rb_buffer b') = unat (rb_max_items b) + unat (GetSequenceNumber p - it_seq newest - 1)"
proof -
  define blanks where "blanks = unat (GetSequenceNumber p - it_seq newest - 1)"
  have n: "unat (word_of_nat (Suc blanks) :: u16) = Suc blanks"
    using gap full u16_bound [of "rb_max_items b"] by (intro unat_of_nat_16) (simp add: blanks_def)
  have "length (rb_buffer b) < 2 ^ 64" using full u16_bound [of "rb_max_items b"] by simp
  moreover have "uint (word_of_nat (Suc blanks) :: u16) = int (Suc blanks)"
    using n by (metis uint_nat)
  moreover have "int (Suc blanks) < int (length (rb_buffer b))"
    using gap unfolding blanks_def by (simp only: of_nat_less_iff Suc_eq_plus1)
  ultimately have rem: "RemoveOldest_num (word_of_nat (Suc blanks)) b = Some (b\<lparr>rb_buffer := Some y # xs\<rparr>)"
    using buf by (simp add: RemoveOldest_num_def RemoveOldest_def Let_def)
  have eq: "Suc (length (rb_buffer b) + blanks) - unat (rb_max_items b) = Suc blanks" using full by simp
  have "rb_insert_newer p newest b = Some (rb_push blanks p (b\<lparr>rb_buffer := Some y # xs\<rparr>))"
    using ts full n rem gap
    by (simp add: rb_insert_newer_def Let_def blanks_def [symmetric] eq)
  then have "RetransmissionBuffer_Insert p b = Some (rb_push blanks p (b\<lparr>rb_buffer := Some y # xs\<rparr>))"
    using seq ts young new buf
    by (auto simp: RetransmissionBuffer_Insert_def rb_insert_placed_def IsSeqHigherThan_swap
        dest: IsSeqLowerThan_asym)
  then show ?thesis using buf full by (simp add: rb_push_def blanks_def [symmetric])
qed

section \<open>Concrete instances\<close>

text \<open>A full buffer of four packets sent at the same time.\<close>

definition rb_sample :: RtpRetransmissionBuffer where
  "rb_sample = (RetransmissionBuffer_init 4 1000 90000)\<lparr>rb_buffer :=
     map (\<lambda>s. Some (Item_of_packet (rtp_sample s 100))) [0, 1, 2, 3]\<rparr>"

lemma it_timestamp_of_packet [simp]: "it_timestamp (Item_of_packet p) = GetTimestamp p"
  by (simp add: Item_of_packet_def)

lemma rb_sample_facts:
  "rb_inv rb_sample" "rb_clock_rate rb_sample = 90000" "rb_max_items rb_sample = 4"
  "length (rb_buffer rb_sample) = 4"
  "GetNewest rb_sample = Some (Item_of_packet (rtp_sample 3 100))"
  "GetOldest rb_sample = Some (Item_of_packet (rtp_sample 0 100))"
  by (simp_all add: rb_sample_def rb_inv_def RetransmissionBuffer_init_def GetNewest_def GetOldest_def)

lemma rb_sample_buffer:
  "rb_buffer rb_sample = Some (Item_of_packet (rtp_sample 0 100)) #
     Some (Item_of_packet (rtp_sample 1 100)) #
     map (\<lambda>s. Some (Item_of_packet (rtp_sample s 100))) [2, 3]"
  by (simp add: rb_sample_def)

lemma rb_sample_young: "ClearTooOldByTimestamp 100 rb_sample = Some (False, rb_sample)"
  by (subst ClearTooOldByTimestamp.simps)
     (simp add: rb_sample_facts IsTooOldTimestamp_def IsSeqHigherThan_swap)

lemma RetransmissionBuffer_Insert_inv_witness:
  "\<exists>b'. RetransmissionBuffer_Insert (rtp_sample 7 200) rb_sample = Some b' \<and> rb_inv b'"
  by (rule RetransmissionBuffer_Insert_inv) (simp_all add: rb_sample_facts)

lemma RetransmissionBuffer_Get_iff_witness:
  "RetransmissionBuffer_Get 2 rb_sample = Some (Item_of_packet (rtp_sample 2 100))"
  using RetransmissionBuffer_Get_iff [OF rb_sample_facts(1)] rb_sample_facts(4)
  by (simp add: rb_sample_def RetransmissionBuffer_init_def)

lemma RetransmissionBuffer_Insert_in_order_witness:
  "\<exists>b'. RetransmissionBuffer_Insert (rtp_sample 6 100) rb_sample = Some b'
     \<and> GetNewest b' = Some (Item_of_packet (rtp_sample 6 100))"
  by (rule RetransmissionBuffer_Insert_in_order [OF rb_sample_facts(1) _ rb_sample_facts(5)])
     (simp_all add: rb_sample_facts IsSeqHigherThan_swap seq_lower_dist16)

lemma RetransmissionBuffer_Insert_bound_witness:
  "\<exists>b'. RetransmissionBuffer_Insert (rtp_sample 4 100) rb_sample = Some b'
     \<and> length (rb_buffer b') \<le> 4"
proof -
  obtain b' where b': "RetransmissionBuffer_Insert (rtp_sample 4 100) rb_sample = Some b'"
    by (simp add: RetransmissionBuffer_Insert_def rb_insert_placed_def rb_insert_newer_def
        RemoveOldest_num_def RemoveOldest_def Let_def rb_sample_facts rb_sample_young
        rb_sample_buffer IsSeqHigherThan_swap seq_lower_dist16)
  then show ?thesis
    using RetransmissionBuffer_Insert_bound [OF rb_sample_facts(1) _ _ _ _ b'] rb_sample_facts by simp
qed

lemma RetransmissionBuffer_Insert_gap_exceeds_witness:
  "\<exists>b'. RetransmissionBuffer_Insert (rtp_sample 5 100) rb_sample = Some b'
     \<and> length (rb_buffer b') = 5 \<and> rb_max_items rb_sample = 4"
  using RetransmissionBuffer_Insert_gap_exceeds
    [OF rb_sample_buffer _ rb_sample_facts(5), of "rtp_sample 5 100"]
  by (simp add: rb_sample_facts rb_sample_young IsSeqHigherThan_swap seq_lower_dist16)

end
