(* ===== verification/Seq_Manager.thy ===== *)
theory Seq_Manager
  imports Std_Tree
begin

text \<open>
  The class \<^verbatim>\<open>SeqManager<T, N>\<close> (\<^verbatim>\<open>core/include/rtc/seq_manager.h\<close>,
  \<^verbatim>\<open>core/src/rtc/seq_manager.cpp\<close>): it renumbers a stream from which packets are taken out, so
  that the numbers that leave it have no gaps. The model has any \<^verbatim>\<open>T\<close> and \<^verbatim>\<open>N\<close>, the theorems
  are about the 16-bit instance for RTP sequence numbers. An output is \<open>None\<close> where the code
  returns false.
\<close>

section \<open>State and operations\<close>

record 'n SeqManager =
  sm_started :: bool
  sm_initial_output :: 'n
  sm_base :: 'n
  sm_max_output :: 'n
  sm_max_input :: 'n
  sm_dropped :: "'n list"

definition SeqManager_init :: "'a::len word \<Rightarrow> 'a word SeqManager" where
  "SeqManager_init initial_output =
     \<lparr>sm_started = False, sm_initial_output = initial_output, sm_base = 0, sm_max_output = 0,
      sm_max_input = 0, sm_dropped = []\<rparr>"

definition Sync :: "nat \<Rightarrow> 'a::len word \<Rightarrow> 'a word SeqManager \<Rightarrow> 'a word SeqManager" where
  "Sync N input s =
     s\<lparr>sm_base := (sm_max_output s - input) AND MaxValue N, sm_max_input := input,
       sm_dropped := []\<rparr>"

definition ClearDropped :: "nat \<Rightarrow> 'a::len word SeqManager \<Rightarrow> 'a word SeqManager" where
  "ClearDropped N s =
     (if sm_dropped s = [] then s
      else (let kept = dropWhile (\<lambda>value. IsSeqHigherThan N value (sm_max_input s)) (sm_dropped s)
            in s\<lparr>sm_dropped := kept,
                 sm_base := (sm_base s - word_of_nat (length (sm_dropped s) - length kept))
                            AND MaxValue N\<rparr>))"

definition Drop :: "nat \<Rightarrow> 'a::len word \<Rightarrow> 'a word SeqManager \<Rightarrow> 'a word SeqManager" where
  "Drop N input s =
     (if IsSeqHigherThan N input (sm_max_input s)
      then ClearDropped N (s\<lparr>sm_max_input := input, sm_dropped :=
             tree_emplace_back (IsSeqLowerThan N) (\<lambda>k. k) input (sm_dropped s)\<rparr>)
      else s)"

text \<open>The part of \<^verbatim>\<open>Input\<close> behind the label \<^verbatim>\<open>done\<close>.\<close>

definition Input_done ::
  "nat \<Rightarrow> 'a::len word \<Rightarrow> 'a word \<Rightarrow> 'a word SeqManager \<Rightarrow> 'a word option \<times> 'a word SeqManager"
where
  "Input_done N input base s =
     (let output = (input + base) AND MaxValue N;
          s' = (if \<not> sm_started s
                then s\<lparr>sm_started := True, sm_max_input := input, sm_max_output := output\<rparr>
                else
                  (let s1 = (if IsSeqHigherThan N input (sm_max_input s)
                             then s\<lparr>sm_max_input := input\<rparr> else s)
                   in if IsSeqHigherThan N output (sm_max_output s1)
                      then s1\<lparr>sm_max_output := output\<rparr> else s1))
      in (Some ((output + sm_initial_output s) AND MaxValue N), s'))"

definition Input ::
  "nat \<Rightarrow> 'a::len word \<Rightarrow> 'a word SeqManager \<Rightarrow> 'a word option \<times> 'a word SeqManager"
where
  "Input N input s =
     (if sm_dropped s = [] then Input_done N input (sm_base s) s
      else
        (let s1 = (if sm_started s \<and> IsSeqHigherThan N input (sm_max_input s)
                   then s\<lparr>sm_max_input := input\<rparr> else s);
             s2 = ClearDropped N s1
         in if sm_dropped s2 = [] then Input_done N input (sm_base s2) s2
            else if tree_find (IsSeqLowerThan N) (\<lambda>k. k) input (sm_dropped s2) \<noteq> None
            then (None, s2)
            else
              (let droppedCount = length (sm_dropped s2)
                     - length (lower_bound (IsSeqLowerThan N) (\<lambda>k. k) input (sm_dropped s2))
               in Input_done N input ((sm_base s2 - word_of_nat droppedCount) AND MaxValue N) s2)))"

definition GetMaxInput :: "'a::len word SeqManager \<Rightarrow> 'a word" where
  "GetMaxInput s = sm_max_input s"

definition GetMaxOutput :: "'a::len word SeqManager \<Rightarrow> 'a word" where
  "GetMaxOutput s = sm_max_output s"

section \<open>Invariant\<close>

text \<open>
  The dropped numbers lie behind the newest input, oldest first, and the newest output is the
  newest input less everything that was dropped.
\<close>

definition sm_inv :: "u16 SeqManager \<Rightarrow> bool" where
  "sm_inv s \<longleftrightarrow> sm_started s
     \<and> sorted_tree seq_lower (not_newer16 (sm_max_input s)) (\<lambda>k. k) (sm_dropped s)
     \<and> sm_max_output s = sm_max_input s + sm_base s - word_of_nat (length (sm_dropped s))"

lemma and_MaxValue0 [simp]: "(x :: 'a::len word) AND MaxValue 0 = x"
  by (simp add: MaxValue_def)

lemma sm_inv_Sync [inv_intros]: "sm_started s \<Longrightarrow> sm_inv (Sync 0 input s)"
  by (simp add: sm_inv_def Sync_def)

text \<open>The first number brings a new manager into such a state, with nothing dropped.\<close>

lemma sm_first_input:
  "sm_inv (snd (Input 0 n (SeqManager_init out)))" "sm_dropped (snd (Input 0 n (SeqManager_init out))) = []"
  by (simp_all add: sm_inv_def Input_def Input_done_def SeqManager_init_def)

text \<open>When the newest input moves on by one, a prefix of the dropped numbers gets stale.\<close>

lemma ClearDropped_step:
  assumes srt: "sorted_tree seq_lower (not_newer16 m) (\<lambda>k. k) xs"
  shows "sorted_tree seq_lower (not_newer16 (m + 1)) (\<lambda>k. k)
    (dropWhile (\<lambda>v. seq_higher v (m + 1)) xs)"
  using srt
proof (induction xs)
  case Nil
  then show ?case by simp
next
  case (Cons x xs)
  show ?case
  proof (cases "seq_higher x (m + 1)")
    case True
    with Cons show ?thesis by (simp add: sorted_tree_Cons)
  next
    case False
    have far: "unat (m + 1 - v) = Suc (unat (m - v))" if "v \<in> not_newer16 m" for v
      using that unat_step_dist [of m v] by (auto simp: not_newer16_dist)
    have "y \<in> not_newer16 (m + 1)" if y: "y \<in> set xs" for y
    proof -
      have m: "x \<in> not_newer16 m" "y \<in> not_newer16 m" and lt: "seq_lower x y"
        using Cons.prems y by (auto simp: sorted_tree_def)
      have "unat (m - y) < unat (m - x)" using seq16_back.lt_rank [OF m] lt by auto
      moreover have "x \<in> not_newer16 (m + 1)" using False by (simp add: not_newer16_def)
      ultimately show ?thesis
        using far [OF m(1)] far [OF m(2)] unfolding not_newer16_dist by auto
    qed
    with False Cons.prems show ?thesis
      by (auto simp: sorted_tree_def not_newer16_def)
  qed
qed

lemma length_split_dropWhile:
  "word_of_nat (length xs) - word_of_nat (length xs - length (dropWhile P xs))
     = (word_of_nat (length (dropWhile P xs)) :: 'a::len word)"
proof -
  have "length (dropWhile P xs) \<le> length xs" by (rule length_dropWhile_le)
  then show ?thesis by (simp add: of_nat_diff)
qed

lemma next_is_higher: "seq_higher (m + 1) (m :: u16)"
  by (simp add: IsSeqHigherThan_swap seq_lower_dist16)

lemma dropped_below_next:
  assumes "v \<in> not_newer16 m"
  shows "v \<noteq> m + 1"
  using assms next_is_higher by (auto simp: not_newer16_def)

lemma not_newer_lower:
  assumes "v \<in> not_newer16 n" "v \<noteq> n"
  shows "seq_lower v n"
  using assms IsSeqLowerThan_total [of v n 0] by (auto simp: not_newer16_def IsSeqHigherThan_swap)

lemma last_dropWhile: "dropWhile P xs \<noteq> [] \<Longrightarrow> last (dropWhile P xs) = last xs"
  by (induction xs) auto

section \<open>One step\<close>

text \<open>How many numbers the next one is behind the last dropped one, if that is still known.\<close>

definition since_drop :: "u16 SeqManager \<Rightarrow> nat option" where
  "since_drop s =
     (if sm_dropped s = [] then None else Some (Suc (unat (sm_max_input s - last (sm_dropped s)))))"

lemma Input_done_next:
  assumes started: "sm_started s" and out: "input + base = sm_max_output s + 1"
    and max: "sm_max_input s = m \<or> sm_max_input s = m + 1" and input: "input = (m :: u16) + 1"
  shows "Input_done 0 input base s =
    (Some (sm_max_output s + 1 + sm_initial_output s),
     s\<lparr>sm_max_input := m + 1, sm_max_output := sm_max_output s + 1\<rparr>)"
proof -
  have "s\<lparr>sm_max_input := m + 1, sm_max_output := x\<rparr> = s\<lparr>sm_max_output := x\<rparr>"
    if "sm_max_input s = m + 1" for x using that by simp
  moreover have e: "m + 1 + base = sm_max_output s + 1" using out input by simp
  ultimately show ?thesis
    using started max next_is_higher [of m] next_is_higher [of "sm_max_output s"]
    unfolding Input_done_def and_MaxValue0 Let_def input e
    by (auto simp: IsSeqHigherThan_swap)
qed

lemma Input_next:
  assumes inv: "sm_inv s" and m: "m = sm_max_input s"
  shows "\<exists>b D. Input 0 (m + 1) s = (Some (sm_max_output s + 1 + sm_initial_output s),
      s\<lparr>sm_max_input := m + 1, sm_max_output := sm_max_output s + 1, sm_base := b, sm_dropped := D\<rparr>)
    \<and> sm_inv (snd (Input 0 (m + 1) s)) \<and> D = dropWhile (\<lambda>v. seq_higher v (m + 1)) (sm_dropped s)"
proof (cases "sm_dropped s = []")
  case True
  then have "Input 0 (m + 1) s = (Some (sm_max_output s + 1 + sm_initial_output s),
      s\<lparr>sm_max_input := m + 1, sm_max_output := sm_max_output s + 1\<rparr>)"
    using inv m Input_done_next [of s "m + 1" "sm_base s" m]
    unfolding Input_def by (simp add: sm_inv_def)
  then show ?thesis using inv True m by (intro exI [of _ "sm_base s"] exI [of _ "[]"])
      (simp add: sm_inv_def)
next
  case False
  let ?D = "sm_dropped s"
  define K where "K = dropWhile (\<lambda>v. seq_higher v (m + 1)) ?D"
  define b where "b = sm_base s - word_of_nat (length ?D - length K)"
  let ?s2 = "s\<lparr>sm_max_input := m + 1, sm_dropped := K, sm_base := b\<rparr>"
  have srt: "sorted_tree seq_lower (not_newer16 m) (\<lambda>k. k) ?D"
    and started: "sm_started s"
    and mo: "sm_max_output s = m + sm_base s - word_of_nat (length ?D)"
    using inv m by (simp_all add: sm_inv_def)
  have srtK: "sorted_tree seq_lower (not_newer16 (m + 1)) (\<lambda>k. k) K"
    unfolding K_def by (rule ClearDropped_step [OF srt])
  have s2: "ClearDropped 0 (s\<lparr>sm_max_input := m + 1\<rparr>) = ?s2"
    using False by (simp add: ClearDropped_def K_def b_def Let_def)
  have W: "m + 1 \<in> not_newer16 (m + 1)" by (simp add: not_newer16_dist)
  have K: "v \<noteq> m + 1" "seq_lower v (m + 1)" if "v \<in> set K" for v
  proof -
    have "v \<in> set ?D" using that set_dropWhileD unfolding K_def by fast
    then show "v \<noteq> m + 1" using srt dropped_below_next by (auto simp: sorted_tree_def)
    then show "seq_lower v (m + 1)" using srtK that by (intro not_newer_lower) (auto simp: sorted_tree_def)
  qed
  then have "m + 1 \<notin> (\<lambda>k. k) ` set K" by auto
  then have nf: "tree_find seq_lower (\<lambda>k. k) (m + 1) K = None"
    by (subst seq16_back.find_None_iff [OF srtK W])
  have lb: "lower_bound seq_lower (\<lambda>k. k) (m + 1) K = []"
    using K(2) by (simp add: lower_bound_def dropWhile_eq_Nil_conv)
  have split: "word_of_nat (length ?D) - word_of_nat (length ?D - length K) = (word_of_nat (length K) :: u16)"
    unfolding K_def by (rule length_split_dropWhile)
  have bK: "b = sm_base s - word_of_nat (length ?D) + word_of_nat (length K)"
    unfolding b_def split [symmetric] by simp
  have out: "m + 1 + (b - word_of_nat (length K)) = sm_max_output s + 1"
    unfolding bK mo by simp
  let ?r = "(Some (sm_max_output s + 1 + sm_initial_output s),
      s\<lparr>sm_max_input := m + 1, sm_max_output := sm_max_output s + 1, sm_base := b, sm_dropped := K\<rparr>)"
  have "Input 0 (m + 1) s = (if K = [] then Input_done 0 (m + 1) b ?s2
      else Input_done 0 (m + 1) (b - word_of_nat (length K)) ?s2)"
    using False started s2 nf lb m next_is_higher [of m]
    unfolding Input_def by (simp add: Let_def)
  moreover have "Input_done 0 (m + 1) (b - word_of_nat (length K)) ?s2 = ?r"
    using Input_done_next [of ?s2 "m + 1" "b - word_of_nat (length K)" m] out started by simp
  ultimately have r: "Input 0 (m + 1) s = ?r" by (cases "K = []") simp_all
  have "sm_inv (snd ?r)" using started srtK mo bK by (simp add: sm_inv_def)
  then show ?thesis using r by (intro exI [of _ b] exI [of _ K]) (simp add: K_def)
qed

lemma Drop_next:
  assumes inv: "sm_inv s" and m: "m = sm_max_input s" and recent: "\<forall>n. since_drop s = Some n \<longrightarrow> n \<le> 32767"
  shows "\<exists>b D. Drop 0 (m + 1) s = s\<lparr>sm_max_input := m + 1, sm_base := b, sm_dropped := D\<rparr>
    \<and> sm_inv (Drop 0 (m + 1) s) \<and> last D = m + 1 \<and> D \<noteq> []"
proof -
  let ?D = "sm_dropped s"
  have srt: "sorted_tree seq_lower (not_newer16 m) (\<lambda>k. k) ?D"
    and started: "sm_started s"
    and mo: "sm_max_output s = m + sm_base s - word_of_nat (length ?D)"
    using inv m by (simp_all add: sm_inv_def)
  have "seq_lower (last ?D) (m + 1)" if "?D \<noteq> []"
  proof -
    have "unat (m - last ?D) \<le> 32766" using recent that m by (simp add: since_drop_def)
    then show ?thesis using unat_step_dist [of m "last ?D"] by (simp add: seq_lower_dist16)
  qed
  then have e: "tree_emplace_back seq_lower (\<lambda>k. k) (m + 1) ?D = ?D @ [m + 1]"
    by (auto simp: tree_emplace_back_def)
  define P where "P = (\<lambda>v. seq_higher v (m + 1))"
  have P1: "\<not> P (m + 1)" by (simp add: P_def IsSeqHigherThan_swap)
  define K where "K = dropWhile P ?D"
  have dw: "dropWhile P (?D @ [m + 1]) = K @ [m + 1]"
    using P1 dropWhile_append1 dropWhile_append2 unfolding K_def
    by (cases "\<forall>x\<in>set ?D. P x") auto
  have lK: "length K \<le> length ?D" unfolding K_def by (rule length_dropWhile_le)
  define b where "b = sm_base s - word_of_nat (length ?D - length K)"
  have d: "Drop 0 (m + 1) s = s\<lparr>sm_max_input := m + 1, sm_base := b, sm_dropped := K @ [m + 1]\<rparr>"
    using next_is_higher [of m] e dw lK
    unfolding Drop_def ClearDropped_def m [symmetric] by (simp add: Let_def b_def P_def [symmetric])
  have srtK: "sorted_tree seq_lower (not_newer16 (m + 1)) (\<lambda>k. k) K"
    unfolding K_def P_def by (rule ClearDropped_step [OF srt])
  have "seq_lower v (m + 1)" if "v \<in> set K" for v
  proof -
    have "v \<in> set ?D" using that set_dropWhileD unfolding K_def by fast
    then have "v \<noteq> m + 1" using srt dropped_below_next by (auto simp: sorted_tree_def)
    then show ?thesis using srtK that by (intro not_newer_lower) (auto simp: sorted_tree_def)
  qed
  then have "sorted_tree seq_lower (not_newer16 (m + 1)) (\<lambda>k. k) (K @ [m + 1])"
    using srtK by (auto simp: sorted_tree_def sorted_wrt_append not_newer16_dist)
  moreover have split: "word_of_nat (length ?D) - word_of_nat (length ?D - length K) = (word_of_nat (length K) :: u16)"
    unfolding K_def by (rule length_split_dropWhile)
  have "b = sm_base s - word_of_nat (length ?D) + word_of_nat (length K)"
    unfolding b_def split [symmetric] by simp
  ultimately have "sm_inv (Drop 0 (m + 1) s)"
    using started mo unfolding d by (simp add: sm_inv_def)
  then show ?thesis using d by (intro exI [of _ b] exI [of _ "K @ [m + 1]"]) simp
qed

section \<open>A run of consecutive inputs\<close>

text \<open>
  Feeding the numbers after the newest input in order, dropping where the list says
  \<open>True\<close>; the result lists the numbers that come out.
\<close>

fun sm_run :: "bool list \<Rightarrow> u16 SeqManager \<Rightarrow> u16 option list \<times> u16 SeqManager" where
  "sm_run [] s = ([], s)"
| "sm_run (True # bs) s = sm_run bs (Drop 0 (GetMaxInput s + 1) s)"
| "sm_run (False # bs) s =
     (let (out, s1) = Input 0 (GetMaxInput s + 1) s; (outs, s2) = sm_run bs s1
      in (out # outs, s2))"

text \<open>
  No two drops that follow each other are more than 32767 numbers apart; the first argument says how
  far the next number is behind the last drop.
\<close>

fun drops_close :: "nat option \<Rightarrow> bool list \<Rightarrow> bool" where
  "drops_close n [] \<longleftrightarrow> True"
| "drops_close n (True # bs) \<longleftrightarrow> (case n of None \<Rightarrow> True | Some n \<Rightarrow> n \<le> 32767) \<and> drops_close (Some 1) bs"
| "drops_close n (False # bs) \<longleftrightarrow> drops_close (map_option Suc n) bs"

text \<open>A run may start later after a drop than is assumed of it, or without one.\<close>

definition no_later :: "nat option \<Rightarrow> nat option \<Rightarrow> bool" where
  "no_later n k \<longleftrightarrow> (\<forall>i. n = Some i \<longrightarrow> (\<exists>j. k = Some j \<and> i \<le> j))"

lemma sm_run_outputs:
  assumes "sm_inv s" "no_later (since_drop s) k" "drops_close k bs"
  shows "fst (sm_run bs s) =
    map (\<lambda>i. Some (GetMaxOutput s + sm_initial_output s + word_of_nat (Suc i)))
      [0..<length (filter Not bs)]"
  using assms
proof (induction bs arbitrary: s k)
  case Nil
  then show ?case by simp
next
  case (Cons d bs)
  define m where "m = sm_max_input s"
  show ?case
  proof (cases d)
    case True
    have r1: "\<forall>n. since_drop s = Some n \<longrightarrow> n \<le> 32767"
      using Cons.prems(2,3) True by (fastforce simp: no_later_def)
    obtain b D where D: "Drop 0 (m + 1) s = s\<lparr>sm_max_input := m + 1, sm_base := b, sm_dropped := D\<rparr>"
        "sm_inv (Drop 0 (m + 1) s)" "last D = m + 1" "D \<noteq> []"
      using Drop_next [OF Cons.prems(1) m_def r1] by metis
    have "no_later (since_drop (Drop 0 (m + 1) s)) (Some 1)"
      using D(1,3) by (simp add: no_later_def since_drop_def)
    from Cons.IH [OF D(2) this] Cons.prems(3) show ?thesis
      using True D(1) by (simp add: GetMaxInput_def GetMaxOutput_def m_def [symmetric])
  next
    case False
    obtain b D where D: "Input 0 (m + 1) s = (Some (sm_max_output s + 1 + sm_initial_output s),
        s\<lparr>sm_max_input := m + 1, sm_max_output := sm_max_output s + 1, sm_base := b, sm_dropped := D\<rparr>)"
        "sm_inv (snd (Input 0 (m + 1) s))" "D = dropWhile (\<lambda>v. seq_higher v (m + 1)) (sm_dropped s)"
      using Input_next [OF Cons.prems(1) m_def] by metis
    have step: "unat (m + 1 - last (sm_dropped s)) \<le> Suc (unat (m - last (sm_dropped s)))"
      using unat_step_dist [of m "last (sm_dropped s)"] u16_bound [of "m + 1 - last (sm_dropped s)"]
      by (cases "unat (m - last (sm_dropped s)) < 65535") auto
    have "D = [] \<or> last D = last (sm_dropped s) \<and> sm_dropped s \<noteq> []"
      unfolding D(3) by (metis last_dropWhile dropWhile.simps(1))
    then have "no_later (since_drop (snd (Input 0 (m + 1) s))) (map_option Suc k)"
      using Cons.prems(2) D(1) step by (auto simp: no_later_def since_drop_def m_def)
    note IH = Cons.IH [OF D(2) this]
    let ?f = "\<lambda>i. Some (sm_max_output s + sm_initial_output s + word_of_nat (Suc i))"
    have "fst (sm_run bs (snd (Input 0 (m + 1) s))) = map (\<lambda>i. ?f (Suc i)) [0..<length (filter Not bs)]"
      using IH Cons.prems(3) False D(1) by (simp add: GetMaxOutput_def algebra_simps)
    then have "fst (sm_run (d # bs) s) = ?f 0 # map (\<lambda>i. ?f (Suc i)) [0..<length (filter Not bs)]"
      using False D(1) by (simp add: GetMaxInput_def m_def [symmetric] case_prod_beta add_ac)
    then show ?thesis
      using False map_upt_Suc [of ?f "length (filter Not bs)"]
      by (simp add: GetMaxOutput_def del: upt_Suc)
  qed
qed

text \<open>
  Claim C16. From any well-formed state, such as the one after the first number, a stream whose numbers
  follow each other leaves the sequence manager without gaps, as long as no drop comes more than 32767
  numbers after the drop before it: however many numbers come and whichever of them are dropped, those
  that come out follow each other, starting after the newest output.
\<close>

theorem sm_run_contiguous:
  assumes "sm_inv s" and "drops_close (since_drop s) bs"
  shows "fst (sm_run bs s) =
    map (\<lambda>i. Some (GetMaxOutput s + sm_initial_output s + word_of_nat (Suc i)))
      [0..<length (filter Not bs)]"
  using sm_run_outputs [OF assms(1) _ assms(2)] by (simp add: no_later_def)

text \<open>
  A number that was dropped and has not become stale gets no output, and asking for
  it changes neither the newest input nor the newest output.
\<close>

lemma Input_dropped:
  assumes inv: "sm_inv s" and d: "input \<in> set (sm_dropped s)"
  shows "fst (Input 0 input s) = None
    \<and> GetMaxInput (snd (Input 0 input s)) = GetMaxInput s
    \<and> GetMaxOutput (snd (Input 0 input s)) = GetMaxOutput s"
proof -
  let ?D = "sm_dropped s" and ?m = "sm_max_input s"
  have srt: "sorted_tree seq_lower (not_newer16 ?m) (\<lambda>k. k) ?D" using inv by (simp add: sm_inv_def)
  have W: "v \<in> not_newer16 ?m" if "v \<in> set ?D" for v using srt that by (auto simp: sorted_tree_def)
  then have nh: "\<not> seq_higher v ?m" if "v \<in> set ?D" for v using that by (simp add: not_newer16_def)
  have ne: "?D \<noteq> []" using d by auto
  have "dropWhile (\<lambda>v. seq_higher v ?m) ?D = ?D" using nh ne by (cases ?D) auto
  then have c: "ClearDropped 0 s = s" by (simp add: ClearDropped_def Let_def)
  have "input \<in> (\<lambda>k. k) ` set ?D" using d by auto
  then have "tree_find seq_lower (\<lambda>k. k) input ?D \<noteq> None"
    using seq16_back.find_None_iff [OF srt W [OF d]] by simp
  then have "Input 0 input s = (None, s)" using ne c nh [OF d] by (auto simp: Input_def Let_def)
  then show ?thesis by simp
qed

section \<open>Two drops half a circle apart\<close>

lemma sm_run_append:
  "sm_run (as @ bs) s = (let (o1, s1) = sm_run as s; (o2, s2) = sm_run bs s1 in (o1 @ o2, s2))"
proof (induction as arbitrary: s)
  case (Cons a as)
  then show ?case by (cases a) (simp_all add: split_beta Let_def)
qed simp

text \<open>While nothing is dropped, one number stays in the set for 32767 inputs.\<close>

lemma sm_run_one_dropped:
  assumes "sm_inv s" "sm_dropped s = [d]" "unat (sm_max_input s - d) + n \<le> 32767"
  shows "snd (sm_run (replicate n False) s) =
      s\<lparr>sm_max_input := sm_max_input s + word_of_nat n, sm_max_output := sm_max_output s + word_of_nat n\<rparr>
    \<and> sm_inv (snd (sm_run (replicate n False) s))"
  using assms
proof (induction n arbitrary: s)
  case 0
  then show ?case by simp
next
  case (Suc n)
  define m where "m = sm_max_input s"
  obtain b D where D: "Input 0 (m + 1) s = (Some (sm_max_output s + 1 + sm_initial_output s),
      s\<lparr>sm_max_input := m + 1, sm_max_output := sm_max_output s + 1, sm_base := b, sm_dropped := D\<rparr>)"
      "sm_inv (snd (Input 0 (m + 1) s))" "D = dropWhile (\<lambda>v. seq_higher v (m + 1)) (sm_dropped s)"
    using Input_next [OF Suc.prems(1) m_def] by metis
  let ?s = "s\<lparr>sm_max_input := m + 1, sm_max_output := sm_max_output s + 1\<rparr>"
  have dist: "unat (m + 1 - d) = Suc (unat (m - d))"
    using unat_step_dist [of m d] Suc.prems(3) by (auto simp: m_def)
  then have "\<not> seq_higher d (m + 1)"
    using Suc.prems(3) u16_bound [of "d - (m + 1)"] unat_diff_cases [of d "m + 1"] unat_diff_cases [of "m + 1" d]
    by (auto simp: IsSeqHigherThan_swap seq_lower_dist16 m_def split: if_splits)
  then have d: "D = [d]" using D(3) Suc.prems(2) by simp
  have "b = sm_base s"
    using Suc.prems(1,2) D(1,2) by (simp add: sm_inv_def d m_def)
  then have i: "snd (Input 0 (m + 1) s) = ?s" "sm_inv ?s" "sm_dropped ?s = [d]"
    using D(1,2) Suc.prems(2) d by (simp_all add: sm_inv_def)
  have "unat (sm_max_input ?s - d) + n \<le> 32767" using dist Suc.prems(3) by (simp add: m_def)
  note IH = Suc.IH [OF i(2,3) this]
  have run: "snd (sm_run (replicate (Suc n) False) s) = snd (sm_run (replicate n False) ?s)"
    using i(1) by (simp add: GetMaxInput_def m_def [symmetric] split_beta)
  have "sm_inv (snd (sm_run (replicate n False) ?s))" using IH by (rule conjunct2)
  moreover have "snd (sm_run (replicate n False) ?s) = s\<lparr>sm_max_input := sm_max_input s + word_of_nat (Suc n),
      sm_max_output := sm_max_output s + word_of_nat (Suc n)\<rparr>"
    using IH [THEN conjunct1] by (simp add: m_def add_ac)
  ultimately show ?case unfolding run by simp
qed

lemma half_circle_lower: "seq_lower d (d + 32768) \<longleftrightarrow> 32768 \<le> (d :: u16)"
proof -
  have "unat (d + 32768) = (unat d + 32768) mod 65536" by (simp add: unat_word_ariths)
  also have "\<dots> = (if unat d < 32768 then unat d + 32768 else unat d - 32768)"
    using u16_bound [of d] by (auto simp: mod_if)
  finally have "unat (d + 32768) = (if unat d < 32768 then unat d + 32768 else unat d - 32768)" .
  then show ?thesis by (simp add: seq_lower_dist16 word_less_nat_alt word_le_nat_alt)
qed

text \<open>
  Claim C17. The bound of the previous statement is exact. From any well-formed state in which nothing is
  dropped, such as the one after the first number, let a number be dropped, the 32767 numbers behind it
  come, the next one be dropped as well and one more come: if the first dropped number is below 32768,
  the last output leaves a hole of one; from 32768 on there is none.
\<close>

theorem Drop_half_circle_gap:
  assumes "sm_inv s" and "sm_dropped s = []"
  shows "last (fst (sm_run ([True] @ replicate 32767 False @ [True, False]) s)) =
    Some (GetMaxOutput s + sm_initial_output s + (if GetMaxInput s + 1 < 32768 then 32769 else 32768))"
proof -
  define d where "d = sm_max_input s + 1"
  define b where "b = sm_base s"
  let ?s1 = "s\<lparr>sm_max_input := d, sm_dropped := [d]\<rparr>"
  have mo: "sm_max_output s = d - 1 + b" and started: "sm_started s"
    using assms by (simp_all add: sm_inv_def d_def b_def)
  have s1: "Drop 0 (GetMaxInput s + 1) s = ?s1"
    using assms(2) next_is_higher [of "sm_max_input s"]
    by (simp add: Drop_def ClearDropped_def GetMaxInput_def d_def tree_emplace_back_def IsSeqHigherThan_swap)
  have inv1: "sm_inv ?s1"
    using started mo by (simp add: sm_inv_def sorted_tree_def not_newer16_dist b_def)
  let ?s2 = "?s1\<lparr>sm_max_input := d + 32767, sm_max_output := sm_max_output s + 32767\<rparr>"
  have s2: "snd (sm_run (replicate 32767 False) ?s1) = ?s2"
    using sm_run_one_dropped [OF inv1, of d 32767] by simp
  define e where "e = d + 32768"
  have e: "GetMaxInput ?s2 + 1 = e" "d + 32767 = e - 1" by (simp_all add: GetMaxInput_def e_def)
  let ?D = "if 32768 \<le> d then [d, e] else [e, d]"
  let ?s3 = "?s2\<lparr>sm_max_input := e, sm_dropped := ?D\<rparr>"
  have self: "\<not> seq_lower e d" if "32768 \<le> d"
    using that half_circle_lower [of d] IsSeqLowerThan_asym unfolding e_def by blast
  have up: "seq_lower (e - 1) e" using next_is_higher [of "e - 1"] by (simp add: IsSeqHigherThan_swap)
  have "tree_emplace_back seq_lower (\<lambda>k. k) e [d] = ?D"
    using half_circle_lower [of d] IsSeqLowerThan_total [of d e 0] unfolding e_def
    by (auto simp: tree_emplace_back_def)
  then have "Drop 0 e ?s2 = ?s3"
    using up self by (simp add: e(2) Drop_def ClearDropped_def IsSeqHigherThan_swap Let_def)
  then have s3: "Drop 0 (GetMaxInput ?s2 + 1) ?s2 = ?s3" unfolding e(1) .
  define f where "f = e + 1"
  have f: "GetMaxInput ?s3 + 1 = f" by (simp add: GetMaxInput_def f_def)
  have ef: "seq_lower e f" using next_is_higher [of e] by (simp add: IsSeqHigherThan_swap f_def)
  have fd: "seq_lower f d" "f \<noteq> d" "f \<noteq> e" by (simp_all add: seq_lower_dist16 f_def e_def)
  note next3 = ef fd IsSeqLowerThan_asym [OF ef] IsSeqLowerThan_asym [OF fd(1)]
  have out: "f + (b - 1) = sm_max_output s + 32769" "f + (b - 2) = sm_max_output s + 32768"
    by (simp_all add: f_def e_def mo)
  have "fst (Input 0 f ?s3)
      = Some (GetMaxOutput s + sm_initial_output s + (if d < 32768 then 32769 else 32768))"
    using next3 started out
    by (cases "32768 \<le> d")
      (simp_all add: Input_def Input_done_def ClearDropped_def GetMaxOutput_def
        tree_find_def lower_bound_def Let_def IsSeqHigherThan_swap b_def)
  moreover have "last (fst (sm_run ([True] @ replicate 32767 False @ [True, False]) s)) = fst (Input 0 f ?s3)"
    unfolding f [symmetric] using s1 s2 s3 by (simp add: sm_run_append split_beta)
  ultimately show ?thesis by (simp add: d_def GetMaxInput_def)
qed

lemma Drop_half_circle_gap_witness:
  "last (fst (sm_run ([True] @ replicate 32767 False @ [True, False]) (snd (Input 0 10 (SeqManager_init 0))))) =
     Some (10 + 32769)"
proof -
  let ?s = "snd (Input 0 10 (SeqManager_init (0 :: u16)))"
  have f: "GetMaxOutput ?s = 10" "GetMaxInput ?s = 10" "sm_initial_output ?s = 0"
    by (simp_all add: Input_def Input_done_def SeqManager_init_def GetMaxOutput_def GetMaxInput_def)
  have "last (fst (sm_run ([True] @ replicate 32767 False @ [True, False]) ?s))
      = Some (GetMaxOutput ?s + sm_initial_output ?s + (if GetMaxInput ?s + 1 < 32768 then 32769 else 32768))"
    by (rule Drop_half_circle_gap [OF sm_first_input])
  also have "\<dots> = Some (10 + 32769)" unfolding f by simp
  finally show ?thesis .
qed

lemma sm_run_contiguous_witness:
  "fst (sm_run [False, True, False] (Sync 0 10 ((SeqManager_init 0)\<lparr>sm_started := True,
      sm_max_output := 5\<rparr>))) = [Some 6, Some 7]"
  using sm_run_contiguous [of "Sync 0 10 ((SeqManager_init 0)\<lparr>sm_started := True,
      sm_max_output := 5\<rparr>)" "[False, True, False]"]
  by (simp add: sm_inv_Sync SeqManager_init_def since_drop_def Sync_def GetMaxOutput_def sm_inv_def)

lemma Input_dropped_witness:
  "fst (Input 0 9 ((SeqManager_init (0 :: u16))\<lparr>sm_started := True, sm_max_output := 9,
      sm_max_input := 10, sm_dropped := [9]\<rparr>)) = None"
  using Input_dropped [of "(SeqManager_init 0)\<lparr>sm_started := True, sm_max_output := 9,
      sm_max_input := 10, sm_dropped := [9]\<rparr>" 9]
  by (simp add: SeqManager_init_def sm_inv_def sorted_tree_def not_newer16_dist)

end
