(* ===== verification/Rtp_Stream.thy ===== *)
theory Rtp_Stream
  imports Complex_Main Rtp_Packet Seq_Order
begin

text \<open>
  The base class \<^verbatim>\<open>RtpStream\<close> (\<^verbatim>\<open>core/include/rtc/rtp_stream.h\<close>,
  \<^verbatim>\<open>core/src/rtc/rtp_stream.cpp\<close>): validation of the sequence numbers of one stream. The
  records of the sending and the receiving stream extend the record here, as the classes do.
  An address is its bytes; \<open>now\<close> is the clock of the call. The pointers to the listener,
  the thread and the next stream, which no operation here uses, are left out.
\<close>

section \<open>State\<close>

definition kMaxDropout :: u16 where "kMaxDropout = 3000"
definition kMaxMisorder :: u16 where "kMaxMisorder = 1500"
definition kRtpSeqMod :: u32 where "kRtpSeqMod = 65536"

record Params =
  p_ssrc :: u32
  p_payload_type :: u8
  p_clock_rate :: u32
  p_use_nack :: bool

record RtpStream =
  params :: Params
  udp_remote_addr :: "u8 list"
  max_seq :: u16
  cycles :: u32
  base_seq :: u32
  bad_seq :: u32
  max_packet_ts :: u32
  max_packet_ms :: u64
  packets_discarded :: u64
  rtt_ms :: rat
  packets_lost :: u32
  last_sender_report_ntp_ms :: u64
  last_sender_report_ts :: u32
  fraction_lost :: u8
  stream_started :: bool

definition RtpStream_init :: "Params \<Rightarrow> RtpStream" where
  "RtpStream_init ps =
     \<lparr>params = ps, udp_remote_addr = [], max_seq = 0, cycles = 0, base_seq = 0, bad_seq = 0,
      max_packet_ts = 0, max_packet_ms = 0, packets_discarded = 0, rtt_ms = 0, packets_lost = 0,
      last_sender_report_ntp_ms = 0, last_sender_report_ts = 0, fraction_lost = 0,
      stream_started = False\<rparr>"

definition StreamGetSsrc :: "'a RtpStream_scheme \<Rightarrow> u32" where
  "StreamGetSsrc s = p_ssrc (params s)"
definition StreamGetPayloadType :: "'a RtpStream_scheme \<Rightarrow> u8" where
  "StreamGetPayloadType s = p_payload_type (params s)"
definition GetClockRate :: "'a RtpStream_scheme \<Rightarrow> u32" where
  "GetClockRate s = p_clock_rate (params s)"
definition GetUdpRemoteTargetAddr :: "'a RtpStream_scheme \<Rightarrow> u8 list" where
  "GetUdpRemoteTargetAddr s = udp_remote_addr s"
definition SetUdpRemoteTargetAddr :: "u8 list \<Rightarrow> 'a RtpStream_scheme \<Rightarrow> 'a RtpStream_scheme" where
  "SetUdpRemoteTargetAddr a s = s\<lparr>udp_remote_addr := a\<rparr>"

section \<open>Validation\<close>

definition InitSequence :: "u16 \<Rightarrow> 'a RtpStream_scheme \<Rightarrow> 'a RtpStream_scheme" where
  "InitSequence seq s = s\<lparr>base_seq := ucast seq, max_seq := seq, bad_seq := kRtpSeqMod + 1\<rparr>"

definition UpdateSequence ::
  "u64 \<Rightarrow> RtpPacket \<Rightarrow> 'a RtpStream_scheme \<Rightarrow> bool \<times> 'a RtpStream_scheme"
where
  "UpdateSequence now p s =
     (let seq = GetSequenceNumber p;
          udelta = seq - max_seq s
      in if udelta < kMaxDropout then
           (True, (if seq < max_seq s then s\<lparr>cycles := cycles s + kRtpSeqMod\<rparr> else s)\<lparr>max_seq := seq\<rparr>)
         else if ucast udelta \<le> kRtpSeqMod - ucast kMaxMisorder then
           (if ucast seq = bad_seq s
            then (True, (InitSequence seq s)\<lparr>max_packet_ts := GetTimestamp p, max_packet_ms := now\<rparr>)
            else (False, s\<lparr>bad_seq := (ucast seq + 1) AND (kRtpSeqMod - 1),
                           packets_discarded := packets_discarded s + 1\<rparr>))
         else (True, s))"

definition ReceiveStreamPacket ::
  "u64 \<Rightarrow> RtpPacket \<Rightarrow> 'a RtpStream_scheme \<Rightarrow> bool \<times> 'a RtpStream_scheme"
where
  "ReceiveStreamPacket now p s =
     (let seq = GetSequenceNumber p;
          s1 = (if \<not> stream_started s
                then (InitSequence seq s)\<lparr>stream_started := True, max_seq := seq - 1,
                       max_packet_ts := GetTimestamp p, max_packet_ms := now\<rparr>
                else s);
          (valid, s2) = UpdateSequence now p s1
      in if \<not> valid then (False, s2)
         else if seq_higher (GetTimestamp p) (max_packet_ts s2)
         then (True, s2\<lparr>max_packet_ts := GetTimestamp p, max_packet_ms := now\<rparr>)
         else (True, s2))"

section \<open>The extended sequence number\<close>

text \<open>
  The specification: the highest number received, extended by the number of cycles, as
  RFC 3550 keeps it.
\<close>

definition ext_max :: "'a RtpStream_scheme \<Rightarrow> u32" where
  "ext_max s = cycles s + ucast (max_seq s)"

lemma UpdateSequence_in_order:
  assumes "GetSequenceNumber p - max_seq s < kMaxDropout"
  shows "fst (UpdateSequence now p s)"
    and "ext_max (snd (UpdateSequence now p s)) = ext_max s + ucast (GetSequenceNumber p - max_seq s)"
    and "max_seq (snd (UpdateSequence now p s)) = GetSequenceNumber p"
    and "stream_started (snd (UpdateSequence now p s)) = stream_started s"
    and "base_seq (snd (UpdateSequence now p s)) = base_seq s"
proof -
  let ?q = "GetSequenceNumber p"
  let ?s = "(if ?q < max_seq s then s\<lparr>cycles := cycles s + kRtpSeqMod\<rparr> else s)\<lparr>max_seq := ?q\<rparr>"
  have u: "UpdateSequence now p s = (True, ?s)"
    using assms by (simp only: UpdateSequence_def Let_def if_True)
  have "ext_max ?s = cycles s + (ucast ?q + (if ?q < max_seq s then 65536 else 0))"
    by (simp add: ext_max_def kRtpSeqMod_def)
  also have "\<dots> = ext_max s + ucast (?q - max_seq s)"
    unfolding ucast_step by (simp only: ext_max_def add.assoc)
  finally show "ext_max (snd (UpdateSequence now p s)) = ext_max s + ucast (?q - max_seq s)"
    by (simp only: u snd_conv)
qed (use assms in \<open>simp_all add: UpdateSequence_def Let_def\<close>)

text \<open>
  A packet ahead of the highest number by less than the permitted gap is accepted,
  and moves the extended highest number forward by exactly its distance, across the wrap of
  the 16-bit number too.
\<close>

lemma ReceiveStreamPacket_in_order:
  assumes started: "stream_started s" and gap: "GetSequenceNumber p - max_seq s < kMaxDropout"
  shows "\<exists>s'. ReceiveStreamPacket now p s = (True, s') \<and> max_seq s' = GetSequenceNumber p
    \<and> ext_max s' = ext_max s + ucast (GetSequenceNumber p - max_seq s) \<and> base_seq s' = base_seq s"
proof -
  obtain v s2 where u: "UpdateSequence now p s = (v, s2)" by fastforce
  note facts = UpdateSequence_in_order [OF gap, of now, unfolded u fst_conv snd_conv]
  show ?thesis using started facts u
    by (auto simp: ReceiveStreamPacket_def ext_max_def Let_def)
qed

text \<open>
  Only two sequential packets can move the stream far: a rejected packet changes
  nothing but the counters of rejections, and of the packets outside the permitted window the
  next one accepted is its direct successor.
\<close>

lemma ReceiveStreamPacket_resync:
  assumes started: "stream_started s" and rej: "ReceiveStreamPacket now p s = (False, s')"
  shows "max_seq s' = max_seq s \<and> ext_max s' = ext_max s \<and> packets_discarded s' = packets_discarded s + 1
    \<and> (fst (ReceiveStreamPacket now' q s') \<longleftrightarrow>
        GetSequenceNumber q - max_seq s < kMaxDropout
        \<or> 64036 < unat (GetSequenceNumber q - max_seq s)
        \<or> GetSequenceNumber q = GetSequenceNumber p + 1)"
proof -
  have bad: "(ucast x + 1 :: u32) AND 65535 = ucast (x + 1)" for x :: u16
  proof (rule word_unat_eq_iff [THEN iffD2])
    have m: "(65535 :: u32) = mask 16" by (simp add: mask_eq_exp_minus_1)
    have "unat (ucast x + 1 :: u32) = Suc (unat x)"
      using u16_bound [of x] unat_plus_one [of "ucast x :: u32"] by (simp add: unat_ucast_16_32)
    then have "unat ((ucast x + 1 :: u32) AND 65535) = take_bit 16 (Suc (unat x))"
      unfolding m by (simp flip: take_bit_eq_mask add: unsigned_take_bit_eq)
    also have "\<dots> = unat (x + 1)" by (simp add: unat_word_ariths take_bit_eq_mod)
    finally show "unat ((ucast x + 1 :: u32) AND 65535) = unat (ucast (x + 1) :: u32)"
      by (simp add: unat_ucast_16_32)
  qed
  have s': "s' = s\<lparr>bad_seq := ucast (GetSequenceNumber p + 1), packets_discarded := packets_discarded s + 1\<rparr>"
    using started rej bad [of "GetSequenceNumber p"]
    by (auto simp: ReceiveStreamPacket_def UpdateSequence_def Let_def kRtpSeqMod_def
        split: if_splits prod.splits)
  have mid: "(ucast d :: u32) \<le> 64036 \<longleftrightarrow> unat d \<le> 64036" for d :: u16
    by (simp add: word_le_nat_alt unat_ucast_16_32)
  have eq: "(ucast a :: u32) = ucast b \<longleftrightarrow> a = b" for a b :: u16
    by (metis unat_ucast_16_32 word_unat_eq_iff)
  have "fst (ReceiveStreamPacket now' q s') = fst (UpdateSequence now' q s')"
    using started by (auto simp: ReceiveStreamPacket_def s' Let_def split: prod.splits)
  also have "\<dots> \<longleftrightarrow> GetSequenceNumber q - max_seq s < kMaxDropout
        \<or> 64036 < unat (GetSequenceNumber q - max_seq s)
        \<or> GetSequenceNumber q = GetSequenceNumber p + 1"
    by (auto simp: UpdateSequence_def s' Let_def kRtpSeqMod_def kMaxMisorder_def mid eq not_less)
  finally show ?thesis by (simp add: s' ext_max_def)
qed

text \<open>
  The first packet of a stream is accepted and its number is the base. The extended
  highest number equals the base, except for a first packet numbered zero, which the code
  takes for a wrap and counts as one cycle of 65536.
\<close>

lemma ReceiveStreamPacket_first:
  "\<exists>s'. ReceiveStreamPacket now p (RtpStream_init ps) = (True, s') \<and> stream_started s'
    \<and> max_seq s' = GetSequenceNumber p \<and> base_seq s' = ucast (GetSequenceNumber p)
    \<and> ext_max s' = base_seq s' + (if GetSequenceNumber p = 0 then 65536 else 0)"
proof -
  let ?q = "GetSequenceNumber p"
  have lt: "?q < ?q - 1 \<longleftrightarrow> ?q = 0"
  proof (cases "?q = 0")
    case False
    then have "unat (?q - 1) = unat ?q - 1" by (simp add: unat_minus_one)
    with False show ?thesis by (simp add: word_less_nat_alt)
  next
    case True
    then show ?thesis by (simp add: word_gt_0)
  qed
  show ?thesis
    by (simp add: ReceiveStreamPacket_def UpdateSequence_def InitSequence_def RtpStream_init_def
        ext_max_def kMaxDropout_def kRtpSeqMod_def Let_def lt IsSeqHigherThan_swap)
qed

section \<open>Concrete instances\<close>

lemma ReceiveStreamPacket_in_order_witness:
  "\<exists>s'. ReceiveStreamPacket 5 (rtp_sample 2 7)
      ((RtpStream_init \<lparr>p_ssrc = 1, p_payload_type = 100, p_clock_rate = 16000, p_use_nack = True\<rparr>)
        \<lparr>stream_started := True, max_seq := 65534\<rparr>) = (True, s') \<and> ext_max s' = 65538"
  using ReceiveStreamPacket_in_order [of "(RtpStream_init \<lparr>p_ssrc = 1, p_payload_type = 100,
      p_clock_rate = 16000, p_use_nack = True\<rparr>)\<lparr>stream_started := True, max_seq := 65534\<rparr>"
      "rtp_sample 2 7" 5]
  by (auto simp: kMaxDropout_def ext_max_def RtpStream_init_def)

lemma ReceiveStreamPacket_resync_witness:
  "fst (ReceiveStreamPacket 6 (rtp_sample 30001 7) (snd (ReceiveStreamPacket 5 (rtp_sample 30000 7)
      ((RtpStream_init \<lparr>p_ssrc = 1, p_payload_type = 100, p_clock_rate = 16000, p_use_nack = True\<rparr>)
        \<lparr>stream_started := True\<rparr>))))"
proof -
  let ?s = "(RtpStream_init \<lparr>p_ssrc = 1, p_payload_type = 100, p_clock_rate = 16000,
      p_use_nack = True\<rparr>)\<lparr>stream_started := True\<rparr>"
  have "fst (ReceiveStreamPacket 5 (rtp_sample 30000 7) ?s) = False"
    by (simp add: ReceiveStreamPacket_def UpdateSequence_def RtpStream_init_def Let_def
        kMaxDropout_def kMaxMisorder_def kRtpSeqMod_def)
  then have "ReceiveStreamPacket 5 (rtp_sample 30000 7) ?s =
      (False, snd (ReceiveStreamPacket 5 (rtp_sample 30000 7) ?s))"
    by (metis prod.collapse)
  from ReceiveStreamPacket_resync [OF _ this, of 6 "rtp_sample 30001 7"] show ?thesis by simp
qed

end
