(* ===== verification/Float32.thy ===== *)
theory Float32
  imports Complex_Main "HOL-Library.Log_Nat"
begin

text \<open>
  The type \<^verbatim>\<open>float\<close>, which \<^verbatim>\<open>RateCalculator\<close> and \<^verbatim>\<open>RtpStream\<close> compute with. Its values are
  rationals, and \<open>fl32\<close> is the rounding of a result to IEEE binary32: the nearest number of 24
  significant bits, ties to the even one. Every value the program computes is zero or between
  \<open>2\<^sup>-\<^sup>2\<^sup>0\<close> and \<open>2\<^sup>1\<^sup>0\<^sup>0\<close>, so subnormal numbers, overflow and infinities do not occur. A
  conversion to an unsigned integer takes the floor.
\<close>

section \<open>Definitions\<close>

definition round_half_even :: "rat \<Rightarrow> int" where
  "round_half_even x =
     (let f = \<lfloor>x\<rfloor>; r = x - of_int f
      in if r < 1 / 2 then f else if r > 1 / 2 then f + 1 else if even f then f else f + 1)"

text \<open>The unit in the last place of a positive number.\<close>

definition float_ulp :: "rat \<Rightarrow> rat" where
  "float_ulp q =
     (if q \<ge> 1
      then (let e = floorlog 2 (nat \<lfloor>q\<rfloor>) - 1
            in if e \<ge> 23 then 2 ^ (e - 23) else 1 / 2 ^ (23 - e))
      else 1 / 2 ^ (23 + floorlog 2 (nat (\<lceil>1 / q\<rceil> - 1))))"

definition fl32 :: "rat \<Rightarrow> rat" where
  "fl32 q =
     (if q = 0 then 0
      else (let u = float_ulp \<bar>q\<bar>
            in (if q < 0 then - 1 else 1) * of_int (round_half_even (\<bar>q\<bar> / u)) * u))"

section \<open>The rounding error\<close>

lemma round_half_even_error: "\<bar>of_int (round_half_even x) - x\<bar> \<le> 1 / 2"
proof -
  have "of_int \<lfloor>x\<rfloor> \<le> x" "x < of_int \<lfloor>x\<rfloor> + 1" by linarith+
  then show ?thesis unfolding round_half_even_def Let_def by (auto simp: abs_le_iff)
qed

lemma round_half_even_int [simp]: "round_half_even (of_int n) = n"
  by (simp add: round_half_even_def)

lemma floorlog_lower: "n > 0 \<Longrightarrow> 2 ^ (floorlog 2 n - 1) \<le> n"
  using floorlog_bounds [of n 2] by simp

lemma float_ulp_pos [simp]: "float_ulp q > 0"
  by (simp add: float_ulp_def Let_def)

lemma float_ulp_le:
  assumes "q > 0"
  shows "float_ulp q * 2 ^ 23 \<le> q"
proof (cases "q \<ge> 1")
  case True
  let ?n = "nat \<lfloor>q\<rfloor>" and ?e = "floorlog 2 (nat \<lfloor>q\<rfloor>) - 1"
  have n: "?n > 0" using True by simp
  have "(2 :: rat) ^ ?e \<le> of_nat ?n"
    using floorlog_lower [OF n] by (metis of_nat_le_iff of_nat_numeral of_nat_power)
  also have "\<dots> \<le> q" using True by (simp add: of_nat_nat)
  finally have e: "(2 :: rat) ^ ?e \<le> q" .
  show ?thesis
  proof (cases "?e \<ge> 23")
    case big: True
    then have "(2 :: rat) ^ (?e - 23) * 2 ^ 23 = 2 ^ ?e"
      by (subst power_add [symmetric]) (simp only: le_add_diff_inverse2)
    then show ?thesis using True big e by (simp add: float_ulp_def Let_def)
  next
    case False
    then have "(2 :: rat) ^ 23 = 2 ^ (23 - ?e) * 2 ^ ?e"
      by (subst power_add [symmetric]) simp
    then have "float_ulp q * 2 ^ 23 = 2 ^ ?e"
      using True False by (simp only: float_ulp_def Let_def if_True if_False) (simp add: divide_eq_eq mult.commute)
    then show ?thesis using e by simp
  qed
next
  case False
  let ?n = "nat (\<lceil>1 / q\<rceil> - 1)"
  have "?n < 2 ^ floorlog 2 ?n"
    using floorlog_bounds [of ?n 2] by (cases "?n > 0") auto
  then have "\<lceil>1 / q\<rceil> \<le> 2 ^ floorlog 2 ?n"
    using False assms by (simp add: nat_less_iff)
  then have "1 / q \<le> of_int (2 ^ floorlog 2 ?n)" by (simp add: ceiling_le_iff)
  then have "1 \<le> q * 2 ^ floorlog 2 ?n" using assms by (simp add: field_simps)
  then have "1 / 2 ^ floorlog 2 ?n \<le> q" by (simp add: field_simps)
  then show ?thesis using False by (simp add: float_ulp_def power_add)
qed

lemma fl32_zero [simp]: "fl32 0 = 0" by (simp add: fl32_def)

lemma fl32_error: "\<bar>fl32 q - q\<bar> \<le> \<bar>q\<bar> / 2 ^ 24"
proof (cases "q = 0")
  case False
  let ?u = "float_ulp \<bar>q\<bar>" and ?r = "round_half_even (\<bar>q\<bar> / float_ulp \<bar>q\<bar>)"
  have u: "?u > 0" "?u * 2 ^ 23 \<le> \<bar>q\<bar>" using float_ulp_le [of "\<bar>q\<bar>"] False by auto
  have "\<bar>of_int ?r * ?u - \<bar>q\<bar>\<bar> = \<bar>of_int ?r - \<bar>q\<bar> / ?u\<bar> * ?u"
    using u(1) less_imp_neq [OF u(1)]
    by (subst abs_mult_pos) (auto simp: left_diff_distrib less_imp_le)
  also have "\<dots> \<le> 1 / 2 * ?u"
    by (intro mult_right_mono round_half_even_error) (simp add: less_imp_le)
  also have "\<dots> \<le> \<bar>q\<bar> / 2 ^ 24" using u(2) by simp
  finally have "\<bar>of_int ?r * ?u - \<bar>q\<bar>\<bar> \<le> \<bar>q\<bar> / 2 ^ 24" .
  then show ?thesis using False by (auto simp: fl32_def Let_def abs_if split: if_splits)
qed simp

lemma fl32_nonneg: "q \<ge> 0 \<Longrightarrow> fl32 q \<ge> 0"
proof -
  assume q: "q \<ge> 0"
  have "\<bar>fl32 q - q\<bar> \<le> q / 2 ^ 24" using fl32_error [of q] q by simp
  then have "q - fl32 q \<le> q / 2 ^ 24" by linarith
  moreover have "q / 2 ^ 24 \<le> q" using q by simp
  ultimately show "fl32 q \<ge> 0" by linarith
qed

text \<open>Integers of at most 24 bits are exact.\<close>

lemma fl32_of_nat:
  assumes "n < 2 ^ 24"
  shows "fl32 (of_nat n) = of_nat n"
proof (cases "n = 0")
  case False
  let ?e = "floorlog 2 n - 1"
  have n: "n > 0" using False by simp
  have "(2 :: nat) ^ ?e < 2 ^ 24" using floorlog_lower [OF n] assms by linarith
  then have e: "?e < 24" by (simp only: power_strict_increasing_iff)
  have u: "float_ulp (of_nat n) = 1 / 2 ^ (23 - ?e)"
    using e n by (cases "?e = 23") (auto simp: float_ulp_def Let_def)
  have q: "of_nat n / float_ulp (of_nat n) = (of_int (int n * 2 ^ (23 - ?e)) :: rat)" by (simp add: u)
  have "fl32 (of_nat n) = of_int (round_half_even (of_nat n / float_ulp (of_nat n))) * float_ulp (of_nat n)"
    using n by (simp add: fl32_def Let_def)
  then show ?thesis unfolding q round_half_even_int by (simp add: u)
qed simp

end
