(* ===== verification/Data_Calculator.thy ===== *)
theory Data_Calculator
  imports Float32 Rtp_Packet
begin

text \<open>
  The classes \<^verbatim>\<open>RateCalculator\<close> and \<^verbatim>\<open>RtpDataCounter\<close> (\<^verbatim>\<open>core/include/rtc/data_calculator.h\<close>,
  \<^verbatim>\<open>core/src/rtc/data_calculator.cpp\<close>): bytes per time slot in a ring buffer that covers a
  sliding window. The reported rate is computed in \<^verbatim>\<open>float\<close>. The loop that expires slots is a partial function, so a loop that does
  not end, and an index out of range, are the value \<open>None\<close>.
\<close>

section \<open>State\<close>

definition kDefaultWindowSize :: u64 where "kDefaultWindowSize = 1000"
definition kDefaultBpsScale :: rat where "kDefaultBpsScale = 8000"
definition kDefaultWindowItems :: u16 where "kDefaultWindowItems = 100"

record BufferItem =
  bi_count :: u64
  bi_time :: u64

record RateCalculator =
  rc_window_size_ms :: u64
  rc_scale :: rat
  rc_window_items :: u16
  rc_item_size_ms :: u64
  rc_buffer :: "BufferItem list"
  rc_newest_start :: u64
  rc_newest_index :: int
  rc_oldest_start :: u64
  rc_oldest_index :: int
  rc_total_count :: u64
  rc_bytes :: u64
  rc_last_rate :: u32
  rc_last_time :: u64

definition zero_item :: BufferItem where
  "zero_item = \<lparr>bi_count = 0, bi_time = 0\<rparr>"

definition RateCalculator_init :: "u64 \<Rightarrow> rat \<Rightarrow> u16 \<Rightarrow> RateCalculator option" where
  "RateCalculator_init window_size_ms scale window_items =
     (if window_items = 0 then None
      else Some
        \<lparr>rc_window_size_ms = window_size_ms, rc_scale = scale, rc_window_items = window_items,
         rc_item_size_ms = max (window_size_ms div ucast window_items) 1,
         rc_buffer = replicate (unat window_items) zero_item, rc_newest_start = 0,
         rc_newest_index = - 1, rc_oldest_start = 0, rc_oldest_index = - 1, rc_total_count = 0,
         rc_bytes = 0, rc_last_rate = 0, rc_last_time = 0\<rparr>)"

section \<open>Operations\<close>

definition RateCalculator_Reset :: "RateCalculator \<Rightarrow> RateCalculator" where
  "RateCalculator_Reset r =
     r\<lparr>rc_buffer := replicate (length (rc_buffer r)) zero_item, rc_newest_start := 0,
       rc_newest_index := - 1, rc_oldest_start := 0, rc_oldest_index := - 1, rc_total_count := 0,
       rc_last_rate := 0, rc_last_time := 0\<rparr>"

text \<open>The body of the expiring loop: drop the oldest slot and go on to the next one.\<close>

definition rc_expire_step :: "RateCalculator \<Rightarrow> RateCalculator option" where
  "rc_expire_step r =
     (let i = nat (rc_oldest_index r);
          j = (if rc_oldest_index r + 1 \<ge> uint (rc_window_items r) then 0
               else rc_oldest_index r + 1)
      in if rc_oldest_index r < 0 \<or> length (rc_buffer r) \<le> i \<or> length (rc_buffer r) \<le> nat j
         then None
         else (let buf = (rc_buffer r)[i := zero_item]
               in Some (r\<lparr>rc_total_count := rc_total_count r - bi_count (rc_buffer r ! i),
                          rc_buffer := buf, rc_oldest_index := j,
                          rc_oldest_start := bi_time (buf ! nat j)\<rparr>)))"

partial_function (option) rc_expire_loop :: "u64 \<Rightarrow> RateCalculator \<Rightarrow> RateCalculator option" where
  "rc_expire_loop new_oldest r =
     (if rc_oldest_start r \<le> new_oldest
      then Option.bind (rc_expire_step r) (\<lambda>r'. rc_expire_loop new_oldest r')
      else Some r)"

definition RemoveOldData :: "u64 \<Rightarrow> RateCalculator \<Rightarrow> RateCalculator option" where
  "RemoveOldData now_ms r =
     (if rc_newest_index r < 0 \<or> rc_oldest_index r < 0 then Some r
      else
        (let new_oldest = now_ms - rc_window_size_ms r in
         if new_oldest < rc_oldest_start r then Some r
         else if rc_newest_start r \<le> new_oldest then Some (RateCalculator_Reset r)
         else rc_expire_loop new_oldest r))"

text \<open>Storing the bytes in the newest slot, or in a new one.\<close>

definition rc_store :: "u64 \<Rightarrow> u64 \<Rightarrow> RateCalculator \<Rightarrow> RateCalculator" where
  "rc_store bytes now_ms r =
     (if rc_newest_index r < 0 \<or> rc_item_size_ms r \<le> now_ms - rc_newest_start r
      then (let j = (if rc_newest_index r + 1 \<ge> uint (rc_window_items r) then 0
                     else rc_newest_index r + 1)
            in r\<lparr>rc_newest_index := j, rc_newest_start := now_ms,
                 rc_buffer := (rc_buffer r)[nat j := \<lparr>bi_count = bytes, bi_time = now_ms\<rparr>]\<rparr>)
      else (let i = nat (rc_newest_index r); item = rc_buffer r ! i
            in r\<lparr>rc_buffer := (rc_buffer r)[i := item\<lparr>bi_count := bi_count item + bytes\<rparr>]\<rparr>))"

definition RateCalculator_Update :: "u64 \<Rightarrow> u64 \<Rightarrow> RateCalculator \<Rightarrow> RateCalculator option" where
  "RateCalculator_Update bytes now_ms r =
     (if now_ms < rc_oldest_start r then Some r
      else map_option (\<lambda>r1.
        (let r2 = rc_store bytes now_ms r1;
             r3 = (if rc_oldest_index r2 < 0
                   then r2\<lparr>rc_oldest_index := rc_newest_index r2, rc_oldest_start := now_ms\<rparr>
                   else r2)
         in r3\<lparr>rc_total_count := rc_total_count r3 + bytes, rc_last_rate := 0, rc_last_time := 0\<rparr>))
        (RemoveOldData now_ms (r\<lparr>rc_bytes := rc_bytes r + bytes\<rparr>)))"

text \<open>The conversion of a float outside the range of the integer is undefined behaviour.\<close>

definition GetRate ::
  "u64 \<Rightarrow> RateCalculator \<Rightarrow> (u32 \<times> RateCalculator) option"
where
  "GetRate now_ms r =
     (if now_ms = rc_last_time r then Some (rc_last_rate r, r)
      else Option.bind (RemoveOldData now_ms r) (\<lambda>r1.
        (let scale = fl32 (rc_scale r1 / fl32 (of_nat (unat (rc_window_size_ms r1))));
             x = fl32 (fl32 (fl32 (of_nat (unat (rc_total_count r1))) * scale) + 1 / 2)
         in if 0 \<le> x \<and> \<lfloor>x\<rfloor> < 2 ^ 32
            then Some (word_of_int \<lfloor>x\<rfloor>,
                   r1\<lparr>rc_last_time := now_ms, rc_last_rate := word_of_int \<lfloor>x\<rfloor>\<rparr>)
            else None)))"

definition RateCalculator_GetBytes :: "RateCalculator \<Rightarrow> u64" where
  "RateCalculator_GetBytes r = rc_bytes r"

record RtpDataCounter =
  dc_rate :: RateCalculator
  dc_packets :: u64

definition RtpDataCounter_init :: "u64 \<Rightarrow> RtpDataCounter option" where
  "RtpDataCounter_init window_size_ms =
     map_option (\<lambda>r. \<lparr>dc_rate = r, dc_packets = 0\<rparr>)
       (RateCalculator_init window_size_ms kDefaultBpsScale kDefaultWindowItems)"

definition RtpDataCounter_Update :: "u64 \<Rightarrow> RtpPacket \<Rightarrow> RtpDataCounter \<Rightarrow> RtpDataCounter option" where
  "RtpDataCounter_Update now p d =
     map_option (\<lambda>r. \<lparr>dc_rate = r, dc_packets = dc_packets d + 1\<rparr>)
       (RateCalculator_Update (word_of_nat (GetSize p)) now (dc_rate d))"

definition GetBitrate ::
  "u64 \<Rightarrow> RtpDataCounter \<Rightarrow> (u32 \<times> RtpDataCounter) option"
where
  "GetBitrate now_ms d =
     map_option (\<lambda>(rate, r). (rate, d\<lparr>dc_rate := r\<rparr>)) (GetRate now_ms (dc_rate d))"

definition GetPacketCount :: "RtpDataCounter \<Rightarrow> u64" where
  "GetPacketCount d = dc_packets d"

definition DataCounter_GetBytes :: "RtpDataCounter \<Rightarrow> u64" where
  "DataCounter_GetBytes d = RateCalculator_GetBytes (dc_rate d)"

section \<open>The window as a queue\<close>

text \<open>The specification: the slots of the window, oldest first.\<close>

definition win_expire :: "u64 \<Rightarrow> u64 \<Rightarrow> BufferItem list \<Rightarrow> BufferItem list" where
  "win_expire window now L = dropWhile (\<lambda>x. bi_time x \<le> now - window) L"

definition win_add :: "u64 \<Rightarrow> u64 \<Rightarrow> u64 \<Rightarrow> BufferItem list \<Rightarrow> BufferItem list" where
  "win_add slot bytes now L =
     (if L = [] \<or> slot \<le> now - bi_time (last L) then L @ [\<lparr>bi_count = bytes, bi_time = now\<rparr>]
      else butlast L @ [(last L)\<lparr>bi_count := bi_count (last L) + bytes\<rparr>])"

text \<open>
  The ring buffer holds a queue: turned so that the oldest slot is first, it is the queue
  followed by empty slots.
\<close>

definition rc_holds :: "RateCalculator \<Rightarrow> BufferItem list \<Rightarrow> bool" where
  "rc_holds r L \<longleftrightarrow>
     length (rc_buffer r) = unat (rc_window_items r) \<and> 0 < unat (rc_window_items r)
     \<and> rc_total_count r = sum_list (map bi_count L)
     \<and> (if L = []
        then rc_buffer r = replicate (unat (rc_window_items r)) zero_item
           \<and> rc_newest_index r = - 1 \<and> rc_oldest_index r = - 1 \<and> rc_oldest_start r = 0
        else (\<exists>k < unat (rc_window_items r). rc_oldest_index r = int k
           \<and> length L \<le> unat (rc_window_items r)
           \<and> rotate k (rc_buffer r) = L @ replicate (unat (rc_window_items r) - length L) zero_item
           \<and> rc_newest_index r = int ((k + length L - 1) mod unat (rc_window_items r))
           \<and> rc_oldest_start r = bi_time (hd L) \<and> rc_newest_start r = bi_time (last L)))"

text \<open>Slots are at least one slot length apart, and there are enough of them for the window.\<close>

definition rc_spaced :: "RateCalculator \<Rightarrow> BufferItem list \<Rightarrow> bool" where
  "rc_spaced r L \<longleftrightarrow> 0 < unat (rc_item_size_ms r)
     \<and> unat (rc_window_size_ms r) \<le> unat (rc_window_items r) * unat (rc_item_size_ms r)
     \<and> sorted_wrt (\<lambda>x y. unat (bi_time x) + unat (rc_item_size_ms r) \<le> unat (bi_time y)) L"

subsection \<open>Ring lemmas\<close>

lemma mod_add_inj:
  fixes i j k n :: nat
  assumes "i < n" "j < n" "(i + k) mod n = (j + k) mod n"
  shows "i = j"
proof -
  have "i' = j'" if "i' \<le> j'" "j' < n" "(i' + k) mod n = (j' + k) mod n" for i' j'
  proof -
    have "n dvd (j' + k) - (i' + k)" using that by (metis add_le_mono1 mod_eq_dvd_iff_nat)
    then have "n dvd j' - i'" by simp
    then show ?thesis using that(1,2) by (auto dest: dvd_imp_le)
  qed
  from this [of i j] this [of j i] show ?thesis using assms by (cases "i \<le> j") auto
qed

lemma rotate_update:
  assumes "i < length xs"
  shows "rotate k (xs[(i + k) mod length xs := v]) = (rotate k xs)[i := v]"
proof (rule nth_equalityI)
  fix j assume "j < length (rotate k (xs[(i + k) mod length xs := v]))"
  then have j: "j < length xs" by simp
  have "0 < length xs" using assms by linarith
  then have "(i + k) mod length xs < length xs" by (rule mod_less_divisor)
  then show "rotate k (xs[(i + k) mod length xs := v]) ! j = (rotate k xs)[i := v] ! j"
    using j assms mod_add_inj [of i "length xs" j k]
    by (cases "i = j") (auto simp: nth_rotate nth_list_update add.commute)
qed simp

lemma rc_holds_index:
  assumes "rc_holds r L" "L \<noteq> []"
  shows "0 \<le> rc_oldest_index r" "0 \<le> rc_newest_index r"
  using assms by (auto simp: rc_holds_def)

lemma spaced_sorted:
  assumes "rc_spaced r L" "x \<in> set (butlast L)"
  shows "bi_time x < bi_time (last L)"
proof -
  have "L \<noteq> []" using assms(2) by auto
  then have "sorted_wrt (\<lambda>x y. unat (bi_time x) + unat (rc_item_size_ms r) \<le> unat (bi_time y))
      (butlast L @ [last L])" using assms(1) by (simp add: rc_spaced_def)
  with assms show ?thesis
    by (force simp: sorted_wrt_append rc_spaced_def word_less_nat_alt)
qed

lemma rc_holds_bytes [simp]:
  "rc_holds (r\<lparr>rc_bytes := v\<rparr>) L = rc_holds r L" "rc_spaced (r\<lparr>rc_bytes := v\<rparr>) L = rc_spaced r L"
  by (simp_all add: rc_holds_def rc_spaced_def)

lemma rc_holds_last [simp]:
  "rc_holds (r\<lparr>rc_last_rate := v\<rparr>) L = rc_holds r L"
  "rc_holds (r\<lparr>rc_last_time := t\<rparr>) L = rc_holds r L"
  by (simp_all add: rc_holds_def rc_spaced_def)

text \<open>One step of the expiring loop removes the head of the queue.\<close>

lemma rc_expire_step_holds:
  assumes h: "rc_holds r (x # L)" and ne: "L \<noteq> []"
  shows "\<exists>r'. rc_expire_step r = Some r' \<and> rc_holds r' L \<and> rc_oldest_start r' = bi_time (hd L)
    \<and> rc_item_size_ms r' = rc_item_size_ms r \<and> rc_window_size_ms r' = rc_window_size_ms r
    \<and> rc_window_items r' = rc_window_items r \<and> rc_newest_start r' = rc_newest_start r
    \<and> rc_bytes r' = rc_bytes r \<and> rc_scale r' = rc_scale r"
proof -
  let ?n = "unat (rc_window_items r)" and ?buf = "rc_buffer r"
  obtain k where k: "k < ?n" "rc_oldest_index r = int k" "length (x # L) \<le> ?n"
      "rotate k ?buf = (x # L) @ replicate (?n - length (x # L)) zero_item"
      "rc_newest_index r = int ((k + length (x # L) - 1) mod ?n)"
      "rc_newest_start r = bi_time (last (x # L))"
    and len: "length ?buf = ?n" and tot: "rc_total_count r = sum_list (map bi_count (x # L))"
    using h by (auto simp: rc_holds_def)
  have n2: "2 \<le> ?n" using k(3) ne by (cases L) auto
  define j where "j = (if int k + 1 \<ge> uint (rc_window_items r) then 0 else int k + 1)"
  have "uint (rc_window_items r) \<le> int k + 1 \<longleftrightarrow> ?n \<le> Suc k"
    unfolding uint_nat by linarith
  then have "j = (if ?n \<le> Suc k then 0 else int (Suc k))" by (simp add: j_def)
  then have j3: "j = int (Suc k mod ?n)" using k(1) by (cases "Suc k = ?n") auto
  then have j: "nat j = Suc k mod ?n" "0 \<le> j" "j = int (Suc k mod ?n)" by simp_all
  define buf where "buf = ?buf[k := zero_item]"
  have xk: "?buf ! k = x"
  proof -
    have "rotate k ?buf ! 0 = ?buf ! k" using k(1) len by (simp add: nth_rotate)
    then show ?thesis using k(4) by simp
  qed
  have rot: "rotate (Suc k) buf = L @ replicate (?n - length L) zero_item"
  proof -
    have "rotate k buf = zero_item # L @ replicate (?n - length (x # L)) zero_item"
      using rotate_update [of 0 ?buf k zero_item] k(1,4) len by (simp add: buf_def)
    then have "rotate (Suc k) buf = L @ replicate (?n - length (x # L)) zero_item @ [zero_item]"
      by simp
    also have "replicate (?n - length (x # L)) zero_item @ [zero_item]
        = replicate (?n - length L) zero_item"
      using k(3) by (simp add: replicate_append_same Suc_diff_Suc flip: replicate_Suc)
    finally show ?thesis .
  qed
  have rotj: "rotate (nat j) buf = L @ replicate (?n - length L) zero_item"
    using rot rotate_conv_mod [of "Suc k" buf] len unfolding j(1) buf_def by simp
  have lb: "length buf = ?n" using len by (simp add: buf_def)
  have bj: "buf ! nat j = hd L"
  proof -
    have "nat j < ?n" using j(1) n2 by simp
    then have "rotate (nat j) buf ! 0 = buf ! nat j" using lb n2 by (simp add: nth_rotate)
    then show ?thesis using rotj ne by (cases L) auto
  qed
  let ?r = "r\<lparr>rc_total_count := rc_total_count r - bi_count x, rc_buffer := buf,
      rc_oldest_index := j, rc_oldest_start := bi_time (hd L)\<rparr>"
  have jn: "nat j < ?n" using j(1) n2 by simp
  have step: "rc_expire_step r = Some ?r"
    using k(1) len xk bj jn j(2)
    unfolding rc_expire_step_def k(2) j_def [symmetric] Let_def nat_int buf_def [symmetric]
    by simp
  have "(Suc k mod ?n + length L - 1) mod ?n = (k + length (x # L) - 1) mod ?n"
  proof -
    have "Suc k mod ?n + length L - 1 = Suc k mod ?n + (length L - 1)" using ne by (cases L) auto
    then have "(Suc k mod ?n + length L - 1) mod ?n = (Suc k + (length L - 1)) mod ?n"
      by (simp add: mod_add_left_eq)
    then show ?thesis using ne by (cases L) auto
  qed
  then have "rc_holds ?r L"
    using k rotj ne tot lb jn j by (auto simp: rc_holds_def intro!: exI [of _ "Suc k mod ?n"])
  with step show ?thesis by (intro exI [of _ ?r]) simp
qed

lemma rc_expire_loop_holds:
  assumes "rc_holds r L" "L \<noteq> []" "sorted_wrt (\<lambda>x y. bi_time x \<le> bi_time y) L"
    "new_oldest < bi_time (last L)"
  shows "\<exists>r'. rc_expire_loop new_oldest r = Some r'
    \<and> rc_holds r' (dropWhile (\<lambda>x. bi_time x \<le> new_oldest) L)
    \<and> rc_item_size_ms r' = rc_item_size_ms r \<and> rc_window_size_ms r' = rc_window_size_ms r
    \<and> rc_window_items r' = rc_window_items r \<and> rc_newest_start r' = rc_newest_start r
    \<and> rc_bytes r' = rc_bytes r \<and> rc_scale r' = rc_scale r"
  using assms
proof (induction L arbitrary: r)
  case Nil
  then show ?case by simp
next
  case (Cons x L)
  have start: "rc_oldest_start r = bi_time x" using Cons.prems(1) by (auto simp: rc_holds_def)
  show ?case
  proof (cases "bi_time x \<le> new_oldest")
    case False
    then show ?thesis using Cons.prems(1) start
      by (subst rc_expire_loop.simps) auto
  next
    case True
    then have ne: "L \<noteq> []" using Cons.prems(4) by auto
    obtain r1 where r1: "rc_expire_step r = Some r1" "rc_holds r1 L"
        "rc_item_size_ms r1 = rc_item_size_ms r" "rc_window_size_ms r1 = rc_window_size_ms r"
        "rc_window_items r1 = rc_window_items r" "rc_newest_start r1 = rc_newest_start r"
        "rc_bytes r1 = rc_bytes r" "rc_scale r1 = rc_scale r"
      using rc_expire_step_holds [OF Cons.prems(1) ne] by metis
    have "rc_expire_loop new_oldest r = rc_expire_loop new_oldest r1"
      using True start r1(1) by (subst rc_expire_loop.simps) simp
    moreover have "sorted_wrt (\<lambda>x y. bi_time x \<le> bi_time y) L" "new_oldest < bi_time (last L)"
      using Cons.prems(3,4) ne by auto
    ultimately show ?thesis
      using Cons.IH [OF r1(2) ne] r1(3-8) True by auto
  qed
qed

text \<open>Expiring old data is expiring the head of the queue.\<close>

lemma RemoveOldData_holds:
  assumes h: "rc_holds r L" and sp: "rc_spaced r L"
    and now: "rc_window_size_ms r \<le> now"
  shows "\<exists>r'. RemoveOldData now r = Some r'
    \<and> rc_holds r' (win_expire (rc_window_size_ms r) now L)
    \<and> rc_item_size_ms r' = rc_item_size_ms r \<and> rc_window_size_ms r' = rc_window_size_ms r
    \<and> rc_window_items r' = rc_window_items r \<and> rc_bytes r' = rc_bytes r \<and> rc_scale r' = rc_scale r"
proof (cases "L = []")
  case True
  then show ?thesis using h by (auto simp: RemoveOldData_def win_expire_def rc_holds_def)
next
  case ne: False
  let ?o = "now - rc_window_size_ms r"
  have idx: "\<not> rc_newest_index r < 0" "\<not> rc_oldest_index r < 0"
    using rc_holds_index [OF h ne] by auto
  have hd: "rc_oldest_start r = bi_time (hd L)" and lst: "rc_newest_start r = bi_time (last L)"
    using h ne by (auto simp: rc_holds_def)
  have srt: "sorted_wrt (\<lambda>x y. bi_time x \<le> bi_time y) L"
    using sp unfolding rc_spaced_def
    by (auto intro: sorted_wrt_mono_rel [rotated] simp: word_le_nat_alt)
  consider "?o < bi_time (hd L)" | "bi_time (hd L) \<le> ?o" "bi_time (last L) \<le> ?o"
    | "bi_time (hd L) \<le> ?o" "?o < bi_time (last L)" by fastforce
  then show ?thesis
  proof cases
    case 1
    then have "win_expire (rc_window_size_ms r) now L = L"
      using ne by (cases L) (auto simp: win_expire_def not_le)
    then show ?thesis using 1 h hd idx by (auto simp: RemoveOldData_def Let_def)
  next
    case 2
    have "bi_time x \<le> bi_time (last L)" if "x \<in> set L" for x
      using spaced_sorted [OF sp, of x] that ne
      by (metis append_butlast_last_id in_set_butlastD order.order_iff_strict rotate1.simps(2)
          set_ConsD set_rotate1)
    then have "win_expire (rc_window_size_ms r) now L = []"
      using 2 by (auto simp: win_expire_def intro: order_trans)
    moreover have "RemoveOldData now r = Some (RateCalculator_Reset r)"
      using 2 idx hd lst by (simp add: RemoveOldData_def Let_def not_less)
    ultimately show ?thesis using h by (auto simp: rc_holds_def RateCalculator_Reset_def)
  next
    case 3
    have "RemoveOldData now r = rc_expire_loop ?o r"
      using 3 idx hd lst by (auto simp: RemoveOldData_def Let_def)
    then show ?thesis
      using rc_expire_loop_holds [OF h ne srt 3(2)] by (auto simp: win_expire_def)
  qed
qed

lemma rc_spaced_expire:
  assumes "rc_spaced r L" "rc_item_size_ms r' = rc_item_size_ms r"
    "rc_window_size_ms r' = rc_window_size_ms r" "rc_window_items r' = rc_window_items r"
  shows "rc_spaced r' (win_expire w now L)"
  using assms by (auto simp: rc_spaced_def win_expire_def sorted_wrt_dropWhile)

text \<open>A queue that fits in the window leaves a free slot once the newest one is over.\<close>

lemma spaced_length:
  assumes "sorted_wrt (\<lambda>x y. unat (bi_time x) + d \<le> unat (bi_time y)) L" "L \<noteq> []"
  shows "unat (bi_time (hd L)) + (length L - 1) * d \<le> unat (bi_time (last L))"
  using assms
proof (induction L)
  case (Cons x L)
  show ?case
  proof (cases L)
    case (Cons y M)
    then have "unat (bi_time x) + d \<le> unat (bi_time y)"
      "unat (bi_time y) + (length L - 1) * d \<le> unat (bi_time (last L))"
      using Cons.prems Cons.IH by auto
    then show ?thesis using Cons by (simp add: add.commute)
  qed simp
qed simp

lemma free_slot:
  assumes sp: "rc_spaced r L" and ne: "L \<noteq> []"
    and fresh: "rc_window_size_ms r \<le> now" "now - rc_window_size_ms r < bi_time (hd L)"
    and over: "bi_time (last L) \<le> now" "rc_item_size_ms r \<le> now - bi_time (last L)"
  shows "length L < unat (rc_window_items r)"
proof (rule ccontr)
  let ?d = "unat (rc_item_size_ms r)" and ?n = "unat (rc_window_items r)"
  assume "\<not> ?thesis"
  then have "?n \<le> length L" by simp
  have "unat (bi_time (hd L)) + (length L - 1) * ?d \<le> unat (bi_time (last L))"
    using spaced_length sp ne by (auto simp: rc_spaced_def)
  moreover have "?d \<le> unat now - unat (bi_time (last L))" "unat (bi_time (last L)) \<le> unat now"
    using over by (simp_all add: word_le_nat_alt unat_sub)
  ultimately have "unat (bi_time (hd L)) + length L * ?d \<le> unat now"
    using ne by (cases L) (auto simp: algebra_simps)
  moreover have "?n * ?d \<le> length L * ?d" using \<open>?n \<le> length L\<close> by simp
  moreover have "unat (rc_window_size_ms r) \<le> ?n * ?d" using sp by (simp add: rc_spaced_def)
  moreover have "unat now - unat (rc_window_size_ms r) < unat (bi_time (hd L))"
    using fresh by (simp add: word_le_nat_alt word_less_nat_alt unat_sub)
  ultimately show False by linarith
qed

lemma rc_store_empty:
  assumes "rc_holds r []"
  shows "rc_store bytes now r = r\<lparr>rc_newest_index := 0, rc_newest_start := now,
    rc_buffer := \<lparr>bi_count = bytes, bi_time = now\<rparr> # replicate (unat (rc_window_items r) - 1) zero_item\<rparr>"
proof -
  obtain n where n: "unat (rc_window_items r) = Suc n"
    using assms by (auto simp: rc_holds_def gr0_conv_Suc)
  show ?thesis using assms n by (auto simp: rc_store_def rc_holds_def Let_def)
qed

lemma rc_store_holds:
  assumes h: "rc_holds r L" and ne: "L \<noteq> []"
    and free: "rc_item_size_ms r \<le> now - bi_time (last L) \<Longrightarrow> length L < unat (rc_window_items r)"
  shows "rc_holds ((rc_store bytes now r)\<lparr>rc_total_count := rc_total_count r + bytes\<rparr>)
      (win_add (rc_item_size_ms r) bytes now L)"
proof -
  let ?n = "unat (rc_window_items r)" and ?buf = "rc_buffer r"
  let ?new = "\<lparr>bi_count = bytes, bi_time = now\<rparr>"
  let ?upd = "(last L)\<lparr>bi_count := bi_count (last L) + bytes\<rparr>"
  obtain k where k: "k < ?n" "rc_oldest_index r = int k" "length L \<le> ?n"
      "rotate k ?buf = L @ replicate (?n - length L) zero_item"
      "rc_newest_index r = int ((k + length L - 1) mod ?n)"
      "rc_oldest_start r = bi_time (hd L)" "rc_newest_start r = bi_time (last L)"
    and len: "length ?buf = ?n" and tot: "rc_total_count r = sum_list (map bi_count L)"
    using h ne by (auto simp: rc_holds_def)
  define i where "i = (k + length L - 1) mod ?n"
  have i: "rc_newest_index r = int i" "i < ?n" using k(1,5) by (simp_all add: i_def)
  have bl: "butlast L @ [last L] = L" using ne by simp
  have i': "i = (length L - 1 + k) mod length ?buf"
    using ne len by (cases L) (simp_all add: i_def add.commute)
  show ?thesis
  proof (cases "rc_item_size_ms r \<le> now - bi_time (last L)")
    case True
    note lt = free [OF True]
    define j where "j = Suc i mod ?n"
    have "uint (rc_window_items r) \<le> int i + 1 \<longleftrightarrow> ?n \<le> Suc i" unfolding uint_nat by linarith
    then have jn: "(if int i + 1 \<ge> uint (rc_window_items r) then 0 else int i + 1) = int j"
      using i(2) by (cases "Suc i = ?n") (auto simp: j_def)
    have "j = (length L + k) mod ?n"
    proof -
      have "j = Suc (k + length L - 1) mod ?n" unfolding j_def i_def by (simp add: mod_Suc_eq)
      then show ?thesis using ne by (cases L) (simp_all add: add.commute)
    qed
    then have j: "j = (length L + k) mod length ?buf" using len by simp
    have "rotate k (?buf[j := ?new]) = (L @ replicate (?n - length L) zero_item)[length L := ?new]"
      unfolding j using rotate_update [of "length L" ?buf k ?new] lt len k(4) by simp
    also have "\<dots> = (L @ [?new]) @ replicate (?n - length (L @ [?new])) zero_item"
    proof -
      obtain m where "?n - length L = Suc m" using lt by (metis Suc_diff_Suc)
      moreover from this have "?n - length (L @ [?new]) = m" by simp
      ultimately show ?thesis by simp
    qed
    finally have rot: "rotate k (?buf[j := ?new]) = \<dots>" .
    have st: "rc_store bytes now r = r\<lparr>rc_newest_index := int j, rc_newest_start := now,
        rc_buffer := ?buf[j := ?new]\<rparr>"
      using True k(7) unfolding rc_store_def i(1) Let_def jn by simp
    show ?thesis using k lt len tot rot True ne j
      unfolding st by (auto simp: rc_holds_def win_add_def add.commute intro!: exI [of _ k])
  next
    case False
    have l1: "length L - 1 < length ?buf" using k(3) len ne by (cases L) auto
    have bi: "?buf ! i = last L"
    proof -
      have "rotate k ?buf ! (length L - 1) = ?buf ! i"
        using l1 unfolding i' by (simp add: nth_rotate add.commute)
      then show ?thesis using k(4) ne by (simp add: nth_append last_conv_nth)
    qed
    have "rotate k (?buf[i := ?upd]) = (L @ replicate (?n - length L) zero_item)[length L - 1 := ?upd]"
      unfolding i' using rotate_update [of "length L - 1" ?buf k ?upd] k(4) l1 by simp
    also have "\<dots> = (butlast L @ [?upd]) @ replicate (?n - length L) zero_item"
      using ne by (cases L rule: rev_cases) (simp_all add: list_update_append)
    finally have rot: "rotate k (?buf[i := ?upd]) = \<dots>" .
    have st: "rc_store bytes now r = r\<lparr>rc_buffer := ?buf[i := ?upd]\<rparr>"
      using False k(7) bi unfolding rc_store_def i(1) Let_def by simp
    have "sum_list (map bi_count (butlast L @ [?upd])) = sum_list (map bi_count (butlast L @ [last L])) + bytes"
      by simp
    then have sum: "sum_list (map bi_count (butlast L @ [?upd])) = sum_list (map bi_count L) + bytes"
      unfolding bl .
    have hd: "bi_time (hd (butlast L @ [?upd])) = bi_time (hd L)"
      using ne by (cases L rule: rev_cases) (auto simp: hd_append)
    have "length (butlast L @ [?upd]) = length L" using ne by (cases L) auto
    then show ?thesis using k len tot rot False ne sum hd
      unfolding st by (auto simp: rc_holds_def win_add_def intro!: exI [of _ k])
  qed
qed

lemma rc_store_frame [simp]:
  "rc_oldest_index (rc_store bytes now r) = rc_oldest_index r"
  "rc_total_count (rc_store bytes now r) = rc_total_count r"
  "rc_item_size_ms (rc_store bytes now r) = rc_item_size_ms r"
  "rc_window_size_ms (rc_store bytes now r) = rc_window_size_ms r"
  "rc_window_items (rc_store bytes now r) = rc_window_items r"
  "rc_bytes (rc_store bytes now r) = rc_bytes r"
  by (simp_all add: rc_store_def Let_def)

lemma rc_spaced_cong:
  assumes "rc_item_size_ms r' = rc_item_size_ms r" "rc_window_size_ms r' = rc_window_size_ms r"
    "rc_window_items r' = rc_window_items r"
  shows "rc_spaced r' L = rc_spaced r L"
  using assms by (simp add: rc_spaced_def)

text \<open>Adding keeps the slots apart.\<close>

lemma rc_spaced_add:
  assumes sp: "rc_spaced r M" and le: "M \<noteq> [] \<Longrightarrow> bi_time (last M) \<le> now"
  shows "rc_spaced r (win_add (rc_item_size_ms r) bytes now M)"
proof (cases "M = []")
  case True
  then show ?thesis using sp by (simp add: rc_spaced_def win_add_def)
next
  case ne: False
  let ?d = "unat (rc_item_size_ms r)"
  let ?R = "\<lambda>x y. unat (bi_time x) + ?d \<le> unat (bi_time y)"
  have srt: "sorted_wrt ?R M" using sp by (simp add: rc_spaced_def)
  show ?thesis
  proof (cases "rc_item_size_ms r \<le> now - bi_time (last M)")
    case True
    then have l: "unat (bi_time (last M)) + ?d \<le> unat now"
      using le [OF ne] by (simp add: word_le_nat_alt unat_sub)
    have "unat (bi_time x) + ?d \<le> unat now" if "x \<in> set M" for x
    proof (cases "x \<in> set (butlast M)")
      case True
      then show ?thesis using spaced_sorted [OF sp True] l by (simp add: word_less_nat_alt)
    next
      case False
      have "set M = insert (last M) (set (butlast M))"
        using ne by (metis Un_insert_right append_butlast_last_id list.simps(15) set_append
            sup_bot.right_neutral list.set(1))
      then have "x = last M" using False that by auto
      then show ?thesis using l by simp
    qed
    then have "sorted_wrt ?R (M @ [\<lparr>bi_count = bytes, bi_time = now\<rparr>])"
      using srt by (simp add: sorted_wrt_append)
    then show ?thesis using sp ne True by (simp add: rc_spaced_def win_add_def)
  next
    case False
    let ?M = "butlast M @ [(last M)\<lparr>bi_count := bi_count (last M) + bytes\<rparr>]"
    have "map bi_time ?M = map bi_time (butlast M @ [last M])" by simp
    then have m: "map bi_time ?M = map bi_time M" using ne by simp
    have "sorted_wrt ?R L \<longleftrightarrow> sorted_wrt (\<lambda>a b. unat a + ?d \<le> unat b) (map bi_time L)" for L
      by (simp add: sorted_wrt_map)
    then have "sorted_wrt ?R ?M" using srt m by metis
    then show ?thesis using sp ne False by (simp add: rc_spaced_def win_add_def)
  qed
qed

lemma RateCalculator_Update_holds:
  assumes h: "rc_holds r L" and sp: "rc_spaced r L"
    and now: "rc_window_size_ms r \<le> now" and mono: "\<And>x. x \<in> set L \<Longrightarrow> bi_time x \<le> now"
  shows "\<exists>r'. RateCalculator_Update bytes now r = Some r'
    \<and> rc_holds r' (win_add (rc_item_size_ms r) bytes now (win_expire (rc_window_size_ms r) now L))
    \<and> rc_spaced r' (win_add (rc_item_size_ms r) bytes now (win_expire (rc_window_size_ms r) now L))
    \<and> RateCalculator_GetBytes r' = RateCalculator_GetBytes r + bytes
    \<and> rc_window_size_ms r' = rc_window_size_ms r"
proof -
  let ?w = "rc_window_size_ms r" and ?d = "rc_item_size_ms r" and ?n = "rc_window_items r"
  let ?b = "r\<lparr>rc_bytes := rc_bytes r + bytes\<rparr>"
  define M where "M = win_expire ?w now L"
  obtain r1 where r1: "RemoveOldData now ?b = Some r1" "rc_holds r1 M"
      "rc_item_size_ms r1 = ?d" "rc_window_size_ms r1 = ?w" "rc_window_items r1 = ?n"
      "rc_bytes r1 = rc_bytes r + bytes"
    using RemoveOldData_holds [of ?b L now] h sp now by (auto simp: M_def)
  have sp1: "rc_spaced r1 M" unfolding M_def using rc_spaced_expire [OF sp] r1(3-5) by simp
  have early: "\<not> now < rc_oldest_start r"
  proof (cases L)
    case Nil
    then show ?thesis using h by (simp add: rc_holds_def)
  next
    case (Cons x xs)
    then have "rc_oldest_start r = bi_time x" using h by (auto simp: rc_holds_def)
    then show ?thesis using mono [of x] Cons by (simp add: not_less)
  qed
  have last: "bi_time (last M) \<le> now" if "M \<noteq> []"
  proof -
    have "last M \<in> set L"
      using last_in_set [OF that] set_dropWhileD unfolding M_def win_expire_def by fast
    then show ?thesis by (rule mono)
  qed
  have spA: "rc_spaced r1 (win_add ?d bytes now M)" using rc_spaced_add [OF sp1 last] r1(3) by simp
  let ?r2 = "rc_store bytes now r1"
  let ?r3 = "if rc_oldest_index ?r2 < 0
    then ?r2\<lparr>rc_oldest_index := rc_newest_index ?r2, rc_oldest_start := now\<rparr> else ?r2"
  let ?r4 = "?r3\<lparr>rc_total_count := rc_total_count ?r3 + bytes, rc_last_rate := 0, rc_last_time := 0\<rparr>"
  have upd: "RateCalculator_Update bytes now r = Some ?r4"
    using early r1(1) by (simp add: RateCalculator_Update_def Let_def)
  have holds: "rc_holds ?r4 (win_add ?d bytes now M)"
  proof (cases "M = []")
    case True
    then have e: "rc_holds r1 []" using r1(2) by simp
    show ?thesis using e True unfolding rc_store_empty [OF e]
      by (auto simp: rc_holds_def win_add_def intro!: exI [of _ 0])
  next
    case ne: False
    have "now - ?w < bi_time (hd M)"
      using ne hd_dropWhile [of "\<lambda>x. bi_time x \<le> now - ?w" L]
      unfolding M_def win_expire_def by (simp add: not_le)
    then have "?d \<le> now - bi_time (last M) \<Longrightarrow> length M < unat (rc_window_items r1)"
      using free_slot [OF sp1 ne] now last [OF ne] r1(3-5) by simp
    then have "rc_holds (?r2\<lparr>rc_total_count := rc_total_count r1 + bytes\<rparr>) (win_add ?d bytes now M)"
      using rc_store_holds [OF r1(2) ne, of now bytes] r1(3) by simp
    then show ?thesis using rc_holds_index [OF r1(2) ne] by simp
  qed
  have "rc_spaced ?r4 (win_add ?d bytes now M) = rc_spaced r1 (win_add ?d bytes now M)"
    by (rule rc_spaced_cong) simp_all
  with spA upd holds show ?thesis
    using r1(4,6) by (simp add: M_def RateCalculator_GetBytes_def)
qed

text \<open>
  Claim C18. The ring buffer is a faithful sliding window: if it holds the slots of a queue, and
  its slots are enough for the window, then an update ends without an index error and holds
  the queue of the specification, from which the slots older than the window are taken and
  to which the bytes are added; its total is the sum of the slots.
\<close>

theorem RateCalculator_Update_refines:
  assumes h: "rc_holds r L" and sp: "rc_spaced r L"
    and now: "rc_window_size_ms r \<le> now" and mono: "\<And>x. x \<in> set L \<Longrightarrow> bi_time x \<le> now"
  shows "\<exists>r'. RateCalculator_Update bytes now r = Some r'
    \<and> rc_holds r' (win_add (rc_item_size_ms r) bytes now (win_expire (rc_window_size_ms r) now L))
    \<and> rc_spaced r' (win_add (rc_item_size_ms r) bytes now (win_expire (rc_window_size_ms r) now L))
    \<and> RateCalculator_GetBytes r' = RateCalculator_GetBytes r + bytes"
  using RateCalculator_Update_holds [OF h sp now mono, of bytes] by blast

text \<open>What the streams rely on: the calculator represents some window whose slots lie in the past.\<close>

definition rc_ready :: "u64 \<Rightarrow> RateCalculator \<Rightarrow> bool" where
  "rc_ready t r \<longleftrightarrow> (\<exists>L. rc_holds r L \<and> rc_spaced r L \<and> (\<forall>x\<in>set L. bi_time x \<le> t))"

lemma win_add_expire_times:
  assumes "x \<in> set (win_add slot bytes now (win_expire w now L))" "\<forall>x\<in>set L. bi_time x \<le> now"
  shows "bi_time x \<le> now"
proof -
  let ?M = "win_expire w now L"
  have M: "bi_time y \<le> now" if "y \<in> set ?M" for y
    using that assms(2) set_dropWhileD unfolding win_expire_def by fast
  show ?thesis
  proof (cases "?M = [] \<or> slot \<le> now - bi_time (last ?M)")
    case True
    then have "x \<in> set ?M \<or> bi_time x = now" using assms(1) by (auto simp: win_add_def)
    then show ?thesis using M by auto
  next
    case False
    then have "x \<in> set (butlast ?M) \<or> bi_time x = bi_time (last ?M)"
      using assms(1) by (auto simp: win_add_def)
    then show ?thesis using M False by (auto dest: in_set_butlastD)
  qed
qed

lemma RateCalculator_Update_ready:
  assumes "rc_ready t r" "t \<le> now" "rc_window_size_ms r \<le> now"
  obtains r' where "RateCalculator_Update bytes now r = Some r'" "rc_ready now r'"
    "rc_window_size_ms r' = rc_window_size_ms r" "rc_bytes r' = rc_bytes r + bytes"
proof -
  obtain L where L: "rc_holds r L" "rc_spaced r L" "\<forall>x\<in>set L. bi_time x \<le> now"
    using assms(1,2) unfolding rc_ready_def by (meson order_trans)
  then have "\<And>x. x \<in> set L \<Longrightarrow> bi_time x \<le> now" by blast
  from RateCalculator_Update_holds [OF L(1,2) assms(3) this, of bytes] show thesis
    using that win_add_expire_times [OF _ L(3)]
    unfolding rc_ready_def RateCalculator_GetBytes_def by metis
qed

text \<open>A new calculator is an empty window; its slots are enough if they divide the window.\<close>

lemma RateCalculator_init_holds:
  assumes "RateCalculator_init w sc n = Some r"
  shows "rc_holds r []" and "unat w mod unat n = 0 \<Longrightarrow> rc_spaced r []"
proof -
  have n: "n \<noteq> 0" using assms by (auto simp: RateCalculator_init_def)
  then have n0: "0 < unat n" by (simp add: unat_gt_0)
  show "rc_holds r []" using assms n0 by (auto simp: RateCalculator_init_def rc_holds_def split: if_splits)
  assume m: "unat w mod unat n = 0"
  have un: "unat (ucast n :: u64) = unat n"
    using u16_bound [of n] by (simp add: unsigned_ucast_eq take_bit_nat_eq_self)
  have r: "rc_item_size_ms r = max (w div ucast n) 1" "rc_window_size_ms r = w" "rc_window_items r = n"
    using assms by (auto simp: RateCalculator_init_def split: if_splits)
  have "unat (max (w div ucast n) (1 :: u64)) = max (unat w div unat n) 1"
    by (simp add: max_def word_le_nat_alt unat_div un)
  moreover have "unat w \<le> unat n * max (unat w div unat n) 1"
    using m by (metis dvd_mult_div_cancel max.cobounded1 mod_0_imp_dvd mult_le_mono2)
  ultimately show "rc_spaced r []" unfolding rc_spaced_def r by simp
qed

lemma RtpDataCounter_init_ready:
  assumes "RtpDataCounter_init w = Some d" "unat w mod 100 = 0"
  shows "rc_ready 0 (dc_rate d)" "rc_window_size_ms (dc_rate d) = w" "dc_packets d = 0"
proof -
  have i: "RateCalculator_init w kDefaultBpsScale kDefaultWindowItems = Some (dc_rate d)"
    using assms(1) by (auto simp: RtpDataCounter_init_def)
  show "rc_ready 0 (dc_rate d)"
    using RateCalculator_init_holds [OF i] assms(2)
    by (auto simp: rc_ready_def kDefaultWindowItems_def intro!: exI [of _ "[]"])
  show "rc_window_size_ms (dc_rate d) = w"
    using arg_cong [where f = "\<lambda>x. rc_window_size_ms (the x)", OF i]
    by (simp add: RateCalculator_init_def kDefaultWindowItems_def)
  show "dc_packets d = 0" using assms(1) by (auto simp: RtpDataCounter_init_def)
qed

lemma RtpDataCounter_Update_ready:
  assumes "rc_ready t (dc_rate d)" "t \<le> now" "rc_window_size_ms (dc_rate d) \<le> now"
  obtains d' where "RtpDataCounter_Update now p d = Some d'" "rc_ready now (dc_rate d')"
    "rc_window_size_ms (dc_rate d') = rc_window_size_ms (dc_rate d)"
    "dc_packets d' = dc_packets d + 1"
proof -
  obtain r' where r': "RateCalculator_Update (word_of_nat (GetSize p)) now (dc_rate d) = Some r'"
      "rc_ready now r'" "rc_window_size_ms r' = rc_window_size_ms (dc_rate d)"
    by (rule RateCalculator_Update_ready [OF assms])
  show thesis
    by (rule that [of "\<lparr>dc_rate = r', dc_packets = dc_packets d + 1\<rparr>"])
      (simp_all add: RtpDataCounter_Update_def r')
qed

text \<open>
  The reported rate is the number of bytes in the slots of the window, scaled to
  bits per second in float arithmetic; asking does not change the
  window beyond expiring it.
\<close>

lemma GetRate_window:
  assumes h: "rc_holds r L" and sp: "rc_spaced r L"
    and now: "rc_window_size_ms r \<le> now" "now \<noteq> rc_last_time r"
    and rate: "GetRate now r = Some (rate, r')"
  shows "rc_holds r' (win_expire (rc_window_size_ms r) now L) \<and>
    rate = word_of_int \<lfloor>fl32 (fl32 (fl32 (of_nat (unat
        (sum_list (map bi_count (win_expire (rc_window_size_ms r) now L)))))
      * fl32 (rc_scale r / fl32 (of_nat (unat (rc_window_size_ms r))))) + 1 / 2)\<rfloor>"
proof -
  let ?M = "win_expire (rc_window_size_ms r) now L"
  obtain r1 where r1: "RemoveOldData now r = Some r1" "rc_holds r1 ?M"
      "rc_window_size_ms r1 = rc_window_size_ms r" and scale: "rc_scale r1 = rc_scale r"
    using RemoveOldData_holds [OF h sp now(1)] by auto
  have tot: "rc_total_count r1 = sum_list (map bi_count ?M)" using r1(2) by (simp add: rc_holds_def)
  have "rc_holds (r1\<lparr>rc_last_time := now, rc_last_rate := rate\<rparr>) ?M"
    using r1(2) by simp
  then show ?thesis
    using rate now(2) r1 scale tot by (auto simp: GetRate_def Let_def split: if_splits)
qed

section \<open>Concrete instances\<close>

definition rc_sample :: RateCalculator where
  "rc_sample = the (RateCalculator_init 1000 8000 100)"

lemma rc_sample_init: "RateCalculator_init 1000 8000 100 = Some rc_sample"
  by (simp add: rc_sample_def RateCalculator_init_def)

lemma rc_sample_facts:
  "rc_holds rc_sample []" "rc_spaced rc_sample []" "rc_window_size_ms rc_sample = 1000"
  "rc_last_time rc_sample = 0"
  using RateCalculator_init_holds [OF rc_sample_init]
  by (simp_all add: rc_sample_def RateCalculator_init_def)

lemma RateCalculator_Update_refines_witness:
  "\<exists>r'. RateCalculator_Update 77 5000 rc_sample = Some r'
     \<and> rc_holds r' [\<lparr>bi_count = 77, bi_time = 5000\<rparr>]"
  using RateCalculator_Update_refines [OF rc_sample_facts(1,2), of 5000 77]
  by (auto simp: rc_sample_facts win_add_def win_expire_def)

lemma floor_half: "\<lfloor>1 / 2 :: rat\<rfloor> = 0"
  by (simp add: floor_eq_iff)

lemma fl32_half [simp]: "fl32 (1 / 2) = 1 / 2"
proof -
  have "floorlog 2 1 = 1" by (simp add: floorlog_def)
  then have u: "float_ulp (1 / 2) = 1 / 16777216" by (simp add: float_ulp_def)
  show ?thesis using round_half_even_int [of "2 ^ 23"] by (simp add: fl32_def Let_def u)
qed

lemma rc_sample_rate:
  "GetRate 5000 rc_sample =
     Some (0, rc_sample\<lparr>rc_last_time := 5000, rc_last_rate := 0\<rparr>)"
  by (simp add: GetRate_def RemoveOldData_def rc_sample_def RateCalculator_init_def Let_def
      floor_half)

lemma GetRate_window_witness:
  "rc_holds (rc_sample\<lparr>rc_last_time := 5000, rc_last_rate := 0\<rparr>) []"
  using GetRate_window [OF rc_sample_facts(1,2) _ _ rc_sample_rate]
  by (simp add: rc_sample_facts win_expire_def)

end
