(* ===== verification/Rtcp_Common.thy ===== *)
theory Rtcp_Common
  imports Bytes
begin

text \<open>
  What all RTCP packets share (\<^verbatim>\<open>core/include/rtc/rtcp/rtcp_packet.h\<close>,
  \<^verbatim>\<open>core/src/rtc/rtcp/rtcp_packet.cpp\<close>): the packet types and the common header. The parser
  is in theory \<open>Rtcp_Packet\<close>, behind the packets it creates.
\<close>

section \<open>Types\<close>

definition MaxAudioIntervalMs :: u16 where "MaxAudioIntervalMs = 5000"
definition MaxVideoIntervalMs :: u16 where "MaxVideoIntervalMs = 1000"

text \<open>The enumeration can hold any byte; \<open>OtherType\<close> is one without a name.\<close>

datatype Type = SR | RR | SDES | BYE | APP | RTPFB | PSFB | XR | NAT | OtherType u8

definition Type_of :: "u8 \<Rightarrow> Type" where
  "Type_of b =
     (if b = 200 then SR else if b = 201 then RR else if b = 202 then SDES
      else if b = 203 then BYE else if b = 204 then APP else if b = 205 then RTPFB
      else if b = 206 then PSFB else if b = 207 then XR else if b = 211 then NAT
      else OtherType b)"

fun Type_byte :: "Type \<Rightarrow> u8" where
  "Type_byte SR = 200" | "Type_byte RR = 201" | "Type_byte SDES = 202" | "Type_byte BYE = 203"
| "Type_byte APP = 204" | "Type_byte RTPFB = 205" | "Type_byte PSFB = 206"
| "Type_byte XR = 207" | "Type_byte NAT = 211" | "Type_byte (OtherType b) = b"

fun Type2String :: "Type \<Rightarrow> string" where
  "Type2String SR = ''SR''" | "Type2String RR = ''RR''" | "Type2String SDES = ''SDES''"
| "Type2String BYE = ''BYE''" | "Type2String APP = ''APP''" | "Type2String RTPFB = ''RTPFB''"
| "Type2String PSFB = ''PSFB''" | "Type2String XR = ''XR''" | "Type2String NAT = ''NAT''"
| "Type2String (OtherType b) = ''UNKNOWN''"

lemma Type_of_byte [simp]:
  "Type_of 200 = SR" "Type_of 201 = RR" "Type_of 205 = RTPFB"
  by (simp_all add: Type_of_def)

lemma Type_byte_of [simp]: "Type_byte (Type_of b) = b"
  by (simp add: Type_of_def)

section \<open>The common header\<close>

definition sizeof_CommonHeader :: nat where "sizeof_CommonHeader = 4"

definition ch_count :: "u8 list \<Rightarrow> u8" where "ch_count d = d ! 0 AND 31"
definition ch_version :: "u8 list \<Rightarrow> u8" where "ch_version d = drop_bit 6 (d ! 0)"
definition ch_packet_type :: "u8 list \<Rightarrow> u8" where "ch_packet_type d = d ! 1"
definition ch_length :: "u8 list \<Rightarrow> u16" where "ch_length d = Get2Bytes d 2"

definition IsRtcp :: "u8 list \<Rightarrow> bool" where
  "IsRtcp data \<longleftrightarrow> length data \<ge> sizeof_CommonHeader \<and> data ! 0 > 127 \<and> data ! 0 < 192
     \<and> ch_version data = 2 \<and> ch_packet_type data \<ge> 192 \<and> ch_packet_type data \<le> 223"

text \<open>
  The bytes that \<^verbatim>\<open>RtcpPacket::Serialize\<close> writes, for a packet with the given type, count
  and size: version 2, no padding, the count cut to five bits, and the length in words less
  one, in network order.
\<close>

definition RtcpPacket_Serialize :: "Type \<Rightarrow> nat \<Rightarrow> nat \<Rightarrow> u8 list" where
  "RtcpPacket_Serialize type count bytes =
     Set2Bytes [push_bit 6 2 OR (word_of_nat count AND 31), Type_byte type, 0, 0] 2
       (word_of_nat (bytes div 4 - 1))"

lemma length_Serialize [simp]: "length (RtcpPacket_Serialize t c n) = 4"
  by (simp add: RtcpPacket_Serialize_def)

lemma count_field: "unat (word_of_nat c AND (31 :: u8)) = c mod 32"
proof -
  have m: "(31 :: u8) = mask 5" by (simp add: mask_eq_exp_minus_1)
  have "word_of_nat c AND (31 :: u8) = word_of_nat (take_bit 5 c)"
    unfolding m by (simp flip: take_bit_eq_mask of_nat_take_bit)
  also have "take_bit 5 c = c mod 32" by (simp add: take_bit_eq_mod)
  finally show ?thesis by (simp add: unsigned_of_nat take_bit_nat_eq_self)
qed

lemma bit_128: "bit (128 :: int) n \<longleftrightarrow> n = 7"
proof -
  have "(128 :: int) = 2 ^ 7" by simp
  then show ?thesis by (simp only: bit_exp_iff) auto
qed

text \<open>The first byte: the count can be read back, the version is 2, and it is in RTCP range.\<close>

lemma first_byte:
  fixes x :: u8
  shows "(push_bit 6 2 OR (x AND 31)) AND 31 = x AND 31"
    and "drop_bit 6 (push_bit 6 2 OR (x AND 31)) = (2 :: u8)"
    and "(push_bit 6 2 OR (x AND 31)) > 127" "(push_bit 6 2 OR (x AND 31)) < 192"
proof -
  have m: "(31 :: u8) = mask 5" by (simp add: mask_eq_exp_minus_1)
  have p: "push_bit 6 2 = (128 :: u8)" by simp
  show "(push_bit 6 2 OR (x AND 31)) AND 31 = x AND 31"
    unfolding m p
    by (rule bit_word_eqI) (auto simp: bit_and_iff bit_or_iff bit_mask_iff bit_128)
  show "drop_bit 6 (push_bit 6 2 OR (x AND 31)) = (2 :: u8)"
    unfolding m p by (rule bit_word_eqI) (auto simp: bit_simps bit_128 bit_2_iff)
  have d: "128 AND (x AND 31) = 0"
    unfolding m by (rule bit_word_eqI) (auto simp: bit_simps bit_128)
  have "unat (x AND 31) = take_bit 5 (unat x)"
    unfolding m by (simp flip: take_bit_eq_mask add: unsigned_take_bit_eq)
  then have lt: "unat (x AND 31) < 32" by (simp add: take_bit_eq_mod)
  have "128 OR (x AND 31) = 128 + (x AND 31)" using d by (simp add: disjunctive_add_eq_or)
  moreover have "unat (128 + (x AND 31)) = 128 + unat (x AND 31)"
    by (subst unat_add_lem [THEN iffD1]) (use lt in simp_all)
  ultimately show "(push_bit 6 2 OR (x AND 31)) > 127" "(push_bit 6 2 OR (x AND 31)) < 192"
    unfolding p using lt by (simp_all add: word_less_nat_alt)
qed

text \<open>What the header writer writes, the header accessors read.\<close>

lemma Serialize_header:
  assumes "rest = RtcpPacket_Serialize t c n @ body"
  shows "ch_version rest = 2" "ch_packet_type rest = Type_byte t" "rest ! 0 > 127" "rest ! 0 < 192"
    and "ch_count rest = word_of_nat c AND 31"
    and "ch_length rest = word_of_nat (n div 4 - 1)"
proof -
  let ?h = "RtcpPacket_Serialize t c n"
  have h: "?h ! 0 = push_bit 6 2 OR (word_of_nat c AND 31)" "?h ! 1 = Type_byte t"
    by (simp_all add: RtcpPacket_Serialize_def Set2Bytes_def del: push_bit_numeral)
  have n: "rest ! 0 = ?h ! 0" "rest ! 1 = ?h ! 1" using assms by (simp_all add: nth_append)
  show "ch_version rest = 2" "ch_count rest = word_of_nat c AND 31" "rest ! 0 > 127" "rest ! 0 < 192"
    unfolding ch_version_def ch_count_def n h by (rule first_byte)+
  show "ch_packet_type rest = Type_byte t" by (simp only: ch_packet_type_def n h)
  have "ch_length rest = Get2Bytes ?h 2"
    unfolding ch_length_def assms by (rule be16.get_append) simp
  also have "\<dots> = word_of_nat (n div 4 - 1)"
    unfolding RtcpPacket_Serialize_def by (rule be16.get_put) simp_all
  finally show "ch_length rest = word_of_nat (n div 4 - 1)" .
qed

lemma Serialize_IsRtcp:
  assumes "Type_byte t \<ge> 192" "Type_byte t \<le> 223"
  shows "IsRtcp (RtcpPacket_Serialize t c n @ body)"
  using assms Serialize_header [OF refl, of t c n body]
  by (simp add: IsRtcp_def sizeof_CommonHeader_def)

lemma Serialize_length_field:
  assumes "n mod 4 = 0" "4 \<le> n" "n \<le> 262144"
  shows "(unat (ch_length (RtcpPacket_Serialize t c n @ body)) + 1) * 4 = n"
proof -
  have "n div 4 - 1 < 65536" using assms(3) by linarith
  then have "unat (ch_length (RtcpPacket_Serialize t c n @ body)) = n div 4 - 1"
    using Serialize_header(6) [OF refl, of t c n body] by (simp add: unat_of_nat_16)
  then show ?thesis using assms(1,2) by (auto elim!: evenE simp: mod_eq_0_iff_dvd dest: dvd_mult_div_cancel)
qed

end
