(* ===== verification/Rtcp_Reports.thy ===== *)
theory Rtcp_Reports
  imports Rtcp_Common
begin

text \<open>
  Sender and receiver reports and the packets that carry them
  (\<^verbatim>\<open>core/include/rtc/rtcp/sender_report_packet.h\<close>, \<^verbatim>\<open>receiver_report_packet.h\<close> and the
  files of the same names under \<^verbatim>\<open>core/src/rtc/rtcp\<close>). A report is its 24 header bytes in
  network order, which the code keeps behind a pointer. The pointers themselves are not modelled but in one
  place: \<open>ReceiverReportPacket_Parse_defined\<close> says whether parsing does without the pointer that was moved from.
\<close>

type_synonym report = "u8 list"

definition sizeof_Report :: nat where "sizeof_Report = 24"

definition new_report :: report where "new_report = replicate sizeof_Report 0"

section \<open>The sender report\<close>

definition SR_GetSize :: "report \<Rightarrow> nat" where "SR_GetSize r = sizeof_Report"
definition SR_GetSsrc :: "report \<Rightarrow> u32" where "SR_GetSsrc r = Get4Bytes r 0"
definition SR_GetNtpSec :: "report \<Rightarrow> u32" where "SR_GetNtpSec r = Get4Bytes r 4"
definition SR_GetNtpFrac :: "report \<Rightarrow> u32" where "SR_GetNtpFrac r = Get4Bytes r 8"
definition SR_GetRtpTs :: "report \<Rightarrow> u32" where "SR_GetRtpTs r = Get4Bytes r 12"
definition SR_GetPacketCount :: "report \<Rightarrow> u32" where "SR_GetPacketCount r = Get4Bytes r 16"
definition SR_GetOctetCount :: "report \<Rightarrow> u32" where "SR_GetOctetCount r = Get4Bytes r 20"
definition SR_SetSsrc :: "u32 \<Rightarrow> report \<Rightarrow> report" where "SR_SetSsrc v r = Set4Bytes r 0 v"
definition SR_SetNtpSec :: "u32 \<Rightarrow> report \<Rightarrow> report" where "SR_SetNtpSec v r = Set4Bytes r 4 v"
definition SR_SetNtpFrac :: "u32 \<Rightarrow> report \<Rightarrow> report" where "SR_SetNtpFrac v r = Set4Bytes r 8 v"
definition SR_SetRtpTs :: "u32 \<Rightarrow> report \<Rightarrow> report" where "SR_SetRtpTs v r = Set4Bytes r 12 v"
definition SR_SetPacketCount :: "u32 \<Rightarrow> report \<Rightarrow> report" where
  "SR_SetPacketCount v r = Set4Bytes r 16 v"
definition SR_SetOctetCount :: "u32 \<Rightarrow> report \<Rightarrow> report" where
  "SR_SetOctetCount v r = Set4Bytes r 20 v"

definition SenderReport_Parse :: "u8 list \<Rightarrow> report option" where
  "SenderReport_Parse data =
     (if length data < sizeof_Report then None else Some (take sizeof_Report data))"

definition SenderReport_Serialize :: "report \<Rightarrow> u8 list" where
  "SenderReport_Serialize r = take sizeof_Report r"

section \<open>The receiver report\<close>

definition RR_GetSize :: "report \<Rightarrow> nat" where "RR_GetSize r = sizeof_Report"
definition RR_GetSsrc :: "report \<Rightarrow> u32" where "RR_GetSsrc r = Get4Bytes r 0"
definition RR_SetSsrc :: "u32 \<Rightarrow> report \<Rightarrow> report" where "RR_SetSsrc v r = Set4Bytes r 0 v"
definition GetFractionLost :: "report \<Rightarrow> u8" where "GetFractionLost r = Get1Byte r 4"
definition SetFractionLost :: "u8 \<Rightarrow> report \<Rightarrow> report" where "SetFractionLost v r = Set1Byte r 4 v"

text \<open>The result is the 32-bit word read as a signed number.\<close>

definition GetTotalLost :: "report \<Rightarrow> int" where
  "GetTotalLost r =
     (let value = Get3Bytes r 5
      in if drop_bit 23 value AND 1 = 0 then sint value
         else (let value' = (if value \<noteq> 0x800000 then value AND NOT (push_bit 23 1) else value)
               in sint (- value')))"

text \<open>
  \<open>total_lost\<close> is a 32-bit signed number; for the least of them the negation in the code
  overflows.
\<close>

definition SetTotalLost :: "int \<Rightarrow> report \<Rightarrow> report" where
  "SetTotalLost total_lost r =
     (let clamp = (if total_lost \<ge> 0
                   then (if total_lost > 0x7FFFFF then 0x7FFFFF else total_lost)
                   else (if - total_lost > 0x800000 then 0x800000 else - total_lost));
          value = (if total_lost \<ge> 0 then clamp AND 0x7FFFFF else clamp OR 0x800000)
      in Set3Bytes r 5 (word_of_int value))"

definition GetLastSeq :: "report \<Rightarrow> u32" where "GetLastSeq r = Get4Bytes r 8"
definition SetLastSeq :: "u32 \<Rightarrow> report \<Rightarrow> report" where "SetLastSeq v r = Set4Bytes r 8 v"
definition GetJitter :: "report \<Rightarrow> u32" where "GetJitter r = Get4Bytes r 12"
definition SetJitter :: "u32 \<Rightarrow> report \<Rightarrow> report" where "SetJitter v r = Set4Bytes r 12 v"
definition GetLastSenderReport :: "report \<Rightarrow> u32" where "GetLastSenderReport r = Get4Bytes r 16"
definition SetLastSenderReport :: "u32 \<Rightarrow> report \<Rightarrow> report" where
  "SetLastSenderReport v r = Set4Bytes r 16 v"
definition GetDelaySinceLastSenderReport :: "report \<Rightarrow> u32" where
  "GetDelaySinceLastSenderReport r = Get4Bytes r 20"
definition SetDelaySinceLastSenderReport :: "u32 \<Rightarrow> report \<Rightarrow> report" where
  "SetDelaySinceLastSenderReport v r = Set4Bytes r 20 v"

definition ReceiverReport_Parse :: "u8 list \<Rightarrow> report option" where
  "ReceiverReport_Parse data =
     (if length data < sizeof_Report then None else Some (take sizeof_Report data))"

definition ReceiverReport_Serialize :: "report \<Rightarrow> u8 list" where
  "ReceiverReport_Serialize r = take sizeof_Report r"

section \<open>Laws of the fields\<close>

lemmas sr_fields = SR_GetSsrc_def SR_GetNtpSec_def SR_GetNtpFrac_def SR_GetRtpTs_def
  SR_GetPacketCount_def SR_GetOctetCount_def SR_SetSsrc_def SR_SetNtpSec_def SR_SetNtpFrac_def
  SR_SetRtpTs_def SR_SetPacketCount_def SR_SetOctetCount_def

lemmas rr_fields = RR_GetSsrc_def RR_SetSsrc_def GetFractionLost_def SetFractionLost_def
  GetLastSeq_def SetLastSeq_def GetJitter_def SetJitter_def GetLastSenderReport_def
  SetLastSenderReport_def GetDelaySinceLastSenderReport_def SetDelaySinceLastSenderReport_def

lemma length_new_report [simp]: "length new_report = 24"
  by (simp add: new_report_def sizeof_Report_def)

lemma length_SetTotalLost [simp]: "length (SetTotalLost n r) = length r"
  by (simp add: SetTotalLost_def Let_def)

lemma bit_23: "bit (8388608 :: int) n \<longleftrightarrow> n = 23"
proof -
  have "(8388608 :: int) = 2 ^ 23" by simp
  then show ?thesis by (simp only: bit_exp_iff) auto
qed

lemma or_high_bit: "0 \<le> c \<Longrightarrow> c < 8388608 \<Longrightarrow> c OR 8388608 = c + (8388608 :: int)"
proof -
  assume c: "0 \<le> c" "c < 8388608"
  have "c = take_bit 23 c" using c by (simp add: take_bit_int_eq_self)
  then have "c AND 8388608 = take_bit 23 c AND 8388608" by simp
  also have "\<dots> = 0" by (rule bit_eqI) (auto simp: bit_simps bit_23)
  finally show ?thesis by (simp add: disjunctive_add_eq_or)
qed

lemma sign_bit: "(drop_bit 23 (word_of_int k :: u32) AND 1 = 0) = (\<not> bit k 23)"
proof -
  have "drop_bit 23 (word_of_int k :: u32) AND 1 = of_bool (odd (drop_bit 23 (word_of_int k :: u32)))"
    by (simp add: and_one_eq odd_iff_mod_2_eq_one)
  then have "(drop_bit 23 (word_of_int k :: u32) AND 1 = 0) = (\<not> bit (word_of_int k :: u32) 23)"
    by (simp add: bit_iff_odd_drop_bit)
  then show ?thesis by (simp add: bit_word_of_int_iff)
qed

lemma sint_small: "- 16777216 < k \<Longrightarrow> k < 16777216 \<Longrightarrow> sint (word_of_int k :: u32) = k"
  by (simp add: signed_of_int signed_take_bit_int_eq_self)

lemma read_back:
  assumes "5 + 3 \<le> length r" "0 \<le> k" "k < 16777216"
  shows "Get3Bytes (Set3Bytes r 5 (word_of_int k)) 5 = word_of_int k"
proof (rule be24.get_put)
  have "uint (word_of_int k :: u32) = k" using assms by (simp add: unsigned_of_int take_bit_int_eq_self)
  then show "(word_of_int k :: u32) < 16777216" using assms(3) by (simp add: word_less_def)
qed (use assms in simp)

lemma clear_sign:
  assumes "0 \<le> c" "c < 8388608"
  shows "(word_of_int (c OR 8388608) :: u32) AND NOT (push_bit 23 1) = word_of_int c"
proof -
  have "c = take_bit 23 c" using assms by (simp add: take_bit_int_eq_self)
  then have "\<not> bit c 23" by (metis bit_take_bit_iff less_irrefl)
  then show ?thesis
    by (intro bit_word_eqI) (auto simp: bit_simps bit_23 bit_1_iff)
qed

lemma SetTotalLost_read:
  assumes "length r = sizeof_Report"
  shows "GetTotalLost (SetTotalLost n r) = max (- 8388608) (min 8388607 n)"
proof -
  have len: "5 + 3 \<le> length r" using assms by (simp add: sizeof_Report_def)
  consider "0 \<le> n" | "n \<le> - 8388608" | "- 8388608 < n" "n < 0" by linarith
  then show ?thesis
  proof cases
    case 1
    define c where "c = min n 8388607"
    have c: "0 \<le> c" "c < 8388608" using 1 by (simp_all add: c_def)
    have t: "take_bit 23 c = c" using c by (simp add: take_bit_int_eq_self)
    have m: "(8388607 :: int) = mask 23" by (simp add: mask_eq_exp_minus_1)
    have a: "c AND 8388607 = c" unfolding m using t by (simp flip: take_bit_eq_mask)
    have b: "\<not> bit c 23" using t by (metis bit_take_bit_iff less_irrefl)
    have "(if n > 8388607 then 8388607 else n) = c" by (auto simp: c_def)
    then have "SetTotalLost n r = Set3Bytes r 5 (word_of_int c)"
      using 1 a by (simp add: SetTotalLost_def)
    then have "GetTotalLost (SetTotalLost n r) = c"
      using read_back [OF len c(1)] c sint_small [of c] b
      unfolding GetTotalLost_def Let_def by (simp add: sign_bit)
    then show ?thesis using 1 by (simp add: c_def)
  next
    case 2
    have "sint (- 8388608 :: u32) = - 8388608"
      using sint_small [of "- 8388608"] by simp
    moreover have "(if - n > 8388608 then 8388608 else - n) = 8388608" using 2 by auto
    then have "SetTotalLost n r = Set3Bytes r 5 8388608" using 2 by (simp add: SetTotalLost_def)
    ultimately show ?thesis
      using 2 read_back [OF len, of 8388608]
      by (simp add: GetTotalLost_def)
  next
    case 3
    define c where "c = - n"
    have c: "0 < c" "c < 8388608" using 3 by (simp_all add: c_def)
    define v where "v = c OR 8388608"
    have v: "v = c + 8388608" unfolding v_def using c by (intro or_high_bit) simp_all
    have b: "bit v 23" by (simp add: v_def bit_or_iff bit_23)
    have vb: "0 \<le> v" "v < 16777216" using c v by simp_all
    have "uint (word_of_int v :: u32) = v" using vb by (simp add: unsigned_of_int take_bit_int_eq_self)
    then have ne: "(word_of_int v :: u32) \<noteq> 8388608" using c v by auto
    have clr: "(word_of_int v :: u32) AND NOT (push_bit 23 1) = word_of_int c"
      unfolding v_def by (rule clear_sign) (use c in simp_all)
    have sg: "sint (- (word_of_int c) :: u32) = n"
      using sint_small [of "- c"] c by (simp add: c_def)
    have "SetTotalLost n r = Set3Bytes r 5 (word_of_int v)"
      using 3 by (simp add: SetTotalLost_def v_def c_def)
    moreover have "Get3Bytes (Set3Bytes r 5 (word_of_int v)) 5 = word_of_int v"
      using read_back [OF len, of v] c v by simp
    ultimately have "GetTotalLost (SetTotalLost n r) = n"
      using b ne sg clr unfolding GetTotalLost_def Let_def by (simp add: sign_bit)
    then show ?thesis using 3 by simp
  qed
qed

text \<open>
  The number of lost packets survives writing and reading, cut to the range of the
  24-bit field: at most 8388607 lost, at most 8388608 duplicated.
\<close>

lemma TotalLost_roundtrip:
  assumes "length r = sizeof_Report"
  shows "GetTotalLost (SetTotalLost n r) = max (- 8388608) (min 8388607 n)"
  using assms by (rule SetTotalLost_read)

section \<open>The packets\<close>

record SenderReportPacket =
  sp_reports :: "report list"

record ReceiverReportPacket =
  rp_ssrc :: u32
  rp_reports :: "report list"

definition SRP_AddReport :: "report \<Rightarrow> SenderReportPacket \<Rightarrow> SenderReportPacket" where
  "SRP_AddReport r p = p\<lparr>sp_reports := sp_reports p @ [r]\<rparr>"

definition RRP_AddReport :: "report \<Rightarrow> ReceiverReportPacket \<Rightarrow> ReceiverReportPacket" where
  "RRP_AddReport r p = p\<lparr>rp_reports := rp_reports p @ [r]\<rparr>"

text \<open>
  Removing compares the pointers of the reports; the only caller removes the report it has
  just appended, whose pointer occurs nowhere else.
\<close>

definition SRP_RemoveLast :: "SenderReportPacket \<Rightarrow> SenderReportPacket" where
  "SRP_RemoveLast p = p\<lparr>sp_reports := butlast (sp_reports p)\<rparr>"

definition RRP_RemoveLast :: "ReceiverReportPacket \<Rightarrow> ReceiverReportPacket" where
  "RRP_RemoveLast p = p\<lparr>rp_reports := butlast (rp_reports p)\<rparr>"

definition RRP_GetSsrc :: "ReceiverReportPacket \<Rightarrow> u32" where "RRP_GetSsrc p = rp_ssrc p"
definition RRP_SetSsrc :: "u32 \<Rightarrow> ReceiverReportPacket \<Rightarrow> ReceiverReportPacket" where
  "RRP_SetSsrc v p = p\<lparr>rp_ssrc := v\<rparr>"
definition SRP_GetCount :: "SenderReportPacket \<Rightarrow> nat" where
  "SRP_GetCount p = length (sp_reports p)"
definition RRP_GetCount :: "ReceiverReportPacket \<Rightarrow> nat" where
  "RRP_GetCount p = length (rp_reports p)"

definition SRP_GetSize :: "SenderReportPacket \<Rightarrow> nat" where
  "SRP_GetSize p = sizeof_CommonHeader + sum_list (map SR_GetSize (sp_reports p))"

definition RRP_GetSize :: "ReceiverReportPacket \<Rightarrow> nat" where
  "RRP_GetSize p = sizeof_CommonHeader + 4 + sum_list (map RR_GetSize (rp_reports p))"

definition SenderReportPacket_Parse :: "u8 list \<Rightarrow> SenderReportPacket option" where
  "SenderReportPacket_Parse data =
     (case SenderReport_Parse (drop sizeof_CommonHeader data) of
        Some r \<Rightarrow> Some (SRP_AddReport r \<lparr>sp_reports = []\<rparr>)
      | None \<Rightarrow> Some \<lparr>sp_reports = []\<rparr>)"

text \<open>
  The loop of \<^verbatim>\<open>ReceiverReportPacket::Parse\<close> moves the pointer to the report into the list and then
  asks for its size through the same pointer, which is null by then. This call is undefined. Because
  \<^verbatim>\<open>GetSize\<close> is not virtual and reads no member, a compiler that does not exploit that gives the constant
  24 for it. The reports below are what the loop reads then, and \<open>rr_parse_defined\<close> tells whether the
  call is not made; who calls the parser takes its result only when it is defined.
\<close>

fun rr_parse_reports :: "nat \<Rightarrow> u8 list \<Rightarrow> nat \<Rightarrow> report list" where
  "rr_parse_reports 0 data offset = []"
| "rr_parse_reports (Suc count) data offset =
     (if length data > offset
      then (case ReceiverReport_Parse (drop offset data) of
              Some r \<Rightarrow> r # rr_parse_reports count data (offset + RR_GetSize r)
            | None \<Rightarrow> [])
      else [])"

fun rr_parse_defined :: "nat \<Rightarrow> u8 list \<Rightarrow> nat \<Rightarrow> bool" where
  "rr_parse_defined 0 data offset \<longleftrightarrow> True"
| "rr_parse_defined (Suc count) data offset \<longleftrightarrow>
     (if length data > offset
      then (case ReceiverReport_Parse (drop offset data) of Some r \<Rightarrow> False | None \<Rightarrow> True)
      else True)"

lemma rr_parse_defined_iff: "rr_parse_defined n data offset \<longleftrightarrow> rr_parse_reports n data offset = []"
  by (cases n) (auto split: option.splits)

definition ReceiverReportPacket_Parse ::
  "u8 list \<Rightarrow> nat \<Rightarrow> ReceiverReportPacket option"
where
  "ReceiverReportPacket_Parse data offset =
     (if length data < sizeof_CommonHeader + 4 then None
      else
        (let offset' = (if offset = 0 then sizeof_CommonHeader + 4 else offset)
         in Some \<lparr>rp_ssrc = Get4Bytes data sizeof_CommonHeader,
                  rp_reports = rr_parse_reports (unat (ch_count data)) data offset'\<rparr>))"

definition ReceiverReportPacket_Parse_defined :: "u8 list \<Rightarrow> nat \<Rightarrow> bool" where
  "ReceiverReportPacket_Parse_defined data offset \<longleftrightarrow>
     (if length data < sizeof_CommonHeader + 4 then True
      else
        (let offset' = (if offset = 0 then sizeof_CommonHeader + 4 else offset)
         in rr_parse_defined (unat (ch_count data)) data offset'))"

definition SenderReportPacket_Serialize :: "SenderReportPacket \<Rightarrow> u8 list" where
  "SenderReportPacket_Serialize p =
     RtcpPacket_Serialize SR (SRP_GetCount p) (SRP_GetSize p)
     @ concat (map SenderReport_Serialize (sp_reports p))"

definition ReceiverReportPacket_Serialize :: "ReceiverReportPacket \<Rightarrow> u8 list" where
  "ReceiverReportPacket_Serialize p =
     RtcpPacket_Serialize RR (RRP_GetCount p) (RRP_GetSize p)
     @ Set4Bytes (replicate 4 0) 0 (rp_ssrc p)
     @ concat (map ReceiverReport_Serialize (rp_reports p))"

section \<open>Sizes and round trips\<close>

definition reports_ok :: "report list \<Rightarrow> bool" where
  "reports_ok rs \<longleftrightarrow> list_all (\<lambda>r. length r = sizeof_Report) rs"

lemma length_serialized:
  "reports_ok rs \<Longrightarrow> length (concat (map SenderReport_Serialize rs)) = 24 * length rs"
  "reports_ok rs \<Longrightarrow> length (concat (map ReceiverReport_Serialize rs)) = 24 * length rs"
  by (induction rs) (simp_all add: reports_ok_def SenderReport_Serialize_def
      ReceiverReport_Serialize_def sizeof_Report_def)

lemma report_sizes:
  "SRP_GetSize p = 4 + 24 * length (sp_reports p)"
  "RRP_GetSize q = 8 + 24 * length (rp_reports q)"
proof -
  have "sum_list (map SR_GetSize rs) = 24 * length rs" "sum_list (map RR_GetSize rs) = 24 * length rs"
    for rs by (induction rs) (simp_all add: SR_GetSize_def RR_GetSize_def sizeof_Report_def)
  then show "SRP_GetSize p = 4 + 24 * length (sp_reports p)"
    "RRP_GetSize q = 8 + 24 * length (rp_reports q)"
    by (simp_all add: SRP_GetSize_def RRP_GetSize_def sizeof_CommonHeader_def)
qed

text \<open>A packet writes exactly the bytes it announces.\<close>

lemma packet_writes_size:
  "reports_ok (sp_reports p) \<Longrightarrow> length (SenderReportPacket_Serialize p) = SRP_GetSize p"
  "reports_ok (rp_reports q) \<Longrightarrow> length (ReceiverReportPacket_Serialize q) = RRP_GetSize q"
  by (simp_all add: SenderReportPacket_Serialize_def ReceiverReportPacket_Serialize_def
      length_serialized report_sizes)

lemma rr_parse_serialized:
  assumes "reports_ok rs" "drop off data = concat (map ReceiverReport_Serialize rs)"
    "off \<le> length data" "k \<le> length rs"
  shows "rr_parse_reports k data off = take k rs"
  using assms
proof (induction rs arbitrary: off k)
  case Nil
  then show ?case by simp
next
  case (Cons r rs)
  show ?case
  proof (cases k)
    case 0
    then show ?thesis by simp
  next
    case k: (Suc j)
  have r: "length r = 24" and ok: "reports_ok rs"
    using Cons.prems(1) by (simp_all add: reports_ok_def sizeof_Report_def)
  have d: "drop off data = r @ concat (map ReceiverReport_Serialize rs)"
    using Cons.prems(2) r by (simp add: ReceiverReport_Serialize_def [of r] sizeof_Report_def)
  have len: "off + 24 \<le> length data" using d r Cons.prems(3)
    by (metis add_le_imp_le_diff le_add_diff_inverse length_append length_drop nat_add_left_cancel_le le_add1)
  have "drop (off + 24) data = concat (map ReceiverReport_Serialize rs)"
    using arg_cong [OF d, of "drop 24"] r by (simp add: add.commute)
  then have "rr_parse_reports j data (off + 24) = take j rs"
    using Cons.IH [OF ok] len Cons.prems(4) k by simp
  then show ?thesis
    using d r len k by (simp add: ReceiverReport_Parse_def RR_GetSize_def sizeof_Report_def)
  qed
qed

text \<open>The field for the number of reports has five bits.\<close>

lemma ReceiverReportPacket_roundtrip:
  assumes ok: "reports_ok (rp_reports p)"
  defines "k \<equiv> length (rp_reports p) mod 32"
  shows "ReceiverReportPacket_Parse (ReceiverReportPacket_Serialize p) 0
      = Some (p\<lparr>rp_reports := take k (rp_reports p)\<rparr>)"
    and "ReceiverReportPacket_Parse_defined (ReceiverReportPacket_Serialize p) 0 \<longleftrightarrow> k = 0"
proof -
  let ?d = "ReceiverReportPacket_Serialize p"
  let ?body = "Set4Bytes (replicate 4 0) 0 (rp_ssrc p) @ concat (map ReceiverReport_Serialize (rp_reports p))"
  have len: "length ?d = 8 + 24 * length (rp_reports p)"
    using packet_writes_size(2) [OF ok] report_sizes by simp
  have k: "unat (ch_count ?d) = k"
    using Serialize_header(5) [OF ReceiverReportPacket_Serialize_def] count_field
    by (simp add: RRP_GetCount_def k_def)
  have reports: "rr_parse_reports k ?d 8 = take k (rp_reports p)"
    using len by (intro rr_parse_serialized [OF ok])
      (simp_all add: ReceiverReportPacket_Serialize_def k_def)
  have "Get4Bytes ?d 4 = rp_ssrc p"
  proof -
    have "Get4Bytes ?d 4 = Get4Bytes (Set4Bytes (replicate 4 0) 0 (rp_ssrc p)) 0"
      by (simp add: Get4Bytes_def ReceiverReportPacket_Serialize_def nth_append numeral_2_eq_2)
    then show ?thesis using be32.get_put [of 0 "replicate 4 0" "rp_ssrc p"] by simp
  qed
  then show "ReceiverReportPacket_Parse ?d 0 = Some (p\<lparr>rp_reports := take k (rp_reports p)\<rparr>)"
    using len k reports by (simp add: ReceiverReportPacket_Parse_def sizeof_CommonHeader_def)
  have "k \<le> length (rp_reports p)" by (simp add: k_def)
  then have "take k (rp_reports p) = [] \<longleftrightarrow> k = 0" by auto
  then show "ReceiverReportPacket_Parse_defined ?d 0 \<longleftrightarrow> k = 0"
    using len k reports
    by (simp add: ReceiverReportPacket_Parse_defined_def sizeof_CommonHeader_def rr_parse_defined_iff)
qed

text \<open>Only the first sender report is read back.\<close>

lemma SenderReportPacket_roundtrip:
  assumes ok: "reports_ok (sp_reports p)"
  shows "SenderReportPacket_Parse (SenderReportPacket_Serialize p) = Some \<lparr>sp_reports = take 1 (sp_reports p)\<rparr>"
proof (cases "sp_reports p")
  case Nil
  then show ?thesis
    by (simp add: SenderReportPacket_Parse_def SenderReportPacket_Serialize_def
        SenderReport_Parse_def sizeof_CommonHeader_def sizeof_Report_def)
next
  case (Cons r rs)
  then have "length r = 24" using ok by (simp_all add: reports_ok_def sizeof_Report_def)
  then show ?thesis using Cons
    by (simp add: SenderReportPacket_Parse_def SenderReportPacket_Serialize_def SRP_AddReport_def
        SenderReport_Parse_def SenderReport_Serialize_def sizeof_CommonHeader_def sizeof_Report_def)
qed

lemma TotalLost_roundtrip_witness:
  "GetTotalLost (SetTotalLost (- 5) new_report) = - 5"
  using TotalLost_roundtrip [of new_report "- 5"] by (simp add: sizeof_Report_def)

end
