(* ===== verification/Rtcp_Packet.thy ===== *)
theory Rtcp_Packet
  imports Rtcp_Reports Rtp_Packet
begin

text \<open>
  Feedback packets (\<^verbatim>\<open>feedback_packet\<close>, \<^verbatim>\<open>feedback_rtp_item\<close>, \<^verbatim>\<open>feedback_item.h\<close> and
  \<^verbatim>\<open>nack_packet\<close> under \<^verbatim>\<open>core/include/rtc/rtcp\<close> and \<^verbatim>\<open>core/src/rtc/rtcp\<close>), the parser
  \<^verbatim>\<open>RtcpPacket::Parse\<close> (\<^verbatim>\<open>rtcp_packet.cpp\<close>), and compound packets
  (\<^verbatim>\<open>compound_packet.cpp\<close>). The template argument \<^verbatim>\<open>Item\<close> of the feedback items is the
  NACK item, the only instance.
\<close>

section \<open>NACK items\<close>

type_synonym nack_item = "u8 list"

definition sizeof_NackItem :: nat where "sizeof_NackItem = 4"

definition CountSetBits :: "u16 \<Rightarrow> nat" where
  "CountSetBits m = length (filter (bit m) [0..<16])"

definition FeedbackRtpNackItem :: "u16 \<Rightarrow> u16 \<Rightarrow> nack_item" where
  "FeedbackRtpNackItem packet_id lost_packet_bitmask =
     Set2Bytes (Set2Bytes (replicate 4 0) 0 packet_id) 2 lost_packet_bitmask"

definition GetPacketId :: "nack_item \<Rightarrow> u16" where "GetPacketId it = Get2Bytes it 0"
definition GetLostPacketBitmask :: "nack_item \<Rightarrow> u16" where
  "GetLostPacketBitmask it = Get2Bytes it 2"

text \<open>The code counts the bits of the field as it is in memory.\<close>

definition CountRequestedPackets :: "nack_item \<Rightarrow> nat" where
  "CountRequestedPackets it = CountSetBits (host16 it 2) + 1"

definition NackItem_Parse :: "u8 list \<Rightarrow> nack_item option" where
  "NackItem_Parse data =
     (if sizeof_NackItem > length data then None else Some (take sizeof_NackItem data))"

definition NackItem_Serialize :: "nack_item \<Rightarrow> u8 list" where
  "NackItem_Serialize it = take sizeof_NackItem it"

section \<open>Feedback packets\<close>

datatype FeedbackPs = PLI | SLI | RPSI | FIR | TSTR | TSTN | VBCM | PSLEI | ROI | AFB | EXT_PS
  | OtherPs u8

datatype FeedbackRtp = NACK | TMMBR | TMMBN | SR_REQ | RAMS | TLLEI | ECN | PS | TCC | QUICFB
  | EXT_RTP | OtherRtp u8

definition FeedbackRtp_of :: "u8 \<Rightarrow> FeedbackRtp" where
  "FeedbackRtp_of c =
     (if c = 1 then NACK else if c = 3 then TMMBR else if c = 4 then TMMBN
      else if c = 5 then SR_REQ else if c = 6 then RAMS else if c = 7 then TLLEI
      else if c = 8 then ECN else if c = 9 then PS else if c = 15 then TCC
      else if c = 16 then QUICFB else if c = 31 then EXT_RTP else OtherRtp c)"

fun FeedbackRtp_code :: "FeedbackRtp \<Rightarrow> u8" where
  "FeedbackRtp_code NACK = 1" | "FeedbackRtp_code TMMBR = 3" | "FeedbackRtp_code TMMBN = 4"
| "FeedbackRtp_code SR_REQ = 5" | "FeedbackRtp_code RAMS = 6" | "FeedbackRtp_code TLLEI = 7"
| "FeedbackRtp_code ECN = 8" | "FeedbackRtp_code PS = 9" | "FeedbackRtp_code TCC = 15"
| "FeedbackRtp_code QUICFB = 16" | "FeedbackRtp_code EXT_RTP = 31"
| "FeedbackRtp_code (OtherRtp c) = c"

definition FeedbackPs_of :: "u8 \<Rightarrow> FeedbackPs" where
  "FeedbackPs_of c =
     (if c = 1 then PLI else if c = 2 then SLI else if c = 3 then RPSI else if c = 4 then FIR
      else if c = 5 then TSTR else if c = 6 then TSTN else if c = 7 then VBCM
      else if c = 8 then PSLEI else if c = 9 then ROI else if c = 15 then AFB
      else if c = 31 then EXT_PS else OtherPs c)"

fun MessageType2String :: "FeedbackRtp \<Rightarrow> string" where
  "MessageType2String NACK = ''NACK''" | "MessageType2String TMMBR = ''TMMBR''"
| "MessageType2String TMMBN = ''TMMBN''" | "MessageType2String SR_REQ = ''SR_REQ''"
| "MessageType2String RAMS = ''RAMS''" | "MessageType2String TLLEI = ''TLLEI''"
| "MessageType2String ECN = ''ECN''" | "MessageType2String PS = ''PS''"
| "MessageType2String EXT_RTP = ''EXT''" | "MessageType2String TCC = ''TCC''"
| "MessageType2String QUICFB = ''QUICFB''" | "MessageType2String (OtherRtp c) = ''UNKNOWN''"

fun PsMessageType2String :: "FeedbackPs \<Rightarrow> string" where
  "PsMessageType2String PLI = ''PLI''" | "PsMessageType2String SLI = ''SLI''"
| "PsMessageType2String RPSI = ''RPSI''" | "PsMessageType2String FIR = ''FIR''"
| "PsMessageType2String TSTR = ''TSTR''" | "PsMessageType2String TSTN = ''TSTN''"
| "PsMessageType2String VBCM = ''VBCM''" | "PsMessageType2String PSLEI = ''PSLEI''"
| "PsMessageType2String ROI = ''ROI''" | "PsMessageType2String AFB = ''AFB''"
| "PsMessageType2String EXT_PS = ''EXT''" | "PsMessageType2String (OtherPs c) = ''UNKNOWN''"

text \<open>The two source numbers, and for the items packet its items.\<close>

record FeedbackRtpPacket =
  fb_header :: "u8 list"
  fb_message_type :: FeedbackRtp
  fb_items :: "nack_item list"

definition sizeof_FeedbackHeader :: nat where "sizeof_FeedbackHeader = 8"

definition FeedbackRtpPacket_new :: "FeedbackRtp \<Rightarrow> u32 \<Rightarrow> u32 \<Rightarrow> FeedbackRtpPacket" where
  "FeedbackRtpPacket_new t sender_ssrc media_ssrc =
     \<lparr>fb_header = Set4Bytes (Set4Bytes (replicate 8 0) 0 sender_ssrc) 4 media_ssrc,
      fb_message_type = t, fb_items = []\<rparr>"

definition FeedbackRtpNackPacket_new :: "u32 \<Rightarrow> u32 \<Rightarrow> FeedbackRtpPacket" where
  "FeedbackRtpNackPacket_new = FeedbackRtpPacket_new NACK"

definition FeedbackRtpPacket_of_header :: "u8 list \<Rightarrow> FeedbackRtpPacket" where
  "FeedbackRtpPacket_of_header data =
     \<lparr>fb_header = take sizeof_FeedbackHeader (drop sizeof_CommonHeader data),
      fb_message_type = FeedbackRtp_of (ch_count data), fb_items = []\<rparr>"

definition GetSenderSsrc :: "FeedbackRtpPacket \<Rightarrow> u32" where
  "GetSenderSsrc p = Get4Bytes (fb_header p) 0"
definition SetSenderSsrc :: "u32 \<Rightarrow> FeedbackRtpPacket \<Rightarrow> FeedbackRtpPacket" where
  "SetSenderSsrc v p = p\<lparr>fb_header := Set4Bytes (fb_header p) 0 v\<rparr>"
definition GetMediaSsrc :: "FeedbackRtpPacket \<Rightarrow> u32" where
  "GetMediaSsrc p = Get4Bytes (fb_header p) 4"
definition SetMediaSsrc :: "u32 \<Rightarrow> FeedbackRtpPacket \<Rightarrow> FeedbackRtpPacket" where
  "SetMediaSsrc v p = p\<lparr>fb_header := Set4Bytes (fb_header p) 4 v\<rparr>"
definition AddItem :: "nack_item \<Rightarrow> FeedbackRtpPacket \<Rightarrow> FeedbackRtpPacket" where
  "AddItem it p = p\<lparr>fb_items := fb_items p @ [it]\<rparr>"
definition FB_GetCount :: "FeedbackRtpPacket \<Rightarrow> nat" where
  "FB_GetCount p = unat (FeedbackRtp_code (fb_message_type p))"
definition FB_GetSize :: "FeedbackRtpPacket \<Rightarrow> nat" where
  "FB_GetSize p = sizeof_CommonHeader + sizeof_FeedbackHeader
     + sum_list (map (\<lambda>_. sizeof_NackItem) (fb_items p))"

function fb_parse_items :: "u8 list \<Rightarrow> nat \<Rightarrow> nack_item list" where
  "fb_parse_items data offset =
     (if length data > offset
      then (case NackItem_Parse (drop offset data) of
              Some it \<Rightarrow> it # fb_parse_items data (offset + sizeof_NackItem)
            | None \<Rightarrow> [])
      else [])"
  by pat_completeness auto

termination
  by (relation "measure (\<lambda>(data, offset). length data - offset)") (auto simp: sizeof_NackItem_def)

declare fb_parse_items.simps [simp del]

definition FeedbackRtpNackPacket_Parse :: "u8 list \<Rightarrow> FeedbackRtpPacket option" where
  "FeedbackRtpNackPacket_Parse data =
     (if length data < sizeof_CommonHeader + sizeof_FeedbackHeader then None
      else Some ((FeedbackRtpPacket_of_header data)\<lparr>fb_items :=
             fb_parse_items data (sizeof_CommonHeader + sizeof_FeedbackHeader)\<rparr>))"

definition FeedbackRtpPacket_Parse :: "u8 list \<Rightarrow> FeedbackRtpPacket option" where
  "FeedbackRtpPacket_Parse data =
     (if length data < sizeof_CommonHeader + sizeof_FeedbackHeader then None
      else (case FeedbackRtp_of (ch_count data) of
              NACK \<Rightarrow> FeedbackRtpNackPacket_Parse data
            | _ \<Rightarrow> None))"

text \<open>No payload-specific feedback is supported: its parser has no branch that returns one.\<close>

definition FeedbackPsPacket_Parse :: "u8 list \<Rightarrow> FeedbackRtpPacket option" where
  "FeedbackPsPacket_Parse data =
     (if length data < sizeof_CommonHeader + sizeof_FeedbackHeader then None
      else (case FeedbackPs_of (ch_count data) of _ \<Rightarrow> None))"

definition FeedbackRtpPacket_Serialize :: "FeedbackRtpPacket \<Rightarrow> u8 list" where
  "FeedbackRtpPacket_Serialize p =
     RtcpPacket_Serialize RTPFB (FB_GetCount p) (FB_GetSize p)
     @ take sizeof_FeedbackHeader (fb_header p)
     @ concat (map NackItem_Serialize (fb_items p))"

section \<open>The parser\<close>

datatype rtcp_packet =
    SrPacket SenderReportPacket
  | RrPacket ReceiverReportPacket
  | RtpFbPacket FeedbackRtpPacket

text \<open>
  One round of the loop: the packet at the start of the data replaces the current one if its
  type is one of the three that are parsed; for the other types the current one stays.
\<close>

definition rtcp_parse_one :: "u8 list \<Rightarrow> rtcp_packet option \<Rightarrow> rtcp_packet option" where
  "rtcp_parse_one data current =
     (case Type_of (ch_packet_type data) of
        SR \<Rightarrow> map_option SrPacket (SenderReportPacket_Parse data)
      | RR \<Rightarrow> map_option RrPacket (ReceiverReportPacket_Parse data 0)
      | RTPFB \<Rightarrow> map_option RtpFbPacket (FeedbackRtpPacket_Parse data)
      | _ \<Rightarrow> current)"

definition rtcp_packet_len :: "u8 list \<Rightarrow> nat" where
  "rtcp_packet_len data = (unat (ch_length data) + 1) * 4"

function rtcp_parse_loop :: "rtcp_packet option \<Rightarrow> u8 list \<Rightarrow> rtcp_packet option" where
  "rtcp_parse_loop current data =
     (if data = [] then current
      else if \<not> IsRtcp data then None
      else if length data < rtcp_packet_len data then None
      else (case rtcp_parse_one (take (rtcp_packet_len data) data) current of
              None \<Rightarrow> None
            | Some p \<Rightarrow> rtcp_parse_loop (Some p) (drop (rtcp_packet_len data) data)))"
  by pat_completeness auto

termination
  by (relation "measure (\<lambda>(_, data). length data)") (auto simp: rtcp_packet_len_def)

declare rtcp_parse_loop.simps [simp del]

definition RtcpPacket_Parse :: "u8 list \<Rightarrow> rtcp_packet option" where
  "RtcpPacket_Parse data = rtcp_parse_loop None data"

text \<open>Whether no operation of the parser is undefined: the same loop, with what the parsers need.\<close>

definition rtcp_one_defined :: "u8 list \<Rightarrow> bool" where
  "rtcp_one_defined data \<longleftrightarrow>
     (case Type_of (ch_packet_type data) of
        RR \<Rightarrow> ReceiverReportPacket_Parse_defined data 0
      | _ \<Rightarrow> True)"

function rtcp_loop_defined :: "rtcp_packet option \<Rightarrow> u8 list \<Rightarrow> bool" where
  "rtcp_loop_defined current data \<longleftrightarrow>
     (if data = [] then True
      else if \<not> IsRtcp data then True
      else if length data < rtcp_packet_len data then True
      else rtcp_one_defined (take (rtcp_packet_len data) data)
        \<and> (case rtcp_parse_one (take (rtcp_packet_len data) data) current of
              None \<Rightarrow> True
            | Some p \<Rightarrow> rtcp_loop_defined (Some p) (drop (rtcp_packet_len data) data)))"
  by pat_completeness auto

termination
  by (relation "measure (\<lambda>(_, data). length data)") (auto simp: rtcp_packet_len_def)

declare rtcp_loop_defined.simps [simp del]

definition RtcpPacket_Parse_defined :: "u8 list \<Rightarrow> bool" where
  "RtcpPacket_Parse_defined data = rtcp_loop_defined None data"

section \<open>Compound packets\<close>

definition kMaxSize :: nat where "kMaxSize = kMtuSize - 40 - 20 - 148"

record CompoundPacket =
  cp_sender :: SenderReportPacket
  cp_receiver :: ReceiverReportPacket

definition CompoundPacket_init :: CompoundPacket where
  "CompoundPacket_init =
     \<lparr>cp_sender = \<lparr>sp_reports = []\<rparr>, cp_receiver = \<lparr>rp_ssrc = 0, rp_reports = []\<rparr>\<rparr>"

definition Compound_GetSize :: "CompoundPacket \<Rightarrow> nat" where
  "Compound_GetSize c =
     (if SRP_GetCount (cp_sender c) > 0 then SRP_GetSize (cp_sender c) else 0)
     + (if RRP_GetCount (cp_receiver c) > 0 then RRP_GetSize (cp_receiver c) else 0)"

definition GetSenderReportCount :: "CompoundPacket \<Rightarrow> nat" where
  "GetSenderReportCount c = SRP_GetCount (cp_sender c)"
definition GetReceiverReportCount :: "CompoundPacket \<Rightarrow> nat" where
  "GetReceiverReportCount c = RRP_GetCount (cp_receiver c)"
definition HasSenderReport :: "CompoundPacket \<Rightarrow> bool" where
  "HasSenderReport c \<longleftrightarrow> sp_reports (cp_sender c) \<noteq> []"

definition AddSenderReport :: "report \<Rightarrow> CompoundPacket \<Rightarrow> bool \<times> CompoundPacket" where
  "AddSenderReport r c =
     (let c' = c\<lparr>cp_sender := SRP_AddReport r (cp_sender c)\<rparr>
      in if Compound_GetSize c' \<le> kMaxSize then (True, c')
         else (False, c'\<lparr>cp_sender := SRP_RemoveLast (cp_sender c')\<rparr>))"

definition AddReceiverReport :: "report \<Rightarrow> CompoundPacket \<Rightarrow> bool \<times> CompoundPacket" where
  "AddReceiverReport r c =
     (let c' = c\<lparr>cp_receiver := RRP_AddReport r (cp_receiver c)\<rparr>
      in if Compound_GetSize c' \<le> kMaxSize then (True, c')
         else (False, c'\<lparr>cp_receiver := RRP_RemoveLast (cp_receiver c')\<rparr>))"

definition CompoundPacket_Serialize :: "CompoundPacket \<Rightarrow> u8 list" where
  "CompoundPacket_Serialize c =
     (if SRP_GetCount (cp_sender c) > 0 then SenderReportPacket_Serialize (cp_sender c) else [])
     @ (if RRP_GetCount (cp_receiver c) > 0
        then ReceiverReportPacket_Serialize (cp_receiver c) else [])"

section \<open>What the parser accepts\<close>









section \<open>Compound packets are parsed back\<close>

lemma rtcp_parse_loop_packet:
  fixes c :: nat
  assumes n: "n mod 4 = 0" "4 \<le> n" "n \<le> 262144" and len: "length body = n - 4"
    and t: "Type_byte t \<ge> 192" "Type_byte t \<le> 223"
  defines "pkt \<equiv> RtcpPacket_Serialize t c n @ body"
  shows "rtcp_parse_loop current (pkt @ rest) =
    (case rtcp_parse_one pkt current of None \<Rightarrow> None | Some p \<Rightarrow> rtcp_parse_loop (Some p) rest)"
    and "rtcp_loop_defined current (pkt @ rest) \<longleftrightarrow> rtcp_one_defined pkt
      \<and> (case rtcp_parse_one pkt current of None \<Rightarrow> True | Some p \<Rightarrow> rtcp_loop_defined (Some p) rest)"
proof -
  have r: "pkt @ rest = RtcpPacket_Serialize t c n @ (body @ rest)" by (simp add: pkt_def)
  have lp: "length pkt = n" using len n(2) by (simp add: pkt_def)
  have *: "rtcp_packet_len (pkt @ rest) = n" "IsRtcp (pkt @ rest)" "pkt \<noteq> []"
    unfolding r rtcp_packet_len_def
    using Serialize_length_field [OF n] Serialize_IsRtcp [OF t] lp n(2) by auto
  show "rtcp_parse_loop current (pkt @ rest) =
    (case rtcp_parse_one pkt current of None \<Rightarrow> None | Some p \<Rightarrow> rtcp_parse_loop (Some p) rest)"
    using lp * by (subst rtcp_parse_loop.simps) (cases "rtcp_parse_one pkt current"; simp)
  show "rtcp_loop_defined current (pkt @ rest) \<longleftrightarrow> rtcp_one_defined pkt
      \<and> (case rtcp_parse_one pkt current of None \<Rightarrow> True | Some p \<Rightarrow> rtcp_loop_defined (Some p) rest)"
    using lp * by (subst rtcp_loop_defined.simps) (cases "rtcp_parse_one pkt current"; simp)
qed

lemma parse_serialized_sr:
  assumes ok: "reports_ok (sp_reports p)" and size: "SRP_GetSize p \<le> kMaxSize"
  defines "q \<equiv> \<lparr>sp_reports = take 1 (sp_reports p)\<rparr>"
  shows "rtcp_parse_loop current (SenderReportPacket_Serialize p @ rest) = rtcp_parse_loop (Some (SrPacket q)) rest"
    and "rtcp_loop_defined current (SenderReportPacket_Serialize p @ rest)
      \<longleftrightarrow> rtcp_loop_defined (Some (SrPacket q)) rest"
proof -
  have t: "ch_packet_type (SenderReportPacket_Serialize p) = 200"
    using Serialize_header(2) [OF SenderReportPacket_Serialize_def] by simp
  have one: "rtcp_parse_one (SenderReportPacket_Serialize p) current = Some (SrPacket q)"
    "rtcp_one_defined (SenderReportPacket_Serialize p)"
    using SenderReportPacket_roundtrip [OF ok] t by (simp_all add: rtcp_parse_one_def rtcp_one_defined_def q_def)
  have n: "(4 + 24 * length (sp_reports p)) mod 4 = 0" by presburger
  note loop = rtcp_parse_loop_packet [where n = "SRP_GetSize p" and t = SR and c = "SRP_GetCount p"
      and body = "concat (map SenderReport_Serialize (sp_reports p))" and current = current and rest = rest]
  show "rtcp_parse_loop current (SenderReportPacket_Serialize p @ rest) = rtcp_parse_loop (Some (SrPacket q)) rest"
    using loop(1) one n size length_serialized(1) [OF ok]
    by (simp add: report_sizes SenderReportPacket_Serialize_def kMaxSize_def kMtuSize_def)
  show "rtcp_loop_defined current (SenderReportPacket_Serialize p @ rest) \<longleftrightarrow> rtcp_loop_defined (Some (SrPacket q)) rest"
    using loop(2) one n size length_serialized(1) [OF ok]
    by (simp add: report_sizes SenderReportPacket_Serialize_def kMaxSize_def kMtuSize_def)
qed

lemma parse_serialized_rr:
  assumes ok: "reports_ok (rp_reports p)" and size: "RRP_GetSize p \<le> kMaxSize"
  defines "k \<equiv> length (rp_reports p) mod 32"
  defines "q \<equiv> p\<lparr>rp_reports := take k (rp_reports p)\<rparr>"
  shows "rtcp_parse_loop current (ReceiverReportPacket_Serialize p @ rest) = rtcp_parse_loop (Some (RrPacket q)) rest"
    and "rtcp_loop_defined current (ReceiverReportPacket_Serialize p @ rest)
      \<longleftrightarrow> k = 0 \<and> rtcp_loop_defined (Some (RrPacket q)) rest"
proof -
  have t: "ch_packet_type (ReceiverReportPacket_Serialize p) = 201"
    using Serialize_header(2) [OF ReceiverReportPacket_Serialize_def] by simp
  have one: "rtcp_parse_one (ReceiverReportPacket_Serialize p) current = Some (RrPacket q)"
    "rtcp_one_defined (ReceiverReportPacket_Serialize p) \<longleftrightarrow> k = 0"
    using ReceiverReportPacket_roundtrip [OF ok] t
    by (simp_all add: rtcp_parse_one_def rtcp_one_defined_def q_def k_def)
  have n: "(8 + 24 * length (rp_reports p)) mod 4 = 0" by presburger
  note loop = rtcp_parse_loop_packet [where n = "RRP_GetSize p" and t = RR and c = "RRP_GetCount p"
      and body = "Set4Bytes (replicate 4 0) 0 (rp_ssrc p) @ concat (map ReceiverReport_Serialize (rp_reports p))"
      and current = current and rest = rest]
  show "rtcp_parse_loop current (ReceiverReportPacket_Serialize p @ rest) = rtcp_parse_loop (Some (RrPacket q)) rest"
    using loop(1) one n size length_serialized(2) [OF ok]
    by (simp add: report_sizes ReceiverReportPacket_Serialize_def kMaxSize_def kMtuSize_def)
  show "rtcp_loop_defined current (ReceiverReportPacket_Serialize p @ rest)
      \<longleftrightarrow> k = 0 \<and> rtcp_loop_defined (Some (RrPacket q)) rest"
    using loop(2) one n size length_serialized(2) [OF ok]
    by (simp add: report_sizes ReceiverReportPacket_Serialize_def kMaxSize_def kMtuSize_def)
qed

text \<open>
  Claim C20. Of a compound packet that its size test has let through, the parser gives back the last
  part only: the receiver report packet if there is one, cut to its number of reports modulo 32, the
  range of the count field, and with every report of these unchanged; the sender report in front of it
  is read and lost. Without receiver reports it gives back the first of the sender reports. And reading
  is without undefined behaviour only if no receiver report is read: each one is asked for its size
  through the pointer that was just moved from.
\<close>

theorem CompoundPacket_parse:
  assumes ok: "reports_ok (sp_reports (cp_sender c))" "reports_ok (rp_reports (cp_receiver c))"
    and size: "0 < Compound_GetSize c" "Compound_GetSize c \<le> kMaxSize"
  defines "k \<equiv> GetReceiverReportCount c mod 32"
  shows "RtcpPacket_Parse (CompoundPacket_Serialize c) =
      Some (if GetReceiverReportCount c > 0
            then RrPacket ((cp_receiver c)\<lparr>rp_reports := take k (rp_reports (cp_receiver c))\<rparr>)
            else SrPacket \<lparr>sp_reports = take 1 (sp_reports (cp_sender c))\<rparr>)
    \<and> (RtcpPacket_Parse_defined (CompoundPacket_Serialize c) \<longleftrightarrow> k = 0)"
proof -
  have fin: "rtcp_parse_loop (Some p) [] = Some p" "rtcp_loop_defined (Some p) []" for p
    by (simp_all add: rtcp_parse_loop.simps rtcp_loop_defined.simps)
  let ?s = "SRP_GetCount (cp_sender c) > 0" and ?r = "RRP_GetCount (cp_receiver c) > 0"
  have sizes: "?s \<Longrightarrow> SRP_GetSize (cp_sender c) \<le> kMaxSize" "?r \<Longrightarrow> RRP_GetSize (cp_receiver c) \<le> kMaxSize"
    using size by (auto simp: Compound_GetSize_def split: if_splits)
  have some: "?s \<or> ?r" using size by (auto simp: Compound_GetSize_def split: if_splits)
  note S = parse_serialized_sr [OF ok(1) sizes(1)] and R = parse_serialized_rr [OF ok(2) sizes(2), where rest = "[]"]
  have k: "k = length (rp_reports (cp_receiver c)) mod 32"
    by (simp add: k_def GetReceiverReportCount_def RRP_GetCount_def)
  show ?thesis
    unfolding RtcpPacket_Parse_def RtcpPacket_Parse_defined_def CompoundPacket_Serialize_def k
      GetReceiverReportCount_def
    using some S(1) [where rest = "[]"] S(2) [where rest = "[]"]
      S(1) [where rest = "ReceiverReportPacket_Serialize (cp_receiver c)"]
      S(2) [where rest = "ReceiverReportPacket_Serialize (cp_receiver c)"] R fin
    by (cases ?s; cases ?r) (simp_all add: RRP_GetCount_def)
qed

text \<open>
  Adding a report refuses it, and leaves the compound packet as it was, exactly when
  the packet would exceed the size that fits a network packet; the size stays within the
  limit, and serializing writes exactly that many bytes.
\<close>

lemma AddReport_bound:
  assumes small: "Compound_GetSize c \<le> kMaxSize" and r: "length r = sizeof_Report"
    and ok: "reports_ok (sp_reports (cp_sender c))" "reports_ok (rp_reports (cp_receiver c))"
    and add: "(added, c') = AddSenderReport r c \<or> (added, c') = AddReceiverReport r c"
  shows "Compound_GetSize c' \<le> kMaxSize \<and> (\<not> added \<longrightarrow> c' = c)
    \<and> length (CompoundPacket_Serialize c') = Compound_GetSize c'"
proof -
  have ok': "reports_ok (sp_reports (cp_sender c'))" "reports_ok (rp_reports (cp_receiver c'))"
    using ok r add by (auto simp: AddSenderReport_def AddReceiverReport_def SRP_AddReport_def
        RRP_AddReport_def SRP_RemoveLast_def RRP_RemoveLast_def reports_ok_def Let_def split: if_splits)
  have "length (CompoundPacket_Serialize c') = Compound_GetSize c'"
    using packet_writes_size(1) [OF ok'(1)] packet_writes_size(2) [OF ok'(2)]
    by (simp add: CompoundPacket_Serialize_def Compound_GetSize_def)
  moreover have "Compound_GetSize c' \<le> kMaxSize \<and> (\<not> added \<longrightarrow> c' = c)"
    using small add by (auto simp: AddSenderReport_def AddReceiverReport_def SRP_AddReport_def
        RRP_AddReport_def SRP_RemoveLast_def RRP_RemoveLast_def Let_def split: if_splits)
  ultimately show ?thesis by blast
qed

section \<open>NACK items\<close>

text \<open>The numbers an item asks for: its packet number, and one for each bit of the mask.\<close>

definition requested_numbers :: "nack_item \<Rightarrow> u16 set" where
  "requested_numbers it = insert (GetPacketId it)
     {GetPacketId it + 1 + word_of_nat k |k. k < 16 \<and> bit (GetLostPacketBitmask it) k}"

lemma bit_host_be:
  assumes "n < 16"
  shows "bit (host16 d i) n = bit (Get2Bytes d i) ((n + 8) mod 16)"
proof (cases "n < 8")
  case True
  have "\<not> bit (d ! Suc i) (n + 8)" using bit_imp_le_length [of "d ! Suc i" "n + 8"] by auto
  with True show ?thesis by (simp add: host16_def Get2Bytes_def bit_simps)
next
  case False
  then obtain m where "n = m + 8" "m < 8" using assms by (metis add.commute le_add_diff_inverse
        less_diff_conv2 not_less numeral_Bit0)
  moreover from this have "\<not> bit (d ! i) (m + 8)" using bit_imp_le_length [of "d ! i" "m + 8"] by auto
  ultimately show ?thesis by (simp add: host16_def Get2Bytes_def bit_simps)
qed

lemma CountSetBits_card: "CountSetBits m = card {k. k < 16 \<and> bit m k}"
proof -
  have "{k. k < 16 \<and> bit m k} = set (filter (bit m) [0..<16])" by auto
  then show ?thesis
    unfolding CountSetBits_def by (simp only: distinct_card distinct_filter distinct_upt)
qed

text \<open>
  Although the code counts the bits of the mask in memory order, which swaps its
  bytes, the count it reports is the number of packets the item asks for.
\<close>

lemma CountRequestedPackets_card:
  "CountRequestedPackets it = card (requested_numbers it)"
proof -
  let ?p = "GetPacketId it" and ?m = "GetLostPacketBitmask it"
  let ?K = "{k. k < 16 \<and> bit ?m k}"
  let ?f = "\<lambda>k. ?p + 1 + (word_of_nat k :: u16)"
  have "bij_betw (\<lambda>n. (n + 8) mod 16) {k. k < 16 \<and> bit (host16 it 2) k} ?K"
  proof (rule bij_betw_byWitness [where f' = "\<lambda>n. (n + 8) mod 16"])
    have inv: "((n + 8) mod 16 + 8) mod 16 = n" if "n < 16" for n :: nat using that by presburger
    have b: "bit (host16 it 2) n = bit ?m ((n + 8) mod 16)" if "n < 16" for n
      unfolding GetLostPacketBitmask_def by (rule bit_host_be [OF that])
    show "\<forall>a\<in>{k. k < 16 \<and> bit (host16 it 2) k}. ((a + 8) mod 16 + 8) mod 16 = a"
      "\<forall>a\<in>?K. ((a + 8) mod 16 + 8) mod 16 = a" using inv by auto
    show "(\<lambda>n. (n + 8) mod 16) ` {k. k < 16 \<and> bit (host16 it 2) k} \<subseteq> ?K" using b by auto
    have "bit (host16 it 2) ((n + 8) mod 16)" if "n < 16" "bit ?m n" for n
      using b [of "(n + 8) mod 16"] inv [OF that(1)] that(2) by simp
    then show "(\<lambda>n. (n + 8) mod 16) ` ?K \<subseteq> {k. k < 16 \<and> bit (host16 it 2) k}" by auto
  qed
  then have c: "CountSetBits (host16 it 2) = card ?K"
    unfolding CountSetBits_card by (rule bij_betw_same_card)
  have u: "unat (word_of_nat k :: u16) = k" if "k < 16" for k using that by (simp add: unat_of_nat_16)
  have inj: "inj_on ?f ?K"
  proof (rule inj_onI)
    fix a b assume ab: "a \<in> ?K" "b \<in> ?K" "?f a = ?f b"
    have "(word_of_nat a :: u16) = word_of_nat b" using ab(3) by (simp only: add_left_cancel)
    then have "unat (word_of_nat a :: u16) = unat (word_of_nat b :: u16)" by (rule arg_cong)
    moreover have "a < 16" "b < 16" using ab by auto
    ultimately show "a = b" by (simp only: u)
  qed
  have "?p \<notin> ?f ` ?K"
  proof
    assume "?p \<in> ?f ` ?K"
    then obtain k where k: "k < 16" "?p + 1 + word_of_nat k = ?p" by auto
    have "word_of_nat (Suc k) = (0 :: u16)" using k(2) by (simp add: add.assoc)
    moreover have "unat (word_of_nat (Suc k) :: u16) = Suc k" using k(1) by (intro unat_of_nat_16) simp
    ultimately show False by simp
  qed
  moreover have "requested_numbers it = insert ?p (?f ` ?K)"
    unfolding requested_numbers_def by blast
  moreover have "finite ?K" by (rule finite_subset [of _ "{..<16}"]) auto
  then have "finite (?f ` ?K)" by (rule finite_imageI)
  ultimately have "card (requested_numbers it) = Suc (card (?f ` ?K))"
    by (simp only: card_insert_disjoint not_False_eq_True)
  moreover have "card (?f ` ?K) = card ?K" by (rule card_image [OF inj])
  ultimately show ?thesis unfolding CountRequestedPackets_def c by linarith
qed

section \<open>Concrete instances\<close>

definition compound_sample :: CompoundPacket where
  "compound_sample = \<lparr>cp_sender = \<lparr>sp_reports = [SR_SetSsrc 7 new_report]\<rparr>,
     cp_receiver = \<lparr>rp_ssrc = 9, rp_reports = [SetTotalLost 3 new_report]\<rparr>\<rparr>"

lemma compound_sample_ok:
  "reports_ok (sp_reports (cp_sender compound_sample))"
  "reports_ok (rp_reports (cp_receiver compound_sample))"
  "Compound_GetSize compound_sample = 60"
  by (simp_all add: compound_sample_def reports_ok_def SR_SetSsrc_def sizeof_Report_def
      Compound_GetSize_def SRP_GetCount_def RRP_GetCount_def report_sizes)

lemma CompoundPacket_parse_witness:
  "RtcpPacket_Parse (CompoundPacket_Serialize compound_sample)
     = Some (RrPacket (cp_receiver compound_sample))
   \<and> \<not> RtcpPacket_Parse_defined (CompoundPacket_Serialize compound_sample)"
  using CompoundPacket_parse [of compound_sample] compound_sample_ok
  by (simp add: compound_sample_def GetReceiverReportCount_def RRP_GetCount_def kMaxSize_def kMtuSize_def)



lemma AddReport_bound_witness:
  "Compound_GetSize (snd (AddSenderReport new_report CompoundPacket_init)) \<le> kMaxSize"
  using AddReport_bound [of CompoundPacket_init new_report
      "fst (AddSenderReport new_report CompoundPacket_init)"
      "snd (AddSenderReport new_report CompoundPacket_init)"]
  by (simp add: CompoundPacket_init_def Compound_GetSize_def SRP_GetCount_def RRP_GetCount_def
      sizeof_Report_def reports_ok_def kMaxSize_def kMtuSize_def)

end
