(* ===== verification/Ntp_Time.thy ===== *)
theory Ntp_Time
  imports Bytes
begin

text \<open>
  \<^verbatim>\<open>RTCUtils::Time\<close> and the padding helpers of \<^verbatim>\<open>RTCUtils::Byte\<close>
  (\<^verbatim>\<open>core/include/utils/utils.h\<close>). Times are milliseconds; the clock itself is an argument of
  the operations that read it. The two conversions compute in \<^verbatim>\<open>double\<close>. Every intermediate
  value has fewer than 53 significant bits or lies further from an integer than the rounding
  error (a fraction with denominator 125 against an error below \<open>2\<^sup>-\<^sup>2\<^sup>0\<close>), so that truncating
  and rounding give the integer quotients below.
\<close>

definition kUnixNtpOffset :: u32 where "kUnixNtpOffset = 0x83AA7E80"
definition kNtpFractionalUnit :: nat where "kNtpFractionalUnit = 4294967296"

record Ntp =
  ntp_seconds :: u32
  ntp_fractions :: u32

definition TimeMs2Ntp :: "u64 \<Rightarrow> Ntp" where
  "TimeMs2Ntp ms =
     \<lparr>ntp_seconds = ucast (ms div 1000),
      ntp_fractions = word_of_nat ((unat ms mod 1000) * kNtpFractionalUnit div 1000)\<rparr>"

definition Ntp2TimeMs :: "Ntp \<Rightarrow> u64" where
  "Ntp2TimeMs ntp =
     ucast (ntp_seconds ntp) * 1000
     + word_of_nat ((unat (ntp_fractions ntp) * 1000 + kNtpFractionalUnit div 2) div kNtpFractionalUnit)"

text \<open>The middle 32 bits of an NTP time, as the two ends of a report exchange use them.\<close>

definition compact_ntp :: "Ntp \<Rightarrow> u32" where
  "compact_ntp ntp =
     push_bit 16 (ntp_seconds ntp AND 0xFFFF) OR drop_bit 16 (ntp_fractions ntp AND 0xFFFF0000)"

definition PadTo4Bytes16 :: "u16 \<Rightarrow> u16" where
  "PadTo4Bytes16 n = (if n AND 3 \<noteq> 0 then (n AND 0xFFFC) + 4 else n)"

definition PadTo4Bytes32 :: "u32 \<Rightarrow> u32" where
  "PadTo4Bytes32 n = (if n AND 3 \<noteq> 0 then (n AND 0xFFFFFFFC) + 4 else n)"

section \<open>Round trip\<close>

lemma fraction_bounds:
  assumes "k < (1000 :: nat)"
  shows "k * 4294967296 div 1000 < 4294967296"
    and "(k * 4294967296 div 1000 * 1000 + 2147483648) div 4294967296 = k"
proof -
  let ?q = "k * 4294967296 div 1000"
  have lo: "?q * 1000 \<le> k * 4294967296" by simp
  have hi: "k * 4294967296 < ?q * 1000 + 1000"
    using mod_less_divisor [of 1000 "k * 4294967296"] div_mult_mod_eq [of "k * 4294967296" 1000]
    by linarith
  show "?q < 4294967296" using assms lo by linarith
  have "k * 4294967296 \<le> ?q * 1000 + 2147483648" using hi by linarith
  moreover have "?q * 1000 + 2147483648 < (k + 1) * 4294967296"
    using lo distrib_right [of k 1 4294967296] by linarith
  ultimately show "(?q * 1000 + 2147483648) div 4294967296 = k"
    by (intro div_nat_eqI) (simp_all add: mult.commute)
qed

lemma unat_ucast_32_64: "unat (ucast (x :: u32) :: u64) = unat x"
  using u32_bound [of x] by (simp add: unsigned_ucast_eq take_bit_nat_eq_self)

text \<open>
  Converting a time to NTP format and back gives the same millisecond, for every
  time whose seconds fit in 32 bits.
\<close>

lemma Ntp_roundtrip:
  assumes "unat ms < 4294967296000"
  shows "Ntp2TimeMs (TimeMs2Ntp ms) = ms"
proof -
  let ?k = "unat ms mod 1000" and ?s = "unat ms div 1000"
  have k: "?k < 1000" by simp
  have s: "?s < 4294967296" using assms by linarith
  have "unat (ms div 1000) = ?s" by (simp add: unat_div)
  then have sec: "unat (ucast (ms div 1000) :: u32) = ?s"
    using s by (simp add: unsigned_ucast_eq take_bit_nat_eq_self)
  have frac: "unat (ntp_fractions (TimeMs2Ntp ms)) = ?k * 4294967296 div 1000"
    unfolding TimeMs2Ntp_def using fraction_bounds(1) [OF k]
    by (simp add: kNtpFractionalUnit_def unat_of_nat_32)
  have f: "(unat (ntp_fractions (TimeMs2Ntp ms)) * 1000 + kNtpFractionalUnit div 2)
      div kNtpFractionalUnit = ?k"
    unfolding frac using fraction_bounds(2) [OF k] by (simp add: kNtpFractionalUnit_def)
  have "(ucast (ntp_seconds (TimeMs2Ntp ms)) :: u64) = word_of_nat ?s"
  proof (rule word_unat_eq_iff [THEN iffD2])
    have "unat (word_of_nat ?s :: u64) = ?s" using s by (simp add: unsigned_of_nat take_bit_nat_eq_self)
    then show "unat (ucast (ntp_seconds (TimeMs2Ntp ms)) :: u64) = unat (word_of_nat ?s :: u64)"
      using sec by (simp add: TimeMs2Ntp_def unat_ucast_32_64)
  qed
  then have "Ntp2TimeMs (TimeMs2Ntp ms) = word_of_nat ?s * 1000 + word_of_nat ?k"
    unfolding Ntp2TimeMs_def f by simp
  also have "\<dots> = word_of_nat (?s * 1000 + ?k)" by (simp only: of_nat_add of_nat_mult of_nat_numeral)
  also have "?s * 1000 + ?k = unat ms" by simp
  finally show ?thesis by simp
qed

lemma Ntp_roundtrip_witness: "Ntp2TimeMs (TimeMs2Ntp 1234567) = 1234567"
  by (rule Ntp_roundtrip) simp

section \<open>Compact times\<close>

text \<open>
  The compact form of a time is its value in units of 1/65536 seconds, rounded down, modulo
  \<open>2\<^sup>3\<^sup>2\<close>.
\<close>

lemma drop_16_of_nat:
  assumes "n < 4294967296"
  shows "drop_bit 16 (word_of_nat n :: u32) = word_of_nat (n div 65536)"
proof (rule word_unat_eq_iff [THEN iffD2])
  have "n div 65536 < 4294967296" using assms by linarith
  then have "unat (word_of_nat (n div 65536) :: u32) = n div 65536" by (rule unat_of_nat_32)
  moreover have "unat (drop_bit 16 (word_of_nat n :: u32)) = drop_bit 16 n"
    using unat_of_nat_32 [OF assms] by (simp only: unsigned_drop_bit_eq take_bit_nat_eq_self)
      (simp add: take_bit_nat_eq_self assms)
  ultimately show "unat (drop_bit 16 (word_of_nat n :: u32)) = unat (word_of_nat (n div 65536) :: u32)"
    by (simp add: drop_bit_eq_div)
qed

text \<open>The two halves do not overlap, so the masks and the disjunction are an addition.\<close>

lemma compact_ntp_sum: "compact_ntp ntp = push_bit 16 (ntp_seconds ntp) + drop_bit 16 (ntp_fractions ntp)"
proof -
  have m16: "(65535 :: u32) = mask 16" by (simp add: mask_eq_exp_minus_1)
  have hi: "push_bit 16 (x AND 65535) = push_bit 16 x" for x :: u32
    unfolding m16 by (rule bit_word_eqI) (auto simp: bit_simps)
  have mm: "(0xFFFF0000 :: u32) = push_bit 16 (mask 16)" by (simp add: mask_eq_exp_minus_1)
  have lo: "drop_bit 16 (x AND 0xFFFF0000) = drop_bit 16 x" for x :: u32
    unfolding mm by (rule bit_word_eqI) (auto simp: bit_simps dest: bit_imp_le_length)
  have disj: "push_bit 16 x AND drop_bit 16 y = 0" for x y :: u32
    by (rule bit_word_eqI) (auto simp: bit_simps dest: bit_imp_le_length)
  show ?thesis unfolding compact_ntp_def hi lo using disj by (simp add: disjunctive_add_eq_or)
qed

lemma compact_ntp_value:
  assumes "unat ms < 4294967296000"
  shows "compact_ntp (TimeMs2Ntp ms) = word_of_nat (unat ms * 65536 div 1000)"
proof -
  let ?k = "unat ms mod 1000" and ?s = "unat ms div 1000"
  have k: "?k < 1000" by simp
  let ?f = "?k * 4294967296 div 1000"
  have "unat (ms div 1000) = ?s" by (simp add: unat_div)
  then have sec: "ntp_seconds (TimeMs2Ntp ms) = word_of_nat ?s"
    by (simp add: TimeMs2Ntp_def word_unat_eq_iff unsigned_ucast_eq unsigned_of_nat)
  have frac: "ntp_fractions (TimeMs2Ntp ms) = word_of_nat ?f"
    by (simp add: TimeMs2Ntp_def kNtpFractionalUnit_def)
  have "compact_ntp (TimeMs2Ntp ms) = push_bit 16 (word_of_nat ?s) + drop_bit 16 (word_of_nat ?f)"
    unfolding compact_ntp_sum sec frac ..
  also have "drop_bit 16 (word_of_nat ?f :: u32) = word_of_nat (?f div 65536)"
    by (rule drop_16_of_nat [OF fraction_bounds(1) [OF k]])
  also have "push_bit 16 (word_of_nat ?s :: u32) = word_of_nat (?s * 65536)"
    by (simp add: push_bit_eq_mult)
  also have "word_of_nat (?s * 65536) + word_of_nat (?f div 65536)
      = (word_of_nat (?s * 65536 + ?f div 65536) :: u32)" by simp
  also have "?s * 65536 + ?f div 65536 = unat ms * 65536 div 1000"
  proof -
    have "?f div 65536 = ?k * 65536 div 1000"
      by (simp add: div_mult2_eq [symmetric] mult.commute)
    moreover have "unat ms * 65536 = 1000 * (?s * 65536) + ?k * 65536"
      using div_mult_mod_eq [of "unat ms" 1000] by linarith
    moreover have "(1000 * (?s * 65536) + ?k * 65536) div 1000 = ?s * 65536 + ?k * 65536 div 1000"
      by (rule div_mult_self4) simp
    ultimately show ?thesis by (simp only:)
  qed
  finally show ?thesis .
qed

end
