(* ===== verification/Stream_Sender.thy ===== *)
theory Stream_Sender
  imports Rtp_Stream Retransmission_Buffer Data_Calculator Rtcp_Packet Ntp_Time
begin

text \<open>
  The class \<^verbatim>\<open>RtpStreamSender\<close> (\<^verbatim>\<open>core/include/rtc/rtp_stream_sender.h\<close>,
  \<^verbatim>\<open>core/src/rtc/rtp_stream_sender.cpp\<close>): it numbers and stores the packets of a stream, answers
  NACKs from the retransmission buffer, and exchanges reports. Packets handed to the listener
  are returned as a list; \<open>None\<close> is undefined behaviour of the code. The static container of
  the packets to retransmit is the result of the operation that fills it. Values of type
  \<^verbatim>\<open>float\<close> are rationals, rounded by \<open>fl32\<close> as the code rounds them.
\<close>

section \<open>State\<close>

definition kRetransmissionBufferMaxItems :: u16 where "kRetransmissionBufferMaxItems = 2500"
definition kMaxRequestedPackets :: nat where "kMaxRequestedPackets = 17"
definition kDefaultSenderRtt :: u16 where "kDefaultSenderRtt = 100"
definition kMaxRetransmissionDelayForAudioMs :: u32 where
  "kMaxRetransmissionDelayForAudioMs = 1000"

record RtpStreamSender = RtpStream +
  ss_retransmission_buffer :: "RtpRetransmissionBuffer option"
  ss_wait_counter :: RtpDataCounter
  ss_sent_counter :: RtpDataCounter
  ss_nack_count :: u64
  ss_nack_packet_count :: u64
  ss_is_dynamic_addr :: bool

definition RtpStreamSender_init :: "Params \<Rightarrow> bool \<Rightarrow> RtpStreamSender option" where
  "RtpStreamSender_init ps dynamic_addr =
     map_option (\<lambda>counter. RtpStream.extend (RtpStream_init ps)
       \<lparr>ss_retransmission_buffer =
          (if p_use_nack ps
           then Some (RetransmissionBuffer_init kRetransmissionBufferMaxItems
                       kMaxRetransmissionDelayForAudioMs (p_clock_rate ps))
           else None),
        ss_wait_counter = counter, ss_sent_counter = counter, ss_nack_count = 0,
        ss_nack_packet_count = 0, ss_is_dynamic_addr = dynamic_addr\<rparr>)
       (RtpDataCounter_init 2500)"

section \<open>Sending\<close>

definition StorePacket :: "RtpPacket \<Rightarrow> RtpStreamSender \<Rightarrow> RtpStreamSender option" where
  "StorePacket p s =
     (if GetSize p > kMtuSize then Some s
      else (case ss_retransmission_buffer s of
              None \<Rightarrow> None
            | Some b \<Rightarrow> map_option (\<lambda>b'. s\<lparr>ss_retransmission_buffer := Some b'\<rparr>)
                          (RetransmissionBuffer_Insert p b)))"

definition Sender_ReceivePacket ::
  "u64 \<Rightarrow> RtpPacket \<Rightarrow> RtpStreamSender \<Rightarrow> (bool \<times> RtpPacket list \<times> RtpStreamSender) option"
where
  "Sender_ReceivePacket now p s =
     (let (valid, s1) = ReceiveStreamPacket now p s in
      if \<not> valid then Some (False, [], s1)
      else do { s2 \<leftarrow> (if ss_retransmission_buffer s1 \<noteq> None then StorePacket p s1 else Some s1);
                counter \<leftarrow> RtpDataCounter_Update now p (ss_wait_counter s2);
                Some (True, [p], s2\<lparr>ss_wait_counter := counter\<rparr>) })"

section \<open>Answering NACKs\<close>

text \<open>Changing a stored item through the pointer that \<^verbatim>\<open>Get\<close> returned.\<close>

definition rb_write :: "u16 \<Rightarrow> Item \<Rightarrow> RtpRetransmissionBuffer \<Rightarrow> RtpRetransmissionBuffer" where
  "rb_write seq it b =
     (case GetOldest b of
        None \<Rightarrow> b
      | Some oldest \<Rightarrow>
          b\<lparr>rb_buffer := (rb_buffer b)[unat (seq - it_seq oldest) := Some it]\<rparr>)"

definition item_with_header :: "Item \<Rightarrow> RtpPacket \<Rightarrow> Item" where
  "item_with_header it p =
     it\<lparr>it_packet := Some (SetTimestamp (it_timestamp it) (SetSequenceNumber (it_seq it)
          (SetSsrc (it_ssrc it) p)))\<rparr>"

definition fill_one ::
  "u64 \<Rightarrow> u16 \<Rightarrow> u16 \<Rightarrow> Item list \<Rightarrow> RtpRetransmissionBuffer
    \<Rightarrow> (Item list \<times> RtpRetransmissionBuffer) option"
where
  "fill_one now rtt seq container b =
     (case RetransmissionBuffer_Get seq b of
        None \<Rightarrow> Some (container, b)
      | Some it \<Rightarrow>
          (case it_packet it of
             None \<Rightarrow> None
           | Some p \<Rightarrow>
               (let it1 = item_with_header it p in
                if it_resent_at_ms it \<noteq> 0 \<and> now - it_resent_at_ms it \<le> ucast rtt
                then Some (container, rb_write seq it1 b)
                else if length container \<ge> kMaxRequestedPackets + 1 then None
                else (let it2 = it1\<lparr>it_resent_at_ms := now, it_sent_times := it_sent_times it + 1\<rparr>
                      in Some (container @ [it2], rb_write seq it2 b)))))"

function fill_loop ::
  "u64 \<Rightarrow> u16 \<Rightarrow> u16 \<Rightarrow> u16 \<Rightarrow> bool \<Rightarrow> Item list \<Rightarrow> RtpRetransmissionBuffer
    \<Rightarrow> (Item list \<times> RtpRetransmissionBuffer) option"
where
  "fill_loop now rtt seq bits requested container b =
     (if \<not> (requested \<or> bits \<noteq> 0) then Some (container, b)
      else (case (if requested then fill_one now rtt seq container b else Some (container, b)) of
              None \<Rightarrow> None
            | Some (container', b') \<Rightarrow>
                fill_loop now rtt (seq + 1) (drop_bit 1 bits) (bits AND 1 \<noteq> 0) container' b'))"
  by pat_completeness auto

lemma bit_step: "2 * unat (drop_bit 1 bits) + of_bool (bits AND 1 \<noteq> 0) = unat (bits :: u16)"
proof -
  have "unat (drop_bit 1 bits) = unat bits div 2"
    by (simp add: drop_bit_eq_div unat_div)
  moreover have "bits AND 1 \<noteq> 0 \<longleftrightarrow> odd (unat bits)"
    using unat_mod [of bits 2] unat_eq_zero [of "bits mod 2"]
    unfolding and_one_eq odd_iff_mod_2_eq_one by auto
  ultimately show ?thesis by (cases "odd (unat bits)") auto
qed

text \<open>Every round takes a bit off the mask, or the flag of the first number.\<close>

termination fill_loop
proof (relation "measure (\<lambda>(_, _, _, bits, requested, _, _). 2 * unat bits + of_bool requested)")
  fix bits :: u16 and requested :: bool
  assume "\<not> \<not> (requested \<or> bits \<noteq> 0)"
  then have "bits \<noteq> 0 \<or> requested" by blast
  then have "2 * unat (drop_bit 1 bits) + of_bool (bits AND 1 \<noteq> 0) < 2 * unat bits + of_bool requested"
    unfolding bit_step by (cases "bits = 0") (auto simp: unat_gt_0)
  then show "((now :: u64, rtt :: u16, seq + 1 :: u16, drop_bit 1 bits, bits AND 1 \<noteq> 0,
        x :: Item list, y :: RtpRetransmissionBuffer),
      (now, rtt, seq, bits, requested, container, b))
      \<in> measure (\<lambda>(_, _, _, bits, requested, _, _). 2 * unat bits + of_bool requested)"
    for now rtt seq x y container b by simp
qed simp

declare fill_loop.simps [simp del]

definition nack_rtt :: "'a RtpStream_scheme \<Rightarrow> u16 option" where
  "nack_rtt s =
     (if rtt_ms s > 0
      then (if \<lfloor>rtt_ms s\<rfloor> < 65536 then Some (word_of_int \<lfloor>rtt_ms s\<rfloor>) else None)
      else Some kDefaultSenderRtt)"

definition FillRetransmissionContainer ::
  "u64 \<Rightarrow> u16 \<Rightarrow> u16 \<Rightarrow> RtpStreamSender \<Rightarrow> (Item list \<times> RtpStreamSender) option"
where
  "FillRetransmissionContainer now seq bitmask s =
     (case ss_retransmission_buffer s of
        None \<Rightarrow> Some ([], s)
      | Some b \<Rightarrow>
          do { rtt \<leftarrow> nack_rtt s;
               (container, b') \<leftarrow> fill_loop now rtt seq bitmask True [] b;
               if length container \<ge> kMaxRequestedPackets + 1 then None
               else Some (container, s\<lparr>ss_retransmission_buffer := Some b'\<rparr>) })"

text \<open>The clock is read once for every item: \<open>clock i\<close> is its \<open>i\<close>-th reading.\<close>

fun nack_loop ::
  "(nat \<Rightarrow> u64) \<Rightarrow> nat \<Rightarrow> nack_item list \<Rightarrow> RtpStreamSender
    \<Rightarrow> (RtpPacket list \<times> RtpStreamSender) option"
where
  "nack_loop clock i [] s = Some ([], s)"
| "nack_loop clock i (item # items) s =
     do { (container, s1) \<leftarrow> FillRetransmissionContainer (clock i) (GetPacketId item)
            (GetLostPacketBitmask item)
            (s\<lparr>ss_nack_packet_count := ss_nack_packet_count s
                 + word_of_nat (CountRequestedPackets item)\<rparr>);
          packets \<leftarrow> those (map it_packet container);
          (rest, s2) \<leftarrow> nack_loop clock (Suc i) items s1;
          Some (packets @ rest, s2) }"

definition ReceiveNack ::
  "(nat \<Rightarrow> u64) \<Rightarrow> FeedbackRtpPacket \<Rightarrow> RtpStreamSender
    \<Rightarrow> (RtpPacket list \<times> RtpStreamSender) option"
where
  "ReceiveNack clock nack_packet s =
     nack_loop clock 0 (fb_items nack_packet) (s\<lparr>ss_nack_count := ss_nack_count s + 1\<rparr>)"

section \<open>Reports\<close>

definition report_rtt :: "u64 \<Rightarrow> report \<Rightarrow> u32" where
  "report_rtt now report =
     (let compact = compact_ntp (TimeMs2Ntp now);
          last_sr = GetLastSenderReport report;
          dlsr = GetDelaySinceLastSenderReport report
      in if last_sr \<noteq> 0 \<and> dlsr \<noteq> 0 \<and> compact > dlsr + last_sr
         then compact - dlsr - last_sr else 0)"

definition rtt_to_ms :: "u32 \<Rightarrow> rat" where
  "rtt_to_ms rtt =
     (let whole = fl32 (fl32 (of_nat (unat (drop_bit 16 rtt))) * 1000);
          part = fl32 (fl32 (fl32 (of_nat (unat (rtt AND 0xFFFF))) / 65536) * 1000);
          x = fl32 (whole + part)
      in if x \<le> 0 then 0 else x)"

definition ReceiveRtcpReceiverReport ::
  "u64 \<Rightarrow> report \<Rightarrow> RtpStreamSender \<Rightarrow> RtpStreamSender"
where
  "ReceiveRtcpReceiverReport now report s =
     s\<lparr>rtt_ms := rtt_to_ms (report_rtt now report),
       packets_lost := word_of_int (GetTotalLost report),
       fraction_lost := GetFractionLost report\<rparr>"

definition GetRtcpSenderReport ::
  "u64 \<Rightarrow> RtpStreamSender \<Rightarrow> report \<times> RtpStreamSender"
where
  "GetRtcpSenderReport now s =
     (let ntp = TimeMs2Ntp now;
          diff_ms = now - max_packet_ms s;
          diff_ts = diff_ms * ucast (GetClockRate s) div 1000;
          rtp_ts = ucast (ucast (max_packet_ts s) + diff_ts);
          report = SR_SetRtpTs rtp_ts (SR_SetNtpFrac (ntp_fractions ntp) (SR_SetNtpSec (ntp_seconds ntp)
            (SR_SetOctetCount (ucast (DataCounter_GetBytes (ss_wait_counter s)))
              (SR_SetPacketCount (ucast (GetPacketCount (ss_wait_counter s)))
                (SR_SetSsrc (StreamGetSsrc s) new_report)))))
      in (report, s\<lparr>last_sender_report_ntp_ms := now, last_sender_report_ts := rtp_ts\<rparr>))"

section \<open>The invariant of the sender\<close>

text \<open>
  Every stored item has a packet with a full header, so a stored item can always be put into a
  retransmission.
\<close>

definition rb_full :: "RtpRetransmissionBuffer \<Rightarrow> bool" where
  "rb_full b \<longleftrightarrow> (\<forall>it. Some it \<in> set (rb_buffer b) \<longrightarrow>
     (\<exists>p. it_packet it = Some p \<and> kHeaderSize \<le> length (rp_data p)))"

definition sender_ok :: "RtpStreamSender \<Rightarrow> bool" where
  "sender_ok s \<longleftrightarrow>
     (case ss_retransmission_buffer s of
        None \<Rightarrow> True
      | Some b \<Rightarrow> rb_inv b \<and> rb_full b \<and> rb_clock_rate b \<noteq> 0)"

section \<open>Looking up and changing stored items\<close>

lemma Get_at:
  assumes "GetOldest b = Some oldest"
  shows "RetransmissionBuffer_Get seq b =
    (if seq_lower seq (it_seq oldest) \<or> length (rb_buffer b) \<le> unat (seq - it_seq oldest) then None
     else rb_buffer b ! unat (seq - it_seq oldest))"
proof -
  have "0 < length (rb_buffer b)" using assms by (auto simp: GetOldest_def split: if_splits)
  then show ?thesis using assms by (auto simp: RetransmissionBuffer_Get_def Let_def)
qed

lemma Get_stored:
  assumes inv: "rb_inv b" and get: "RetransmissionBuffer_Get seq b = Some it"
  obtains oldest where "GetOldest b = Some oldest" "\<not> seq_lower seq (it_seq oldest)"
    "unat (seq - it_seq oldest) < length (rb_buffer b)"
    "rb_buffer b ! unat (seq - it_seq oldest) = Some it" "it_seq it = seq"
    "slots_from (it_seq oldest) (rb_buffer b)" "rb_buffer b = Some oldest # tl (rb_buffer b)"
  using inv
proof (cases rule: rb_inv_cases)
  case 1
  then show thesis using get by (simp add: RetransmissionBuffer_Get_def GetOldest_def)
next
  case (2 oldest newest)
  have i: "unat (seq - it_seq oldest) < length (rb_buffer b)"
    "rb_buffer b ! unat (seq - it_seq oldest) = Some it" "\<not> seq_lower seq (it_seq oldest)"
    using get unfolding Get_at [OF 2(1)] by (auto split: if_splits)
  have "it_seq it = seq" using slots_from_nth [OF 2(6) i(1,2)] by simp
  then show thesis using that [of oldest] 2 i by (metis list.collapse)
qed

lemma Get_mem:
  assumes "rb_inv b" "RetransmissionBuffer_Get seq b = Some it"
  shows "Some it \<in> set (rb_buffer b)" and "it_seq it = seq"
  using Get_stored [OF assms] by (metis nth_mem)+

lemma rb_write_works:
  assumes inv: "rb_inv b" and get: "RetransmissionBuffer_Get seq b = Some it"
    and seq: "it_seq it' = seq"
  shows "rb_inv (rb_write seq it' b)"
    and "RetransmissionBuffer_Get n (rb_write seq it' b) =
      (if n = seq then Some it' else RetransmissionBuffer_Get n b)"
    and "set (rb_buffer (rb_write seq it' b)) \<subseteq> insert (Some it') (set (rb_buffer b))"
    and "rb_clock_rate (rb_write seq it' b) = rb_clock_rate b"
proof -
  from inv get obtain oldest where o: "GetOldest b = Some oldest" "\<not> seq_lower seq (it_seq oldest)"
    "unat (seq - it_seq oldest) < length (rb_buffer b)"
    "rb_buffer b ! unat (seq - it_seq oldest) = Some it"
    "slots_from (it_seq oldest) (rb_buffer b)" "rb_buffer b = Some oldest # tl (rb_buffer b)"
    by (rule Get_stored)
  define i where "i = unat (seq - it_seq oldest)"
  let ?buf = "(rb_buffer b)[i := Some it']"
  have w: "rb_write seq it' b = b\<lparr>rb_buffer := ?buf\<rparr>" using o(1) by (simp add: rb_write_def i_def)
  have i: "i < length (rb_buffer b)" using o(3) by (simp add: i_def)
  have wi: "it_seq it' = it_seq oldest + word_of_nat i" using seq by (simp add: i_def)
  define oldest' where "oldest' = (if i = 0 then it' else oldest)"
  from o(6) obtain xs where xs: "rb_buffer b = Some oldest # xs" by blast
  have hd: "?buf = Some oldest' # tl ?buf" by (cases i) (auto simp: xs oldest'_def)
  have os: "it_seq oldest' = it_seq oldest" using wi by (simp add: oldest'_def)
  have slots: "slots_from (it_seq oldest') ?buf"
    unfolding os by (rule slots_from_update [OF o(5) i wi])
  have "last (rb_buffer b) \<noteq> None" using inv unfolding rb_inv_def by (simp add: xs)
  then have "last ?buf \<noteq> None" using xs by (subst last_list_update) auto
  then show "rb_inv (rb_write seq it' b)" using hd slots unfolding w by (intro rb_invI) auto
  have go: "GetOldest (rb_write seq it' b) = Some oldest'"
    unfolding w GetOldest_def by (cases i) (auto simp: xs oldest'_def)
  have buf': "rb_buffer (rb_write seq it' b) = ?buf" by (simp add: w)
  show "RetransmissionBuffer_Get n (rb_write seq it' b) =
      (if n = seq then Some it' else RetransmissionBuffer_Get n b)"
  proof (cases "n = seq")
    case True
    have "RetransmissionBuffer_Get seq (rb_write seq it' b) = Some it'"
      unfolding Get_at [OF go] os buf' i_def [symmetric] using o(2) i by simp
    then show ?thesis using True by simp
  next
    case False
    then have "i \<noteq> unat (n - it_seq oldest)" unfolding i_def by (auto simp: word_unat_eq_iff [symmetric])
    then show ?thesis unfolding Get_at [OF go] Get_at [OF o(1)] os buf' using False by simp
  qed
  show "set (rb_buffer (rb_write seq it' b)) \<subseteq> insert (Some it') (set (rb_buffer b))"
    unfolding w using set_update_subset_insert [of "rb_buffer b" i "Some it'"] by simp
  show "rb_clock_rate (rb_write seq it' b) = rb_clock_rate b" by (simp add: w)
qed

section \<open>What a NACK asks for, and what it does to the items\<close>

definition nack_numbers :: "u16 \<Rightarrow> u16 \<Rightarrow> u16 list" where
  "nack_numbers seq bitmask =
     seq # map (\<lambda>i. seq + 1 + word_of_nat i) (filter (bit bitmask) [0..<16])"

text \<open>An item is due if it was not resent within the last round trip.\<close>

definition resend_due :: "u64 \<Rightarrow> u16 \<Rightarrow> RtpRetransmissionBuffer \<Rightarrow> u16 \<Rightarrow> bool" where
  "resend_due now rtt b seq \<longleftrightarrow>
     (case RetransmissionBuffer_Get seq b of
        None \<Rightarrow> False
      | Some it \<Rightarrow> it_resent_at_ms it = 0 \<or> \<not> now - it_resent_at_ms it \<le> ucast rtt)"

definition resent_item :: "u64 \<Rightarrow> Item \<Rightarrow> Item" where
  "resent_item now it =
     (item_with_header it (the (it_packet it)))
       \<lparr>it_resent_at_ms := now, it_sent_times := it_sent_times it + 1\<rparr>"

definition nack_touch :: "u64 \<Rightarrow> u16 \<Rightarrow> Item \<Rightarrow> Item" where
  "nack_touch now rtt it =
     (if it_resent_at_ms it \<noteq> 0 \<and> now - it_resent_at_ms it \<le> ucast rtt
      then item_with_header it (the (it_packet it)) else resent_item now it)"

lemma item_fields [simp]:
  "it_seq (item_with_header it p) = it_seq it"
  "it_resent_at_ms (item_with_header it p) = it_resent_at_ms it"
  "it_sent_times (item_with_header it p) = it_sent_times it"
  "it_seq (resent_item now it) = it_seq it"
  "it_seq (nack_touch now rtt it) = it_seq it"
  "it_resent_at_ms (resent_item now it) = now"
  by (simp_all add: item_with_header_def resent_item_def nack_touch_def)

lemma header_packet:
  "\<exists>q. it_packet (item_with_header it p) = Some q \<and> length (rp_data q) = length (rp_data p)"
  by (simp add: item_with_header_def)

lemma rb_full_write:
  assumes "rb_inv b" "rb_full b" "RetransmissionBuffer_Get seq b = Some it"
    and "it' = nack_touch now rtt it"
  shows "rb_full (rb_write seq it' b)"
proof -
  note o = Get_mem [OF assms(1,3)]
  then obtain p where p: "it_packet it = Some p" "kHeaderSize \<le> length (rp_data p)"
    using assms(2) o(1) by (auto simp: rb_full_def)
  obtain q where "it_packet (item_with_header it p) = Some q" "length (rp_data q) = length (rp_data p)"
    using header_packet by blast
  then have "it_packet it' = Some q" "kHeaderSize \<le> length (rp_data q)"
    using p by (simp_all add: assms(4) nack_touch_def resent_item_def)
  moreover have "it_seq it' = seq" using o(2) by (simp add: assms(4))
  ultimately show ?thesis
    using rb_write_works(3) [OF assms(1,3), of it'] assms(2) unfolding rb_full_def by fastforce
qed

lemma fill_one_spec:
  assumes inv: "rb_inv b" and full: "rb_full b" and len: "length container \<le> kMaxRequestedPackets"
  obtains b' where
    "fill_one now rtt seq container b =
       Some (container @ (if resend_due now rtt b seq
         then [resent_item now (the (RetransmissionBuffer_Get seq b))] else []), b')"
    "rb_inv b'" "rb_full b'" "rb_clock_rate b' = rb_clock_rate b"
    "\<And>n. RetransmissionBuffer_Get n b' =
      (if n = seq then map_option (nack_touch now rtt) (RetransmissionBuffer_Get n b)
       else RetransmissionBuffer_Get n b)"
proof (cases "RetransmissionBuffer_Get seq b")
  case None
  then show thesis by (intro that [of b]) (auto simp: fill_one_def resend_due_def inv full)
next
  case (Some it)
  note o = Get_mem [OF inv Some]
  then obtain p where p: "it_packet it = Some p" using full by (auto simp: rb_full_def)
  let ?it = "nack_touch now rtt it"
  have seq: "it_seq ?it = seq" using o(2) by simp
  have "\<not> length container \<ge> kMaxRequestedPackets + 1" using len by simp
  then have one: "fill_one now rtt seq container b =
      Some (container @ (if resend_due now rtt b seq
         then [resent_item now (the (RetransmissionBuffer_Get seq b))] else []), rb_write seq ?it b)"
    using Some p
    by (auto simp: fill_one_def Let_def resend_due_def nack_touch_def resent_item_def)
  show thesis
    by (rule that [OF one rb_write_works(1) [OF inv Some seq] rb_full_write [OF inv full Some refl]
          rb_write_works(4) [OF inv Some seq]])
      (simp add: rb_write_works(2) [OF inv Some seq] Some)
qed

section \<open>The loop\<close>

definition pending_numbers :: "u16 \<Rightarrow> u16 \<Rightarrow> bool \<Rightarrow> u16 list" where
  "pending_numbers seq bits requested =
     (if requested then [seq] else []) @ map (\<lambda>i. seq + 1 + word_of_nat i) (filter (bit bits) [0..<16])"

lemma pending_start: "pending_numbers seq bits True = nack_numbers seq bits"
  by (simp add: pending_numbers_def nack_numbers_def)

lemma pending_step:
  "pending_numbers seq bits requested =
     (if requested then [seq] else [])
     @ pending_numbers (seq + 1) (drop_bit 1 bits) (bits AND 1 \<noteq> 0)"
proof -
  have "[0..<16] = 0 # map Suc [0..<15]" by (simp add: map_Suc_upt upt_conv_Cons)
  then have "filter (bit bits) [0..<16]
      = (if bit bits 0 then [0] else []) @ map Suc (filter (bit bits \<circ> Suc) [0..<15])"
    by (simp add: filter_map)
  moreover have "filter (bit bits \<circ> Suc) [0..<15] = filter (bit (drop_bit 1 bits)) [0..<16]"
  proof -
    have "[0..<16] = [0..<15] @ [15]" by (simp add: upt_rec)
    moreover have "\<not> bit (drop_bit 1 bits) 15"
      using bit_imp_le_length [of bits 16] by (auto simp: bit_drop_bit_eq)
    moreover have "bit bits \<circ> Suc = bit (drop_bit 1 bits)" by (auto simp: bit_drop_bit_eq fun_eq_iff)
    ultimately show ?thesis by simp
  qed
  moreover have "bit bits 0 \<longleftrightarrow> bits AND 1 \<noteq> 0"
    by (simp add: and_one_eq bit_0 odd_iff_mod_2_eq_one)
  ultimately show ?thesis by (simp add: pending_numbers_def comp_def algebra_simps)
qed

lemma pending_none: "pending_numbers seq 0 False = []"
  by (simp add: pending_numbers_def)

lemma pending_distinct:
  "distinct (pending_numbers seq bits requested)"
  "seq \<notin> set (pending_numbers (seq + 1) (drop_bit 1 bits) (bits AND 1 \<noteq> 0))"
proof -
  have inj: "inj_on (\<lambda>i. seq + word_of_nat i :: u16) {0..<20}" for seq
  proof (rule inj_onI)
    fix i j assume i: "i \<in> {0..<20 :: nat}" and j: "j \<in> {0..<20}"
      and e: "seq + word_of_nat i = seq + (word_of_nat j :: u16)"
    then have "unat (word_of_nat i :: u16) = unat (word_of_nat j :: u16)" by simp
    then show "i = j" using i j by (simp add: unat_of_nat_16)
  qed
  have all: "pending_numbers seq bits requested
      = map (\<lambda>i. seq + word_of_nat i) ((if requested then [0] else []) @ map Suc (filter (bit bits) [0..<16]))"
    for seq :: u16 and bits :: u16 and requested
    by (simp add: pending_numbers_def comp_def add.assoc)
  have dist: "distinct (pending_numbers seq bits requested)" for seq bits requested
    unfolding all distinct_map by (intro conjI inj_on_subset [OF inj]) (auto simp: distinct_map)
  show "distinct (pending_numbers seq bits requested)" by (rule dist)
  have "distinct (pending_numbers seq bits True)" by (rule dist)
  then show "seq \<notin> set (pending_numbers (seq + 1) (drop_bit 1 bits) (bits AND 1 \<noteq> 0))"
    unfolding pending_step [of seq bits True] by simp
qed

text \<open>
  The loop answers the pending numbers in order: it appends the due ones to the container and
  updates the items of all of them. There is room for them, so no index is out of range.
\<close>

lemma fill_loop_spec:
  assumes "rb_inv b" "rb_full b"
    and "length container + length (pending_numbers seq bits requested) \<le> kMaxRequestedPackets"
  shows "\<exists>b'. fill_loop now rtt seq bits requested container b =
      Some (container @ map (\<lambda>n. resent_item now (the (RetransmissionBuffer_Get n b)))
        (filter (resend_due now rtt b) (pending_numbers seq bits requested)), b')
    \<and> rb_inv b' \<and> rb_full b' \<and> rb_clock_rate b' = rb_clock_rate b
    \<and> (\<forall>n. RetransmissionBuffer_Get n b' =
        (if n \<in> set (pending_numbers seq bits requested)
         then map_option (nack_touch now rtt) (RetransmissionBuffer_Get n b)
         else RetransmissionBuffer_Get n b))"
  using assms
proof (induction now rtt seq bits requested container b rule: fill_loop.induct)
  case (1 now rtt seq bits requested container b)
  let ?rest = "pending_numbers (seq + 1) (drop_bit 1 bits) (bits AND 1 \<noteq> 0)"
  show ?case
  proof (cases "requested \<or> bits \<noteq> 0")
    case False
    then show ?thesis using 1(2,3) by (simp add: fill_loop.simps pending_none)
  next
    case True
    define c1 where "c1 = container @ (if requested \<and> resend_due now rtt b seq
      then [resent_item now (the (RetransmissionBuffer_Get seq b))] else [])"
    have len: "length container + (if requested then 1 else 0) + length ?rest \<le> kMaxRequestedPackets"
      using 1(4) unfolding pending_step [of seq bits requested] by (simp split: if_splits)
    obtain b1 where b1: "(if requested then fill_one now rtt seq container b else Some (container, b)) = Some (c1, b1)"
        "rb_inv b1" "rb_full b1" "rb_clock_rate b1 = rb_clock_rate b"
        "\<And>n. RetransmissionBuffer_Get n b1 =
          (if requested \<and> n = seq then map_option (nack_touch now rtt) (RetransmissionBuffer_Get n b)
           else RetransmissionBuffer_Get n b)"
    proof (cases requested)
      case True
      then have len: "length container \<le> kMaxRequestedPackets" using len by simp
      have c1: "c1 = container @ (if resend_due now rtt b seq
          then [resent_item now (the (RetransmissionBuffer_Get seq b))] else [])"
        using True by (simp add: c1_def)
      obtain b' where
        "fill_one now rtt seq container b = Some (c1, b')" "rb_inv b'" "rb_full b'"
        "rb_clock_rate b' = rb_clock_rate b"
        "\<And>n. RetransmissionBuffer_Get n b' =
          (if n = seq then map_option (nack_touch now rtt) (RetransmissionBuffer_Get n b)
           else RetransmissionBuffer_Get n b)"
        by (rule fill_one_spec [OF 1(2,3) len, of now rtt seq, folded c1], rule that)
      then show thesis using True by (intro that [of b']) simp_all
    next
      case False
      then show thesis by (intro that [of b]) (simp_all add: 1(2,3) c1_def)
    qed
    have len1: "length c1 + length ?rest \<le> kMaxRequestedPackets"
      using len by (simp add: c1_def split: if_splits)
    have same: "RetransmissionBuffer_Get n b1 = RetransmissionBuffer_Get n b" if "n \<in> set ?rest" for n
      using pending_distinct(2) [of seq bits] that b1(5) by auto
    from 1(1) [OF _ b1(1) refl b1(2,3) len1] True obtain b2 where
      b2: "fill_loop now rtt (seq + 1) (drop_bit 1 bits) (bits AND 1 \<noteq> 0) c1 b1 =
        Some (c1 @ map (\<lambda>n. resent_item now (the (RetransmissionBuffer_Get n b1)))
          (filter (resend_due now rtt b1) ?rest), b2)"
      "rb_inv b2" "rb_full b2" "rb_clock_rate b2 = rb_clock_rate b1"
      "\<And>n. RetransmissionBuffer_Get n b2 =
        (if n \<in> set ?rest then map_option (nack_touch now rtt) (RetransmissionBuffer_Get n b1)
         else RetransmissionBuffer_Get n b1)" by auto
    have due: "filter (resend_due now rtt b1) ?rest = filter (resend_due now rtt b) ?rest"
      by (rule filter_cong [OF refl]) (simp add: resend_due_def same)
    have items: "map (\<lambda>n. resent_item now (the (RetransmissionBuffer_Get n b1)))
          (filter (resend_due now rtt b) ?rest)
        = map (\<lambda>n. resent_item now (the (RetransmissionBuffer_Get n b)))
          (filter (resend_due now rtt b) ?rest)"
      by (rule map_cong [OF refl]) (simp add: same)
    have "fill_loop now rtt seq bits requested container b
        = fill_loop now rtt (seq + 1) (drop_bit 1 bits) (bits AND 1 \<noteq> 0) c1 b1"
      using True b1(1) by (subst fill_loop.simps) simp
    then have "fill_loop now rtt seq bits requested container b =
      Some (container @ map (\<lambda>n. resent_item now (the (RetransmissionBuffer_Get n b)))
        (filter (resend_due now rtt b) (pending_numbers seq bits requested)), b2)"
      unfolding b2(1) due items pending_step [of seq bits requested] by (simp add: c1_def)
    moreover have "RetransmissionBuffer_Get n b2 =
        (if n \<in> set (pending_numbers seq bits requested)
         then map_option (nack_touch now rtt) (RetransmissionBuffer_Get n b)
         else RetransmissionBuffer_Get n b)" for n
      using pending_distinct(2) [of seq bits] unfolding b2(5) b1(5) pending_step [of seq bits requested]
      by (cases "n = seq") simp_all
    ultimately show ?thesis using b2(2-4) b1(4) by auto
  qed
qed

end
