(* ===== verification/Sender_Properties.thy ===== *)
theory Sender_Properties
  imports Stream_Sender
begin

text \<open>
  What the sender of theory \<open>Stream_Sender\<close> guarantees: its invariant and its reachable states,
  what a NACK is answered with, and the contents and accuracy of its reports.
\<close>

section \<open>What inserting does to the stored items\<close>

text \<open>No operation of the buffer makes up items, or changes its settings.\<close>

definition only_adds :: "RtpPacket \<Rightarrow> RtpRetransmissionBuffer \<Rightarrow> RtpRetransmissionBuffer \<Rightarrow> bool" where
  "only_adds p b b' \<longleftrightarrow>
     set (rb_buffer b') \<subseteq> insert None (insert (Some (Item_of_packet p)) (set (rb_buffer b)))
     \<and> rb_clock_rate b' = rb_clock_rate b \<and> rb_max_items b' = rb_max_items b"

lemma only_adds_refl [simp]: "only_adds p b b"
  by (auto simp: only_adds_def)

lemma only_adds_trans: "only_adds p b c \<Longrightarrow> only_adds p c d \<Longrightarrow> only_adds p b d"
  unfolding only_adds_def by auto

lemma only_adds_suffix: "only_adds p b (b\<lparr>rb_buffer := drop k (rb_buffer b)\<rparr>)"
  using set_drop_subset [of k "rb_buffer b"] by (auto simp: only_adds_def)

lemma only_adds_push: "only_adds p b (rb_push n p b)"
  by (auto simp: only_adds_def rb_push_def)

lemma only_adds_clear: "only_adds p b (RetransmissionBuffer_Clear b)"
  by (simp add: only_adds_def RetransmissionBuffer_Clear_def)

lemma only_adds_RemoveOldest_num: "RemoveOldest_num n b = Some b' \<Longrightarrow> only_adds p b b'"
  using set_dropWhileD by (fastforce simp: RemoveOldest_num_def Let_def RemoveOldest_def only_adds_def
      split: if_splits list.splits option.splits)

lemma only_adds_placed: "rb_insert_placed p b = Some b' \<Longrightarrow> only_adds p b b'"
proof -
  have newer: "rb_insert_newer p newest b = Some b' \<Longrightarrow> only_adds p b b'" for newest
    using only_adds_push [of p b] only_adds_trans [OF only_adds_clear only_adds_push]
      only_adds_trans [OF only_adds_RemoveOldest_num only_adds_push]
    by (auto simp: rb_insert_newer_def Let_def bind_eq_Some_conv split: if_splits)
  have older: "rb_insert_older p oldest newest b = Some b' \<Longrightarrow> only_adds p b b'" for oldest newest
    by (auto simp: rb_insert_older_def Let_def bind_eq_Some_conv only_adds_def split: if_splits)
  have between: "rb_insert_between p oldest b = Some b' \<Longrightarrow> only_adds p b b'" for oldest
    using set_update_subset_insert
    by (fastforce simp: rb_insert_between_def Let_def bind_eq_Some_conv only_adds_def
        split: if_splits option.splits)
  assume "rb_insert_placed p b = Some b'"
  then show ?thesis using newer older between
    by (auto simp: rb_insert_placed_def bind_eq_Some_conv split: if_splits)
qed

lemma only_adds_Insert:
  assumes inv: "rb_inv b" and clock: "rb_clock_rate b \<noteq> 0" and ins: "RetransmissionBuffer_Insert p b = Some b'"
  shows "only_adds p b b'"
proof (cases "rb_buffer b = []")
  case True
  then show ?thesis using ins only_adds_push by (auto simp: RetransmissionBuffer_Insert_def)
next
  case False
  obtain newest where new: "GetNewest b = Some newest"
    using inv False by (cases rule: rb_inv_cases) auto
  define nts where "nts = (if seq_higher (GetTimestamp p) (it_timestamp newest)
                           then GetTimestamp p else it_timestamp newest)"
  obtain r b1 k where b1: "ClearTooOldByTimestamp nts b = Some (r, b1)"
      "b1 = b\<lparr>rb_buffer := drop k (rb_buffer b)\<rparr>"
    using ClearTooOldByTimestamp_works [OF inv clock, of nts] by metis
  have "only_adds p b b1" unfolding b1(2) by (rule only_adds_suffix)
  note steps = only_adds_trans [OF this only_adds_push] only_adds_trans [OF this only_adds_placed]
    only_adds_trans [OF only_adds_clear only_adds_push]
  show ?thesis
    using ins False new b1(1) steps
    by (auto simp: RetransmissionBuffer_Insert_def nts_def [symmetric] split: if_splits)
qed

lemma StorePacket_ok:
  assumes ok: "sender_ok s" and hdr: "kHeaderSize \<le> length (rp_data p)"
    and buf: "ss_retransmission_buffer s \<noteq> None"
  shows "\<exists>s'. StorePacket p s = Some s' \<and> sender_ok s' \<and> ss_wait_counter s' = ss_wait_counter s"
proof -
  obtain b where b: "ss_retransmission_buffer s = Some b" using buf by auto
  then have inv: "rb_inv b" "rb_full b" "rb_clock_rate b \<noteq> 0" using ok by (auto simp: sender_ok_def)
  obtain b' where b': "RetransmissionBuffer_Insert p b = Some b'" "rb_inv b'"
    using Insert_works [OF inv(1,3)] by blast
  have adds: "only_adds p b b'" by (rule only_adds_Insert [OF inv(1,3) b'(1)])
  have "it_packet (Item_of_packet p) = Some p" by (simp add: Item_of_packet_def)
  then have "rb_full b'" using adds inv(2) hdr unfolding only_adds_def rb_full_def by auto
  then show ?thesis using ok b b' adds inv(3)
    by (auto simp: StorePacket_def sender_ok_def only_adds_def)
qed

section \<open>Operations of the sender keep its invariant\<close>

lemma ReceiveStreamPacket_sender [simp]:
  "ss_retransmission_buffer (snd (ReceiveStreamPacket now p s)) = ss_retransmission_buffer s"
  "ss_wait_counter (snd (ReceiveStreamPacket now p s)) = ss_wait_counter s"
  by (simp_all add: ReceiveStreamPacket_def UpdateSequence_def InitSequence_def Let_def)

lemma nack_rtt_buffer [simp]: "nack_rtt (s\<lparr>ss_retransmission_buffer := x\<rparr>) = nack_rtt s"
  by (simp add: nack_rtt_def)

lemma nack_rtt_Some: "rtt_ms s < 65536 \<Longrightarrow> \<exists>rtt. nack_rtt s = Some rtt"
  by (simp add: nack_rtt_def floor_less_iff)

lemma length_nack_numbers: "length (nack_numbers seq bitmask) \<le> kMaxRequestedPackets"
  using length_filter_le [of "bit bitmask" "[0..<16]"]
  by (simp add: nack_numbers_def kMaxRequestedPackets_def)

lemma length_filter_nack: "length (filter P (nack_numbers seq bitmask)) \<le> kMaxRequestedPackets"
  by (rule order_trans [OF length_filter_le length_nack_numbers])

lemma FillRetransmissionContainer_spec:
  assumes ok: "sender_ok s" and b: "ss_retransmission_buffer s = Some b" and rtt: "nack_rtt s = Some rtt"
  obtains b' where "FillRetransmissionContainer now seq bitmask s =
      Some (map (\<lambda>n. resent_item now (the (RetransmissionBuffer_Get n b)))
        (filter (resend_due now rtt b) (nack_numbers seq bitmask)),
        s\<lparr>ss_retransmission_buffer := Some b'\<rparr>)"
    "sender_ok (s\<lparr>ss_retransmission_buffer := Some b'\<rparr>)"
    "\<And>n. RetransmissionBuffer_Get n b' =
      (if n \<in> set (nack_numbers seq bitmask)
       then map_option (nack_touch now rtt) (RetransmissionBuffer_Get n b)
       else RetransmissionBuffer_Get n b)"
proof -
  have inv: "rb_inv b" "rb_full b" "rb_clock_rate b \<noteq> 0" using ok b by (auto simp: sender_ok_def)
  let ?c = "map (\<lambda>n. resent_item now (the (RetransmissionBuffer_Get n b)))
    (filter (resend_due now rtt b) (nack_numbers seq bitmask))"
  have "length ([] :: Item list) + length (pending_numbers seq bitmask True) \<le> kMaxRequestedPackets"
    unfolding pending_start using length_nack_numbers by simp
  from fill_loop_spec [OF inv(1,2) this, of now rtt] obtain b' where
    b': "fill_loop now rtt seq bitmask True [] b = Some (?c, b')"
      "rb_inv b'" "rb_full b'" "rb_clock_rate b' = rb_clock_rate b"
      "\<And>n. RetransmissionBuffer_Get n b' =
        (if n \<in> set (nack_numbers seq bitmask)
         then map_option (nack_touch now rtt) (RetransmissionBuffer_Get n b)
         else RetransmissionBuffer_Get n b)"
    unfolding pending_start append_Nil by blast
  have "length ?c \<le> kMaxRequestedPackets"
    by (simp add: length_filter_nack)
  then have "\<not> kMaxRequestedPackets + 1 \<le> length ?c" by linarith
  then have "FillRetransmissionContainer now seq bitmask s =
      Some (?c, s\<lparr>ss_retransmission_buffer := Some b'\<rparr>)"
    unfolding FillRetransmissionContainer_def b rtt by (simp only: option.case bind.bind_lunit b'(1)) simp
  then show thesis using that b'(2-5) inv(3) by (simp add: sender_ok_def)
qed

text \<open>What one NACK item brings about.\<close>

lemma FillRetransmissionContainer_works:
  assumes ok: "sender_ok s" and rtt: "rtt_ms s < 65536"
  obtains container s' packets where
    "FillRetransmissionContainer now seq bitmask s = Some (container, s')" "sender_ok s'"
    "rtt_ms s' = rtt_ms s" "ss_nack_count s' = ss_nack_count s"
    "ss_nack_packet_count s' = ss_nack_packet_count s"
    "those (map it_packet container) = Some packets" "length packets \<le> kMaxRequestedPackets"
    "\<And>p. p \<in> set packets \<Longrightarrow> GetSequenceNumber p \<in> set (nack_numbers seq bitmask)"
proof (cases "ss_retransmission_buffer s")
  case None
  then show thesis by (intro that [of "[]" s "[]"]) (simp_all add: FillRetransmissionContainer_def ok)
next
  case (Some b)
  then have inv: "rb_inv b" "rb_full b" using ok by (auto simp: sender_ok_def)
  obtain r where r: "nack_rtt s = Some r" using nack_rtt_Some [OF rtt] by blast
  let ?ns = "filter (resend_due now r b) (nack_numbers seq bitmask)"
  let ?it = "\<lambda>n. resent_item now (the (RetransmissionBuffer_Get n b))"
  obtain b' where b': "FillRetransmissionContainer now seq bitmask s =
      Some (map ?it ?ns, s\<lparr>ss_retransmission_buffer := Some b'\<rparr>)"
      "sender_ok (s\<lparr>ss_retransmission_buffer := Some b'\<rparr>)"
    by (rule FillRetransmissionContainer_spec [OF ok Some r, of now seq bitmask])
  have packet: "\<exists>p. it_packet (?it n) = Some p \<and> GetSequenceNumber p = n" if n: "n \<in> set ?ns" for n
  proof -
    obtain it where it: "RetransmissionBuffer_Get n b = Some it"
      using n by (auto simp: resend_due_def split: option.splits)
    note m = Get_mem [OF inv(1) it]
    then obtain p where p: "it_packet it = Some p" "kHeaderSize \<le> length (rp_data p)"
      using inv(2) by (auto simp: rb_full_def)
    then show ?thesis using m(2) it
      by (simp add: resent_item_def item_with_header_def rtp_get_set rtp_get_other)
  qed
  define ps where "ps = map (\<lambda>n. the (it_packet (?it n))) ?ns"
  have those: "those (map it_packet (map ?it ns)) = Some (map (\<lambda>n. the (it_packet (?it n))) ns)"
    if "set ns \<subseteq> set ?ns" for ns using that
    by (induction ns) (use packet in fastforce)+
  show thesis
  proof (rule that [of "map ?it ?ns" "s\<lparr>ss_retransmission_buffer := Some b'\<rparr>" ps])
    show "those (map it_packet (map ?it ?ns)) = Some ps" unfolding ps_def by (rule those) simp
    show "length ps \<le> kMaxRequestedPackets"
      by (simp add: ps_def length_filter_nack)
    fix p assume "p \<in> set ps"
    then obtain n where "n \<in> set ?ns" "p = the (it_packet (?it n))" by (auto simp: ps_def)
    then show "GetSequenceNumber p \<in> set (nack_numbers seq bitmask)" using packet by fastforce
  qed (simp_all add: b')
qed

lemma nack_loop_works:
  assumes "sender_ok s" "rtt_ms s < 65536"
  shows "\<exists>out s'. nack_loop clock i items s = Some (out, s') \<and> sender_ok s'
    \<and> rtt_ms s' = rtt_ms s \<and> ss_nack_count s' = ss_nack_count s
    \<and> ss_nack_packet_count s' = ss_nack_packet_count s
        + sum_list (map (\<lambda>item. word_of_nat (CountRequestedPackets item)) items)
    \<and> length out \<le> kMaxRequestedPackets * length items
    \<and> (\<forall>p\<in>set out. \<exists>item\<in>set items.
        GetSequenceNumber p \<in> set (nack_numbers (GetPacketId item) (GetLostPacketBitmask item)))"
  using assms
proof (induction items arbitrary: i s)
  case Nil
  then show ?case by simp
next
  case (Cons item items)
  let ?s = "s\<lparr>ss_nack_packet_count := ss_nack_packet_count s + word_of_nat (CountRequestedPackets item)\<rparr>"
  have "sender_ok ?s" "rtt_ms ?s < 65536" using Cons.prems by (simp_all add: sender_ok_def)
  then obtain c s1 ps where fill:
    "FillRetransmissionContainer (clock i) (GetPacketId item) (GetLostPacketBitmask item) ?s = Some (c, s1)"
    "sender_ok s1" "rtt_ms s1 = rtt_ms s" "ss_nack_count s1 = ss_nack_count s"
    "ss_nack_packet_count s1 = ss_nack_packet_count s + word_of_nat (CountRequestedPackets item)"
    "those (map it_packet c) = Some ps" "length ps \<le> kMaxRequestedPackets"
    "\<And>p. p \<in> set ps \<Longrightarrow> GetSequenceNumber p
      \<in> set (nack_numbers (GetPacketId item) (GetLostPacketBitmask item))"
    by (rule FillRetransmissionContainer_works
        [of ?s "clock i" "GetPacketId item" "GetLostPacketBitmask item"]) simp
  from Cons.IH [OF fill(2), of "Suc i"] fill(3) Cons.prems(2) obtain out s2 where
    rest: "nack_loop clock (Suc i) items s1 = Some (out, s2)" "sender_ok s2" "rtt_ms s2 = rtt_ms s"
      "ss_nack_count s2 = ss_nack_count s1"
      "ss_nack_packet_count s2 = ss_nack_packet_count s1
        + sum_list (map (\<lambda>item. word_of_nat (CountRequestedPackets item)) items)"
      "length out \<le> kMaxRequestedPackets * length items"
      "\<forall>p\<in>set out. \<exists>item\<in>set items.
        GetSequenceNumber p \<in> set (nack_numbers (GetPacketId item) (GetLostPacketBitmask item))"
    by auto
  have "nack_loop clock i (item # items) s = Some (ps @ out, s2)"
    by (simp add: fill(1,6) rest(1))
  then show ?case using fill(4,5,7,8) rest(2-7) by auto
qed

text \<open>
  Answering a NACK packet always works: no null packet and no container overflow is
  met, every retransmitted packet carries a number the NACK packet asks for, at most 17 per
  item, both counters advance, and the sender stays well formed.
\<close>

lemma ReceiveNack_answers:
  assumes "sender_ok s" "rtt_ms s < 65536"
  shows "\<exists>out s'. ReceiveNack clock nack s = Some (out, s') \<and> sender_ok s'
    \<and> length out \<le> 17 * length (fb_items nack)
    \<and> (\<forall>p\<in>set out. \<exists>item\<in>set (fb_items nack).
        GetSequenceNumber p \<in> set (nack_numbers (GetPacketId item) (GetLostPacketBitmask item)))
    \<and> ss_nack_count s' = ss_nack_count s + 1
    \<and> ss_nack_packet_count s' = ss_nack_packet_count s
        + sum_list (map (\<lambda>item. word_of_nat (CountRequestedPackets item)) (fb_items nack))"
proof -
  have "sender_ok (s\<lparr>ss_nack_count := ss_nack_count s + 1\<rparr>)"
    "rtt_ms (s\<lparr>ss_nack_count := ss_nack_count s + 1\<rparr>) < 65536"
    using assms by (simp_all add: sender_ok_def)
  from nack_loop_works [OF this, of clock 0 "fb_items nack"] show ?thesis
    by (auto simp: ReceiveNack_def kMaxRequestedPackets_def)
qed


section \<open>A packet that was sent can be asked for again\<close>

lemma split16:
  fixes a b :: u8
  defines "v \<equiv> (ucast a :: u16) OR push_bit 8 (ucast b)"
  shows "ucast v = a" "ucast (drop_bit 8 v) = b"
proof -
  show "ucast v = a" unfolding v_def
    by (rule bit_word_eqI) (auto simp: bit_simps dest: bit_imp_le_length)
  show "ucast (drop_bit 8 v) = b" unfolding v_def
    by (rule bit_word_eqI) (auto simp: bit_simps dest: bit_imp_le_length)
qed

lemma split32:
  fixes a b c d :: u8
  defines "v \<equiv> (ucast a :: u32) OR push_bit 8 (ucast b) OR push_bit 16 (ucast c) OR push_bit 24 (ucast d)"
  shows "ucast v = a" "ucast (drop_bit 8 v) = b" "ucast (drop_bit 16 v) = c" "ucast (drop_bit 24 v) = d"
proof -
  show "ucast v = a" unfolding v_def
    by (rule bit_word_eqI) (auto simp: bit_simps dest: bit_imp_le_length)
  show "ucast (drop_bit 8 v) = b" unfolding v_def
    by (rule bit_word_eqI) (auto simp: bit_simps dest: bit_imp_le_length)
  show "ucast (drop_bit 16 v) = c" unfolding v_def
    by (rule bit_word_eqI) (auto simp: bit_simps dest: bit_imp_le_length)
  show "ucast (drop_bit 24 v) = d" unfolding v_def
    by (rule bit_word_eqI) (auto simp: bit_simps dest: bit_imp_le_length)
qed

text \<open>Writing back what is there changes nothing.\<close>

lemma put_host16_same: "i + 1 < length d \<Longrightarrow> put_host16 d i (host16 d i) = d"
  unfolding put_host16_def host16_def split16 by simp

lemma put_host32_same: "i + 3 < length d \<Longrightarrow> put_host32 d i (host32 d i) = d"
  unfolding put_host32_def host32_def split32 by simp

lemma item_with_own_header:
  assumes "kHeaderSize \<le> length (rp_data p)"
  shows "it_packet (item_with_header (Item_of_packet p) p) = Some p"
proof -
  have "SetSsrc (GetSsrc p) p = p" "SetSequenceNumber (GetSequenceNumber p) p = p"
    "SetTimestamp (GetTimestamp p) p = p"
    using assms by (simp_all add: rtp_accessors kHeaderSize_def put_host16_same put_host32_same)
  then show ?thesis by (simp add: item_with_header_def Item_of_packet_def)
qed

lemma nack_one: "nack_numbers n 0 = [n]"
  by (simp add: nack_numbers_def)

text \<open>
  Claim C23. A packet that continues the stream is sent to the listener and stored, and a NACK
  for its number is answered with exactly that packet.
\<close>

theorem sent_packet_is_retransmitted:
  assumes ok: "sender_ok s" and b: "ss_retransmission_buffer s = Some b" and rtt: "rtt_ms s < 65536"
    and size: "rb_max_items b \<noteq> 0" "length (rb_buffer b) \<le> unat (rb_max_items b)"
      "unat (rb_max_items b) \<le> 32768"
    and packet: "kHeaderSize \<le> length (rp_data p)" "GetSize p \<le> kMtuSize"
    and succ: "\<And>newest. GetNewest b = Some newest \<Longrightarrow>
      GetSequenceNumber p = it_seq newest + 1 \<and> \<not> seq_lower (GetTimestamp p) (it_timestamp newest)"
    and sent: "Sender_ReceivePacket now p s = Some (True, out, s1)"
    and nack: "fb_items nack = [FeedbackRtpNackItem (GetSequenceNumber p) 0]"
  shows "out = [p] \<and> (\<exists>s2. ReceiveNack clock nack s1 = Some ([p], s2))"
proof -
  have inv: "rb_inv b" "rb_full b" "rb_clock_rate b \<noteq> 0" using ok b by (auto simp: sender_ok_def)
  let ?s0 = "snd (ReceiveStreamPacket now p s)"
  have s0: "ss_retransmission_buffer ?s0 = Some b" "sender_ok ?s0" "rtt_ms ?s0 = rtt_ms s"
    using ok b by (simp_all add: sender_ok_def ReceiveStreamPacket_def UpdateSequence_def
        InitSequence_def Let_def)
  obtain b' where b': "RetransmissionBuffer_Insert p b = Some b'" "rb_inv b'"
    using Insert_works [OF inv(1,3)] by blast
  have len: "length (rb_buffer b') \<le> unat (rb_max_items b)"
    by (rule Insert_size [OF inv(1,3) size(2,1) _ b'(1)]) (use succ in blast)
  have "GetNewest b' = Some (Item_of_packet p)"
  proof (cases "rb_buffer b = []")
    case True
    then show ?thesis using b'(1) by (auto simp: RetransmissionBuffer_Insert_def)
  next
    case False
    obtain newest where nw: "GetNewest b = Some newest"
      using inv(1) False by (cases rule: rb_inv_cases) auto
    have "seq_higher (GetSequenceNumber p) (it_seq newest)"
      using succ [OF nw] by (simp add: IsSeqHigherThan_swap seq_lower_dist16)
    from Insert_stores [OF inv(1,3) nw this] succ [OF nw] b'(1) show ?thesis by auto
  qed
  then have "Some (Item_of_packet p) \<in> set (rb_buffer b')"
    by (metis GetNewest_def last_in_set option.distinct(1))
  then have get: "RetransmissionBuffer_Get (GetSequenceNumber p) b' = Some (Item_of_packet p)"
    using Get_stored_iff [OF b'(2)] len size(3) by simp
  obtain s' where s': "StorePacket p ?s0 = Some s'" "sender_ok s'"
    using StorePacket_ok [OF s0(2) packet(1)] s0(1) by auto
  have st: "s' = ?s0\<lparr>ss_retransmission_buffer := Some b'\<rparr>"
    using s'(1) packet(2) s0(1) b'(1) by (simp add: StorePacket_def)
  obtain c where out: "out = [p]" and s1: "s1 = s'\<lparr>ss_wait_counter := c\<rparr>"
    using sent s0(1) s'(1)
    by (auto simp: Sender_ReceivePacket_def split_beta bind_eq_Some_conv split: if_splits)
  let ?s2 = "s1\<lparr>ss_nack_count := ss_nack_count s1 + 1, ss_nack_packet_count := ss_nack_packet_count s1
    + word_of_nat (CountRequestedPackets (FeedbackRtpNackItem (GetSequenceNumber p) 0))\<rparr>"
  have buf2: "ss_retransmission_buffer ?s2 = Some b'" and ok2: "sender_ok ?s2"
    and rtt2: "rtt_ms ?s2 < 65536"
    using s'(2) rtt s0(3) by (simp_all add: s1 st sender_ok_def)
  obtain r where r: "nack_rtt ?s2 = Some r" using nack_rtt_Some [OF rtt2] by blast
  have due: "resend_due (clock 0) r b' (GetSequenceNumber p)"
    by (simp add: resend_due_def get Item_of_packet_def)
  have "it_packet (resent_item (clock 0) (Item_of_packet p)) = Some p"
    using item_with_own_header [OF packet(1)] by (simp add: resent_item_def Item_of_packet_def)
  moreover have "GetPacketId (FeedbackRtpNackItem (GetSequenceNumber p) 0) = GetSequenceNumber p"
    "GetLostPacketBitmask (FeedbackRtpNackItem (GetSequenceNumber p) 0) = 0"
    by (simp_all add: GetPacketId_def GetLostPacketBitmask_def FeedbackRtpNackItem_def be16.get_put
        be16.get_other)
  moreover obtain b2 where "FillRetransmissionContainer (clock 0) (GetSequenceNumber p) 0 ?s2 =
      Some ([resent_item (clock 0) (Item_of_packet p)], ?s2\<lparr>ss_retransmission_buffer := Some b2\<rparr>)"
    by (rule FillRetransmissionContainer_spec [OF ok2 buf2 r, of "clock 0" "GetSequenceNumber p" 0])
      (use due get in \<open>simp add: nack_one\<close>)
  ultimately show ?thesis using out by (simp add: ReceiveNack_def nack)
qed

section \<open>Reachable states of the sender\<close>

text \<open>
  The states an object goes through: a packet is given to it at a time of the clock that is not
  before the last one and not within the first 2500 ms, and NACKs and reports come at any time.
\<close>

inductive sender_reach :: "Params \<Rightarrow> u64 \<Rightarrow> RtpStreamSender \<Rightarrow> bool" for ps where
  "RtpStreamSender_init ps dynamic_addr = Some s \<Longrightarrow> sender_reach ps 0 s"
| "sender_reach ps t s \<Longrightarrow> t \<le> now \<Longrightarrow> 2500 \<le> now \<Longrightarrow> kHeaderSize \<le> length (rp_data p)
     \<Longrightarrow> Sender_ReceivePacket now p s = Some (valid, out, s') \<Longrightarrow> sender_reach ps now s'"
| "sender_reach ps t s \<Longrightarrow> rtt_ms s < 65536 \<Longrightarrow> ReceiveNack clock nack s = Some (out, s')
     \<Longrightarrow> sender_reach ps t s'"
| "sender_reach ps t s \<Longrightarrow> sender_reach ps t (ReceiveRtcpReceiverReport now report s)"
| "sender_reach ps t s \<Longrightarrow> sender_reach ps t (snd (GetRtcpSenderReport now s))"

definition sender_inv :: "u64 \<Rightarrow> RtpStreamSender \<Rightarrow> bool" where
  "sender_inv t s \<longleftrightarrow> sender_ok s \<and> rc_ready t (dc_rate (ss_wait_counter s))
     \<and> rc_window_size_ms (dc_rate (ss_wait_counter s)) = 2500"

lemma sender_inv_init:
  assumes "RtpStreamSender_init ps d = Some s" "p_clock_rate ps \<noteq> 0"
  shows "sender_inv 0 s"
proof -
  obtain counter where c: "RtpDataCounter_init 2500 = Some counter"
    using assms(1) by (auto simp: RtpStreamSender_init_def)
  note r = RtpDataCounter_init_ready [OF c]
  have s: "ss_wait_counter s = counter" "ss_retransmission_buffer s =
      (if p_use_nack ps then Some (RetransmissionBuffer_init kRetransmissionBufferMaxItems
         kMaxRetransmissionDelayForAudioMs (p_clock_rate ps)) else None)"
    using assms(1) c by (auto simp: RtpStreamSender_init_def RtpStream.extend_def)
  have "rb_full (RetransmissionBuffer_init n d' c')" "rb_clock_rate (RetransmissionBuffer_init n d' c') = c'"
    for n d' c' by (simp_all add: rb_full_def RetransmissionBuffer_init_def)
  then have "sender_ok s" using assms(2) by (simp add: sender_ok_def s(2) rb_inv_init)
  then show ?thesis using r by (simp add: sender_inv_def s(1))
qed

lemma Sender_ReceivePacket_inv:
  assumes inv: "sender_inv t s" and now: "t \<le> now" "2500 \<le> now" and hdr: "kHeaderSize \<le> length (rp_data p)"
  shows "\<exists>valid out s'. Sender_ReceivePacket now p s = Some (valid, out, s')
    \<and> out = (if valid then [p] else []) \<and> sender_inv (if valid then now else t) s'"
proof -
  obtain v s0 where s0: "ReceiveStreamPacket now p s = (v, s0)" by fastforce
  have inv0: "sender_inv t s0"
    using inv ReceiveStreamPacket_sender [of now p s] unfolding s0 by (simp add: sender_inv_def sender_ok_def)
  show ?thesis
  proof (cases v)
    case False
    then show ?thesis using inv0
      by (intro exI [of _ False] exI [of _ "[]"] exI [of _ s0]) (simp add: Sender_ReceivePacket_def s0)
  next
    case True
    obtain s2 where s2: "(if ss_retransmission_buffer s0 \<noteq> None then StorePacket p s0 else Some s0) = Some s2"
        "sender_ok s2" "ss_wait_counter s2 = ss_wait_counter s0"
    proof (cases "ss_retransmission_buffer s0 = None")
      case True
      then show thesis using that [of s0] inv0 by (simp add: sender_inv_def)
    next
      case False
      moreover from inv0 have "sender_ok s0" by (simp add: sender_inv_def)
      ultimately show thesis using StorePacket_ok [OF _ hdr, of s0] that by auto
    qed
    have "rc_ready t (dc_rate (ss_wait_counter s2))"
      "rc_window_size_ms (dc_rate (ss_wait_counter s2)) = 2500"
      using inv0 s2(3) by (simp_all add: sender_inv_def)
    then obtain c where c: "RtpDataCounter_Update now p (ss_wait_counter s2) = Some c"
        "rc_ready now (dc_rate c)" "rc_window_size_ms (dc_rate c) = 2500"
      using RtpDataCounter_Update_ready [of t "ss_wait_counter s2" now p] now by metis
    have "Sender_ReceivePacket now p s = Some (True, [p], s2\<lparr>ss_wait_counter := c\<rparr>)"
      unfolding Sender_ReceivePacket_def s0 Let_def using True s2(1) c(1) by simp
    moreover have "sender_inv now (s2\<lparr>ss_wait_counter := c\<rparr>)"
      using s2(2) c(2,3) by (simp add: sender_inv_def sender_ok_def)
    ultimately show ?thesis using True
      by (intro exI [of _ True] exI [of _ "[p]"] exI [of _ "s2\<lparr>ss_wait_counter := c\<rparr>"]) simp
  qed
qed

lemma nack_loop_counter: "nack_loop clock i items s = Some (out, s') \<Longrightarrow> ss_wait_counter s' = ss_wait_counter s"
proof (induction items arbitrary: i s out s')
  case (Cons item items)
  have fill: "ss_wait_counter s1 = ss_wait_counter s"
    if "FillRetransmissionContainer now seq bm s = Some (c, s1)" for now seq bm c s s1
    using that by (auto simp: FillRetransmissionContainer_def bind_eq_Some_conv split: option.splits if_splits)
  show ?case using Cons.prems fill Cons.IH by (fastforce simp: bind_eq_Some_conv)
qed simp

lemma sender_reach_inv:
  assumes "sender_reach ps t s" "p_clock_rate ps \<noteq> 0"
  shows "sender_inv t s"
  using assms
proof (induction rule: sender_reach.induct)
  case (1 d s)
  then show ?case by (simp add: sender_inv_init)
next
  case (2 t s now p valid out s')
  from 2 have inv: "sender_inv t s" by simp
  have "rc_ready now c" if "rc_ready t c" for c using that 2(2) unfolding rc_ready_def by force
  then show ?case using Sender_ReceivePacket_inv [OF inv 2(2-4)] 2(5)
    by (auto simp: sender_inv_def split: if_splits)
next
  case (3 t s clock nack out s')
  then have inv: "sender_inv t s" by simp
  have "sender_ok (s\<lparr>ss_nack_count := ss_nack_count s + 1\<rparr>)"
    "rtt_ms (s\<lparr>ss_nack_count := ss_nack_count s + 1\<rparr>) < 65536"
    using inv 3(2) by (simp_all add: sender_ok_def sender_inv_def)
  from nack_loop_works [OF this, of clock 0 "fb_items nack"] 3(3) have "sender_ok s'"
    by (auto simp: ReceiveNack_def)
  moreover have "ss_wait_counter s' = ss_wait_counter s"
    using nack_loop_counter [of clock 0 "fb_items nack" _ out s'] 3(3) by (simp add: ReceiveNack_def)
  ultimately show ?case using inv by (simp add: sender_inv_def)
next
  case (4 t s now report)
  then show ?case by (simp add: sender_inv_def sender_ok_def ReceiveRtcpReceiverReport_def)
next
  case (5 t s now)
  then show ?case by (simp add: sender_inv_def sender_ok_def GetRtcpSenderReport_def Let_def)
qed

text \<open>
  Claim C21. In every reachable state the sender can take the next step: a packet is handled
  without a null pointer, an index out of range or an endless loop, and so is a NACK packet as
  long as the measured round trip is below 65536 ms.
\<close>

theorem sender_progress:
  assumes "sender_reach ps t s" "p_clock_rate ps \<noteq> 0"
  shows "(t \<le> now \<and> 2500 \<le> now \<and> kHeaderSize \<le> length (rp_data p)
      \<longrightarrow> Sender_ReceivePacket now p s \<noteq> None)
    \<and> (rtt_ms s < 65536 \<longrightarrow> ReceiveNack clock nack s \<noteq> None)"
proof -
  have inv: "sender_inv t s" using sender_reach_inv [OF assms] .
  have "ReceiveNack clock nack s \<noteq> None" if "rtt_ms s < 65536"
  proof -
    have "sender_ok (s\<lparr>ss_nack_count := ss_nack_count s + 1\<rparr>)"
      "rtt_ms (s\<lparr>ss_nack_count := ss_nack_count s + 1\<rparr>) < 65536"
      using inv that by (simp_all add: sender_ok_def sender_inv_def)
    from nack_loop_works [OF this, of clock 0 "fb_items nack"] show ?thesis by (auto simp: ReceiveNack_def)
  qed
  then show ?thesis using Sender_ReceivePacket_inv [OF inv, of now p] by auto
qed

section \<open>Round trip times\<close>

lemma and_low16: "unat (r AND 0xFFFF) = unat (r :: u32) mod 65536"
proof -
  have m: "(0xFFFF :: u32) = mask 16" by (simp add: mask_eq_exp_minus_1)
  have "r AND 0xFFFF = take_bit 16 r" unfolding m by (rule take_bit_eq_mask [symmetric])
  then have "unat (r AND 0xFFFF) = take_bit 16 (unat r)" by (simp only: unsigned_take_bit_eq)
  then show ?thesis by (simp add: take_bit_eq_mod)
qed

lemma drop_and_unat: "unat (r :: u32) = unat (drop_bit 16 r) * 65536 + unat (r AND 0xFFFF)"
proof -
  have "unat (drop_bit 16 r) = unat r div 65536" by (simp add: drop_bit_eq_div unat_div)
  then show ?thesis using and_low16 [of r] div_mult_mod_eq [of "unat r" 65536] by linarith
qed

text \<open>The conversion to milliseconds is exact up to a relative error of \<open>2\<^sup>-\<^sup>2\<^sup>2\<close>.\<close>

lemma rtt_to_ms_error:
  "\<bar>rtt_to_ms r - of_nat (unat r) * 1000 / 65536\<bar> \<le> of_nat (unat r) * 1000 / 65536 / 2 ^ 22"
  "0 \<le> rtt_to_ms r"
proof -
  define hi where "hi = (of_nat (unat (drop_bit 16 r)) :: rat)"
  define lo where "lo = (of_nat (unat (r AND 0xFFFF)) :: rat)"
  have bound: "unat (drop_bit 16 r) < 65536" "unat (r AND 0xFFFF) < 65536"
    using drop_and_unat [of r] u32_bound [of r] and_low16 [of r] by simp_all
  then have small: "unat (drop_bit 16 r) < 2 ^ 24" "unat (r AND 0xFFFF) < 2 ^ 24" by simp_all
  have e: "fl32 hi = hi" "fl32 lo = lo" unfolding hi_def lo_def by (rule fl32_of_nat, rule small)+
  define w where "w = fl32 (hi * 1000)"
  define q where "q = fl32 (lo / 65536)"
  define part where "part = fl32 (q * 1000)"
  define x where "x = fl32 (w + part)"
  have nn: "0 \<le> hi" "0 \<le> lo" unfolding hi_def lo_def by (rule of_nat_0_le_iff)+
  have w: "\<bar>w - hi * 1000\<bar> \<le> hi * 1000 / 2 ^ 24" "0 \<le> w"
    using fl32_error [of "hi * 1000"] fl32_nonneg [of "hi * 1000"] nn by (simp_all add: w_def)
  have q: "\<bar>q - lo / 65536\<bar> \<le> lo / 65536 / 2 ^ 24" "0 \<le> q"
    using fl32_error [of "lo / 65536"] fl32_nonneg [of "lo / 65536"] nn by (simp_all add: q_def)
  have part: "\<bar>part - q * 1000\<bar> \<le> q * 1000 / 2 ^ 24" "0 \<le> part"
    using fl32_error [of "q * 1000"] fl32_nonneg [of "q * 1000"] q by (simp_all add: part_def)
  have x: "\<bar>x - (w + part)\<bar> \<le> (w + part) / 2 ^ 24" "0 \<le> x"
    using fl32_error [of "w + part"] fl32_nonneg [of "w + part"] w part by (simp_all add: x_def)
  have r: "of_nat (unat r) = hi * 65536 + lo"
    unfolding hi_def lo_def using arg_cong [OF drop_and_unat [of r], of "of_nat :: nat \<Rightarrow> rat"] by simp
  have res: "rtt_to_ms r = x"
    unfolding rtt_to_ms_def Let_def hi_def [symmetric] lo_def [symmetric] e w_def [symmetric]
      q_def [symmetric] part_def [symmetric] x_def [symmetric] using x(2) by simp
  show "0 \<le> rtt_to_ms r" using x(2) by (simp add: res)
  show "\<bar>rtt_to_ms r - of_nat (unat r) * 1000 / 65536\<bar> \<le> of_nat (unat r) * 1000 / 65536 / 2 ^ 22"
  proof -
    have up: "x \<le> (w + part) * (1 + 1 / 2 ^ 24)" "w \<le> hi * 1000 * (1 + 1 / 2 ^ 24)"
        "part \<le> q * 1000 * (1 + 1 / 2 ^ 24)" "q \<le> lo / 65536 * (1 + 1 / 2 ^ 24)"
      and low: "(w + part) * (1 - 1 / 2 ^ 24) \<le> x" "hi * 1000 * (1 - 1 / 2 ^ 24) \<le> w"
        "q * 1000 * (1 - 1 / 2 ^ 24) \<le> part" "lo / 65536 * (1 - 1 / 2 ^ 24) \<le> q"
      using w(1) q(1) part(1) x(1) unfolding abs_le_iff by (simp_all add: algebra_simps)
    have "x \<le> (hi * 1000 + lo * 1000 / 65536) * (1 + 1 / 2 ^ 22)" using up nn by simp
    moreover have "(hi * 1000 + lo * 1000 / 65536) * (1 - 1 / 2 ^ 22) \<le> x" using low nn by simp
    ultimately show ?thesis unfolding res r abs_le_iff by (simp add: algebra_simps add_divide_distrib)
  qed
qed

section \<open>Sender reports\<close>

lemma sender_report_fields:
  fixes s :: RtpStreamSender and now :: u64
  defines "r \<equiv> fst (GetRtcpSenderReport now s)"
  shows "length r = 24" "SR_GetSsrc r = StreamGetSsrc s" "SR_GetNtpSec r = ntp_seconds (TimeMs2Ntp now)"
    "SR_GetNtpFrac r = ntp_fractions (TimeMs2Ntp now)"
    "SR_GetRtpTs r = last_sender_report_ts (snd (GetRtcpSenderReport now s))"
    "SR_GetPacketCount r = ucast (GetPacketCount (ss_wait_counter s))"
    "SR_GetOctetCount r = ucast (DataCounter_GetBytes (ss_wait_counter s))"
  by (simp_all add: r_def GetRtcpSenderReport_def Let_def sr_fields be32.get_put be32.get_other)

text \<open>
  A sender report carries the source, the time, the counters, and the RTP time that
  corresponds to the time of the report: for a report made a whole number of seconds after the
  newest packet came in, the timestamp of that packet plus the clock rate for each second.
\<close>

lemma GetRtcpSenderReport_time:
  fixes s :: RtpStreamSender
  assumes "now = max_packet_ms s + of_nat (1000 * k)" "unat (GetClockRate s) * (1000 * k) < 2 ^ 64"
  shows "SR_GetSsrc (fst (GetRtcpSenderReport now s)) = StreamGetSsrc s
    \<and> SR_GetNtpSec (fst (GetRtcpSenderReport now s)) = ntp_seconds (TimeMs2Ntp now)
    \<and> SR_GetNtpFrac (fst (GetRtcpSenderReport now s)) = ntp_fractions (TimeMs2Ntp now)
    \<and> SR_GetPacketCount (fst (GetRtcpSenderReport now s)) = ucast (GetPacketCount (ss_wait_counter s))
    \<and> SR_GetRtpTs (fst (GetRtcpSenderReport now s)) = max_packet_ts s + GetClockRate s * of_nat k"
proof -
  let ?c = "unat (GetClockRate s)"
  have "(now - max_packet_ms s) * ucast (GetClockRate s) = (of_nat (1000 * k) * of_nat ?c :: u64)"
    by (simp add: assms(1) of_nat_unat)
  also have "\<dots> = of_nat (1000 * (k * ?c))" by (simp add: mult.assoc)
  finally have d: "(now - max_packet_ms s) * ucast (GetClockRate s) = (of_nat (1000 * (k * ?c)) :: u64)" .
  have le: "1000 * (k * ?c) < 18446744073709551616" using assms(2) by (simp add: algebra_simps)
  have "unat (of_nat n :: u64) = n" if "n < 18446744073709551616" for n
    using that by (simp add: unsigned_of_nat take_bit_nat_eq_self)
  from this [OF le] this [of "k * ?c"] le
  have "unat (of_nat (1000 * (k * ?c)) div 1000 :: u64) = unat (of_nat (k * ?c) :: u64)"
    by (simp only: unat_div) simp
  then have q: "of_nat (1000 * (k * ?c)) div 1000 = (of_nat (k * ?c) :: u64)"
    by (simp only: word_unat_eq_iff)
  have "ucast (ucast (max_packet_ts s) + (of_nat (k * ?c) :: u64)) = max_packet_ts s + GetClockRate s * of_nat k"
  proof -
    have add: "ucast (x + y) = (ucast x + ucast y :: u32)" for x y :: u64
      by (simp add: word_unat_eq_iff unsigned_ucast_eq take_bit_eq_mod unat_word_ariths
          mod_mod_cancel mod_add_eq)
    have "ucast (ucast (max_packet_ts s) :: u64) = max_packet_ts s"
      unfolding word_unat_eq_iff unsigned_ucast_eq [where 'b = 64] unat_ucast_32_64
      using u32_bound [of "max_packet_ts s"] by (simp add: take_bit_nat_eq_self)
    moreover have "(ucast (of_nat n :: u64) :: u32) = of_nat n" for n
      by (simp add: word_unat_eq_iff unsigned_ucast_eq unsigned_of_nat)
    from this [of "k * ?c"] have "(ucast (of_nat (k * ?c) :: u64) :: u32) = of_nat (k * ?c)" .
    ultimately show ?thesis unfolding add by (simp add: of_nat_unat mult.commute)
  qed
  then have "last_sender_report_ts (snd (GetRtcpSenderReport now s))
      = max_packet_ts s + GetClockRate s * of_nat k"
    unfolding GetRtcpSenderReport_def Let_def d q by simp
  then show ?thesis by (simp add: sender_report_fields)
qed

section \<open>Concrete instances\<close>

definition audio_params :: Params where
  "audio_params = \<lparr>p_ssrc = 7, p_payload_type = 100, p_clock_rate = 16000, p_use_nack = True\<rparr>"

definition sender_sample :: RtpStreamSender where
  "sender_sample = the (RtpStreamSender_init audio_params False)"

lemma sender_sample_init: "RtpStreamSender_init audio_params False = Some sender_sample"
proof -
  have "\<exists>c. RtpDataCounter_init 2500 = Some c"
    by (simp add: RtpDataCounter_init_def RateCalculator_init_def kDefaultWindowItems_def)
  then show ?thesis by (auto simp: sender_sample_def RtpStreamSender_init_def)
qed

lemma sender_sample_inv: "sender_inv 0 sender_sample"
  by (rule sender_inv_init [OF sender_sample_init]) (simp add: audio_params_def)

lemma sender_sample_fields:
  "ss_retransmission_buffer sender_sample = Some (RetransmissionBuffer_init 2500 1000 16000)"
  "rtt_ms sender_sample = 0" "\<not> stream_started sender_sample" "params sender_sample = audio_params"
  "max_packet_ts sender_sample = 0" "max_packet_ms sender_sample = 0"
  "dc_packets (ss_wait_counter sender_sample) = 0"
proof -
  obtain c where c: "RtpDataCounter_init 2500 = Some c"
    using sender_sample_init by (auto simp: RtpStreamSender_init_def)
  have "dc_packets c = 0" using RtpDataCounter_init_ready(3) [OF c] by simp
  then show "ss_retransmission_buffer sender_sample = Some (RetransmissionBuffer_init 2500 1000 16000)"
    "rtt_ms sender_sample = 0" "\<not> stream_started sender_sample" "params sender_sample = audio_params"
    "max_packet_ts sender_sample = 0" "max_packet_ms sender_sample = 0"
    "dc_packets (ss_wait_counter sender_sample) = 0"
    by (simp_all add: sender_sample_def RtpStreamSender_init_def c RtpStream.extend_def RtpStream_init_def
        audio_params_def kRetransmissionBufferMaxItems_def kMaxRetransmissionDelayForAudioMs_def)
qed

lemma ReceiveNack_answers_witness:
  "\<exists>out s'. ReceiveNack (\<lambda>_. 5000)
      ((FeedbackRtpNackPacket_new 1 7)\<lparr>fb_items := [FeedbackRtpNackItem 3 5]\<rparr>) sender_sample = Some (out, s')
    \<and> ss_nack_count s' = ss_nack_count sender_sample + 1"
  using ReceiveNack_answers [of sender_sample "\<lambda>_. 5000"
      "(FeedbackRtpNackPacket_new 1 7)\<lparr>fb_items := [FeedbackRtpNackItem 3 5]\<rparr>"]
    sender_sample_inv by (auto simp: sender_sample_fields sender_inv_def)

lemma sent_packet_is_retransmitted_witness:
  "\<exists>s1 s2. Sender_ReceivePacket 5000 (rtp_sample 8 100) sender_sample = Some (True, [rtp_sample 8 100], s1)
    \<and> ReceiveNack (\<lambda>_. 5100)
        ((FeedbackRtpNackPacket_new 1 7)\<lparr>fb_items := [FeedbackRtpNackItem 8 0]\<rparr>) s1
      = Some ([rtp_sample 8 100], s2)"
proof -
  have hdr: "kHeaderSize \<le> length (rp_data (rtp_sample 8 100))" "GetSize (rtp_sample 8 100) \<le> kMtuSize"
    by (simp_all add: rtp_sample_def RtpPacket_of_header_def kHeaderSize_def GetSize_def kMtuSize_def)
  have "fst (ReceiveStreamPacket 5000 (rtp_sample 8 100) sender_sample)"
    by (simp add: ReceiveStreamPacket_def UpdateSequence_def InitSequence_def Let_def
        sender_sample_fields kMaxDropout_def)
  moreover obtain v out s1 where
    s1: "Sender_ReceivePacket 5000 (rtp_sample 8 100) sender_sample = Some (v, out, s1)"
    using Sender_ReceivePacket_inv [OF sender_sample_inv, of 5000] hdr by fastforce
  ultimately have v: "v" by (auto simp: Sender_ReceivePacket_def split_beta bind_eq_Some_conv split: if_splits)
  have "GetNewest (RetransmissionBuffer_init 2500 1000 16000) = None"
    by (simp add: GetNewest_def RetransmissionBuffer_init_def)
  then have "out = [rtp_sample 8 100] \<and> (\<exists>s2. ReceiveNack (\<lambda>_. 5100)
      ((FeedbackRtpNackPacket_new 1 7)\<lparr>fb_items := [FeedbackRtpNackItem 8 0]\<rparr>) s1
      = Some ([rtp_sample 8 100], s2))"
    using sender_sample_inv hdr s1 v
    by (intro sent_packet_is_retransmitted [of sender_sample "RetransmissionBuffer_init 2500 1000 16000"
        "rtp_sample 8 100" 5000 out s1])
      (simp_all add: sender_sample_fields sender_inv_def RetransmissionBuffer_init_def)
  then show ?thesis using s1 v by auto
qed

lemma sender_progress_witness:
  "Sender_ReceivePacket 5000 (rtp_sample 8 100) sender_sample \<noteq> None
   \<and> ReceiveNack (\<lambda>_. 5100) (FeedbackRtpNackPacket_new 1 7) sender_sample \<noteq> None"
  using sender_progress [OF sender_reach.intros(1) [OF sender_sample_init], of 5000 "rtp_sample 8 100"
      "\<lambda>_. 5100" "FeedbackRtpNackPacket_new 1 7"]
  by (simp add: audio_params_def sender_sample_fields rtp_sample_def RtpPacket_of_header_def kHeaderSize_def)

lemma GetRtcpSenderReport_time_witness:
  "SR_GetRtpTs (fst (GetRtcpSenderReport 2000 sender_sample)) = 32000"
  using GetRtcpSenderReport_time [of 2000 sender_sample 2]
  by (simp add: sender_sample_fields GetClockRate_def audio_params_def)




end
