(* ===== verification/Stream_Receiver.thy ===== *)
theory Stream_Receiver
  imports Rtp_Stream Nack_Generator Data_Calculator Rtcp_Packet Ntp_Time "HOL-Library.Monad_Syntax"
begin

text \<open>
  The class \<^verbatim>\<open>RtpStreamReceiver\<close> (\<^verbatim>\<open>core/include/rtc/rtp_stream_receiver.h\<close>,
  \<^verbatim>\<open>core/src/rtc/rtp_stream_receiver.cpp\<close>): it counts what arrives, keeps the NACK generator,
  and exchanges reports. Packets handed to the listener are returned as a list; \<open>None\<close> is
  undefined behaviour. The receiver is itself the listener of its NACK generator, and its
  functions for the calls of the generator are empty, so the calls have no effect.
\<close>

section \<open>State\<close>

record RtpStreamReceiver = RtpStream +
  rs_nack_generator :: "NackGenerator option"
  rs_expected_prior :: u32
  rs_received_prior :: u32
  rs_reported_packet_lost :: u32
  rs_last_sr_received :: u64
  rs_last_sr_timestamp :: u32
  rs_media_counter :: RtpDataCounter
  rs_is_dynamic_addr :: bool

text \<open>The jitter is a constant zero: nothing assigns to it.\<close>

definition rs_jitter :: "RtpStreamReceiver \<Rightarrow> u32" where "rs_jitter s = 0"

definition RtpStreamReceiver_init :: "Params \<Rightarrow> u32 \<Rightarrow> bool \<Rightarrow> RtpStreamReceiver option" where
  "RtpStreamReceiver_init ps delay dynamic_addr =
     map_option (\<lambda>counter. RtpStream.extend (RtpStream_init ps)
       \<lparr>rs_nack_generator =
          (if p_use_nack ps then Some (NackGenerator_init delay) else None),
        rs_expected_prior = 0, rs_received_prior = 0, rs_reported_packet_lost = 0,
        rs_last_sr_received = 0, rs_last_sr_timestamp = 0, rs_media_counter = counter,
        rs_is_dynamic_addr = dynamic_addr\<rparr>)
       (RtpDataCounter_init 2500)"

section \<open>The transmission counter class\<close>

text \<open>
  \<^verbatim>\<open>TransmissionCounter\<close> forwards to a data counter.
\<close>

record TransmissionCounter =
  tc_data_counter :: RtpDataCounter

definition TransmissionCounter_init :: "u64 \<Rightarrow> TransmissionCounter option" where
  "TransmissionCounter_init window_size =
     map_option (\<lambda>d. \<lparr>tc_data_counter = d\<rparr>) (RtpDataCounter_init window_size)"

definition TransmissionCounter_Update ::
  "u64 \<Rightarrow> RtpPacket \<Rightarrow> TransmissionCounter \<Rightarrow> TransmissionCounter option" where
  "TransmissionCounter_Update now p t =
     map_option (\<lambda>d. t\<lparr>tc_data_counter := d\<rparr>) (RtpDataCounter_Update now p (tc_data_counter t))"

definition TransmissionCounter_GetBitrate ::
  "u64 \<Rightarrow> TransmissionCounter \<Rightarrow> (u32 \<times> TransmissionCounter) option" where
  "TransmissionCounter_GetBitrate now t =
     map_option (\<lambda>(rate, d). (rate, t\<lparr>tc_data_counter := d\<rparr>)) (GetBitrate now (tc_data_counter t))"

definition TransmissionCounter_GetPacketCount :: "TransmissionCounter \<Rightarrow> u64" where
  "TransmissionCounter_GetPacketCount t = GetPacketCount (tc_data_counter t)"

definition TransmissionCounter_GetBytes :: "TransmissionCounter \<Rightarrow> u64" where
  "TransmissionCounter_GetBytes t = DataCounter_GetBytes (tc_data_counter t)"

section \<open>Receiving\<close>

definition Receiver_ReceivePacket ::
  "(u16 \<Rightarrow> u64) \<Rightarrow> u64 \<Rightarrow> RtpPacket \<Rightarrow> RtpStreamReceiver
    \<Rightarrow> (bool \<times> RtpPacket list \<times> RtpStreamReceiver) option"
where
  "Receiver_ReceivePacket clk now p s =
     (let (valid, s1) = ReceiveStreamPacket now p s in
      if \<not> valid then Some (False, [], s1)
      else do {
        s2 \<leftarrow> (if p_use_nack (params s1)
               then (case rs_nack_generator s1 of
                       None \<Rightarrow> None
                     | Some g \<Rightarrow>
                         (let (found, calls, g') =
                            NackGenerator_ReceivePacket clk now (GetSequenceNumber p) False g
                          in Some (s1\<lparr>rs_nack_generator := Some g'\<rparr>)))
               else Some s1);
        counter \<leftarrow> RtpDataCounter_Update now p (rs_media_counter s2);
        Some (True, [p], s2\<lparr>rs_media_counter := counter\<rparr>) })"

section \<open>Reports\<close>

definition GetExpectedPackets :: "RtpStreamReceiver \<Rightarrow> u32" where
  "GetExpectedPackets s = (cycles s + ucast (max_seq s)) - base_seq s + 1"

text \<open>\<^verbatim>\<open>std::round\<close> rounds halves away from zero.\<close>

definition round_away :: "rat \<Rightarrow> int" where
  "round_away x = (if x \<ge> 0 then \<lfloor>x + 1 / 2\<rfloor> else - \<lfloor>- x + 1 / 2\<rfloor>)"

text \<open>
  The fraction of packets lost in an interval, in units of 1/256. The quotient in \<^verbatim>\<open>double\<close> is on
  the same side of every half as the exact one. Shifting a number of \<open>2\<^sup>2\<^sup>4\<close> or more, and
  converting a result outside \<^verbatim>\<open>uint8_t\<close>, is undefined.
\<close>

definition fraction_of :: "u32 \<Rightarrow> u32 \<Rightarrow> u8 option" where
  "fraction_of expected_interval received_interval =
     (let lost = sint (expected_interval - received_interval) in
      if expected_interval = 0 \<or> lost \<le> 0 then Some 0
      else if lost \<ge> 16777216 then None
      else (let shifted = sint (push_bit 8 (word_of_int lost :: u32));
                x = round_away (of_int shifted / of_nat (unat expected_interval))
            in if 0 \<le> x \<and> x < 256 then Some (word_of_int x) else None))"

definition delay_units :: "u64 \<Rightarrow> u32" where
  "delay_units ms =
     (let delayMs = ucast ms :: u32
      in push_bit 16 (delayMs div 1000) OR (delayMs mod 1000 * 65536 div 1000))"

definition GetRtcpReceiverReport ::
  "u64 \<Rightarrow> RtpStreamReceiver \<Rightarrow> (report \<times> RtpStreamReceiver) option"
where
  "GetRtcpReceiverReport now s =
     (let prev_packets_lost = packets_lost s;
          expected = GetExpectedPackets s;
          received = GetPacketCount (rs_media_counter s);
          lost = (if ucast expected > received then ucast (ucast expected - received) else 0);
          expected_interval = expected - rs_expected_prior s;
          received_interval = ucast (received - ucast (rs_received_prior s)) :: u32
      in do {
        fraction \<leftarrow> fraction_of expected_interval received_interval;
        let s' = s\<lparr>packets_lost := lost, fraction_lost := fraction, rs_expected_prior := expected,
                   rs_received_prior := ucast received,
                   rs_reported_packet_lost := rs_reported_packet_lost s + (lost - prev_packets_lost)\<rparr>;
        let r = SetJitter (rs_jitter s') (SetLastSeq (ucast (max_seq s') + cycles s')
                  (SetFractionLost fraction (SetTotalLost (sint (rs_reported_packet_lost s'))
                    (RR_SetSsrc (StreamGetSsrc s') new_report))));
        Some (if rs_last_sr_received s' \<noteq> 0
              then (SetLastSenderReport (rs_last_sr_timestamp s')
                     (SetDelaySinceLastSenderReport (delay_units (now - rs_last_sr_received s')) r), s')
              else (SetLastSenderReport 0 (SetDelaySinceLastSenderReport 0 r), s')) })"

definition ReceiveRtcpSenderReport ::
  "u64 \<Rightarrow> report \<Rightarrow> RtpStreamReceiver \<Rightarrow> RtpStreamReceiver"
where
  "ReceiveRtcpSenderReport now report s =
     s\<lparr>rs_last_sr_received := now,
       rs_last_sr_timestamp := push_bit 16 (SR_GetNtpSec report) + drop_bit 16 (SR_GetNtpFrac report),
       last_sender_report_ntp_ms :=
         Ntp2TimeMs \<lparr>ntp_seconds = SR_GetNtpSec report, ntp_fractions = SR_GetNtpFrac report\<rparr>,
       last_sender_report_ts := SR_GetRtpTs report\<rparr>"

section \<open>Reachable states of the receiver\<close>

definition receiver_inv :: "u64 \<Rightarrow> RtpStreamReceiver \<Rightarrow> bool" where
  "receiver_inv t s \<longleftrightarrow>
     (p_use_nack (params s) \<longrightarrow> (\<exists>g. rs_nack_generator s = Some g \<and> nack_inv g))
     \<and> rc_ready t (dc_rate (rs_media_counter s))
     \<and> rc_window_size_ms (dc_rate (rs_media_counter s)) = 2500
     \<and> rs_reported_packet_lost s = packets_lost s"

lemma ReceiveStreamPacket_receiver [simp]:
  "rs_nack_generator (snd (ReceiveStreamPacket now p s)) = rs_nack_generator s"
  "rs_media_counter (snd (ReceiveStreamPacket now p s)) = rs_media_counter s"
  "rs_reported_packet_lost (snd (ReceiveStreamPacket now p s)) = rs_reported_packet_lost s"
  by (simp_all add: ReceiveStreamPacket_def UpdateSequence_def InitSequence_def Let_def)

lemma ReceiveStreamPacket_base [simp]:
  "params (snd (ReceiveStreamPacket now p s)) = params s"
  "packets_lost (snd (ReceiveStreamPacket now p s)) = packets_lost s"
  by (simp_all add: ReceiveStreamPacket_def UpdateSequence_def InitSequence_def Let_def)

lemma receiver_inv_init:
  assumes "RtpStreamReceiver_init ps delay d = Some s"
  shows "receiver_inv 0 s"
proof -
  obtain c where c: "RtpDataCounter_init 2500 = Some c"
    using assms by (auto simp: RtpStreamReceiver_init_def)
  have s: "s = RtpStream.extend (RtpStream_init ps)
       \<lparr>rs_nack_generator = (if p_use_nack ps then Some (NackGenerator_init delay) else None),
        rs_expected_prior = 0, rs_received_prior = 0, rs_reported_packet_lost = 0,
        rs_last_sr_received = 0, rs_last_sr_timestamp = 0, rs_media_counter = c,
        rs_is_dynamic_addr = d\<rparr>"
    using assms c by (simp add: RtpStreamReceiver_init_def)
  show ?thesis using RtpDataCounter_init_ready [OF c] NackGenerator_init_inv [of delay]
    by (simp add: receiver_inv_def s RtpStream.extend_def RtpStream_init_def)
qed

lemma Receiver_ReceivePacket_inv:
  assumes inv: "receiver_inv t s" and now: "t \<le> now" "2500 \<le> now"
  shows "\<exists>valid out s'. Receiver_ReceivePacket clk now p s = Some (valid, out, s')
    \<and> out = (if valid then [p] else []) \<and> receiver_inv (if valid then now else t) s'
    \<and> dc_packets (rs_media_counter s') = dc_packets (rs_media_counter s) + of_bool valid"
proof -
  obtain v s1 where s1: "ReceiveStreamPacket now p s = (v, s1)" by fastforce
  have inv1: "receiver_inv t s1" "rs_media_counter s1 = rs_media_counter s"
    using inv ReceiveStreamPacket_receiver [of now p s] ReceiveStreamPacket_base [of now p s]
    unfolding s1 by (simp_all add: receiver_inv_def)
  show ?thesis
  proof (cases v)
    case False
    then show ?thesis using inv1
      by (intro exI [of _ False] exI [of _ "[]"] exI [of _ s1]) (simp add: Receiver_ReceivePacket_def s1)
  next
    case True
    obtain s2 where s2: "(if p_use_nack (params s1)
        then (case rs_nack_generator s1 of None \<Rightarrow> None
          | Some g \<Rightarrow> (let (found, calls, g') =
              NackGenerator_ReceivePacket clk now (GetSequenceNumber p) False g
            in Some (s1\<lparr>rs_nack_generator := Some g'\<rparr>)))
        else Some s1) = Some s2" "receiver_inv t s2" "rs_media_counter s2 = rs_media_counter s"
    proof (cases "p_use_nack (params s1)")
      case True
      then obtain g where g: "rs_nack_generator s1 = Some g" "nack_inv g"
        using inv1 by (auto simp: receiver_inv_def)
      let ?g = "snd (snd (NackGenerator_ReceivePacket clk now (GetSequenceNumber p) False g))"
      have "nack_inv ?g" by (rule NackGenerator_ReceivePacket_inv [OF g(2)])
      then have "receiver_inv t (s1\<lparr>rs_nack_generator := Some ?g\<rparr>)"
        using inv1 by (simp add: receiver_inv_def)
      then show thesis using that [of "s1\<lparr>rs_nack_generator := Some ?g\<rparr>"] True g(1) inv1(2)
        by (simp add: split_beta)
    next
      case False
      then show thesis using that [of s1] inv1 by simp
    qed
    have "rc_ready t (dc_rate (rs_media_counter s2))"
      "rc_window_size_ms (dc_rate (rs_media_counter s2)) = 2500"
      using s2(2) by (simp_all add: receiver_inv_def)
    then obtain c where c: "RtpDataCounter_Update now p (rs_media_counter s2) = Some c"
        "rc_ready now (dc_rate c)" "rc_window_size_ms (dc_rate c) = 2500"
        "dc_packets c = dc_packets (rs_media_counter s2) + 1"
      using RtpDataCounter_Update_ready [of t "rs_media_counter s2" now p] now by metis
    have "Receiver_ReceivePacket clk now p s = Some (True, [p], s2\<lparr>rs_media_counter := c\<rparr>)"
      unfolding Receiver_ReceivePacket_def s1 Let_def prod.case
      using True s2(1) c(1) unfolding Let_def by simp
    moreover have "receiver_inv now (s2\<lparr>rs_media_counter := c\<rparr>)"
      using s2(2) c(2,3) by (simp add: receiver_inv_def)
    ultimately show ?thesis using True c(4) s2(3)
      by (intro exI [of _ True] exI [of _ "[p]"] exI [of _ "s2\<lparr>rs_media_counter := c\<rparr>"]) simp
  qed
qed

lemma GetRtcpReceiverReport_cases:
  assumes "GetRtcpReceiverReport now s = Some (r, s')"
  obtains fraction lost where "fraction_of (GetExpectedPackets s - rs_expected_prior s)
      (ucast (GetPacketCount (rs_media_counter s) - ucast (rs_received_prior s))) = Some fraction"
    "lost = (if ucast (GetExpectedPackets s) > GetPacketCount (rs_media_counter s)
      then ucast (ucast (GetExpectedPackets s) - GetPacketCount (rs_media_counter s)) else 0)"
    "s' = s\<lparr>packets_lost := lost, fraction_lost := fraction,
       rs_expected_prior := GetExpectedPackets s,
       rs_received_prior := ucast (GetPacketCount (rs_media_counter s)),
       rs_reported_packet_lost := rs_reported_packet_lost s + (lost - packets_lost s)\<rparr>"
  using assms that by (auto simp: GetRtcpReceiverReport_def Let_def bind_eq_Some_conv split: if_splits)

inductive receiver_reach :: "Params \<Rightarrow> u64 \<Rightarrow> RtpStreamReceiver \<Rightarrow> bool" for ps where
  "RtpStreamReceiver_init ps delay dynamic_addr = Some s \<Longrightarrow> receiver_reach ps 0 s"
| "receiver_reach ps t s \<Longrightarrow> t \<le> now \<Longrightarrow> 2500 \<le> now
     \<Longrightarrow> Receiver_ReceivePacket clk now p s = Some (valid, out, s') \<Longrightarrow> receiver_reach ps now s'"
| "receiver_reach ps t s \<Longrightarrow> receiver_reach ps t (ReceiveRtcpSenderReport now report s)"
| "receiver_reach ps t s \<Longrightarrow> GetRtcpReceiverReport now s = Some (report, s') \<Longrightarrow> receiver_reach ps t s'"

lemma rc_ready_mono: "rc_ready t c \<Longrightarrow> t \<le> now \<Longrightarrow> rc_ready now c"
  unfolding rc_ready_def by force

lemma receiver_reach_inv: "receiver_reach ps t s \<Longrightarrow> receiver_inv t s"
proof (induction rule: receiver_reach.induct)
  case (1 delay d s)
  then show ?case by (rule receiver_inv_init)
next
  case (2 t s now clk p valid out s')
  then show ?case using Receiver_ReceivePacket_inv [OF 2(5,2,3), of clk p] rc_ready_mono [OF _ 2(2)]
    by (auto simp: receiver_inv_def split: if_splits)
next
  case (3 t s now report)
  then show ?case by (simp add: receiver_inv_def ReceiveRtcpSenderReport_def)
next
  case (4 t s now report s')
  from 4(2) show ?case by (rule GetRtcpReceiverReport_cases) (use 4(3) in \<open>simp add: receiver_inv_def\<close>)
qed

text \<open>
  Claim C24. In every reachable state of a receiver the NACK generator is well formed, the sum
  of the differences it has reported is the current number of lost packets, and any packet is
  handled without undefined behaviour; an accepted one is handed on and counted.
\<close>

theorem receiver_progress:
  assumes "receiver_reach ps t s"
  shows "(p_use_nack (params s) \<longrightarrow> (\<exists>g. rs_nack_generator s = Some g \<and> nack_inv g))
    \<and> rs_reported_packet_lost s = packets_lost s
    \<and> (t \<le> now \<and> 2500 \<le> now \<longrightarrow> (\<exists>valid out s'. Receiver_ReceivePacket clk now p s = Some (valid, out, s')
         \<and> out = (if valid then [p] else [])
         \<and> dc_packets (rs_media_counter s') = dc_packets (rs_media_counter s) + of_bool valid))"
  using receiver_reach_inv [OF assms] Receiver_ReceivePacket_inv [OF receiver_reach_inv [OF assms], of now clk p]
  unfolding receiver_inv_def by blast

section \<open>The contents of a receiver report\<close>

lemma rr_report_fields [simp]:
  assumes "length r = 24"
  shows "GetTotalLost (SetFractionLost f r) = GetTotalLost r" "GetTotalLost (SetLastSeq v r) = GetTotalLost r"
    "GetTotalLost (SetJitter v r) = GetTotalLost r" "GetTotalLost (SetLastSenderReport v r) = GetTotalLost r"
    "GetTotalLost (SetDelaySinceLastSenderReport v r) = GetTotalLost r"
proof -
  have "Get3Bytes (SetFractionLost f r) 5 = Get3Bytes r 5" "Get3Bytes (SetLastSeq v r) 5 = Get3Bytes r 5"
    "Get3Bytes (SetJitter v r) 5 = Get3Bytes r 5" "Get3Bytes (SetLastSenderReport v r) 5 = Get3Bytes r 5"
    "Get3Bytes (SetDelaySinceLastSenderReport v r) 5 = Get3Bytes r 5"
    unfolding rr_fields by (rule be24.get_local, simp add: byte1.put_frame be32.put_frame)+
  then show "GetTotalLost (SetFractionLost f r) = GetTotalLost r" "GetTotalLost (SetLastSeq v r) = GetTotalLost r"
    "GetTotalLost (SetJitter v r) = GetTotalLost r" "GetTotalLost (SetLastSenderReport v r) = GetTotalLost r"
    "GetTotalLost (SetDelaySinceLastSenderReport v r) = GetTotalLost r"
    by (simp_all add: GetTotalLost_def)
qed

lemma length_rr_set [simp]:
  "length (RR_SetSsrc v r) = length r" "length (SetFractionLost f r) = length r"
  "length (SetLastSeq v r) = length r" "length (SetJitter v r) = length r"
  "length (SetLastSenderReport v r) = length r" "length (SetDelaySinceLastSenderReport v r) = length r"
  by (simp_all add: rr_fields)

lemma be32_SetTotalLost: "i + 4 \<le> 5 \<or> 8 \<le> i \<Longrightarrow> Get4Bytes (SetTotalLost n r) i = Get4Bytes r i"
  unfolding SetTotalLost_def Let_def by (rule be32.get_local) (auto simp: be24.put_frame)

lemma be32_Set1Byte: "i + 4 \<le> 4 \<or> 5 \<le> i \<Longrightarrow> Get4Bytes (Set1Byte r 4 v) i = Get4Bytes r i"
  by (rule be32.get_local) (auto simp: byte1.put_frame)

text \<open>The fields of the report, whichever way its last two were set.\<close>

lemma report_contents:
  defines "r lost ssrc f seq d sr \<equiv> SetLastSenderReport sr (SetDelaySinceLastSenderReport d
    (SetJitter 0 (SetLastSeq seq (SetFractionLost f (SetTotalLost lost (RR_SetSsrc ssrc new_report))))))"
  shows "length (r lost ssrc f seq d sr) = 24"
    "RR_GetSsrc (r lost ssrc f seq d sr) = ssrc" "GetLastSeq (r lost ssrc f seq d sr) = seq"
    "GetJitter (r lost ssrc f seq d sr) = 0" "GetLastSenderReport (r lost ssrc f seq d sr) = sr"
    "GetDelaySinceLastSenderReport (r lost ssrc f seq d sr) = d"
    "GetTotalLost (r lost ssrc f seq d sr) = max (- 8388608) (min 8388607 lost)"
    "GetFractionLost (r lost ssrc f seq d sr) = f"
proof -
  show "GetTotalLost (r lost ssrc f seq d sr) = max (- 8388608) (min 8388607 lost)"
    by (simp add: r_def SetTotalLost_read sizeof_Report_def)
  have "Get1Byte (r lost ssrc f seq d sr) 4 = f"
  proof -
    have "Get1Byte (r lost ssrc f seq d sr) 4
        = Get1Byte (SetFractionLost f (SetTotalLost lost (RR_SetSsrc ssrc new_report))) 4"
      unfolding r_def rr_fields by (rule byte1.get_local) (simp add: be32.put_frame)
    also have "\<dots> = f" unfolding rr_fields by (rule byte1.get_put) simp_all
    finally show ?thesis .
  qed
  then show "GetFractionLost (r lost ssrc f seq d sr) = f" by (simp add: GetFractionLost_def)
  show "length (r lost ssrc f seq d sr) = 24" by (simp add: r_def)
  show "GetLastSenderReport (r lost ssrc f seq d sr) = sr"
    "GetDelaySinceLastSenderReport (r lost ssrc f seq d sr) = d"
    "GetJitter (r lost ssrc f seq d sr) = 0" "GetLastSeq (r lost ssrc f seq d sr) = seq"
    by (simp_all add: r_def rr_fields be32.get_put be32.get_other)
  have "Get4Bytes (r lost ssrc f seq d sr) 0 = Get4Bytes (RR_SetSsrc ssrc new_report) 0"
    unfolding r_def by (simp add: rr_fields be32.get_other be32_SetTotalLost be32_Set1Byte)
  then show "RR_GetSsrc (r lost ssrc f seq d sr) = ssrc"
    by (simp add: rr_fields be32.get_put)
qed

lemma sint_of_small: "unat (w :: u32) < 16777216 \<Longrightarrow> sint w = int (unat w)"
proof -
  assume "unat w < 16777216"
  then have "sint (word_of_int (int (unat w)) :: u32) = int (unat w)" by (intro sint_small) linarith+
  moreover have "word_of_int (int (unat w)) = w" by simp
  ultimately show ?thesis by metis
qed

lemma receiver_report_value:
  assumes "GetRtcpReceiverReport now s = Some (r, s')"
  shows "r = SetLastSenderReport (if rs_last_sr_received s \<noteq> 0 then rs_last_sr_timestamp s else 0)
    (SetDelaySinceLastSenderReport (if rs_last_sr_received s \<noteq> 0
        then delay_units (now - rs_last_sr_received s) else 0)
      (SetJitter 0 (SetLastSeq (ucast (max_seq s) + cycles s) (SetFractionLost (fraction_lost s')
        (SetTotalLost (sint (rs_reported_packet_lost s')) (RR_SetSsrc (StreamGetSsrc s) new_report))))))"
  using assms by (auto simp: GetRtcpReceiverReport_def Let_def bind_eq_Some_conv rs_jitter_def
      StreamGetSsrc_def split: if_splits)

text \<open>
  Claim C25. A receiver report says what the receiver knows: the source, the highest sequence
  number extended by the cycles, the loss in the last interval, and in total the expected
  packets less the received ones, or none if there are more of them than expected.
\<close>

theorem receiver_report_contents:
  assumes reach: "receiver_reach ps t s" and report: "GetRtcpReceiverReport now s = Some (r, s')"
    and small: "unat (GetExpectedPackets s) < 8388608"
  shows "RR_GetSsrc r = StreamGetSsrc s \<and> GetLastSeq r = ucast (max_seq s) + cycles s
    \<and> GetFractionLost r = fraction_lost s'
    \<and> GetTotalLost r = max 0 (int (unat (GetExpectedPackets s)) - int (unat (GetPacketCount (rs_media_counter s))))"
proof -
  have tele: "rs_reported_packet_lost s = packets_lost s"
    using receiver_reach_inv [OF reach] by (simp add: receiver_inv_def)
  let ?e = "GetExpectedPackets s" and ?n = "GetPacketCount (rs_media_counter s)"
  obtain lost where lost: "lost = (if ucast ?e > ?n then ucast (ucast ?e - ?n) else 0)"
      "rs_reported_packet_lost s' = lost"
    using report by (rule GetRtcpReceiverReport_cases) (use tele in simp)
  have e: "unat (ucast ?e :: u64) = unat ?e" by (rule unat_ucast_32_64)
  have u: "unat lost = unat ?e - unat ?n"
  proof (cases "ucast ?e > ?n")
    case True
    then have le: "unat ?n \<le> unat ?e" by (simp add: word_less_nat_alt e)
    then have "unat (ucast ?e - ?n) = unat ?e - unat ?n" using e by (simp add: unat_sub word_le_nat_alt)
    moreover have "unat ?e - unat ?n < 4294967296" using small by simp
    ultimately show ?thesis using True lost(1) by (simp add: unsigned_ucast_eq take_bit_nat_eq_self)
  next
    case False
    then show ?thesis using lost(1) by (simp add: word_less_nat_alt e not_less)
  qed
  then have "unat lost < 8388608" using small by simp
  then have "sint lost = int (unat lost)" by (intro sint_of_small) simp
  then have "sint lost = max 0 (int (unat ?e) - int (unat ?n))" unfolding u by linarith
  moreover have "unat lost < 8388608" using u small by simp
  ultimately have "max (- 8388608) (min 8388607 (sint lost)) = max 0 (int (unat ?e) - int (unat ?n))"
    using small by linarith
  then show ?thesis
    unfolding receiver_report_value [OF report] lost(2) by (simp add: report_contents)
qed

section \<open>The fraction of lost packets\<close>

text \<open>
  If packets were lost in an interval, the report gives their share in units of 1/256,
  rounded. When less than one in 512 of the expected packets arrived the share is 256, which
  does not fit the byte of the report: the conversion is undefined.
\<close>

lemma fraction_of_interval:
  assumes lost: "unat (expected_interval - received_interval) = L" "0 < L" "L < 8388608"
    and e: "unat expected_interval = E" "0 < E"
  shows "fraction_of expected_interval received_interval =
    (if 512 * L < 511 * E then Some (word_of_nat ((512 * L + E) div (2 * E))) else None)"
proof -
  let ?d = "expected_interval - received_interval"
  have s: "sint ?d = int L" using sint_of_small [of ?d] lost by simp
  have sh: "sint (push_bit 8 (word_of_int (int L) :: u32)) = 256 * int L"
  proof -
    have p: "push_bit 8 (word_of_int (int L) :: u32) = word_of_int (256 * int L)"
      by (simp add: push_bit_eq_mult)
    have "signed_take_bit (LENGTH(32) - Suc 0) (256 * int L) = 256 * int L"
      by (rule signed_take_bit_int_eq_self) (use lost(3) in simp_all)
    then show ?thesis unfolding p signed_of_int by simp
  qed
  let ?x = "(of_int (256 * int L) :: rat) / of_nat E"
  have "?x + 1 / 2 = of_int (512 * int L + int E) / of_int (2 * int E)"
    using e(2) by (simp add: field_simps)
  then have "\<lfloor>?x + 1 / 2\<rfloor> = (512 * int L + int E) div (2 * int E)"
    by (simp only: floor_divide_of_int_eq)
  then have x: "round_away ?x = int ((512 * L + E) div (2 * E))"
    by (simp add: round_away_def zdiv_int)
  have "(512 * L + E) div (2 * E) < 256 \<longleftrightarrow> 512 * L < 511 * E"
    using e(2) by (simp add: div_less_iff_less_mult)
  moreover have "expected_interval \<noteq> 0" using e by auto
  ultimately show ?thesis
    unfolding fraction_of_def Let_def s sh e(1) x using lost by simp
qed

text \<open>
  A receiver that has not got any packet expects one: asking it for a report then is
  the undefined conversion of the number 256 to a byte.
\<close>

lemma idle_receiver_report:
  "\<exists>s. RtpStreamReceiver_init ps delay dynamic_addr = Some s
     \<and> GetExpectedPackets s = 1 \<and> GetPacketCount (rs_media_counter s) = 0
     \<and> GetRtcpReceiverReport now s = None"
proof -
  have "\<exists>c. RtpDataCounter_init 2500 = Some c"
    by (simp add: RtpDataCounter_init_def RateCalculator_init_def kDefaultWindowItems_def)
  then obtain c where c: "RtpDataCounter_init 2500 = Some c" by blast
  have n: "dc_packets c = 0" using RtpDataCounter_init_ready(3) [OF c] by simp
  obtain s where s: "RtpStreamReceiver_init ps delay dynamic_addr = Some s"
    by (simp add: RtpStreamReceiver_init_def c)
  have f: "GetExpectedPackets s = 1" "GetPacketCount (rs_media_counter s) = 0"
      "rs_expected_prior s = 0" "rs_received_prior s = 0"
    using s n by (auto simp: RtpStreamReceiver_init_def c RtpStream.extend_def RtpStream_init_def
        GetExpectedPackets_def GetPacketCount_def)
  have "fraction_of 1 0 = None"
    by (simp add: fraction_of_def round_away_def)
  then have "GetRtcpReceiverReport now s = None"
    by (simp add: GetRtcpReceiverReport_def Let_def f)
  then show ?thesis using s f by blast
qed

section \<open>Concrete instances\<close>

definition receiver_params :: Params where
  "receiver_params = \<lparr>p_ssrc = 7, p_payload_type = 100, p_clock_rate = 16000, p_use_nack = True\<rparr>"

definition receiver_sample :: RtpStreamReceiver where
  "receiver_sample = the (RtpStreamReceiver_init receiver_params 10 False)"

lemma receiver_sample_init: "RtpStreamReceiver_init receiver_params 10 False = Some receiver_sample"
proof -
  have "\<exists>c. RtpDataCounter_init 2500 = Some c"
    by (simp add: RtpDataCounter_init_def RateCalculator_init_def kDefaultWindowItems_def)
  then show ?thesis by (auto simp: receiver_sample_def RtpStreamReceiver_init_def)
qed

lemma receiver_sample_fields:
  "\<not> stream_started receiver_sample" "cycles receiver_sample = 0" "rs_expected_prior receiver_sample = 0"
  "rs_received_prior receiver_sample = 0" "dc_packets (rs_media_counter receiver_sample) = 0"
  "packets_lost receiver_sample = 0" "params receiver_sample = receiver_params"
proof -
  obtain c where c: "RtpDataCounter_init 2500 = Some c"
    using receiver_sample_init by (auto simp: RtpStreamReceiver_init_def)
  have "dc_packets c = 0" using RtpDataCounter_init_ready(3) [OF c] by simp
  then show "\<not> stream_started receiver_sample" "cycles receiver_sample = 0"
    "rs_expected_prior receiver_sample = 0" "rs_received_prior receiver_sample = 0"
    "dc_packets (rs_media_counter receiver_sample) = 0" "packets_lost receiver_sample = 0"
    "params receiver_sample = receiver_params"
    by (simp_all add: receiver_sample_def RtpStreamReceiver_init_def c RtpStream.extend_def
        RtpStream_init_def)
qed

lemma receiver_sample_reach: "receiver_reach receiver_params 0 receiver_sample"
  by (rule receiver_reach.intros(1) [OF receiver_sample_init])

lemma receiver_progress_witness:
  "\<exists>valid out s'. Receiver_ReceivePacket (\<lambda>_. 5000) 5000 (rtp_sample 8 100) receiver_sample
     = Some (valid, out, s')"
  using receiver_progress [OF receiver_sample_reach, of 5000 "\<lambda>_. 5000" "rtp_sample 8 100"] by auto

lemma receiver_got_one:
  obtains s where "receiver_reach receiver_params 5000 s" "max_seq s = 8" "base_seq s = 8" "cycles s = 0"
    "rs_expected_prior s = 0" "rs_received_prior s = 0" "dc_packets (rs_media_counter s) = 1"
    "packets_lost s = 0" "StreamGetSsrc s = 7"
proof -
  let ?p = "rtp_sample 8 100"
  obtain v out s where s: "Receiver_ReceivePacket (\<lambda>_. 5000) 5000 ?p receiver_sample = Some (v, out, s)"
      "dc_packets (rs_media_counter s) = of_bool v"
    using Receiver_ReceivePacket_inv [OF receiver_reach_inv [OF receiver_sample_reach], of 5000 "\<lambda>_. 5000" ?p]
      receiver_sample_fields(5) by auto
  let ?s1 = "snd (ReceiveStreamPacket 5000 ?p receiver_sample)"
  have v: "fst (ReceiveStreamPacket 5000 ?p receiver_sample)"
    and f: "max_seq ?s1 = 8" "base_seq ?s1 = 8" "cycles ?s1 = 0" "rs_expected_prior ?s1 = 0"
      "rs_received_prior ?s1 = 0" "packets_lost ?s1 = 0" "StreamGetSsrc ?s1 = 7"
    by (simp_all add: ReceiveStreamPacket_def UpdateSequence_def InitSequence_def Let_def
        receiver_sample_fields kMaxDropout_def StreamGetSsrc_def receiver_params_def)
  obtain g c where "s = ?s1\<lparr>rs_nack_generator := g, rs_media_counter := c\<rparr>" and vv: "v"
  proof -
    obtain g c where "v \<and> s = ?s1\<lparr>rs_nack_generator := g, rs_media_counter := c\<rparr>"
      using s(1) v receiver_sample_fields(7)
      by (auto simp: Receiver_ReceivePacket_def split_beta bind_eq_Some_conv receiver_params_def
          split: option.splits)
    then show thesis using that by blast
  qed
  moreover have "receiver_reach receiver_params 5000 s"
    by (rule receiver_reach.intros(2) [OF receiver_sample_reach _ _ s(1)]) simp_all
  ultimately show thesis using f s(2) that [of s] by (simp add: StreamGetSsrc_def)
qed

lemma receiver_report_contents_witness:
  "\<exists>s r s'. GetRtcpReceiverReport 6000 s = Some (r, s') \<and> RR_GetSsrc r = 7 \<and> GetLastSeq r = 8
    \<and> GetTotalLost r = 0"
proof -
  obtain s where s: "receiver_reach receiver_params 5000 s" "max_seq s = 8" "base_seq s = 8" "cycles s = 0"
    "rs_expected_prior s = 0" "rs_received_prior s = 0" "dc_packets (rs_media_counter s) = 1"
    "packets_lost s = 0" "StreamGetSsrc s = 7" by (rule receiver_got_one)
  have e: "GetExpectedPackets s = 1" "GetPacketCount (rs_media_counter s) = 1"
    by (simp_all add: GetExpectedPackets_def GetPacketCount_def s)
  have "fraction_of 1 1 = Some 0" by (simp add: fraction_of_def)
  then have "GetRtcpReceiverReport 6000 s \<noteq> None" by (simp add: GetRtcpReceiverReport_def Let_def e s)
  then obtain r s' where r: "GetRtcpReceiverReport 6000 s = Some (r, s')" by auto
  from receiver_report_contents [OF s(1) r] show ?thesis using r e s by auto
qed

lemma fraction_of_interval_witness: "fraction_of 100 90 = Some 26"
  using fraction_of_interval [of 100 90 10 100] by simp

end
