(* ===== verification/Report_Exchange.thy ===== *)
theory Report_Exchange
  imports Sender_Properties Stream_Receiver
begin

text \<open>
  The exchange of reports between the two ends of a stream: a sender report travels to the
  receiver, whose report travels back. The two ends have different clocks; the only time that
  crosses the network is the receiver's delay between the two reports.
\<close>

section \<open>The times in the reports\<close>

definition units :: "nat \<Rightarrow> nat" where "units ms = ms * 65536 div 1000"

lemma units_bounds: "ms * 65536 \<le> 1000 * units ms + 999" "1000 * units ms \<le> ms * 65536"
  unfolding units_def
  using div_mult_mod_eq [of "ms * 65536" 1000] mod_less_divisor [of 1000 "ms * 65536"] by linarith+

lemma delay_units_value:
  assumes "unat ms < 65536000"
  shows "delay_units ms = word_of_nat (units (unat ms))"
proof -
  let ?d = "unat ms" and ?q = "unat ms div 1000" and ?r = "unat ms mod 1000 * 65536 div 1000"
  have u: "unat (ucast ms :: u32) = ?d" using assms by (simp add: unsigned_ucast_eq take_bit_nat_eq_self)
  have q: "unat ((ucast ms :: u32) div 1000) = ?q" by (simp add: unat_div u)
  have m: "unat ((ucast ms :: u32) mod 1000) = unat ms mod 1000" by (simp add: unat_mod u)
  have "unat ms mod 1000 * 65536 < 4294967296"
    using mod_less_divisor [of 1000 "unat ms"] by linarith
  then have "unat ((ucast ms :: u32) mod 1000 * 65536) = unat ms mod 1000 * 65536"
    using m by (subst unat_mult_lem [THEN iffD1]) simp_all
  then have r: "unat ((ucast ms :: u32) mod 1000 * 65536 div 1000) = ?r"
    by (simp only: unat_div) simp
  have r16: "?r < 65536" using mod_less_divisor [of 1000 "unat ms"] by (simp add: div_less_iff_less_mult)
  let ?y = "(ucast ms :: u32) mod 1000 * 65536 div 1000"
  have "?y = take_bit 16 ?y"
    using r r16 by (simp add: word_unat_eq_iff unsigned_take_bit_eq take_bit_nat_eq_self)
  then have high: "\<not> bit ?y n" if "16 \<le> n" for n using that by (metis bit_take_bit_iff not_less)
  have "push_bit 16 ((ucast ms :: u32) div 1000) AND ?y = 0"
    by (rule bit_word_eqI) (use high in \<open>auto simp: bit_simps\<close>)
  then have "delay_units ms = push_bit 16 ((ucast ms :: u32) div 1000) + ?y"
    by (simp add: delay_units_def Let_def disjunctive_add_eq_or)
  also have "(ucast ms :: u32) div 1000 = word_of_nat ?q" unfolding q [symmetric] by simp
  also have "?y = word_of_nat ?r" unfolding r [symmetric] by simp
  also have "push_bit 16 (word_of_nat ?q :: u32) + word_of_nat ?r = word_of_nat (?q * 65536 + ?r)"
    by (simp add: push_bit_eq_mult)
  also have "?q * 65536 + ?r = units ?d"
  proof -
    have "?d * 65536 = 1000 * (?q * 65536) + unat ms mod 1000 * 65536"
      using div_mult_mod_eq [of ?d 1000] by linarith
    moreover have "(1000 * (?q * 65536) + unat ms mod 1000 * 65536) div 1000 = ?q * 65536 + ?r"
      by (rule div_mult_self4) simp
    ultimately show ?thesis unfolding units_def by (simp only:)
  qed
  finally show ?thesis .
qed

section \<open>The measured round trip\<close>

lemma report_rtt_units:
  assumes now: "unat t3 < 4294967296000" and sum: "unat t3 = unat t0 + d + rtt" "1 \<le> rtt"
    and d: "1 \<le> d" "d < 65536000"
    and epoch: "units (unat t3) div 4294967296 = units (unat t0) div 4294967296"
      "units (unat t0) mod 4294967296 \<noteq> 0"
    and sr: "GetLastSenderReport r = word_of_nat (units (unat t0))"
    and dlsr: "GetDelaySinceLastSenderReport r = word_of_nat (units d)"
  shows "units (unat t0) + units d < units (unat t3)"
    and "unat (report_rtt t3 r) = units (unat t3) - units d - units (unat t0)"
proof -
  let ?u3 = "units (unat t3)" and ?u0 = "units (unat t0)" and ?ud = "units d"
  let ?M = "4294967296 :: nat"
  define a where "a = ?u3 mod ?M"
  define b where "b = ?u0 mod ?M"
  note b3 = units_bounds [of "unat t3"] and b0 = units_bounds [of "unat t0"] and bd = units_bounds [of d]
  show gap: "?u0 + ?ud < ?u3" using b3 b0 bd sum by linarith
  have "?u3 = ?u3 div ?M * ?M + a" "?u0 = ?u3 div ?M * ?M + b"
    using div_mult_mod_eq [of ?u3 ?M] div_mult_mod_eq [of ?u0 ?M] epoch(1) by (simp_all add: a_def b_def)
  then have ab: "a + ?u0 = ?u3 + b" "b + ?ud < a" using gap by linarith+
  have a: "a < ?M" and ud: "?ud < ?M" "0 < ?ud" and b: "b \<noteq> 0"
    using bd d epoch(2) by (auto simp: a_def b_def intro: ccontr)
  have c3: "unat (compact_ntp (TimeMs2Ntp t3)) = a"
    by (simp add: compact_ntp_value [OF now] units_def [symmetric] unsigned_of_nat take_bit_eq_mod a_def)
  have l0: "unat (GetLastSenderReport r) = b"
    by (simp add: sr unsigned_of_nat take_bit_eq_mod b_def)
  have ld: "unat (GetDelaySinceLastSenderReport r) = ?ud"
    using ud by (simp add: dlsr unat_of_nat_32)
  have sum': "unat (GetDelaySinceLastSenderReport r + GetLastSenderReport r) = ?ud + b"
    using a ab(2) by (subst unat_add_lem [THEN iffD1]) (simp_all add: l0 ld)
  have "GetLastSenderReport r \<noteq> 0" "GetDelaySinceLastSenderReport r \<noteq> 0"
    using l0 ld b ud by auto
  moreover have "compact_ntp (TimeMs2Ntp t3) > GetDelaySinceLastSenderReport r + GetLastSenderReport r"
    using ab(2) by (simp add: word_less_nat_alt c3 sum')
  ultimately have "report_rtt t3 r
      = compact_ntp (TimeMs2Ntp t3) - GetDelaySinceLastSenderReport r - GetLastSenderReport r"
    by (simp add: report_rtt_def Let_def)
  also have "\<dots> = compact_ntp (TimeMs2Ntp t3) - (GetDelaySinceLastSenderReport r + GetLastSenderReport r)"
    by simp
  finally have "unat (report_rtt t3 r) = a - (?ud + b)"
    using ab(2) by (simp add: unat_sub word_le_nat_alt c3 sum')
  then show "unat (report_rtt t3 r) = ?u3 - ?ud - ?u0" using ab by linarith
qed

text \<open>
  Claim C26. The round trip time the sender derives from a receiver report is the true one, the
  time between sending its report and getting the answer less the delay at the receiver, up to
  a sixteenth of a millisecond, whatever the receiver's clock shows; as long as it is between
  1 ms and 60 s, the receiver waited less than 18 hours, and the 32-bit compact time of the
  sender does not wrap around in between.
\<close>

theorem rtt_measured:
  assumes sr: "GetRtcpSenderReport t0 s = (sr, s1)"
    and rr: "GetRtcpReceiverReport t2 (ReceiveRtcpSenderReport t1 sr r) = Some (rr, r2)"
    and receiver_clock: "t1 \<noteq> 0" "1 \<le> unat (t2 - t1)" "unat (t2 - t1) < 65536000"
    and sender_clock: "unat t3 < 4294967296000" "unat t3 = unat t0 + unat (t2 - t1) + rtt"
    and rtt: "1 \<le> rtt" "rtt \<le> 60000"
    and epoch: "units (unat t3) div 4294967296 = units (unat t0) div 4294967296"
      "units (unat t0) mod 4294967296 \<noteq> 0"
  shows "\<bar>rtt_ms (ReceiveRtcpReceiverReport t3 rr s1) - of_nat rtt\<bar> \<le> 1 / 16"
proof -
  let ?d = "unat (t2 - t1)" and ?r = "report_rtt t3 rr"
  have t0: "unat t0 < 4294967296000" using sender_clock by linarith
  have "SR_GetNtpSec sr = ntp_seconds (TimeMs2Ntp t0)" "SR_GetNtpFrac sr = ntp_fractions (TimeMs2Ntp t0)"
    using sender_report_fields [where now = t0 and s = s] sr by simp_all
  then have ts: "rs_last_sr_timestamp (ReceiveRtcpSenderReport t1 sr r) = compact_ntp (TimeMs2Ntp t0)"
    by (simp add: ReceiveRtcpSenderReport_def compact_ntp_sum)
  have got: "rs_last_sr_received (ReceiveRtcpSenderReport t1 sr r) = t1"
    by (simp add: ReceiveRtcpSenderReport_def)
  have last: "GetLastSenderReport rr = word_of_nat (units (unat t0))"
    unfolding receiver_report_value [OF rr] got ts compact_ntp_value [OF t0]
    using receiver_clock(1) by (simp add: report_contents units_def)
  have dlsr: "GetDelaySinceLastSenderReport rr = word_of_nat (units ?d)"
    unfolding receiver_report_value [OF rr] got
    using receiver_clock(1) by (simp add: report_contents delay_units_value [OF receiver_clock(3)])
  note m = report_rtt_units [OF sender_clock rtt(1) receiver_clock(2,3) epoch last dlsr]
  define x where "x = (of_nat (unat ?r) :: rat)"
  have nat: "1000 * unat ?r \<le> 65536 * rtt + 1998" "65536 * rtt \<le> 1000 * unat ?r + 999"
    using m units_bounds [of "unat t3"] units_bounds [of "unat t0"] units_bounds [of ?d] sender_clock(2)
    by linarith+
  then have "(of_nat (1000 * unat ?r) :: rat) \<le> of_nat (65536 * rtt + 1998)"
    "(of_nat (65536 * rtt) :: rat) \<le> of_nat (1000 * unat ?r + 999)"
    by (simp_all only: of_nat_le_iff)
  then have x: "1000 * x \<le> 65536 * of_nat rtt + 1998" "65536 * of_nat rtt \<le> 1000 * x + 999"
    unfolding x_def of_nat_add of_nat_mult of_nat_numeral by simp_all
  have "(of_nat rtt :: rat) \<le> of_nat 60000" using rtt(2) by (simp only: of_nat_le_iff)
  then have r: "(of_nat rtt :: rat) \<le> 60000" by simp
  define y where "y = rtt_to_ms ?r"
  define q where "q = (of_nat rtt :: rat)"
  have "\<bar>y - x * 1000 / 65536\<bar> \<le> x * 1000 / 65536 / 2 ^ 22"
    unfolding x_def y_def by (rule rtt_to_ms_error)
  then have y: "y \<le> x * 1000 / 65536 + x * 1000 / 65536 / 4194304"
    "x * 1000 / 65536 - x * 1000 / 65536 / 4194304 \<le> y"
    unfolding abs_le_iff by simp_all
  have "\<bar>y - q\<bar> \<le> 1 / 16"
    using y x r unfolding q_def [symmetric] abs_le_iff by (intro conjI) linarith+
  then show ?thesis by (simp add: ReceiveRtcpReceiverReport_def y_def q_def)
qed

text \<open>Sender at 100 s, receiver with a clock 7 s ahead, 500 ms delay, 40 ms round trip.\<close>

lemma rtt_measured_witness:
  "\<exists>sr s1 rr r2. GetRtcpSenderReport 100000 sender_sample = (sr, s1)
    \<and> \<bar>rtt_ms (ReceiveRtcpReceiverReport 100540 rr s1) - 40\<bar> \<le> 1 / 16
    \<and> (\<exists>r. GetRtcpReceiverReport 107520 (ReceiveRtcpSenderReport 107020 sr r) = Some (rr, r2))"
proof -
  obtain sr s1 where sr: "GetRtcpSenderReport 100000 sender_sample = (sr, s1)" by fastforce
  obtain r :: RtpStreamReceiver where r: "max_seq r = 8" "base_seq r = 8" "cycles r = 0" "rs_expected_prior r = 0"
      "rs_received_prior r = 0" "dc_packets (rs_media_counter r) = 1"
    by (rule receiver_got_one, rule that)
  let ?r = "ReceiveRtcpSenderReport 107020 sr r"
  have e: "GetExpectedPackets ?r = 1" "GetPacketCount (rs_media_counter ?r) = 1"
      "rs_expected_prior ?r = 0" "rs_received_prior ?r = 0"
    by (simp_all add: GetExpectedPackets_def GetPacketCount_def ReceiveRtcpSenderReport_def r)
  have "fraction_of 1 1 = Some 0" by (simp add: fraction_of_def)
  then have "GetRtcpReceiverReport 107520 ?r \<noteq> None" by (simp add: GetRtcpReceiverReport_def Let_def e)
  then obtain rr r2 where rr: "GetRtcpReceiverReport 107520 ?r = Some (rr, r2)" by auto
  have "\<bar>rtt_ms (ReceiveRtcpReceiverReport 100540 rr s1) - of_nat 40\<bar> \<le> 1 / 16"
    by (rule rtt_measured [OF sr rr]) (simp_all add: units_def)
  then show ?thesis using sr rr by auto
qed

end
