(* ===== verification/Response_Json.thy ===== *)
theory Response_Json
  imports Prelude
begin

text \<open>
  The hand-written reading of the JSON answers on the web socket: \<^verbatim>\<open>FindParentheses\<close> and
  \<^verbatim>\<open>ReadResponseJson\<close> of \<^verbatim>\<open>core/src/rtc/rtc_transport.cpp\<close>. Positions in strings are of type
  \<^verbatim>\<open>size_t\<close>, with the largest one for "not found". An exception of the string library and
  undefined behaviour are values of the type \<open>fault\<close>. \<^verbatim>\<open>StringSplit\<close> is the helper of the same
  name in the bundled \<^verbatim>\<open>stringex.hpp\<close>, for a separator of one character.
\<close>

section \<open>Strings\<close>

datatype fault = UndefinedBehaviour | OutOfRange | InvalidArgument | FutureError

fun and_then :: "fault + 'a \<Rightarrow> ('a \<Rightarrow> fault + 'b) \<Rightarrow> fault + 'b" where
  "and_then (Inl f) k = Inl f"
| "and_then (Inr x) k = k x"

lemma and_then_Inr: "and_then x k = Inr y \<longleftrightarrow> (\<exists>z. x = Inr z \<and> k z = Inr y)"
  by (cases x) auto

definition npos :: u64 where "npos = - 1"

fun str_find :: "string \<Rightarrow> string \<Rightarrow> nat option" where
  "str_find pat [] = (if pat = [] then Some 0 else None)"
| "str_find pat (c # cs) =
     (if take (length pat) (c # cs) = pat then Some 0 else map_option Suc (str_find pat cs))"

definition find_pos :: "string \<Rightarrow> string \<Rightarrow> u64" where
  "find_pos pat s = (case str_find pat s of None \<Rightarrow> npos | Some i \<Rightarrow> word_of_nat i)"

definition substr :: "u64 \<Rightarrow> u64 \<Rightarrow> string \<Rightarrow> fault + string" where
  "substr pos n s =
     (if unat pos > length s then Inl OutOfRange else Inr (take (unat n) (drop (unat pos) s)))"

lemma str_find_bound: "str_find pat s = Some i \<Longrightarrow> i + length pat \<le> length s"
proof (induction s arbitrary: i)
  case (Cons c cs)
  show ?case
  proof (cases "take (length pat) (c # cs) = pat")
    case True
    then have "length pat \<le> length (c # cs)" by (metis length_take min.cobounded1)
    then show ?thesis using Cons True by simp
  next
    case False
    then show ?thesis using Cons by auto
  qed
qed (auto split: if_splits)

function split_loop :: "char \<Rightarrow> string \<Rightarrow> string list" where
  "split_loop sep s =
     (case str_find [sep] s of
        None \<Rightarrow> [s]
      | Some pos \<Rightarrow>
          take pos s # (let rest = drop (pos + 1) s in if rest = [] then [] else split_loop sep rest))"
  by pat_completeness auto

termination
  by (relation "measure (\<lambda>(_, s). length s)") (auto dest: str_find_bound)

definition StringSplit :: "string \<Rightarrow> char \<Rightarrow> string list" where
  "StringSplit s sep = (if s = [] then [] else split_loop sep s)"

text \<open>\<^verbatim>\<open>std::stoi\<close>: white space, a sign, digits, then anything.\<close>

definition is_space :: "char \<Rightarrow> bool" where
  "is_space c \<longleftrightarrow> c \<in> set [CHR 0x09, CHR 0x0A, CHR 0x0B, CHR 0x0C, CHR 0x0D, CHR '' '']"

definition is_digit :: "char \<Rightarrow> bool" where
  "is_digit c \<longleftrightarrow> c \<in> set ''0123456789''"

definition digits_value :: "string \<Rightarrow> int" where
  "digits_value ds = foldl (\<lambda>v c. 10 * v + (of_char c - 48)) 0 ds"

definition stoi :: "string \<Rightarrow> fault + int" where
  "stoi s =
     (let s1 = dropWhile is_space s;
          negative = (s1 \<noteq> [] \<and> hd s1 = CHR ''-'');
          s2 = (if s1 \<noteq> [] \<and> (hd s1 = CHR ''-'' \<or> hd s1 = CHR ''+'') then tl s1 else s1);
          ds = takeWhile is_digit s2;
          v = (if negative then - digits_value ds else digits_value ds)
      in if ds = [] then Inl InvalidArgument
         else if v < - 2147483648 \<or> 2147483647 < v then Inl OutOfRange
         else Inr v)"

section \<open>Braces\<close>

text \<open>
  The stack holds the open braces with their positions. Taking from the empty stack, and
  running off the end of the function, is undefined.
\<close>

fun find_par :: "nat \<Rightarrow> (char \<times> nat) list \<Rightarrow> string \<Rightarrow> fault + (u64 \<times> u64)" where
  "find_par i parentheses [] = Inl UndefinedBehaviour"
| "find_par i parentheses (c # cs) =
     (let st = (if c = CHR ''{'' then (c, i) # parentheses else parentheses)
      in if c = CHR ''}''
         then (case st of
                 [] \<Rightarrow> Inl UndefinedBehaviour
               | [(_, open)] \<Rightarrow> Inr (word_of_nat (open + 1), word_of_nat i)
               | _ # st' \<Rightarrow> find_par (i + 1) st' cs)
         else find_par (i + 1) st cs)"

definition FindParentheses :: "string \<Rightarrow> fault + (u64 \<times> u64)" where
  "FindParentheses text = find_par 0 [] text"

section \<open>The response\<close>

text \<open>\<open>None\<close> is the indeterminate value of a status that was never set.\<close>

record WebsocketEventResponseHeader =
  message_type :: string
  connect_id :: string
  status_message :: string
  status :: "int option"

record WebsocketEventResponsePayload =
  request_id :: string
  simple_rate :: string
  pack_overlap :: string

record WebsocketEventResponse =
  resp_header :: WebsocketEventResponseHeader
  resp_payload :: WebsocketEventResponsePayload

definition WebsocketEventResponse_init :: WebsocketEventResponse where
  "WebsocketEventResponse_init =
     \<lparr>resp_header = \<lparr>message_type = [], connect_id = [], status_message = [], status = None\<rparr>,
      resp_payload = \<lparr>request_id = [], simple_rate = [], pack_overlap = []\<rparr>\<rparr>"

text \<open>The value of a key in a line: what follows \<open>skip\<close> characters on, less the last one.\<close>

definition field_value :: "string \<Rightarrow> u64 \<Rightarrow> string \<Rightarrow> fault + string option" where
  "field_value key skip line =
     (let pos = find_pos key line in
      if pos = npos then Inr None
      else and_then (substr (pos + skip) (word_of_nat (length line) - (pos + skip + 1)) line)
             (\<lambda>v. Inr (Some v)))"

definition status_value :: "string \<Rightarrow> fault + int option" where
  "status_value line =
     (let pos = find_pos (''status'' @ [CHR 0x22]) line in
      if pos = npos then Inr None
      else and_then (substr (pos + 8) (word_of_nat (length line) - (pos + 8)) line)
             (\<lambda>v. and_then (stoi v) (\<lambda>n. Inr (Some n))))"

definition read_header_line ::
  "string \<Rightarrow> WebsocketEventResponseHeader \<Rightarrow> fault + WebsocketEventResponseHeader" where
  "read_header_line line h =
     and_then (field_value ''messageType'' 14 line) (\<lambda>m.
     and_then (field_value ''connectId'' 12 line) (\<lambda>c.
     and_then (field_value ''statusMessage'' 16 line) (\<lambda>sm.
     and_then (status_value line) (\<lambda>st.
       Inr \<lparr>message_type = (case m of None \<Rightarrow> message_type h | Some v \<Rightarrow> v),
            connect_id = (case c of None \<Rightarrow> connect_id h | Some v \<Rightarrow> v),
            status_message = (case sm of None \<Rightarrow> status_message h | Some v \<Rightarrow> v),
            status = (case st of None \<Rightarrow> status h | Some v \<Rightarrow> Some v)\<rparr>))))"

definition read_payload_line ::
  "string \<Rightarrow> WebsocketEventResponsePayload \<Rightarrow> fault + WebsocketEventResponsePayload" where
  "read_payload_line line p =
     and_then (field_value ''requestId'' 12 line) (\<lambda>r.
     and_then (field_value ''simpleRate'' 13 line) (\<lambda>s.
     and_then (field_value ''packOverlap'' 14 line) (\<lambda>o'.
       Inr \<lparr>request_id = (case r of None \<Rightarrow> request_id p | Some v \<Rightarrow> v),
            simple_rate = (case s of None \<Rightarrow> simple_rate p | Some v \<Rightarrow> v),
            pack_overlap = (case o' of None \<Rightarrow> pack_overlap p | Some v \<Rightarrow> v)\<rparr>)))"

fun read_lines :: "(string \<Rightarrow> 'r \<Rightarrow> fault + 'r) \<Rightarrow> string list \<Rightarrow> 'r \<Rightarrow> fault + 'r" where
  "read_lines f [] r = Inr r"
| "read_lines f (line # lines) r = and_then (f line r) (read_lines f lines)"

text \<open>The object that starts after a position, without its braces, split at the commas.\<close>

definition object_lines :: "u64 \<Rightarrow> string \<Rightarrow> fault + string list" where
  "object_lines pos text =
     and_then (substr pos npos text) (\<lambda>s.
     and_then (FindParentheses s) (\<lambda>(first, second).
     and_then (substr first (second - first) s) (\<lambda>body. Inr (StringSplit body (CHR '','')))))"

definition ReadResponseJson :: "WebsocketEventResponse \<Rightarrow> string \<Rightarrow> fault + WebsocketEventResponse" where
  "ReadResponseJson response text =
     and_then (substr 1 (word_of_nat (length text) - 2) text) (\<lambda>json_str.
      (let pos_header = find_pos ''header'' text in
       and_then (if pos_header = npos then Inr response
                 else and_then (object_lines (pos_header + 8) text) (\<lambda>ls.
                      and_then (read_lines read_header_line ls (resp_header response)) (\<lambda>h.
                        Inr (response\<lparr>resp_header := h\<rparr>)))) (\<lambda>response1.
        if find_pos ''payload'' text = npos then Inr response1
        else and_then (object_lines (pos_header + 9) text) (\<lambda>ls.
             and_then (read_lines read_payload_line ls (resp_payload response1)) (\<lambda>p.
               Inr (response1\<lparr>resp_payload := p\<rparr>))))))"

section \<open>Reading an object\<close>

lemma unat_position: "length msg < 2 ^ 63 \<Longrightarrow> m \<le> length msg \<Longrightarrow> unat (word_of_nat m :: u64) = m"
  by (simp add: unsigned_of_nat take_bit_nat_eq_self)

lemma position_found:
  assumes "length msg < 2 ^ 63" "m \<le> length msg"
  shows "word_of_nat m \<noteq> npos"
proof
  assume "word_of_nat m = npos"
  then have "unat (word_of_nat m :: u64) = 2 ^ 64 - 1"
    by (simp add: npos_def unsigned_minus_1_eq_mask mask_eq_exp_minus_1)
  then show False using unat_position [OF assms] assms by simp
qed

lemma substr_to_end:
  assumes len: "length msg < 2 ^ 63" and k: "k \<le> length msg"
  shows "substr (word_of_nat k) npos msg = Inr (drop k msg)"
proof -
  have "length (drop k msg) \<le> unat npos"
    using len by (simp add: npos_def unsigned_minus_1_eq_mask mask_eq_exp_minus_1)
  then show ?thesis using unat_position [OF assms] k by (simp add: substr_def)
qed

lemma find_par_inner:
  "CHR ''{'' \<notin> set h \<Longrightarrow> CHR ''}'' \<notin> set h
    \<Longrightarrow> find_par i [(CHR ''{'', k)] (h @ CHR ''}'' # rest) = Inr (word_of_nat (k + 1), word_of_nat (i + length h))"
  by (induction h arbitrary: i) (auto simp: algebra_simps)

text \<open>An object without nested braces is split at its commas.\<close>

lemma object_lines_flat:
  assumes len: "length msg < 2 ^ 63" and obj: "drop k msg = CHR ''{'' # h @ CHR ''}'' # rest"
    and flat: "CHR ''{'' \<notin> set h" "CHR ''}'' \<notin> set h"
  shows "object_lines (word_of_nat k) msg = Inr (StringSplit h (CHR '',''))"
proof -
  have l: "k \<le> length msg" "Suc (length h) \<le> length msg"
    using arg_cong [OF obj, of length] by simp_all
  let ?s = "CHR ''{'' # h @ CHR ''}'' # rest"
  have f: "FindParentheses ?s = Inr (word_of_nat 1, word_of_nat (1 + length h))"
    using find_par_inner [OF flat, of 1 0 rest] by (simp add: FindParentheses_def)
  have "unat (word_of_nat (1 + length h) - word_of_nat 1 :: u64) = length h"
    using unat_position [OF len, of "length h"] l by simp
  then have "substr (word_of_nat 1) (word_of_nat (1 + length h) - word_of_nat 1) ?s = Inr h"
    by (simp add: substr_def)
  then show ?thesis unfolding object_lines_def substr_to_end [OF len l(1)] obj and_then.simps f by simp
qed

section \<open>Reading a payload\<close>

lemma find_par_flat:
  "CHR ''{'' \<notin> set h \<Longrightarrow> CHR ''}'' \<notin> set h
    \<Longrightarrow> find_par i [] (h @ CHR ''}'' # rest) = Inl UndefinedBehaviour"
  by (induction h arbitrary: i) auto

text \<open>
  A message whose header is an object without nested braces, and that has a payload,
  is never read: the position of the payload is computed from the position of the header, one
  character behind the opening brace of the header, so that the closing brace of the header is
  taken from an empty stack. If the header itself can be read, that is the outcome.
\<close>

lemma ReadResponseJson_payload_fault:
  assumes len: "length msg < 2 ^ 63"
    and header: "str_find ''header'' msg = Some n"
      "drop (n + 8) msg = CHR ''{'' # h @ CHR ''}'' # rest"
    and flat: "CHR ''{'' \<notin> set h" "CHR ''}'' \<notin> set h"
    and payload: "str_find ''payload'' msg \<noteq> None"
  shows "\<exists>f. ReadResponseJson response msg = Inl f \<and>
    (\<forall>ls r. object_lines (word_of_nat n + 8) msg = Inr ls
       \<longrightarrow> read_lines read_header_line ls (resp_header response) = Inr r \<longrightarrow> f = UndefinedBehaviour)"
proof -
  have n: "n + 9 \<le> length msg" using arg_cong [OF header(2), of length] by simp
  have ph: "find_pos ''header'' msg = word_of_nat n" "find_pos ''header'' msg \<noteq> npos"
    using header(1) position_found [OF len, of n] n by (simp_all add: find_pos_def)
  have pp: "find_pos ''payload'' msg \<noteq> npos"
    using payload position_found [OF len] str_find_bound [of "''payload''" msg] by (auto simp: find_pos_def)
  have d9: "drop (n + 9) msg = h @ CHR ''}'' # rest"
    using arg_cong [OF header(2), of tl] by (simp add: drop_Suc [symmetric] tl_drop add.commute)
  have "word_of_nat n + 9 = (word_of_nat (n + 9) :: u64)" by simp
  then have pl: "object_lines (word_of_nat n + 9) msg = Inl UndefinedBehaviour"
    unfolding object_lines_def using substr_to_end [OF len n] d9
    by (simp add: FindParentheses_def find_par_flat [OF flat])
  obtain s where s: "substr 1 (word_of_nat (length msg) - 2) msg = Inr s"
    using n by (cases msg) (simp_all add: substr_def)
  show ?thesis
  proof (cases "object_lines (word_of_nat n + 8) msg")
    case (Inl f)
    then show ?thesis using ph pp pl s by (simp add: ReadResponseJson_def Let_def)
  next
    case (Inr ls)
    then show ?thesis using ph pp pl s
      by (cases "read_lines read_header_line ls (resp_header response)")
        (simp_all add: ReadResponseJson_def Let_def)
  qed
qed

definition json_sample :: string where
  "json_sample = ''{'' @ [CHR 0x22] @ ''header'' @ [CHR 0x22] @ '':{'' @ [CHR 0x22] @ ''messageType'' @
     [CHR 0x22] @ '':'' @ [CHR 0x22] @ ''a'' @ [CHR 0x22] @ ''},'' @ [CHR 0x22] @ ''payload'' @ [CHR 0x22] @
     '':{'' @ [CHR 0x22] @ ''requestId'' @ [CHR 0x22] @ '':'' @ [CHR 0x22] @ ''b'' @ [CHR 0x22] @ ''}}''"

definition sample_line :: string where
  "sample_line = [CHR 0x22] @ ''messageType'' @ [CHR 0x22] @ '':'' @ [CHR 0x22] @ ''a'' @ [CHR 0x22]"

definition sample_rest :: string where
  "sample_rest = '','' @ [CHR 0x22] @ ''payload'' @ [CHR 0x22] @
     '':{'' @ [CHR 0x22] @ ''requestId'' @ [CHR 0x22] @ '':'' @ [CHR 0x22] @ ''b'' @ [CHR 0x22] @ ''}}''"

lemma sample_text: "str_find ''header'' json_sample = Some 2"
  "str_find ''payload'' json_sample = Some 31"
  "drop (2 + 8) json_sample = CHR ''{'' # sample_line @ CHR ''}'' # sample_rest"
  by (simp_all add: json_sample_def sample_line_def sample_rest_def)

lemma sample_header: "object_lines (word_of_nat 2 + 8) json_sample = Inr [sample_line]"
  by (simp add: json_sample_def object_lines_def substr_def FindParentheses_def npos_def
      StringSplit_def sample_line_def unsigned_minus_1_eq_mask mask_eq_exp_minus_1)

lemma sample_header_read:
  "read_lines read_header_line [sample_line] (resp_header WebsocketEventResponse_init)
     = Inr \<lparr>message_type = ''a'', connect_id = [], status_message = [], status = None\<rparr>"
  by (simp add: sample_line_def read_header_line_def field_value_def status_value_def find_pos_def
      npos_def substr_def WebsocketEventResponse_init_def)

lemma ReadResponseJson_payload_fault_witness:
  "ReadResponseJson WebsocketEventResponse_init json_sample = Inl UndefinedBehaviour"
proof -
  have flat: "CHR ''{'' \<notin> set sample_line" "CHR ''}'' \<notin> set sample_line"
    by (simp_all add: sample_line_def)
  have len: "length json_sample < 2 ^ 63" by (simp add: json_sample_def)
  have pl: "str_find ''payload'' json_sample \<noteq> None" by (simp add: sample_text)
  obtain f where f: "ReadResponseJson WebsocketEventResponse_init json_sample = Inl f"
    and ub: "\<forall>ls r. object_lines (word_of_nat 2 + 8) json_sample = Inr ls
       \<longrightarrow> read_lines read_header_line ls (resp_header WebsocketEventResponse_init) = Inr r
       \<longrightarrow> f = UndefinedBehaviour"
    using ReadResponseJson_payload_fault [OF len sample_text(1,3) flat pl,
        of WebsocketEventResponse_init] by blast
  have "f = UndefinedBehaviour" using ub sample_header sample_header_read by blast
  then show ?thesis using f by simp
qed

end
