(* ===== verification/Transport.thy ===== *)
theory Transport
  imports Stream_Sender Stream_Receiver Response_Json
begin

text \<open>
  The class \<^verbatim>\<open>RtcTransport\<close> (\<^verbatim>\<open>core/include/rtc/rtc_transport.h\<close>,
  \<^verbatim>\<open>core/src/rtc/rtc_transport.cpp\<close>): the streams by their source number, the datagrams that
  come in and go out. The calls to the listener are returned in their order. The hash maps of
  the code are association lists in the order in which they are iterated; \<open>arrange\<close> is the
  order the library chooses when an entry is added. Undefined behaviour and exceptions are
  values of the type \<open>fault\<close>. The lock around the maps is held for a whole operation on them and
  leaves no trace in the model.
\<close>

section \<open>State\<close>

definition kSendNackDelay :: u32 where "kSendNackDelay = 10"
definition KRtpMinHeaderLength :: nat where "KRtpMinHeaderLength = 12"
definition kRtcpMinHeaderLength :: nat where "kRtcpMinHeaderLength = 4"
definition kExpectedVersion :: u8 where "kExpectedVersion = 2"

datatype StreamType = StreamSender | StreamReceiver

datatype Protocol = UDP | TCP | WEBSOCKET | WEBSOCKET_TEXT | OtherProtocol

datatype transport_call =
    OnPacketReceived u16 "u8 list"
  | OnReceiveEvent
  | OnPacketSent "u8 list" "u8 list"

record RtcTransport =
  rt_send_streams :: "(u32 \<times> RtpStreamSender) list"
  rt_receive_streams :: "(u32 \<times> RtpStreamReceiver) list"
  rt_test_seq :: u16
  rt_timestamp :: u32

definition RtcTransport_init :: RtcTransport where
  "RtcTransport_init =
     \<lparr>rt_send_streams = [], rt_receive_streams = [], rt_test_seq = 0, rt_timestamp = 2000\<rparr>"

definition transport_IsRtp :: "u8 list \<Rightarrow> bool" where
  "transport_IsRtp data \<longleftrightarrow> length data \<ge> KRtpMinHeaderLength \<and> data ! 0 > 127 \<and> data ! 0 < 192
     \<and> drop_bit 6 (data ! 0) = kExpectedVersion"

definition transport_IsRtcp :: "u8 list \<Rightarrow> bool" where
  "transport_IsRtcp data \<longleftrightarrow> length data \<ge> kRtcpMinHeaderLength \<and> data ! 0 > 127 \<and> data ! 0 < 192
     \<and> drop_bit 6 (data ! 0) = kExpectedVersion \<and> data ! 1 \<ge> 192 \<and> data ! 1 \<le> 223"

section \<open>Streams\<close>

text \<open>A stream is an object shared by pointer: changing it changes the entry of the map.\<close>

definition put_stream :: "u32 \<Rightarrow> 'a \<Rightarrow> (u32 \<times> 'a) list \<Rightarrow> (u32 \<times> 'a) list" where
  "put_stream ssrc st = map (\<lambda>(k, v). if k = ssrc then (k, st) else (k, v))"

definition transport_params :: "u32 \<Rightarrow> Params" where
  "transport_params ssrc =
     \<lparr>p_ssrc = ssrc, p_payload_type = 100, p_clock_rate = 16000, p_use_nack = True\<rparr>"

text \<open>\<open>ip4_addr\<close> is \<^verbatim>\<open>uv_ip4_addr\<close> of libuv: the address, or \<open>None\<close> for its error.\<close>

definition CreateRtpStream ::
  "((u32 \<times> RtpStreamSender) list \<Rightarrow> (u32 \<times> RtpStreamSender) list)
    \<Rightarrow> ((u32 \<times> RtpStreamReceiver) list \<Rightarrow> (u32 \<times> RtpStreamReceiver) list)
    \<Rightarrow> (string \<Rightarrow> int \<Rightarrow> u8 list option)
    \<Rightarrow> u32 \<Rightarrow> StreamType \<Rightarrow> string \<Rightarrow> int \<Rightarrow> bool \<Rightarrow> RtcTransport \<Rightarrow> RtcTransport option"
where
  "CreateRtpStream arrange_s arrange_r ip4_addr ssrc stream_type target_ip port dynamic_addr t =
     (case ip4_addr target_ip port of
        None \<Rightarrow> Some t
      | Some target_addr \<Rightarrow>
          (case stream_type of
             StreamReceiver \<Rightarrow>
               (if map_of (rt_receive_streams t) ssrc \<noteq> None then Some t
                else map_option (\<lambda>s. t\<lparr>rt_receive_streams :=
                       arrange_r ((ssrc, SetUdpRemoteTargetAddr target_addr s) # rt_receive_streams t)\<rparr>)
                     (RtpStreamReceiver_init (transport_params ssrc) kSendNackDelay dynamic_addr))
           | StreamSender \<Rightarrow>
               (if map_of (rt_send_streams t) ssrc \<noteq> None then Some t
                else map_option (\<lambda>s. t\<lparr>rt_send_streams :=
                       arrange_s ((ssrc, SetUdpRemoteTargetAddr target_addr s) # rt_send_streams t)\<rparr>)
                     (RtpStreamSender_init (transport_params ssrc) dynamic_addr))))"

definition DeleteRtpStream :: "u32 \<Rightarrow> RtcTransport \<Rightarrow> RtcTransport" where
  "DeleteRtpStream ssrc t =
     (if map_of (rt_send_streams t) ssrc \<noteq> None
      then t\<lparr>rt_send_streams := filter (\<lambda>(k, _). k \<noteq> ssrc) (rt_send_streams t)\<rparr>
      else if map_of (rt_receive_streams t) ssrc \<noteq> None
      then t\<lparr>rt_receive_streams := filter (\<lambda>(k, _). k \<noteq> ssrc) (rt_receive_streams t)\<rparr>
      else t)"

definition GetStreamSenderBySsrc :: "u32 \<Rightarrow> RtcTransport \<Rightarrow> RtpStreamSender option" where
  "GetStreamSenderBySsrc ssrc t = map_of (rt_send_streams t) ssrc"

text \<open>
  An unknown source gets the first entry of the map; the result names the entry. The first entry
  of an empty map is undefined.
\<close>

definition GetStreamReceiverBySsrc ::
  "u32 \<Rightarrow> RtcTransport \<Rightarrow> (u32 \<times> RtpStreamReceiver) option" where
  "GetStreamReceiverBySsrc ssrc t =
     (case map_of (rt_receive_streams t) ssrc of
        Some s \<Rightarrow> Some (ssrc, s)
      | None \<Rightarrow> (case rt_receive_streams t of [] \<Rightarrow> None | e # _ \<Rightarrow> Some e))"

section \<open>Calls of the streams\<close>

definition OnRtpStreamRetransmitRtpPacket :: "RtpStreamSender \<Rightarrow> RtpPacket \<Rightarrow> transport_call" where
  "OnRtpStreamRetransmitRtpPacket s p = OnPacketSent (GetData p) (GetUdpRemoteTargetAddr s)"

definition packet_payload :: "RtpPacket \<Rightarrow> u8 list" where
  "packet_payload p =
     (case GetPayload p of
        None \<Rightarrow> []
      | Some offset \<Rightarrow> take (unat (GetPayloadLength p)) (drop offset (rp_data p)))"

definition OnRtpStreamReceiveRtpPacket :: "RtpPacket \<Rightarrow> transport_call" where
  "OnRtpStreamReceiveRtpPacket p = OnPacketReceived (GetSequenceNumber p) (packet_payload p)"

section \<open>Incoming packets\<close>

definition ReceiveRtpPacket ::
  "(u16 \<Rightarrow> u64) \<Rightarrow> u64 \<Rightarrow> RtpPacket \<Rightarrow> RtcTransport \<Rightarrow> (transport_call list \<times> RtcTransport) option"
where
  "ReceiveRtpPacket clk now p t =
     do { (calls, t1) \<leftarrow>
            (case GetStreamSenderBySsrc (GetSsrc p) t of
               None \<Rightarrow> Some ([], t)
             | Some s \<Rightarrow>
                 do { (valid, out, s') \<leftarrow> Sender_ReceivePacket now p s;
                      Some (map (OnRtpStreamRetransmitRtpPacket s') out,
                            t\<lparr>rt_send_streams := put_stream (GetSsrc p) s' (rt_send_streams t)\<rparr>) });
          (k, r) \<leftarrow> GetStreamReceiverBySsrc (GetSsrc p) t1;
          (valid, out, r') \<leftarrow> Receiver_ReceivePacket clk now p r;
          Some (calls @ map OnRtpStreamReceiveRtpPacket out,
                t1\<lparr>rt_receive_streams := put_stream k r' (rt_receive_streams t1)\<rparr>) }"

text \<open>The reports of a packet, each with its own reading of the clock.\<close>

fun receive_sender_reports ::
  "(nat \<Rightarrow> u64) \<Rightarrow> nat \<Rightarrow> u8 list option \<Rightarrow> report list \<Rightarrow> RtcTransport \<Rightarrow> RtcTransport option"
where
  "receive_sender_reports clock i addr [] t = Some t"
| "receive_sender_reports clock i addr (report # reports) t =
     do { (k, r) \<leftarrow> GetStreamReceiverBySsrc (SR_GetSsrc report) t;
          let r1 = ReceiveRtcpSenderReport (clock i) report r;
          let r2 = (case addr of None \<Rightarrow> r1 | Some a \<Rightarrow> SetUdpRemoteTargetAddr a r1);
          receive_sender_reports clock (Suc i) addr reports
            (t\<lparr>rt_receive_streams := put_stream k r2 (rt_receive_streams t)\<rparr>) }"

fun receive_receiver_reports ::
  "(nat \<Rightarrow> u64) \<Rightarrow> nat \<Rightarrow> u8 list option \<Rightarrow> report list \<Rightarrow> RtcTransport \<Rightarrow> RtcTransport"
where
  "receive_receiver_reports clock i addr [] t = t"
| "receive_receiver_reports clock i addr (report # reports) t =
     (case GetStreamSenderBySsrc (RR_GetSsrc report) t of
        None \<Rightarrow> receive_receiver_reports clock i addr reports t
      | Some s \<Rightarrow>
          (let s1 = ReceiveRtcpReceiverReport (clock i) report s;
               s2 = (case addr of None \<Rightarrow> s1 | Some a \<Rightarrow> SetUdpRemoteTargetAddr a s1)
           in receive_receiver_reports clock (Suc i) addr reports
                (t\<lparr>rt_send_streams := put_stream (RR_GetSsrc report) s2 (rt_send_streams t)\<rparr>)))"

text \<open>A null packet is dereferenced without a test.\<close>

definition ReceiveRtcpPacket ::
  "(nat \<Rightarrow> u64) \<Rightarrow> rtcp_packet option \<Rightarrow> u8 list option \<Rightarrow> RtcTransport \<Rightarrow> RtcTransport option"
where
  "ReceiveRtcpPacket clock packet addr t =
     (case packet of
        None \<Rightarrow> None
      | Some (SrPacket p) \<Rightarrow> receive_sender_reports clock 0 addr (sp_reports p) t
      | Some (RrPacket p) \<Rightarrow> Some (receive_receiver_reports clock 0 addr (rp_reports p) t)
      | Some (RtpFbPacket p) \<Rightarrow> Some t)"

text \<open>
  The dispatcher of datagrams. \<open>socket_closed\<close> is the answer of the socket, \<open>clock i\<close> the \<open>i\<close>-th
  reading of the clock for the reports of a packet, \<open>now\<close> and \<open>clk\<close> those for a media packet.
\<close>

definition undefined_if_None :: "'a option \<Rightarrow> fault + 'a" where
  "undefined_if_None x = (case x of None \<Rightarrow> Inl UndefinedBehaviour | Some y \<Rightarrow> Inr y)"

definition Dispatch ::
  "(u16 \<Rightarrow> u64) \<Rightarrow> (nat \<Rightarrow> u64) \<Rightarrow> u64 \<Rightarrow> bool \<Rightarrow> Protocol \<Rightarrow> u8 list \<Rightarrow> u8 list option
    \<Rightarrow> RtcTransport \<Rightarrow> fault + transport_call list \<times> RtcTransport"
where
  "Dispatch clk clock now socket_closed protocol data addr t =
     (case protocol of
        UDP \<Rightarrow>
          (if transport_IsRtcp data
           then if \<not> RtcpPacket_Parse_defined data then Inl UndefinedBehaviour
             else undefined_if_None (map_option (\<lambda>t'. ([], t'))
                  (ReceiveRtcpPacket clock (RtcpPacket_Parse data) addr t))
           else if transport_IsRtp data
           then (case RtpPacket_Parse data of
                   None \<Rightarrow> Inl UndefinedBehaviour
                 | Some p \<Rightarrow> undefined_if_None (ReceiveRtpPacket clk now p t))
           else Inr ([], t))
      | TCP \<Rightarrow> Inr ([], t)
      | WEBSOCKET \<Rightarrow>
          (if socket_closed then Inr ([], t)
           else (case RtpPacket_Parse data of
                   None \<Rightarrow> Inr ([], t)
                 | Some p \<Rightarrow> undefined_if_None (ReceiveRtpPacket clk now p t)))
      | WEBSOCKET_TEXT \<Rightarrow>
          (if socket_closed then Inr ([], t)
           else and_then (ReadResponseJson WebsocketEventResponse_init (map (\<lambda>b. char_of (unat b)) data))
                  (\<lambda>response. Inr ([OnReceiveEvent], t)))
      | OtherProtocol \<Rightarrow> Inr ([], t))"

section \<open>Outgoing packets\<close>

text \<open>\<open>mem\<close> is what the memory of the new packet holds before it is filled.\<close>

definition OnSendPacket ::
  "u8 list \<Rightarrow> u64 \<Rightarrow> u32 \<Rightarrow> u8 list \<Rightarrow> RtcTransport \<Rightarrow> (transport_call list \<times> RtcTransport) option"
where
  "OnSendPacket mem now ssrc data t =
     (case GetStreamSenderBySsrc ssrc t of
        None \<Rightarrow> Some ([], t)
      | Some s \<Rightarrow>
          do { p \<leftarrow> rtp_compose mem ssrc (rt_test_seq t) (rt_timestamp t + 100) data;
               (valid, out, s') \<leftarrow> Sender_ReceivePacket now p s;
               Some (map (OnRtpStreamRetransmitRtpPacket s') out,
                     t\<lparr>rt_test_seq := rt_test_seq t + 1, rt_timestamp := rt_timestamp t + 100,
                       rt_send_streams := put_stream ssrc s' (rt_send_streams t)\<rparr>) })"

text \<open>One compound packet for every stream, with one report in it.\<close>

fun send_receiver_reports ::
  "(nat \<Rightarrow> u64) \<Rightarrow> nat \<Rightarrow> (u32 \<times> RtpStreamReceiver) list
    \<Rightarrow> (transport_call list \<times> (u32 \<times> RtpStreamReceiver) list) option"
where
  "send_receiver_reports clock i [] = Some ([], [])"
| "send_receiver_reports clock i ((k, r) # streams) =
     do { (report, r') \<leftarrow> GetRtcpReceiverReport (clock i) r;
          let packet = snd (AddReceiverReport report CompoundPacket_init);
          (calls, streams') \<leftarrow> send_receiver_reports clock (Suc i) streams;
          Some (OnPacketSent (CompoundPacket_Serialize packet) (GetUdpRemoteTargetAddr r') # calls,
                (k, r') # streams') }"

fun send_sender_reports ::
  "(nat \<Rightarrow> u64) \<Rightarrow> nat \<Rightarrow> (u32 \<times> RtpStreamSender) list
    \<Rightarrow> transport_call list \<times> (u32 \<times> RtpStreamSender) list"
where
  "send_sender_reports clock i [] = ([], [])"
| "send_sender_reports clock i ((k, s) # streams) =
     (let (report, s') = GetRtcpSenderReport (clock i) s;
          packet = snd (AddSenderReport report CompoundPacket_init);
          (calls, streams') = send_sender_reports clock (Suc i) streams
      in (OnPacketSent (CompoundPacket_Serialize packet) (GetUdpRemoteTargetAddr s') # calls,
          (k, s') # streams'))"

definition SendRtcpPacket ::
  "(nat \<Rightarrow> u64) \<Rightarrow> RtcTransport \<Rightarrow> (transport_call list \<times> RtcTransport) option"
where
  "SendRtcpPacket clock t =
     do { (calls, receivers) \<leftarrow> send_receiver_reports clock 0 (rt_receive_streams t);
          let (calls', senders) =
            send_sender_reports clock (length (rt_receive_streams t)) (rt_send_streams t);
          Some (calls @ calls', t\<lparr>rt_receive_streams := receivers, rt_send_streams := senders\<rparr>) }"

text \<open>The call that would send the reports on a tick of the timer is commented out.\<close>

definition OnTimer :: "bool \<Rightarrow> RtcTransport \<Rightarrow> RtcTransport" where
  "OnTimer is_rtcp_send_timer t = t"

end
