(* ===== verification/Transport_Properties.thy ===== *)
theory Transport_Properties
  imports Transport Sender_Properties "HOL-Library.Multiset"
begin

text \<open>
  What the transport keeps of its streams, when an operation on it is undefined, and that data
  given to one transport comes out of the other in order.
\<close>

section \<open>The maps of streams\<close>

lemma map_of_put_stream:
  "map_of (put_stream ssrc st m) k = (if k = ssrc \<and> map_of m ssrc \<noteq> None then Some st else map_of m k)"
  unfolding put_stream_def by (induction m) auto

lemma fst_put_stream [simp]: "map fst (put_stream ssrc st m) = map fst m"
  unfolding put_stream_def by (induction m) auto

lemma put_stream_empty [simp]: "put_stream ssrc st m = [] \<longleftrightarrow> m = []"
  by (simp add: put_stream_def)

definition senders_inv :: "u64 \<Rightarrow> (u32 \<times> RtpStreamSender) list \<Rightarrow> bool" where
  "senders_inv now m \<longleftrightarrow> distinct (map fst m)
     \<and> list_all (\<lambda>(k, s). params s = transport_params k \<and> sender_inv now s) m"

definition receivers_inv :: "u64 \<Rightarrow> (u32 \<times> RtpStreamReceiver) list \<Rightarrow> bool" where
  "receivers_inv now m \<longleftrightarrow> distinct (map fst m)
     \<and> list_all (\<lambda>(k, r). params r = transport_params k \<and> receiver_inv now r) m"

definition transport_inv :: "u64 \<Rightarrow> RtcTransport \<Rightarrow> bool" where
  "transport_inv now t \<longleftrightarrow>
     senders_inv now (rt_send_streams t) \<and> receivers_inv now (rt_receive_streams t)"

lemma put_stream_all:
  "list_all (\<lambda>(k, s). P k s) m \<Longrightarrow> P ssrc st \<Longrightarrow> list_all (\<lambda>(k, s). P k s) (put_stream ssrc st m)"
  unfolding put_stream_def by (induction m) (auto split: if_splits)

lemma senders_inv_put:
  "senders_inv now m \<Longrightarrow> params s = transport_params k \<Longrightarrow> sender_inv now s
    \<Longrightarrow> senders_inv now (put_stream k s m)"
  by (simp add: senders_inv_def put_stream_all)

lemma receivers_inv_put:
  "receivers_inv now m \<Longrightarrow> params r = transport_params k \<Longrightarrow> receiver_inv now r
    \<Longrightarrow> receivers_inv now (put_stream k r m)"
  by (simp add: receivers_inv_def put_stream_all)

lemma senders_inv_of:
  "senders_inv now m \<Longrightarrow> map_of m k = Some s \<Longrightarrow> params s = transport_params k \<and> sender_inv now s"
  by (fastforce simp: senders_inv_def list_all_iff dest: map_of_SomeD)

lemma receivers_inv_of:
  "receivers_inv now m \<Longrightarrow> (k, r) \<in> set m \<Longrightarrow> params r = transport_params k \<and> receiver_inv now r"
  by (fastforce simp: receivers_inv_def list_all_iff)

lemma sender_inv_mono: "sender_inv t s \<Longrightarrow> t \<le> now \<Longrightarrow> sender_inv now s"
  using rc_ready_mono by (auto simp: sender_inv_def)

lemma receiver_inv_mono: "receiver_inv t s \<Longrightarrow> t \<le> now \<Longrightarrow> receiver_inv now s"
  using rc_ready_mono by (auto simp: receiver_inv_def)

lemma transport_inv_mono: "transport_inv t0 t \<Longrightarrow> t0 \<le> now \<Longrightarrow> transport_inv now t"
  unfolding transport_inv_def senders_inv_def receivers_inv_def
  by (auto simp: list_all_iff intro: sender_inv_mono receiver_inv_mono)

lemma GetStreamReceiverBySsrc_mem:
  "GetStreamReceiverBySsrc ssrc t = Some (k, r) \<Longrightarrow> (k, r) \<in> set (rt_receive_streams t)"
  by (auto simp: GetStreamReceiverBySsrc_def dest: map_of_SomeD split: option.splits list.splits)

lemma GetStreamReceiverBySsrc_None [simp]:
  "GetStreamReceiverBySsrc ssrc t = None \<longleftrightarrow> rt_receive_streams t = []"
  by (auto simp: GetStreamReceiverBySsrc_def split: option.splits list.splits)

section \<open>One packet on a stream\<close>

lemma Sender_ReceivePacket_params:
  "Sender_ReceivePacket now p s = Some (valid, out, s') \<Longrightarrow> params s' = params s"
  using ReceiveStreamPacket_base [of now p s]
  by (auto simp: Sender_ReceivePacket_def StorePacket_def split_beta bind_eq_Some_conv
      split: if_splits option.splits)

lemma Receiver_ReceivePacket_params:
  "Receiver_ReceivePacket clk now p s = Some (valid, out, s') \<Longrightarrow> params s' = params s"
  using ReceiveStreamPacket_base [of now p s]
  by (auto simp: Receiver_ReceivePacket_def split_beta bind_eq_Some_conv
      split: if_splits option.splits)

lemma sender_takes:
  assumes "sender_inv t s" "t \<le> now" "2500 \<le> now" "kHeaderSize \<le> length (rp_data p)"
  obtains valid out s' where "Sender_ReceivePacket now p s = Some (valid, out, s')"
    "out = (if valid then [p] else [])" "sender_inv now s'" "params s' = params s"
proof -
  from Sender_ReceivePacket_inv [OF assms] obtain valid out s' where
    s': "Sender_ReceivePacket now p s = Some (valid, out, s')" "out = (if valid then [p] else [])"
      "sender_inv (if valid then now else t) s'" by blast
  have "sender_inv now s'" using s'(3) sender_inv_mono [OF _ assms(2)] by (cases valid) simp_all
  then show thesis using that [OF s'(1,2)] Sender_ReceivePacket_params [OF s'(1)] by blast
qed

lemma receiver_takes:
  assumes "receiver_inv t r" "t \<le> now" "2500 \<le> now"
  obtains valid out r' where "Receiver_ReceivePacket clk now p r = Some (valid, out, r')"
    "out = (if valid then [p] else [])" "receiver_inv now r'" "params r' = params r"
proof -
  from Receiver_ReceivePacket_inv [OF assms, of clk p] obtain valid out r' where
    r': "Receiver_ReceivePacket clk now p r = Some (valid, out, r')" "out = (if valid then [p] else [])"
      "receiver_inv (if valid then now else t) r'" by blast
  have "receiver_inv now r'" using r'(3) receiver_inv_mono [OF _ assms(2)] by (cases valid) simp_all
  then show thesis using that [OF r'(1,2)] Receiver_ReceivePacket_params [OF r'(1)] by blast
qed

lemma Parse_data: "RtpPacket_Parse data = Some p \<Longrightarrow> rp_data p = data \<and> kHeaderSize \<le> length data"
  using IsRtp_length by (auto simp: RtpPacket_Parse_def RtpPacket_of_data_def rtp_parse_padding_def
      Let_def split: if_splits)

lemma ReceiveRtpPacket_works:
  assumes inv: "transport_inv t0 t" and now: "t0 \<le> now" "2500 \<le> now"
    and p: "kHeaderSize \<le> length (rp_data p)" and ne: "rt_receive_streams t \<noteq> []"
  shows "\<exists>calls t'. ReceiveRtpPacket clk now p t = Some (calls, t') \<and> transport_inv now t'"
proof -
  have inv': "transport_inv now t" using inv now(1) by (rule transport_inv_mono)
  obtain calls t1 where t1: "(case GetStreamSenderBySsrc (GetSsrc p) t of
       None \<Rightarrow> Some ([], t)
     | Some s \<Rightarrow> do { (valid, out, s') \<leftarrow> Sender_ReceivePacket now p s;
          Some (map (OnRtpStreamRetransmitRtpPacket s') out,
                t\<lparr>rt_send_streams := put_stream (GetSsrc p) s' (rt_send_streams t)\<rparr>) }) = Some (calls, t1)"
    and inv1: "transport_inv now t1" "rt_receive_streams t1 = rt_receive_streams t"
  proof (cases "GetStreamSenderBySsrc (GetSsrc p) t")
    case None
    then show thesis using that [of "[]" t] inv' by simp
  next
    case (Some s)
    then have s: "params s = transport_params (GetSsrc p)" "sender_inv now s"
      using inv' senders_inv_of by (auto simp: GetStreamSenderBySsrc_def transport_inv_def)
    from s(2) order_refl now(2) p obtain v out s' where s':
      "Sender_ReceivePacket now p s = Some (v, out, s')" "sender_inv now s'" "params s' = params s"
      by (rule sender_takes)
    show thesis
      by (rule that [of "map (OnRtpStreamRetransmitRtpPacket s') out"
          "t\<lparr>rt_send_streams := put_stream (GetSsrc p) s' (rt_send_streams t)\<rparr>"])
        (use Some s s' inv' in \<open>simp_all add: transport_inv_def senders_inv_put\<close>)
  qed
  obtain k r where r: "GetStreamReceiverBySsrc (GetSsrc p) t1 = Some (k, r)"
    using ne inv1(2) GetStreamReceiverBySsrc_None [of "GetSsrc p" t1] by fastforce
  then have ri: "params r = transport_params k" "receiver_inv now r"
    using inv1(1) receivers_inv_of [OF _ GetStreamReceiverBySsrc_mem] unfolding transport_inv_def by blast+
  from ri(2) order_refl now(2) obtain v out r' where r':
    "Receiver_ReceivePacket clk now p r = Some (v, out, r')" "receiver_inv now r'" "params r' = params r"
    by (rule receiver_takes)
  have "transport_inv now (t1\<lparr>rt_receive_streams := put_stream k r' (rt_receive_streams t1)\<rparr>)"
    using inv1(1) ri r' by (simp add: transport_inv_def receivers_inv_put)
  then show ?thesis unfolding ReceiveRtpPacket_def t1 using r r' by simp
qed

lemma ReceiveRtpPacket_no_receiver:
  "rt_receive_streams t = [] \<Longrightarrow> ReceiveRtpPacket clk now p t = None"
  by (cases "ReceiveRtpPacket clk now p t")
    (auto simp: ReceiveRtpPacket_def GetStreamReceiverBySsrc_def bind_eq_Some_conv split: option.splits)

section \<open>Reports\<close>

lemma receive_sender_reports_works:
  assumes "transport_inv now t" "rt_receive_streams t \<noteq> []"
  shows "\<exists>t'. receive_sender_reports clock i addr reports t = Some t' \<and> transport_inv now t'"
  using assms
proof (induction reports arbitrary: i t)
  case (Cons report reports)
  obtain k r where r: "GetStreamReceiverBySsrc (SR_GetSsrc report) t = Some (k, r)"
    using Cons.prems(2) GetStreamReceiverBySsrc_None [of "SR_GetSsrc report" t] by fastforce
  then have ri: "params r = transport_params k" "receiver_inv now r"
    using Cons.prems(1) receivers_inv_of [OF _ GetStreamReceiverBySsrc_mem]
    unfolding transport_inv_def by blast+
  let ?r = "case addr of None \<Rightarrow> ReceiveRtcpSenderReport (clock i) report r
    | Some a \<Rightarrow> SetUdpRemoteTargetAddr a (ReceiveRtcpSenderReport (clock i) report r)"
  let ?t = "t\<lparr>rt_receive_streams := put_stream k ?r (rt_receive_streams t)\<rparr>"
  have "params ?r = transport_params k" "receiver_inv now ?r"
    using ri by (auto simp: receiver_inv_def ReceiveRtcpSenderReport_def SetUdpRemoteTargetAddr_def
        split: option.splits)
  then have "transport_inv now ?t" "rt_receive_streams ?t \<noteq> []"
    using Cons.prems by (simp_all add: transport_inv_def receivers_inv_put)
  from Cons.IH [OF this, of "Suc i"] show ?case using r by (simp add: Let_def)
qed simp

lemma receive_receiver_reports_works:
  "transport_inv now t \<Longrightarrow> transport_inv now (receive_receiver_reports clock i addr reports t)"
proof (induction reports arbitrary: i t)
  case (Cons report reports)
  show ?case
  proof (cases "GetStreamSenderBySsrc (RR_GetSsrc report) t")
    case None
    then show ?thesis using Cons by simp
  next
    case (Some s)
    let ?s = "case addr of None \<Rightarrow> ReceiveRtcpReceiverReport (clock i) report s
      | Some a \<Rightarrow> SetUdpRemoteTargetAddr a (ReceiveRtcpReceiverReport (clock i) report s)"
    have s: "params s = transport_params (RR_GetSsrc report)" "sender_inv now s"
      using Some Cons.prems senders_inv_of
      unfolding GetStreamSenderBySsrc_def transport_inv_def by blast+
    then have "params ?s = transport_params (RR_GetSsrc report)" "sender_inv now ?s"
      by (auto simp: sender_inv_def sender_ok_def ReceiveRtcpReceiverReport_def
          SetUdpRemoteTargetAddr_def split: option.splits)
    then have "transport_inv now (t\<lparr>rt_send_streams :=
        put_stream (RR_GetSsrc report) ?s (rt_send_streams t)\<rparr>)"
      using Cons.prems by (simp add: transport_inv_def senders_inv_put)
    from Cons.IH [OF this, of "Suc i"] show ?thesis using Some by (simp add: Let_def)
  qed
qed simp

lemma receive_sender_reports_none:
  "reports \<noteq> [] \<Longrightarrow> rt_receive_streams t = [] \<Longrightarrow> receive_sender_reports clock i addr reports t = None"
  by (cases reports) (simp_all add: GetStreamReceiverBySsrc_def split: option.splits)

lemma receive_sender_reports_result:
  assumes inv: "transport_inv now t"
  shows "(receive_sender_reports clock i addr reports t = None \<longleftrightarrow> reports \<noteq> [] \<and> rt_receive_streams t = [])
    \<and> (\<forall>t'. receive_sender_reports clock i addr reports t = Some t' \<longrightarrow> transport_inv now t')"
proof (cases "rt_receive_streams t = []")
  case True
  then show ?thesis using receive_sender_reports_none [of reports t clock i addr] inv
    by (cases "reports = []") simp_all
next
  case False
  then show ?thesis using receive_sender_reports_works [OF inv, of clock i addr reports] by auto
qed

definition needs_receiver :: "rtcp_packet option \<Rightarrow> bool" where
  "needs_receiver packet \<longleftrightarrow> (case packet of Some (SrPacket p) \<Rightarrow> sp_reports p \<noteq> [] | _ \<Rightarrow> False)"

lemma ReceiveRtcpPacket_works:
  assumes inv: "transport_inv now t"
  shows "ReceiveRtcpPacket clock packet addr t = None \<longleftrightarrow>
      packet = None \<or> needs_receiver packet \<and> rt_receive_streams t = []"
    and "ReceiveRtcpPacket clock packet addr t = Some t' \<Longrightarrow> transport_inv now t'"
proof -
  have both: "(ReceiveRtcpPacket clock packet addr t = None \<longleftrightarrow>
      packet = None \<or> needs_receiver packet \<and> rt_receive_streams t = [])
    \<and> (\<forall>t'. ReceiveRtcpPacket clock packet addr t = Some t' \<longrightarrow> transport_inv now t')"
  proof (cases packet)
    case (Some p)
    show ?thesis
      using receive_sender_reports_result [OF inv] receive_receiver_reports_works [OF inv] inv
      by (cases p) (simp_all add: Some ReceiveRtcpPacket_def needs_receiver_def)
  qed (simp add: ReceiveRtcpPacket_def)
  show "ReceiveRtcpPacket clock packet addr t = None \<longleftrightarrow>
      packet = None \<or> needs_receiver packet \<and> rt_receive_streams t = []"
    using both by (rule conjunct1)
  show "ReceiveRtcpPacket clock packet addr t = Some t' \<Longrightarrow> transport_inv now t'"
    using both [THEN conjunct2] by simp
qed

lemma send_sender_reports_works:
  "senders_inv now m \<Longrightarrow> map fst (snd (send_sender_reports clock i m)) = map fst m
     \<and> senders_inv now (snd (send_sender_reports clock i m))"
proof (induction m arbitrary: i)
  case (Cons e m)
  obtain k s where e: "e = (k, s)" by fastforce
  have "sender_inv now (snd (GetRtcpSenderReport t s)) = sender_inv now s"
    "params (snd (GetRtcpSenderReport t s)) = params s" for t
    by (simp_all add: sender_inv_def sender_ok_def GetRtcpSenderReport_def Let_def)
  moreover have "senders_inv now m" using Cons.prems by (simp add: senders_inv_def)
  ultimately show ?case using Cons.IH [of "Suc i"] Cons.prems
    by (auto simp: e split_beta Let_def senders_inv_def)
qed simp

lemma send_receiver_reports_works:
  assumes "receivers_inv now m" "send_receiver_reports clock i m = Some (calls, m')"
  shows "map fst m' = map fst m \<and> receivers_inv now m'"
  using assms
proof (induction m arbitrary: i calls m')
  case (Cons e m)
  obtain k r where e: "e = (k, r)" by fastforce
  from Cons.prems(2) obtain report r' calls1 m1 where r: "GetRtcpReceiverReport (clock i) r = Some (report, r')"
    "send_receiver_reports clock (Suc i) m = Some (calls1, m1)" "m' = (k, r') # m1"
    by (auto simp: e bind_eq_Some_conv)
  have "receiver_inv now r' = receiver_inv now r \<and> params r' = params r" if "receiver_inv now r"
    using r(1) by (rule GetRtcpReceiverReport_cases) (use that in \<open>simp add: receiver_inv_def\<close>)
  moreover have "receivers_inv now m" using Cons.prems by (simp add: receivers_inv_def)
  ultimately show ?case using Cons.IH [OF _ r(2)] Cons.prems(1) r(3) by (auto simp: e receivers_inv_def)
qed simp

section \<open>Reachable states\<close>

text \<open>
  The states a transport goes through: streams are created and deleted, data is sent and
  datagrams arrive at times of the clock that do not decrease and are not within its first 2500
  ms, and reports are sent. A hash map may be iterated in any order, but it keeps its entries.
\<close>

inductive transport_reach :: "u64 \<Rightarrow> RtcTransport \<Rightarrow> bool" where
  start: "transport_reach 0 RtcTransport_init"
| create: "transport_reach t0 t \<Longrightarrow> (\<And>xs. mset (arrange_s xs) = mset xs)
     \<Longrightarrow> (\<And>ys. mset (arrange_r ys) = mset ys)
     \<Longrightarrow> CreateRtpStream arrange_s arrange_r ip4_addr ssrc stream_type ip port dynamic_addr t = Some t'
     \<Longrightarrow> transport_reach t0 t'"
| delete: "transport_reach t0 t \<Longrightarrow> transport_reach t0 (DeleteRtpStream ssrc t)"
| dispatch: "transport_reach t0 t \<Longrightarrow> t0 \<le> now \<Longrightarrow> 2500 \<le> now
     \<Longrightarrow> Dispatch clk clock now socket_closed protocol data addr t = Inr (calls, t') \<Longrightarrow> transport_reach now t'"
| send: "transport_reach t0 t \<Longrightarrow> t0 \<le> now \<Longrightarrow> 2500 \<le> now \<Longrightarrow> length memory = 1400
     \<Longrightarrow> OnSendPacket memory now ssrc data t = Some (calls, t') \<Longrightarrow> transport_reach now t'"
| reports: "transport_reach t0 t \<Longrightarrow> SendRtcpPacket clock t = Some (calls, t') \<Longrightarrow> transport_reach t0 t'"

lemma arranged:
  assumes "mset ys = mset ((k, v) # xs)"
  shows "distinct (map fst ys) \<longleftrightarrow> distinct (k # map fst xs)"
    and "list_all P ys \<longleftrightarrow> list_all P ((k, v) # xs)"
proof -
  have "mset (map fst ys) = mset (map fst ((k, v) # xs))" using assms by (metis mset_map)
  then show "distinct (map fst ys) \<longleftrightarrow> distinct (k # map fst xs)"
    using mset_eq_imp_distinct_iff by fastforce
  have "set ys = set ((k, v) # xs)" using assms by (metis set_mset_mset)
  then show "list_all P ys \<longleftrightarrow> list_all P ((k, v) # xs)" by (simp add: list_all_iff)
qed

lemma senders_inv_arranged:
  assumes "mset ys = mset ((k, s) # m)" "senders_inv now m" "map_of m k = None"
    "params s = transport_params k" "sender_inv now s"
  shows "senders_inv now ys"
  using assms(2-) unfolding senders_inv_def arranged [OF assms(1)] by (simp add: map_of_eq_None_iff)

lemma receivers_inv_arranged:
  assumes "mset ys = mset ((k, r) # m)" "receivers_inv now m" "map_of m k = None"
    "params r = transport_params k" "receiver_inv now r"
  shows "receivers_inv now ys"
  using assms(2-) unfolding receivers_inv_def arranged [OF assms(1)] by (simp add: map_of_eq_None_iff)

lemma new_sender:
  assumes "RtpStreamSender_init (transport_params k) d = Some s"
  shows "params s = transport_params k" "sender_inv now s"
proof -
  show "params s = transport_params k"
    using assms by (auto simp: RtpStreamSender_init_def RtpStream.extend_def RtpStream_init_def)
  have "sender_inv 0 s" using assms by (rule sender_inv_init) (simp add: transport_params_def)
  then show "sender_inv now s" by (rule sender_inv_mono) simp
qed

lemma new_receiver:
  assumes "RtpStreamReceiver_init (transport_params k) delay d = Some r"
  shows "params r = transport_params k" "receiver_inv now r"
proof -
  show "params r = transport_params k"
    using assms by (auto simp: RtpStreamReceiver_init_def RtpStream.extend_def RtpStream_init_def)
  have "receiver_inv 0 r" using assms by (rule receiver_inv_init)
  then show "receiver_inv now r" by (rule receiver_inv_mono) simp
qed

lemma CreateRtpStream_inv:
  assumes "CreateRtpStream arrange_s arrange_r ip4_addr ssrc stream_type ip port d t = Some t'"
    and arr: "\<And>xs. mset (arrange_s xs) = mset xs" "\<And>ys. mset (arrange_r ys) = mset ys"
    and inv: "transport_inv now t"
  shows "transport_inv now t'"
proof -
  have s: "params (SetUdpRemoteTargetAddr a s) = params s" "sender_inv now (SetUdpRemoteTargetAddr a s) = sender_inv now s"
    for a and s :: RtpStreamSender
    by (simp_all add: SetUdpRemoteTargetAddr_def sender_inv_def sender_ok_def)
  have r: "params (SetUdpRemoteTargetAddr a r) = params r" "receiver_inv now (SetUdpRemoteTargetAddr a r) = receiver_inv now r"
    for a and r :: RtpStreamReceiver
    by (simp_all add: SetUdpRemoteTargetAddr_def receiver_inv_def)
  show ?thesis
    using assms(1) inv senders_inv_arranged [OF arr(1)] receivers_inv_arranged [OF arr(2)]
      new_sender new_receiver
    by (auto simp: CreateRtpStream_def transport_inv_def s r split: option.splits StreamType.splits
        if_splits)
qed

lemma filter_keys:
  "distinct (map fst m) \<Longrightarrow> distinct (map fst (filter (\<lambda>(k, _). k \<noteq> ssrc) m))"
  "list_all P m \<Longrightarrow> list_all P (filter Q m)"
  by (simp_all add: distinct_map_filter list_all_iff)

lemma DeleteRtpStream_inv: "transport_inv now t \<Longrightarrow> transport_inv now (DeleteRtpStream ssrc t)"
  by (auto simp: DeleteRtpStream_def transport_inv_def senders_inv_def receivers_inv_def filter_keys)

lemma Dispatch_inv:
  assumes inv: "transport_inv t0 t" and now: "t0 \<le> now" "2500 \<le> now"
    and step: "Dispatch clk clock now socket_closed protocol data addr t = Inr (calls, t')"
  shows "transport_inv now t'"
proof -
  have inv': "transport_inv now t" using inv now(1) by (rule transport_inv_mono)
  have rtp: "transport_inv now t'"
    if p: "RtpPacket_Parse data = Some p" and "ReceiveRtpPacket clk now p t = Some (calls, t')" for p
  proof -
    have "rt_receive_streams t \<noteq> []" using that(2) ReceiveRtpPacket_no_receiver by fastforce
    then show ?thesis using ReceiveRtpPacket_works [OF inv now, of p clk] Parse_data [OF p] that(2) by auto
  qed
  have rtcp: "transport_inv now t'" if "ReceiveRtcpPacket clock packet addr t = Some t'" for packet
    using ReceiveRtcpPacket_works [OF inv'] that by blast
  show ?thesis
    using step rtp rtcp inv'
    by (cases protocol; cases "ReadResponseJson WebsocketEventResponse_init (map (\<lambda>b. char_of (unat b)) data)")
      (auto simp: Dispatch_def undefined_if_None_def split: if_splits option.splits)
qed

lemma OnSendPacket_works:
  assumes inv: "transport_inv t0 t" and now: "t0 \<le> now" "2500 \<le> now" and memory: "length memory = 1400"
    and s: "GetStreamSenderBySsrc ssrc t = Some s" and len: "length data \<le> 1388"
  obtains p valid out s' where "rtp_compose memory ssrc (rt_test_seq t) (rt_timestamp t + 100) data = Some p"
    "Sender_ReceivePacket now p s = Some (valid, out, s')" "out = (if valid then [p] else [])"
    "OnSendPacket memory now ssrc data t = Some (map (OnRtpStreamRetransmitRtpPacket s') out,
       t\<lparr>rt_test_seq := rt_test_seq t + 1, rt_timestamp := rt_timestamp t + 100,
         rt_send_streams := put_stream ssrc s' (rt_send_streams t)\<rparr>)"
    "transport_inv now (t\<lparr>rt_test_seq := rt_test_seq t + 1, rt_timestamp := rt_timestamp t + 100,
         rt_send_streams := put_stream ssrc s' (rt_send_streams t)\<rparr>)"
proof -
  have inv': "transport_inv now t" using inv now(1) by (rule transport_inv_mono)
  then have si: "params s = transport_params ssrc" "sender_inv now s"
    using s senders_inv_of unfolding GetStreamSenderBySsrc_def transport_inv_def by blast+
  obtain p where p: "rtp_compose memory ssrc (rt_test_seq t) (rt_timestamp t + 100) data = Some p"
    using composed_iff [OF memory] len by fastforce
  have hdr: "kHeaderSize \<le> length (rp_data p)"
    using rtp_compose_data(7) [OF p memory len] by (simp add: kHeaderSize_def)
  from si(2) order_refl now(2) hdr obtain v out s' where s':
    "Sender_ReceivePacket now p s = Some (v, out, s')" "out = (if v then [p] else [])"
    "sender_inv now s'" "params s' = params s"
    by (rule sender_takes)
  show thesis
    by (rule that [OF p s'(1,2)])
      (use s p s' si inv' in \<open>simp_all add: OnSendPacket_def transport_inv_def senders_inv_put\<close>)
qed

lemma OnSendPacket_None_iff:
  assumes "transport_inv t0 t" "t0 \<le> now" "2500 \<le> now" "length memory = 1400"
  shows "OnSendPacket memory now ssrc data t = None \<longleftrightarrow>
    GetStreamSenderBySsrc ssrc t \<noteq> None \<and> 1388 < length data"
proof (cases "GetStreamSenderBySsrc ssrc t")
  case (Some s)
  show ?thesis
  proof (cases "length data \<le> 1388")
    case True
    with assms Some show ?thesis by (auto elim: OnSendPacket_works)
  next
    case False
    then have "rtp_compose memory ssrc (rt_test_seq t) (rt_timestamp t + 100) data = None"
      using composed_iff [OF assms(4)] by simp
    then show ?thesis using Some False by (simp add: OnSendPacket_def)
  qed
qed (simp add: OnSendPacket_def)

lemma transport_reach_inv: "transport_reach now t \<Longrightarrow> transport_inv now t"
proof (induction rule: transport_reach.induct)
  case start
  then show ?case
    by (simp add: transport_inv_def senders_inv_def receivers_inv_def RtcTransport_init_def)
next
  case (create t0 t arrange_s arrange_r ip4_addr ssrc stream_type ip port d t')
  then show ?case by (auto intro: CreateRtpStream_inv)
next
  case (delete t0 t ssrc)
  then show ?case by (simp add: DeleteRtpStream_inv)
next
  case (dispatch t0 t now clk clock socket_closed protocol data addr calls t')
  then show ?case using Dispatch_inv by blast
next
  case (send t0 t now memory ssrc data calls t')
  show ?case
  proof (cases "GetStreamSenderBySsrc ssrc t")
    case None
    then show ?thesis using send transport_inv_mono by (auto simp: OnSendPacket_def)
  next
    case (Some s)
    have "length data \<le> 1388"
      using OnSendPacket_None_iff [OF send.IH send.hyps(2,3,4), of ssrc data] send.hyps(5) Some by auto
    with send.IH send.hyps(2,3,4) Some show ?thesis
      by (rule OnSendPacket_works) (use send.hyps(5) in auto)
  qed
next
  case (reports t0 t clock calls t')
  then obtain calls1 rs where rs: "send_receiver_reports clock 0 (rt_receive_streams t) = Some (calls1, rs)"
    "rt_receive_streams t' = rs" "rt_send_streams t' =
      snd (send_sender_reports clock (length (rt_receive_streams t)) (rt_send_streams t))"
    by (auto simp: SendRtcpPacket_def bind_eq_Some_conv split_beta Let_def)
  then show ?case using reports.IH send_receiver_reports_works [OF _ rs(1)] send_sender_reports_works
    unfolding transport_inv_def by metis
qed

text \<open>
  Claim C27. In every reachable state of a transport no two streams share a source number in
  either map, and every stream has the source number it is registered under and the fixed
  payload type and clock rate; so a report or a packet of a stream carries the number it is
  looked up by.
\<close>

theorem transport_streams_keyed:
  assumes "transport_reach now t"
  shows "distinct (map fst (rt_send_streams t)) \<and> distinct (map fst (rt_receive_streams t))
    \<and> list_all (\<lambda>(k, s). StreamGetSsrc s = k \<and> StreamGetPayloadType s = 100 \<and> GetClockRate s = 16000)
        (rt_send_streams t)
    \<and> list_all (\<lambda>(k, r). StreamGetSsrc r = k \<and> StreamGetPayloadType r = 100 \<and> GetClockRate r = 16000)
        (rt_receive_streams t)"
  using transport_reach_inv [OF assms]
  unfolding transport_inv_def senders_inv_def receivers_inv_def
  by (auto simp: list_all_iff StreamGetSsrc_def StreamGetPayloadType_def GetClockRate_def transport_params_def)

lemma IsRtp_agrees: "transport_IsRtp data = IsRtp data"
  by (simp add: transport_IsRtp_def IsRtp_def KRtpMinHeaderLength_def kHeaderSize_def
      kExpectedVersion_def hdr_version_def)

lemma undefined_if_None_Inl: "undefined_if_None x = Inl f \<longleftrightarrow> f = UndefinedBehaviour \<and> x = None"
  by (auto simp: undefined_if_None_def split: option.splits)

lemma ReceiveRtpPacket_None_iff:
  assumes "transport_inv t0 t" "t0 \<le> now" "2500 \<le> now" "RtpPacket_Parse data = Some p"
  shows "ReceiveRtpPacket clk now p t = None \<longleftrightarrow> rt_receive_streams t = []"
  using ReceiveRtpPacket_works [OF assms(1-3), of p clk] Parse_data [OF assms(4)]
    ReceiveRtpPacket_no_receiver [of t clk now p]
  by (cases "rt_receive_streams t = []") auto

lemma CreateRtpStream_works: "CreateRtpStream arrange_s arrange_r ip4_addr ssrc stream_type ip port d t \<noteq> None"
proof -
  have "RtpDataCounter_init 2500 \<noteq> None"
    by (simp add: RtpDataCounter_init_def RateCalculator_init_def kDefaultWindowItems_def)
  then have "RtpStreamSender_init (transport_params ssrc) d \<noteq> None"
    "RtpStreamReceiver_init (transport_params ssrc) kSendNackDelay d \<noteq> None"
    by (auto simp: RtpStreamSender_init_def RtpStreamReceiver_init_def)
  then show ?thesis by (auto simp: CreateRtpStream_def split: option.splits StreamType.splits)
qed

text \<open>A receiver whose report cannot be made: the fraction of lost packets is out of range.\<close>

definition report_fails :: "RtpStreamReceiver \<Rightarrow> bool" where
  "report_fails r \<longleftrightarrow> fraction_of (GetExpectedPackets r - rs_expected_prior r)
     (ucast (GetPacketCount (rs_media_counter r) - ucast (rs_received_prior r))) = None"

lemma send_receiver_reports_None:
  "send_receiver_reports clock i m = None \<longleftrightarrow> (\<exists>(k, r)\<in>set m. report_fails r)"
proof (induction m arbitrary: i)
  case (Cons e m)
  obtain k r where e: "e = (k, r)" by fastforce
  have "GetRtcpReceiverReport (clock i) r = None \<longleftrightarrow> report_fails r"
    by (auto simp: GetRtcpReceiverReport_def report_fails_def Let_def bind_eq_None_conv)
  then show ?case using Cons [of "Suc i"]
    by (cases "GetRtcpReceiverReport (clock i) r"; cases "send_receiver_reports clock (Suc i) m") (auto simp: e)
qed simp

lemma SendRtcpPacket_None_iff:
  "SendRtcpPacket clock t = None \<longleftrightarrow> (\<exists>(k, r)\<in>set (rt_receive_streams t). report_fails r)"
  unfolding SendRtcpPacket_def send_receiver_reports_None [of clock 0, symmetric]
  by (cases "send_receiver_reports clock 0 (rt_receive_streams t)") (auto simp: split_beta Let_def)

text \<open>What makes the dispatch of a datagram fail, for each protocol.\<close>

definition dispatch_fails :: "Protocol \<Rightarrow> bool \<Rightarrow> u8 list \<Rightarrow> RtcTransport \<Rightarrow> fault \<Rightarrow> bool" where
  "dispatch_fails protocol socket_closed data t f \<longleftrightarrow>
     (case protocol of
        UDP \<Rightarrow> f = UndefinedBehaviour \<and>
          (if transport_IsRtcp data
           then \<not> RtcpPacket_Parse_defined data \<or> RtcpPacket_Parse data = None
             \<or> needs_receiver (RtcpPacket_Parse data) \<and> rt_receive_streams t = []
           else transport_IsRtp data \<and> rt_receive_streams t = [])
      | WEBSOCKET \<Rightarrow> f = UndefinedBehaviour \<and> \<not> socket_closed
          \<and> RtpPacket_Parse data \<noteq> None \<and> rt_receive_streams t = []
      | WEBSOCKET_TEXT \<Rightarrow> \<not> socket_closed
          \<and> ReadResponseJson WebsocketEventResponse_init (map (\<lambda>b. char_of (unat b)) data) = Inl f
      | _ \<Rightarrow> False)"

lemma Dispatch_fails_iff:
  assumes inv: "transport_inv t0 t" and now: "t0 \<le> now" "2500 \<le> now"
  shows "Dispatch clk clock now socket_closed protocol data addr t = Inl f
    \<longleftrightarrow> dispatch_fails protocol socket_closed data t f"
proof (cases protocol)
  case UDP
  have inv': "transport_inv now t" using inv now(1) by (rule transport_inv_mono)
  note rtcp = ReceiveRtcpPacket_works(1) [OF inv', of clock "RtcpPacket_Parse data" addr]
  have rtp: "RtpPacket_Parse data \<noteq> None" if "transport_IsRtp data"
    using that by (simp add: IsRtp_agrees RtpPacket_Parse_def)
  show ?thesis
    using rtcp rtp ReceiveRtpPacket_None_iff [OF inv now, of data _ clk]
    by (auto simp: Dispatch_def dispatch_fails_def UDP undefined_if_None_Inl split: option.splits)
next
  case WEBSOCKET
  then show ?thesis
    using ReceiveRtpPacket_None_iff [OF inv now, of data _ clk]
    by (auto simp: Dispatch_def dispatch_fails_def undefined_if_None_Inl split: option.splits)
next
  case WEBSOCKET_TEXT
  then show ?thesis
    by (cases "ReadResponseJson WebsocketEventResponse_init (map (\<lambda>b. char_of (unat b)) data)")
      (auto simp: Dispatch_def dispatch_fails_def)
qed (simp_all add: Dispatch_def dispatch_fails_def)

text \<open>
  Claim C7. Exactly when an operation of a reachable transport fails, for every one of its
  functions that changes it, at times of the clock that do not go back and are not within its first
  2500 ms: creating a stream never; sending data exactly when it has more than 1388 bytes and the stream is
  known (the buffer of a packet has 1400 bytes); sending the reports exactly when the fraction of lost
  packets of a receiver is out of range. A datagram by UDP is undefined exactly when it is RTCP and a
  receiver report in it is read (its size is asked for through the pointer that was moved from), or the
  parser rejects it (a lone BYE or source description among such packets), or it is a sender report
  and there is no receiving stream; and when it is RTP and there is none. From an open web socket
  a binary message is undefined exactly when it is RTP and there is no receiving stream, and a text fails
  exactly when reading it does, with the same exception; nothing else fails. (Deleting a stream and the
  timer cannot fail.)
\<close>

theorem transport_faults:
  assumes reach: "transport_reach t0 t" and now: "t0 \<le> now" "2500 \<le> now"
    and memory: "length memory = 1400"
  shows "CreateRtpStream arrange_s arrange_r ip4_addr ssrc stream_type ip port dynamic_addr t \<noteq> None
    \<and> (OnSendPacket memory now ssrc data t = None \<longleftrightarrow>
        GetStreamSenderBySsrc ssrc t \<noteq> None \<and> 1388 < length data)
    \<and> (SendRtcpPacket clock t = None \<longleftrightarrow> (\<exists>(k, r)\<in>set (rt_receive_streams t). report_fails r))
    \<and> (Dispatch clk clock now socket_closed protocol datagram addr t = Inl f \<longleftrightarrow>
        dispatch_fails protocol socket_closed datagram t f)"
  by (intro conjI CreateRtpStream_works SendRtcpPacket_None_iff
      OnSendPacket_None_iff [OF transport_reach_inv [OF reach] now memory]
      Dispatch_fails_iff [OF transport_reach_inv [OF reach] now])

section \<open>Data from one transport to the other\<close>

text \<open>The next number of a stream that has not started, or whose last number is the one before.\<close>

definition in_step :: "u16 \<Rightarrow> 'a RtpStream_scheme \<Rightarrow> bool" where
  "in_step seq s \<longleftrightarrow> stream_started s \<longrightarrow> max_seq s = seq - 1"

lemma ReceiveStreamPacket_in_step:
  assumes "in_step (GetSequenceNumber p) s"
  obtains s' where "ReceiveStreamPacket now p s = (True, s')" "in_step (GetSequenceNumber p + 1) s'"
proof -
  define s1 where "s1 = (if \<not> stream_started s
    then (InitSequence (GetSequenceNumber p) s)\<lparr>stream_started := True,
      max_seq := GetSequenceNumber p - 1, max_packet_ts := GetTimestamp p, max_packet_ms := now\<rparr> else s)"
  have r: "ReceiveStreamPacket now p s = (case UpdateSequence now p s1 of (valid, s2) \<Rightarrow>
      if \<not> valid then (False, s2)
      else if seq_higher (GetTimestamp p) (max_packet_ts s2)
      then (True, s2\<lparr>max_packet_ts := GetTimestamp p, max_packet_ms := now\<rparr>) else (True, s2))"
    by (simp only: ReceiveStreamPacket_def Let_def s1_def)
  have m: "max_seq s1 = GetSequenceNumber p - 1" using assms by (simp add: s1_def in_step_def)
  have "GetSequenceNumber p - max_seq s1 < kMaxDropout" by (simp add: m kMaxDropout_def)
  note u = UpdateSequence_in_order [OF this, of now]
  obtain v s2 where s2: "UpdateSequence now p s1 = (v, s2)" by fastforce
  then have "v" "max_seq s2 = GetSequenceNumber p" using u(1,3) by simp_all
  then show thesis
    using that [of "s2\<lparr>max_packet_ts := GetTimestamp p, max_packet_ms := now\<rparr>"] that [of s2]
    by (cases "seq_higher (GetTimestamp p) (max_packet_ts s2)") (simp_all add: r s2 in_step_def)
qed

lemma Sender_ReceivePacket_base:
  assumes "Sender_ReceivePacket now p s = Some (valid, out, s')"
  shows "valid = fst (ReceiveStreamPacket now p s)"
    "max_seq s' = max_seq (snd (ReceiveStreamPacket now p s))"
    "stream_started s' = stream_started (snd (ReceiveStreamPacket now p s))"
  using assms
  by (auto simp: Sender_ReceivePacket_def StorePacket_def split_beta bind_eq_Some_conv
      split: if_splits option.splits)

lemma Receiver_ReceivePacket_base:
  assumes "Receiver_ReceivePacket clk now p s = Some (valid, out, s')"
  shows "valid = fst (ReceiveStreamPacket now p s)"
    "max_seq s' = max_seq (snd (ReceiveStreamPacket now p s))"
    "stream_started s' = stream_started (snd (ReceiveStreamPacket now p s))"
  using assms
  by (auto simp: Receiver_ReceivePacket_def split_beta bind_eq_Some_conv
      split: if_splits option.splits)

text \<open>The state of the two ends before the next packet of a stream.\<close>

definition sending :: "u64 \<Rightarrow> u32 \<Rightarrow> RtcTransport \<Rightarrow> bool" where
  "sending now ssrc t \<longleftrightarrow> transport_inv now t
     \<and> (\<exists>s. GetStreamSenderBySsrc ssrc t = Some s \<and> in_step (rt_test_seq t) s)"

definition receiving :: "u64 \<Rightarrow> u32 \<Rightarrow> u16 \<Rightarrow> RtcTransport \<Rightarrow> bool" where
  "receiving now ssrc seq t \<longleftrightarrow> transport_inv now t \<and> GetStreamSenderBySsrc ssrc t = None
     \<and> (\<exists>r. map_of (rt_receive_streams t) ssrc = Some r \<and> in_step seq r)"

lemma sending_step:
  assumes st: "sending t0 ssrc t" and now: "t0 \<le> now" "2500 \<le> now"
    and memory: "length memory = 1400" and len: "length data \<le> 1388"
  obtains p addr t' where "OnSendPacket memory now ssrc data t = Some ([OnPacketSent (GetData p) addr], t')"
    "rtp_compose memory ssrc (rt_test_seq t) (rt_timestamp t + 100) data = Some p"
    "sending now ssrc t'" "rt_test_seq t' = rt_test_seq t + 1"
proof -
  from st obtain s where inv: "transport_inv t0 t" and s: "GetStreamSenderBySsrc ssrc t = Some s"
    and step: "in_step (rt_test_seq t) s" by (auto simp: sending_def)
  from inv now memory s len obtain p v out s' where p:
    "rtp_compose memory ssrc (rt_test_seq t) (rt_timestamp t + 100) data = Some p"
    "Sender_ReceivePacket now p s = Some (v, out, s')" "out = (if v then [p] else [])"
    "OnSendPacket memory now ssrc data t = Some (map (OnRtpStreamRetransmitRtpPacket s') out,
       t\<lparr>rt_test_seq := rt_test_seq t + 1, rt_timestamp := rt_timestamp t + 100,
         rt_send_streams := put_stream ssrc s' (rt_send_streams t)\<rparr>)"
    "transport_inv now (t\<lparr>rt_test_seq := rt_test_seq t + 1, rt_timestamp := rt_timestamp t + 100,
         rt_send_streams := put_stream ssrc s' (rt_send_streams t)\<rparr>)"
    by (rule OnSendPacket_works)
  have seq: "GetSequenceNumber p = rt_test_seq t" using rtp_compose_data(1) [OF p(1) memory len] .
  obtain s1 where s1: "ReceiveStreamPacket now p s = (True, s1)" "in_step (rt_test_seq t + 1) s1"
    using ReceiveStreamPacket_in_step [of p s now] step unfolding seq by blast
  have v: "v" "in_step (rt_test_seq t + 1) s'"
    using Sender_ReceivePacket_base [OF p(2)] s1 by (simp_all add: in_step_def)
  let ?t = "t\<lparr>rt_test_seq := rt_test_seq t + 1, rt_timestamp := rt_timestamp t + 100,
         rt_send_streams := put_stream ssrc s' (rt_send_streams t)\<rparr>"
  have "OnSendPacket memory now ssrc data t = Some ([OnPacketSent (GetData p) (GetUdpRemoteTargetAddr s')], ?t)"
    using p(3,4) v by (simp add: OnRtpStreamRetransmitRtpPacket_def)
  moreover have "sending now ssrc ?t"
    using p(5) v s by (simp add: sending_def GetStreamSenderBySsrc_def map_of_put_stream)
  ultimately show thesis using that [of p "GetUdpRemoteTargetAddr s'" ?t] p(1) by simp
qed

lemma receiving_step:
  assumes st: "receiving t0 ssrc seq t" and now: "t0 \<le> now" "2500 \<le> now"
    and p: "rtp_compose memory ssrc seq ts data = Some p" and memory: "length memory = 1400"
    and len: "length data \<le> 1388" and protocol: "protocol = UDP \<or> protocol = WEBSOCKET"
  obtains t' where "Dispatch clk clock now False protocol (GetData p) addr t = Inr ([OnPacketReceived seq data], t')"
    "receiving now ssrc (seq + 1) t'"
proof -
  from st obtain r where inv: "transport_inv t0 t" and none: "GetStreamSenderBySsrc ssrc t = None"
    and r: "map_of (rt_receive_streams t) ssrc = Some r" and step: "in_step seq r"
    by (auto simp: receiving_def)
  have inv': "transport_inv now t" using inv now(1) by (rule transport_inv_mono)
  obtain q where q: "RtpPacket_Parse (GetData p) = Some q" "GetSequenceNumber q = seq" "GetSsrc q = ssrc"
    "packet_payload q = data"
    using composed_is_parsed [OF p memory len] by (auto simp: packet_payload_def)
  have "GetData p = take (kHeaderSize + length data) (rp_data p)"
    using rtp_compose_data(8) [OF p memory len] by (simp add: GetData_def GetSize_def)
  then have b: "GetData p ! 0 = 128" "GetData p ! 1 = 100"
    using rtp_compose_data(4,5) [OF p memory len] by (simp_all add: kHeaderSize_def)
  have is_rtp: "\<not> transport_IsRtcp (GetData p)" "transport_IsRtp (GetData p)"
    using b q(1) by (auto simp: transport_IsRtcp_def IsRtp_agrees RtpPacket_Parse_def split: if_splits)
  have ri: "params r = transport_params ssrc" "receiver_inv now r"
    using inv' receivers_inv_of [OF _ map_of_SomeD [OF r]] unfolding transport_inv_def by blast+
  from ri(2) order_refl now(2) obtain v out r' where r':
    "Receiver_ReceivePacket clk now q r = Some (v, out, r')" "out = (if v then [q] else [])"
    "receiver_inv now r'" "params r' = params r"
    by (rule receiver_takes)
  obtain r1 where r1: "ReceiveStreamPacket now q r = (True, r1)" "in_step (seq + 1) r1"
    using ReceiveStreamPacket_in_step [of q r now] step unfolding q(2) by blast
  have v: "v" "in_step (seq + 1) r'"
    using Receiver_ReceivePacket_base [OF r'(1)] r1 by (simp_all add: in_step_def)
  let ?t = "t\<lparr>rt_receive_streams := put_stream ssrc r' (rt_receive_streams t)\<rparr>"
  have "ReceiveRtpPacket clk now q t = Some ([OnPacketReceived seq data], ?t)"
    using none r r'(1,2) v(1) q
    by (simp add: ReceiveRtpPacket_def GetStreamReceiverBySsrc_def OnRtpStreamReceiveRtpPacket_def)
  then have "Dispatch clk clock now False protocol (GetData p) addr t = Inr ([OnPacketReceived seq data], ?t)"
    using protocol is_rtp q(1) by (auto simp: Dispatch_def undefined_if_None_def)
  moreover have "receiving now ssrc (seq + 1) ?t"
    using inv' none r r'(3,4) ri v(2)
    by (simp add: receiving_def transport_inv_def receivers_inv_put map_of_put_stream
        GetStreamSenderBySsrc_def)
  ultimately show thesis by (rule that)
qed

text \<open>Data sent one after the other, and datagrams arriving one after the other.\<close>

fun send_all ::
  "u8 list \<Rightarrow> (nat \<Rightarrow> u64) \<Rightarrow> nat \<Rightarrow> u32 \<Rightarrow> u8 list list \<Rightarrow> RtcTransport
    \<Rightarrow> (transport_call list \<times> RtcTransport) option"
where
  "send_all memory time i ssrc [] t = Some ([], t)"
| "send_all memory time i ssrc (data # datas) t =
     do { (calls, t1) \<leftarrow> OnSendPacket memory (time i) ssrc data t;
          (rest, t2) \<leftarrow> send_all memory time (Suc i) ssrc datas t1;
          Some (calls @ rest, t2) }"

fun datagrams :: "transport_call list \<Rightarrow> u8 list list" where
  "datagrams [] = []"
| "datagrams (OnPacketSent d a # calls) = d # datagrams calls"
| "datagrams (_ # calls) = datagrams calls"

fun dispatch_all ::
  "(u16 \<Rightarrow> u64) \<Rightarrow> (nat \<Rightarrow> u64) \<Rightarrow> nat \<Rightarrow> Protocol \<Rightarrow> u8 list option \<Rightarrow> u8 list list \<Rightarrow> RtcTransport
    \<Rightarrow> fault + transport_call list \<times> RtcTransport"
where
  "dispatch_all clk time i protocol addr [] t = Inr ([], t)"
| "dispatch_all clk time i protocol addr (d # ds) t =
     and_then (Dispatch clk time (time i) False protocol d addr t) (\<lambda>(calls, t1).
     and_then (dispatch_all clk time (Suc i) protocol addr ds t1) (\<lambda>(rest, t2). Inr (calls @ rest, t2)))"

fun received :: "u16 \<Rightarrow> u8 list list \<Rightarrow> transport_call list" where
  "received seq [] = []"
| "received seq (data # datas) = OnPacketReceived seq data # received (seq + 1) datas"

lemma data_arrives:
  assumes "sending (ta i) ssrc a" "receiving (tb j) ssrc (rt_test_seq a) b"
    and "list_all (\<lambda>data. length data \<le> 1388) datas" "length memory = 1400"
    and "\<And>k. 2500 \<le> ta k \<and> ta k \<le> ta (Suc k)" "\<And>k. 2500 \<le> tb k \<and> tb k \<le> tb (Suc k)"
    and "protocol = UDP \<or> protocol = WEBSOCKET"
  shows "\<exists>sent a' b'. send_all memory ta i ssrc datas a = Some (sent, a')
    \<and> dispatch_all clk tb j protocol addr (datagrams sent) b = Inr (received (rt_test_seq a) datas, b')
    \<and> list_all (\<lambda>d. length d \<le> 1400) (datagrams sent)"
  using assms(1-3)
proof (induction datas arbitrary: a b i j)
  case (Cons data datas)
  have len: "length data \<le> 1388" using Cons.prems(3) by simp
  have ti: "2500 \<le> ta i" "2500 \<le> tb j" "ta i \<le> ta (Suc i)" "tb j \<le> tb (Suc j)" using assms(5,6) by auto
  from Cons.prems(1) order_refl ti(1) assms(4) len obtain p ad a1 where a1:
    "OnSendPacket memory (ta i) ssrc data a = Some ([OnPacketSent (GetData p) ad], a1)"
    "rtp_compose memory ssrc (rt_test_seq a) (rt_timestamp a + 100) data = Some p"
    "sending (ta i) ssrc a1" "rt_test_seq a1 = rt_test_seq a + 1"
    by (rule sending_step)
  from Cons.prems(2) order_refl ti(2) a1(2) assms(4) len assms(7) obtain b1 where b1:
    "Dispatch clk tb (tb j) False protocol (GetData p) addr b
       = Inr ([OnPacketReceived (rt_test_seq a) data], b1)"
    "receiving (tb j) ssrc (rt_test_seq a + 1) b1"
    by (rule receiving_step)
  have "sending (ta (Suc i)) ssrc a1" "receiving (tb (Suc j)) ssrc (rt_test_seq a1) b1"
    using a1(3,4) b1(2) ti transport_inv_mono by (auto simp: sending_def receiving_def)
  from Cons.IH [OF this] Cons.prems(3) obtain sent a' b' where
    "send_all memory ta (Suc i) ssrc datas a1 = Some (sent, a')"
    "dispatch_all clk tb (Suc j) protocol addr (datagrams sent) b1 = Inr (received (rt_test_seq a1) datas, b')"
    "list_all (\<lambda>d. length d \<le> 1400) (datagrams sent)"
    by auto
  moreover have "length (GetData p) \<le> 1400"
    using rtp_compose_data(7) [OF a1(2) assms(4) len] by (simp add: GetData_def)
  ultimately show ?case using a1 b1 by simp
qed simp

text \<open>
  Claim C4. Two transports with the same stream in step, one sending and one receiving: a
  sequence of data given to the one, of any length and each piece of at most 1388 bytes, comes
  out of the other unchanged, in order and numbered consecutively modulo 65536, if the network
  delivers the datagrams in order.
\<close>

theorem data_is_delivered:
  assumes "sending (ta i) ssrc a" "receiving (tb j) ssrc (rt_test_seq a) b"
    and "list_all (\<lambda>data. length data \<le> 1388) datas" "length memory = 1400"
    and "\<And>k. 2500 \<le> ta k \<and> ta k \<le> ta (Suc k)" "\<And>k. 2500 \<le> tb k \<and> tb k \<le> tb (Suc k)"
    and "protocol = UDP \<or> protocol = WEBSOCKET"
  shows "\<exists>sent a' b'. send_all memory ta i ssrc datas a = Some (sent, a')
    \<and> dispatch_all clk tb j protocol addr (datagrams sent) b = Inr (received (rt_test_seq a) datas, b')"
  using data_arrives [OF assms] by blast

section \<open>Concrete instances\<close>

definition ip4_sample :: "string \<Rightarrow> int \<Rightarrow> u8 list option" where
  "ip4_sample ip port = (if ip = ''127.0.0.1'' then Some [127, 0, 0, 1] else None)"

definition sending_sample :: RtcTransport where
  "sending_sample =
     the (CreateRtpStream id id ip4_sample 7 StreamSender ''127.0.0.1'' 9000 False RtcTransport_init)"

definition receiving_sample :: RtcTransport where
  "receiving_sample =
     the (CreateRtpStream id id ip4_sample 7 StreamReceiver ''127.0.0.1'' 9000 False RtcTransport_init)"

lemma sample_params: "transport_params 7 = audio_params" "transport_params 7 = receiver_params"
  by (simp_all add: transport_params_def audio_params_def receiver_params_def)

lemma sending_sample_created:
  "CreateRtpStream id id ip4_sample 7 StreamSender ''127.0.0.1'' 9000 False RtcTransport_init
     = Some sending_sample"
  "sending_sample = RtcTransport_init\<lparr>rt_send_streams :=
     [(7, SetUdpRemoteTargetAddr [127, 0, 0, 1] sender_sample)]\<rparr>"
  using sender_sample_init
  by (simp_all add: sending_sample_def CreateRtpStream_def ip4_sample_def RtcTransport_init_def sample_params(1))

lemma receiving_sample_created:
  "CreateRtpStream id id ip4_sample 7 StreamReceiver ''127.0.0.1'' 9000 False RtcTransport_init
     = Some receiving_sample"
  "receiving_sample = RtcTransport_init\<lparr>rt_receive_streams :=
     [(7, SetUdpRemoteTargetAddr [127, 0, 0, 1] receiver_sample)]\<rparr>"
  using receiver_sample_init
  by (simp_all add: receiving_sample_def CreateRtpStream_def ip4_sample_def RtcTransport_init_def
      sample_params(2) kSendNackDelay_def)

lemma samples_reach: "transport_reach 0 sending_sample" "transport_reach 0 receiving_sample"
  using transport_reach.create [OF transport_reach.start _ _ sending_sample_created(1)]
    transport_reach.create [OF transport_reach.start _ _ receiving_sample_created(1)] by simp_all

lemma transport_streams_keyed_witness:
  "map (StreamGetSsrc \<circ> snd) (rt_send_streams sending_sample) = [7]"
  using transport_streams_keyed [OF samples_reach(1)] by (simp add: sending_sample_created(2))

lemma lone_bye: "RtcpPacket_Parse [128, 203, 0, 0] = None"
  by (simp add: RtcpPacket_Parse_def rtcp_parse_loop.simps rtcp_packet_len_def ch_length_def
      Get2Bytes_def IsRtcp_def sizeof_CommonHeader_def ch_version_def ch_packet_type_def
      rtcp_parse_one_def Type_of_def)

lemma transport_faults_witness:
  "Dispatch (\<lambda>_. 5000) (\<lambda>_. 5000) 5000 False UDP [128, 203, 0, 0] None receiving_sample
     = Inl UndefinedBehaviour
   \<and> OnSendPacket (replicate 1400 0) 5000 7 (replicate 1389 0) sending_sample = None
   \<and> SendRtcpPacket (\<lambda>_. 5000) sending_sample \<noteq> None"
proof -
  have "Dispatch (\<lambda>_. 5000) (\<lambda>_. 5000) 5000 False UDP [128, 203, 0, 0] None receiving_sample
      = Inl UndefinedBehaviour"
    using transport_faults [OF samples_reach(2), of 5000 "replicate 1400 0" id id ip4_sample 7 StreamSender "[]" 0 False
        "[]" "\<lambda>_. 5000" "\<lambda>_. 5000" False UDP "[128, 203, 0, 0]" None UndefinedBehaviour] lone_bye
    by (simp add: dispatch_fails_def transport_IsRtcp_def kRtcpMinHeaderLength_def kExpectedVersion_def)
  moreover have "OnSendPacket (replicate 1400 0) 5000 7 (replicate 1389 0) sending_sample = None
      \<and> SendRtcpPacket (\<lambda>_. 5000) sending_sample \<noteq> None"
    using transport_faults [OF samples_reach(1), of 5000 "replicate 1400 0" id id ip4_sample 7 StreamSender "[]" 0 False
        "replicate 1389 0" "\<lambda>_. 5000" "\<lambda>_. 5000" False UDP "[]" None UndefinedBehaviour]
    by (simp add: sending_sample_created(2) GetStreamSenderBySsrc_def RtcTransport_init_def)
  ultimately show ?thesis by simp
qed

lemma samples_ready: "sending 5000 7 sending_sample" "rt_test_seq sending_sample = 0"
  "receiving 6000 7 0 receiving_sample"
  using transport_inv_mono [OF transport_reach_inv [OF samples_reach(1)], of 5000] sender_sample_fields(3)
    transport_inv_mono [OF transport_reach_inv [OF samples_reach(2)], of 6000] receiver_sample_fields(1)
  by (simp_all add: sending_def receiving_def sending_sample_created(2) receiving_sample_created(2)
      GetStreamSenderBySsrc_def in_step_def SetUdpRemoteTargetAddr_def RtcTransport_init_def)

lemma data_is_delivered_witness:
  "\<exists>sent a b. send_all (replicate 1400 0) (\<lambda>_. 5000) 0 7 [[1, 2, 3], [4]] sending_sample = Some (sent, a)
     \<and> dispatch_all (\<lambda>_. 6000) (\<lambda>_. 6000) 0 UDP None (datagrams sent) receiving_sample
       = Inr ([OnPacketReceived 0 [1, 2, 3], OnPacketReceived 1 [4]], b)"
  using data_is_delivered [of "\<lambda>_. 5000" 0 7 sending_sample "\<lambda>_. 6000" 0 receiving_sample
      "[[1, 2, 3], [4]]" "replicate 1400 0" UDP "\<lambda>_. 6000" None] samples_ready
  by simp

end
