(* ===== verification/Heartbeat.thy ===== *)
theory Heartbeat
  imports Bytes
begin

text \<open>
  The class \<^verbatim>\<open>RTCP::HeartbeatPacket\<close> (\<^verbatim>\<open>core/include/rtc/rtcp/heart_beat_packet.h\<close>,
  \<^verbatim>\<open>core/src/rtc/rtcp/heart_beat_packet.cpp\<close>). The flags of the second byte are packed and
  unpacked with comparisons, as the code does it. A heartbeat that is persistent keeps its bytes.
\<close>

section \<open>State\<close>

datatype HbType = HB_REQ | HB_RES
datatype HbNetwork = HB_UDP | HB_TCP
datatype HbProtocol = HB_IPV4 | HB_IPV6

definition kMagicCookie :: "u8 list" where "kMagicCookie = [0x21, 0x12, 0xA4, 0x42]"
definition kPacketLength :: nat where "kPacketLength = 20"

fun HbType_code :: "HbType \<Rightarrow> u8" where
  "HbType_code HB_REQ = 0" | "HbType_code HB_RES = 1"
fun HbNetwork_code :: "HbNetwork \<Rightarrow> u8" where
  "HbNetwork_code HB_UDP = 1" | "HbNetwork_code HB_TCP = 2"
fun HbProtocol_code :: "HbProtocol \<Rightarrow> u8" where
  "HbProtocol_code HB_IPV4 = 0" | "HbProtocol_code HB_IPV6 = 1"

record HeartbeatPacket =
  hb_version :: int
  hb_ssrc :: u32
  hb_time :: u64
  hb_type :: HbType
  hb_network :: HbNetwork
  hb_protocol :: HbProtocol
  hb_persistent :: bool
  hb_packet :: "u8 list"

section \<open>Operations\<close>

definition IsHeartbeatPacket :: "u8 list \<Rightarrow> bool" where
  "IsHeartbeatPacket data \<longleftrightarrow> length data = 20 \<and> data ! 0 < 3
     \<and> data ! 4 = kMagicCookie ! 0 \<and> data ! 5 = kMagicCookie ! 1
     \<and> data ! 6 = kMagicCookie ! 2 \<and> data ! 7 = kMagicCookie ! 3"

text \<open>Whether there was room, and the bytes.\<close>

definition HeartbeatPacket_Create :: "HeartbeatPacket \<Rightarrow> u8 list \<Rightarrow> bool \<times> u8 list" where
  "HeartbeatPacket_Create h packet =
     (if length packet < kPacketLength then (False, packet)
      else
        (let flags = of_bool (hb_version h < 6) OR of_bool (HbNetwork_code (hb_network h) < 5)
               OR of_bool (HbProtocol_code (hb_protocol h) < 4) OR of_bool (HbType_code (hb_type h) < 3);
             d0 = packet[0 := 0, 1 := flags];
             d1 = Set2Bytes d0 2 (word_of_nat kPacketLength);
             d2 = take 4 d1 @ kMagicCookie @ drop 8 d1
         in (True, Set8Bytes (Set4Bytes d2 8 (hb_ssrc h)) 12 (hb_time h))))"

text \<open>\<open>mem\<close> is the memory of the capacity of the new buffer.\<close>

definition HeartbeatPacket_new ::
  "u8 list \<Rightarrow> int \<Rightarrow> u32 \<Rightarrow> u64 \<Rightarrow> HbType \<Rightarrow> HbNetwork \<Rightarrow> HbProtocol \<Rightarrow> bool \<Rightarrow> HeartbeatPacket" where
  "HeartbeatPacket_new mem version ssrc time type network protocol persistent =
     (let h = \<lparr>hb_version = version, hb_ssrc = ssrc, hb_time = time, hb_type = type,
               hb_network = network, hb_protocol = protocol, hb_persistent = persistent, hb_packet = []\<rparr>
      in if persistent then h\<lparr>hb_packet := take kPacketLength (snd (HeartbeatPacket_Create h mem))\<rparr> else h)"

definition HeartbeatPacket_Parse :: "u8 list \<Rightarrow> HeartbeatPacket option" where
  "HeartbeatPacket_Parse data =
     (if \<not> IsHeartbeatPacket data then None
      else if data ! 0 \<noteq> 0 then None
      else if unat (Get2Bytes data 2) \<noteq> kPacketLength then None
      else Some (HeartbeatPacket_new [] (of_bool (data ! 1 > 6)) (Get4Bytes data 8) (Get8Bytes data 12)
             (if of_bool (data ! 1 > 3) AND 1 = (0 :: int) then HB_REQ else HB_RES)
             (if of_bool (data ! 1 > 5) AND 1 = (0 :: int) then HB_UDP else HB_TCP)
             (if of_bool (data ! 1 > 4) AND 1 = (0 :: int) then HB_IPV4 else HB_IPV6) False))"

definition HeartbeatPacket_SetTime :: "u64 \<Rightarrow> HeartbeatPacket \<Rightarrow> HeartbeatPacket" where
  "HeartbeatPacket_SetTime time h =
     (let h1 = h\<lparr>hb_time := time\<rparr>
      in if hb_persistent h then h1\<lparr>hb_packet := Set8Bytes (hb_packet h) 12 time\<rparr> else h1)"

definition HeartbeatPacket_GetPacket :: "HeartbeatPacket \<Rightarrow> u8 list" where
  "HeartbeatPacket_GetPacket h = (if hb_persistent h then hb_packet h else [])"

section \<open>What crosses the network\<close>

lemma Create_bytes:
  assumes len: "length packet = 20" and d: "HeartbeatPacket_Create h packet = (True, d)"
  shows "length d = 20" "d ! 0 = 0" "d ! 1 = 1" "Get2Bytes d 2 = 20"
    "d ! 4 = 0x21" "d ! 5 = 0x12" "d ! 6 = 0xA4" "d ! 7 = 0x42"
    "Get4Bytes d 8 = hb_ssrc h" "Get8Bytes d 12 = hb_time h"
proof -
  let ?flags = "of_bool (hb_version h < 6) OR of_bool (HbNetwork_code (hb_network h) < 5)
    OR of_bool (HbProtocol_code (hb_protocol h) < 4) OR of_bool (HbType_code (hb_type h) < 3) :: u8"
  have "HbNetwork_code (hb_network h) < 5" by (cases "hb_network h") simp_all
  then have flags: "?flags = 1" by (cases "hb_version h < 6"; simp)
  define d1 where "d1 = Set2Bytes (packet[0 := 0, 1 := ?flags]) 2 20"
  define d2 where "d2 = take 4 d1 @ kMagicCookie @ drop 8 d1"
  have e: "d = Set8Bytes (Set4Bytes d2 8 (hb_ssrc h)) 12 (hb_time h)"
    using d len by (auto simp: HeartbeatPacket_Create_def Let_def kPacketLength_def d1_def d2_def)
  have l1: "length d1 = 20" using len by (simp add: d1_def)
  then have l2: "length d2 = 20" by (simp add: d2_def kMagicCookie_def)
  then show "length d = 20" by (simp add: e)
  have n: "d ! k = d2 ! k" if "k < 8" for k
    using that unfolding e by (subst be64.put_frame, simp, subst be32.put_frame) simp_all
  have n1: "d2 ! k = d1 ! k" if "k < 4" for k using that l1 by (simp add: d2_def nth_append)
  have "d1 ! 0 = 0" "d1 ! 1 = 1"
    unfolding d1_def flags by (subst be16.put_frame; simp add: len)+
  then show "d ! 0 = 0" "d ! 1 = 1" using n n1 by simp_all
  show "d ! 4 = 0x21" "d ! 5 = 0x12" "d ! 6 = 0xA4" "d ! 7 = 0x42"
    using n l1 by (simp_all add: d2_def nth_append kMagicCookie_def)
  have "Get2Bytes d 2 = Get2Bytes d1 2" by (rule be16.get_local) (use n n1 in simp)
  also have "\<dots> = 20" unfolding d1_def by (rule be16.get_put) (simp_all add: len)
  finally show "Get2Bytes d 2 = 20" .
  have "Get4Bytes d 8 = Get4Bytes (Set4Bytes d2 8 (hb_ssrc h)) 8"
    unfolding e by (rule be64.put_frame [THEN be32.get_local]) simp
  also have "\<dots> = hb_ssrc h" by (rule be32.get_put) (simp_all add: l2)
  finally show "Get4Bytes d 8 = hb_ssrc h" .
  show "Get8Bytes d 12 = hb_time h" unfolding e by (rule be64.get_put) (simp_all add: l2)
qed

text \<open>
  A heartbeat that is written and parsed keeps its source and its time, but nothing
  else: whatever its version, network, protocol and type were, it is read as version 0, UDP, IPv4
  and a request.
\<close>

lemma heartbeat_roundtrip:
  assumes len: "length packet = 20" and d: "HeartbeatPacket_Create h packet = (True, d)"
  shows "\<exists>p. HeartbeatPacket_Parse d = Some p \<and> hb_ssrc p = hb_ssrc h \<and> hb_time p = hb_time h
    \<and> hb_version p = 0 \<and> hb_network p = HB_UDP \<and> hb_protocol p = HB_IPV4 \<and> hb_type p = HB_REQ"
  using Create_bytes [OF assms]
  by (simp add: HeartbeatPacket_Parse_def IsHeartbeatPacket_def kMagicCookie_def kPacketLength_def
      HeartbeatPacket_new_def Let_def)

lemma persistent_time:
  assumes "length mem = 20" "hb_persistent h" "hb_packet h = snd (HeartbeatPacket_Create h mem)"
  shows "hb_packet (HeartbeatPacket_SetTime time h) = snd (HeartbeatPacket_Create (h\<lparr>hb_time := time\<rparr>) mem)"
proof -
  have "Set8Bytes (Set8Bytes d 12 v) 12 w = Set8Bytes d 12 w" for d v w
    by (simp add: Set8Bytes_def list_update_swap)
  then show ?thesis using assms
    by (simp add: HeartbeatPacket_SetTime_def HeartbeatPacket_Create_def Let_def kPacketLength_def)
qed

section \<open>Concrete instance\<close>

lemma heartbeat_roundtrip_witness:
  "\<exists>p. HeartbeatPacket_Parse (snd (HeartbeatPacket_Create
       (HeartbeatPacket_new [] 2 7 9 HB_RES HB_TCP HB_IPV6 False) (replicate 20 0))) = Some p
     \<and> hb_ssrc p = 7 \<and> hb_time p = 9 \<and> hb_type p = HB_REQ"
proof -
  let ?h = "HeartbeatPacket_new [] 2 7 9 HB_RES HB_TCP HB_IPV6 False"
  have "HeartbeatPacket_Create ?h (replicate 20 0) = (True, snd (HeartbeatPacket_Create ?h (replicate 20 0)))"
    by (simp add: HeartbeatPacket_Create_def kPacketLength_def Let_def)
  from heartbeat_roundtrip [OF _ this] show ?thesis by (auto simp: HeartbeatPacket_new_def)
qed

end
