(* ===== verification/Tcp_Buffer.thy ===== *)
theory Tcp_Buffer
  imports Bytes "HOL-Library.Monad_Syntax"
begin

text \<open>
  The class \<^verbatim>\<open>CoreIO::Buffer\<close> (\<^verbatim>\<open>core/include/io/tcp_buffer.h\<close>): bytes that are appended at one end
  and retrieved at the other, in a vector with two indices. A failed assertion is the value
  \<^term>\<open>None\<close>. The indices are natural numbers: a vector is shorter than \<open>2\<^sup>6\<^sup>3\<close> bytes, so sums do not
  wrap.
\<close>

section \<open>State and operations\<close>

record TcpBuffer =
  tb_buffer :: "u8 list"
  tb_reader_index :: nat
  tb_writer_index :: nat

definition kCheapPrepend :: nat where "kCheapPrepend = 8"
definition kInitialSize :: nat where "kInitialSize = 65536 - kCheapPrepend"

definition TcpBuffer_init :: "nat \<Rightarrow> TcpBuffer" where
  "TcpBuffer_init initial_size =
     \<lparr>tb_buffer = replicate (kCheapPrepend + initial_size) 0, tb_reader_index = kCheapPrepend,
      tb_writer_index = kCheapPrepend\<rparr>"

definition readableBytes :: "TcpBuffer \<Rightarrow> nat" where
  "readableBytes b = tb_writer_index b - tb_reader_index b"

definition writableBytes :: "TcpBuffer \<Rightarrow> nat" where
  "writableBytes b = length (tb_buffer b) - tb_writer_index b"

definition prependableBytes :: "TcpBuffer \<Rightarrow> nat" where "prependableBytes b = tb_reader_index b"

text \<open>The bytes from the pointer that \<^verbatim>\<open>peek\<close> returns.\<close>

definition peek :: "TcpBuffer \<Rightarrow> u8 list" where "peek b = drop (tb_reader_index b) (tb_buffer b)"

definition retrieveAll :: "TcpBuffer \<Rightarrow> TcpBuffer" where
  "retrieveAll b = b\<lparr>tb_reader_index := kCheapPrepend, tb_writer_index := kCheapPrepend\<rparr>"

definition retrieve :: "nat \<Rightarrow> TcpBuffer \<Rightarrow> TcpBuffer option" where
  "retrieve len b =
     (if \<not> len \<le> readableBytes b then None
      else if len < readableBytes b then Some (b\<lparr>tb_reader_index := tb_reader_index b + len\<rparr>)
      else Some (retrieveAll b))"

definition hasWritten :: "nat \<Rightarrow> TcpBuffer \<Rightarrow> TcpBuffer option" where
  "hasWritten len b =
     (if len \<le> writableBytes b then Some (b\<lparr>tb_writer_index := tb_writer_index b + len\<rparr>) else None)"

definition peekUint16 :: "TcpBuffer \<Rightarrow> u16 option" where
  "peekUint16 b =
     (if 2 \<le> readableBytes b
      then Some (ucast (peek b ! 1) OR push_bit 8 (ucast (peek b ! 0))) else None)"

definition makeSpace :: "nat \<Rightarrow> TcpBuffer \<Rightarrow> TcpBuffer option" where
  "makeSpace len b =
     (if writableBytes b + prependableBytes b < len + kCheapPrepend
      then (let n = tb_writer_index b + len
            in Some (b\<lparr>tb_buffer := take n (tb_buffer b) @ replicate (n - length (tb_buffer b)) 0\<rparr>))
      else if \<not> kCheapPrepend < tb_reader_index b then None
      else (let readable = readableBytes b;
                moved = take readable (peek b)
            in Some (b\<lparr>tb_buffer := take kCheapPrepend (tb_buffer b) @ moved
                         @ drop (kCheapPrepend + readable) (tb_buffer b),
                       tb_reader_index := kCheapPrepend, tb_writer_index := kCheapPrepend + readable\<rparr>)))"

definition ensureWritableBytes :: "nat \<Rightarrow> TcpBuffer \<Rightarrow> TcpBuffer option" where
  "ensureWritableBytes len b =
     do { b1 \<leftarrow> (if writableBytes b < len then makeSpace len b else Some b);
          if writableBytes b1 \<ge> len then Some b1 else None }"

definition tb_append :: "u8 list \<Rightarrow> TcpBuffer \<Rightarrow> TcpBuffer option" where
  "tb_append data b =
     do { b1 \<leftarrow> ensureWritableBytes (length data) b;
          hasWritten (length data)
            (b1\<lparr>tb_buffer := take (tb_writer_index b1) (tb_buffer b1) @ data
                  @ drop (tb_writer_index b1 + length data) (tb_buffer b1)\<rparr>) }"

section \<open>The buffer as a queue of bytes\<close>

definition tb_inv :: "TcpBuffer \<Rightarrow> bool" where
  "tb_inv b \<longleftrightarrow> kCheapPrepend \<le> tb_reader_index b \<and> tb_reader_index b \<le> tb_writer_index b
     \<and> tb_writer_index b \<le> length (tb_buffer b)"

definition tb_contents :: "TcpBuffer \<Rightarrow> u8 list" where "tb_contents b = take (readableBytes b) (peek b)"

lemmas tb_defs = readableBytes_def writableBytes_def prependableBytes_def peek_def kCheapPrepend_def

lemma init_works [simp]: "tb_inv (TcpBuffer_init n)" "tb_contents (TcpBuffer_init n) = []"
  by (simp_all add: TcpBuffer_init_def tb_inv_def tb_contents_def tb_defs)

lemma length_contents: "tb_inv b \<Longrightarrow> length (tb_contents b) = readableBytes b"
  by (auto simp: tb_inv_def tb_contents_def tb_defs min_def)

lemma contents_alt: "tb_contents b = drop (tb_reader_index b) (take (tb_writer_index b) (tb_buffer b))"
  by (simp add: tb_contents_def tb_defs drop_take)

lemma makeSpace_works:
  assumes "tb_inv b" "writableBytes b < len"
  shows "\<exists>b'. makeSpace len b = Some b' \<and> tb_inv b' \<and> len \<le> writableBytes b' \<and> tb_contents b' = tb_contents b"
proof (cases "writableBytes b + prependableBytes b < len + kCheapPrepend")
  case True
  then show ?thesis using assms
    by (auto simp: makeSpace_def Let_def tb_inv_def tb_contents_def tb_defs drop_take min_def)
next
  case False
  then have "kCheapPrepend < tb_reader_index b" using assms by (simp add: tb_inv_def tb_defs)
  with False assms show ?thesis
    by (auto simp: makeSpace_def Let_def tb_inv_def tb_contents_def tb_defs drop_take min_def)
qed

lemma ensure_works:
  assumes "tb_inv b"
  shows "\<exists>b'. ensureWritableBytes len b = Some b' \<and> tb_inv b' \<and> len \<le> writableBytes b' \<and> tb_contents b' = tb_contents b"
  using assms makeSpace_works [OF assms, of len] by (auto simp: ensureWritableBytes_def)

lemma tb_append_works:
  assumes "tb_inv b"
  shows "\<exists>b'. tb_append data b = Some b' \<and> tb_inv b' \<and> tb_contents b' = tb_contents b @ data"
proof -
  from ensure_works [OF assms, of "length data"] obtain b1 where b1: "ensureWritableBytes (length data) b = Some b1"
    "tb_inv b1" "length data \<le> writableBytes b1" "tb_contents b1 = tb_contents b" by blast
  let ?b = "b1\<lparr>tb_buffer := take (tb_writer_index b1) (tb_buffer b1) @ data
      @ drop (tb_writer_index b1 + length data) (tb_buffer b1), tb_writer_index := tb_writer_index b1 + length data\<rparr>"
  have "tb_append data b = Some ?b"
    using b1 by (simp add: tb_append_def hasWritten_def tb_inv_def tb_defs)
  moreover have "tb_inv ?b" using b1(2,3) by (simp add: tb_inv_def tb_defs)
  moreover have "tb_contents ?b = tb_contents b1 @ data"
    using b1(2,3) by (simp add: tb_inv_def contents_alt tb_defs)
  ultimately show ?thesis using b1(4) by simp
qed

lemma retrieve_works:
  assumes "tb_inv b"
  shows "retrieve len b = None \<longleftrightarrow> length (tb_contents b) < len"
    and "retrieve len b = Some b' \<Longrightarrow> tb_inv b' \<and> tb_contents b' = drop len (tb_contents b)"
  using assms length_contents [OF assms]
  by (auto simp: retrieve_def retrieveAll_def tb_inv_def tb_contents_def tb_defs drop_take add.commute split: if_splits)

section \<open>Use of the buffer\<close>

datatype tb_op = Append "u8 list" | Retrieve nat | RetrieveAll

fun tb_exec :: "tb_op \<Rightarrow> TcpBuffer \<Rightarrow> TcpBuffer option" where
  "tb_exec (Append data) b = tb_append data b"
| "tb_exec (Retrieve len) b = retrieve len b"
| "tb_exec RetrieveAll b = Some (retrieveAll b)"

fun tb_run :: "tb_op list \<Rightarrow> TcpBuffer \<Rightarrow> TcpBuffer option" where
  "tb_run [] b = Some b"
| "tb_run (x # xs) b = Option.bind (tb_exec x b) (tb_run xs)"

text \<open>The specification: a queue of bytes.\<close>

fun queue_run :: "tb_op list \<Rightarrow> u8 list \<Rightarrow> u8 list option" where
  "queue_run [] q = Some q"
| "queue_run (Append data # xs) q = queue_run xs (q @ data)"
| "queue_run (Retrieve len # xs) q = (if len \<le> length q then queue_run xs (drop len q) else None)"
| "queue_run (RetrieveAll # xs) q = queue_run xs []"

lemma tb_run_queue:
  "tb_inv b \<Longrightarrow> map_option tb_contents (tb_run xs b) = queue_run xs (tb_contents b)"
proof (induction xs arbitrary: b)
  case (Cons x xs)
  show ?case
  proof (cases x)
    case (Append data)
    from tb_append_works [OF Cons.prems, of data] obtain b' where
      "tb_append data b = Some b'" "tb_inv b'" "tb_contents b' = tb_contents b @ data" by blast
    then show ?thesis using Cons.IH [of b'] Append by simp
  next
    case (Retrieve len)
    show ?thesis
    proof (cases "retrieve len b")
      case None
      then show ?thesis using retrieve_works(1) [OF Cons.prems, of len] Retrieve by simp
    next
      case (Some b')
      then show ?thesis
        using retrieve_works(1) [OF Cons.prems, of len] retrieve_works(2) [OF Cons.prems Some] Cons.IH [of b'] Retrieve
        by simp
    qed
  next
    case RetrieveAll
    have "tb_inv (retrieveAll b)" "tb_contents (retrieveAll b) = []"
      using Cons.prems by (simp_all add: retrieveAll_def tb_inv_def tb_contents_def tb_defs)
    then show ?thesis using Cons.IH [of "retrieveAll b"] RetrieveAll by simp
  qed
qed simp

lemma tb_run_inv: "tb_inv b \<Longrightarrow> tb_run xs b = Some b' \<Longrightarrow> tb_inv b'"
proof (induction xs arbitrary: b)
  case (Cons x xs)
  from Cons.prems(2) obtain b1 where b1: "tb_exec x b = Some b1" "tb_run xs b1 = Some b'"
    by (auto simp: bind_eq_Some_conv)
  have "tb_inv b1"
  proof (cases x)
    case (Append data)
    then show ?thesis using b1(1) tb_append_works [OF Cons.prems(1), of data] by auto
  next
    case (Retrieve len)
    then show ?thesis using b1(1) retrieve_works(2) [OF Cons.prems(1)] by simp
  next
    case RetrieveAll
    then show ?thesis using b1(1) Cons.prems(1) by (auto simp: retrieveAll_def tb_inv_def kCheapPrepend_def)
  qed
  then show ?case using Cons.IH b1(2) by blast
qed simp

text \<open>
  The buffer is a queue of bytes: whatever is appended and retrieved, with whatever initial
  size, an assertion fails exactly when more is retrieved than is there, and otherwise the readable
  bytes are those of the queue; moving and growing are not observable.
\<close>

lemma tcp_buffer_is_a_queue:
  "map_option tb_contents (tb_run xs (TcpBuffer_init n)) = queue_run xs []"
  using tb_run_queue [of "TcpBuffer_init n" xs] by simp

text \<open>
  A number in network byte order at the front of the contents is read back, whatever was
  done to the buffer before.
\<close>

lemma peekUint16_reads:
  assumes "tb_run xs (TcpBuffer_init n) = Some b"
    and "tb_contents b = ucast (drop_bit 8 v) # ucast v # rest"
  shows "peekUint16 b = Some v"
proof -
  have inv: "tb_inv b" using tb_run_inv [OF init_works(1) assms(1)] .
  have r: "2 \<le> readableBytes b" using length_contents [OF inv] assms(2) by simp
  have "take (readableBytes b) (peek b) ! 0 = ucast (drop_bit 8 v)"
    "take (readableBytes b) (peek b) ! 1 = ucast v"
    using assms(2) by (simp_all add: tb_contents_def)
  then have "peek b ! 0 = ucast (drop_bit 8 v)" "peek b ! 1 = ucast v" using r by simp_all
  then show ?thesis using r join16 [of v] by (simp add: peekUint16_def)
qed

lemma peekUint16_reads_witness:
  "Option.bind (tb_run [Append [9, 1, 44, 7], Retrieve 1] (TcpBuffer_init 2)) peekUint16 = Some 300"
proof -
  have "queue_run [Append [9, 1, 44, 7], Retrieve 1] [] = Some [1, 44, 7]" by simp
  then have "map_option tb_contents (tb_run [Append [9, 1, 44, 7], Retrieve 1] (TcpBuffer_init 2)) = Some [1, 44, 7]"
    using tb_run_queue [OF init_works(1), of "[Append [9, 1, 44, 7], Retrieve 1]" 2] by (simp del: tb_run.simps)
  then obtain b where b: "tb_run [Append [9, 1, 44, 7], Retrieve 1] (TcpBuffer_init 2) = Some b"
    "tb_contents b = [1, 44, 7]"
    by (auto simp del: tb_run.simps)
  have "[1, 44, 7] = ucast (drop_bit 8 (300 :: u16)) # ucast (300 :: u16) # [7 :: u8]" by simp
  from peekUint16_reads [OF b(1) trans [OF b(2) this]] b(1) show ?thesis by (simp del: tb_run.simps)
qed

end
