(* ===== verification/Packet_Queue.thy ===== *)
theory Packet_Queue
  imports Std_Tree
begin

text \<open>
  The class \<^verbatim>\<open>ThreadRtpPacketQueue\<close> and the thread around it, \<^verbatim>\<open>CallBackQueueThread\<close>
  (\<^verbatim>\<open>core/include/rtc/callback_queue_thread.h\<close>, \<^verbatim>\<open>core/src/rtc/callback_queue_thread.cpp\<close>): received
  packets are put in order by an extended sequence number and handed to the listener. The two
  condition variables are the state of the consumer: it waits for a packet, then for the
  notice that the next packet in order is there, which is lost on a consumer that does not wait for it.
\<close>

section \<open>The queue\<close>

record ThreadRtpPacketQueue =
  pq_packet_map :: "(u32 \<times> u8 list) list"
  pq_is_start :: bool
  pq_cycle :: u32
  pq_max_seq :: u16
  pq_waite_pop_seq :: u32

definition ThreadRtpPacketQueue_init :: ThreadRtpPacketQueue where
  "ThreadRtpPacketQueue_init =
     \<lparr>pq_packet_map = [], pq_is_start = True, pq_cycle = 0, pq_max_seq = 0, pq_waite_pop_seq = 0\<rparr>"

definition ResetPopSeq :: "ThreadRtpPacketQueue \<Rightarrow> ThreadRtpPacketQueue" where
  "ResetPopSeq q = q\<lparr>pq_waite_pop_seq := 0\<rparr>"

text \<open>The result, and whether the reference \<^verbatim>\<open>has_routing\<close> is set.\<close>

definition IsLargeSeq :: "u16 \<Rightarrow> u16 \<Rightarrow> bool \<times> bool" where
  "IsLargeSeq small big =
     (if big > small
      then (if unat big - unat small > 65535 div 2 then (False, False) else (True, False))
      else (if unat small - unat big > 65535 div 2 then (True, True) else (False, False)))"

definition FindContinuousPacket :: "ThreadRtpPacketQueue \<Rightarrow> bool" where
  "FindContinuousPacket q =
     (case pq_packet_map q of [] \<Rightarrow> False | (k, _) # _ \<Rightarrow> k = pq_waite_pop_seq q)"

text \<open>The extended number a packet gets, and the state for the next one.\<close>

definition number_packet :: "u16 \<Rightarrow> ThreadRtpPacketQueue \<Rightarrow> u32 \<times> ThreadRtpPacketQueue" where
  "number_packet seq q =
     (let q1 = (if pq_is_start q then q\<lparr>pq_max_seq := seq, pq_is_start := False\<rparr> else q);
          (large, has_routing) = IsLargeSeq (pq_max_seq q1) seq;
          q2 = (if large then q1\<lparr>pq_max_seq := seq\<rparr> else q1);
          q3 = (if has_routing then q2\<lparr>pq_cycle := pq_cycle q2 + 1\<rparr> else q2)
      in (push_bit 16 (pq_cycle q3) + ucast seq, q3))"

text \<open>The result tells whether the notice is given.\<close>

definition PacketQueue_Push ::
  "u16 \<Rightarrow> u8 list \<Rightarrow> ThreadRtpPacketQueue \<Rightarrow> bool \<times> ThreadRtpPacketQueue" where
  "PacketQueue_Push seq packet_buffer q =
     (let (large_seq, q1) = number_packet seq q;
          q2 = q1\<lparr>pq_packet_map := tree_emplace (<) fst (large_seq, packet_buffer) (pq_packet_map q1)\<rparr>
      in (FindContinuousPacket q2, q2))"

text \<open>What \<^verbatim>\<open>Pop\<close> does once the consumer has been woken.\<close>

fun pop_loop :: "u32 \<Rightarrow> (u32 \<times> u8 list) list \<Rightarrow> u8 list list \<times> u32 \<times> (u32 \<times> u8 list) list" where
  "pop_loop waite [] = ([], waite, [])"
| "pop_loop waite ((k, b) # m) =
     (if waite = k then (let (bs, waite', m') = pop_loop (waite + 1) m in (b # bs, waite', m'))
      else ([], waite, (k, b) # m))"

definition PacketQueue_Pop :: "ThreadRtpPacketQueue \<Rightarrow> u8 list list \<times> ThreadRtpPacketQueue" where
  "PacketQueue_Pop q =
     (let (bs, waite, m) = pop_loop (pq_waite_pop_seq q) (pq_packet_map q)
      in (bs, q\<lparr>pq_waite_pop_seq := waite, pq_packet_map := m\<rparr>))"

section \<open>The thread\<close>

datatype consumer = AwaitPacket | AwaitOrder | Notified

record CallBackQueueThread =
  cb_queue :: ThreadRtpPacketQueue
  cb_wait_pop_frames :: u16
  cb_consumer :: consumer

definition CallBackQueueThread_init :: CallBackQueueThread where
  "CallBackQueueThread_init =
     \<lparr>cb_queue = ThreadRtpPacketQueue_init, cb_wait_pop_frames = 0, cb_consumer = AwaitPacket\<rparr>"

definition notify_order :: "bool \<Rightarrow> CallBackQueueThread \<Rightarrow> CallBackQueueThread" where
  "notify_order notice c =
     (if notice \<and> cb_consumer c = AwaitOrder then c\<lparr>cb_consumer := Notified\<rparr> else c)"

definition CallBack_ReceiveRtpPacket :: "u16 \<Rightarrow> u8 list \<Rightarrow> CallBackQueueThread \<Rightarrow> CallBackQueueThread" where
  "CallBack_ReceiveRtpPacket seq buffer c =
     (let (notice, q) = PacketQueue_Push seq buffer (cb_queue c)
      in notify_order notice
           (c\<lparr>cb_queue := q, cb_wait_pop_frames := cb_wait_pop_frames c + 1\<rparr>))"

definition CallBack_OnTimer :: "CallBackQueueThread \<Rightarrow> CallBackQueueThread" where
  "CallBack_OnTimer c = notify_order (FindContinuousPacket (cb_queue c)) c"

definition ResetFrameSequence :: "CallBackQueueThread \<Rightarrow> CallBackQueueThread" where
  "ResetFrameSequence c = c\<lparr>cb_queue := ResetPopSeq (cb_queue c)\<rparr>"

text \<open>
  One step of \<^verbatim>\<open>TryCallData\<close>: the packets it hands to the listener. A consumer that waits
  for a packet goes on when there is one, one that waits for the notice only by the notice, or
  when \<open>spurious\<close>, as the standard allows.
\<close>

definition TryCallData_step :: "bool \<Rightarrow> CallBackQueueThread \<Rightarrow> u8 list list \<times> CallBackQueueThread" where
  "TryCallData_step spurious c =
     (case cb_consumer c of
        AwaitPacket \<Rightarrow>
          (if pq_packet_map (cb_queue c) = [] then ([], c) else ([], c\<lparr>cb_consumer := AwaitOrder\<rparr>))
      | AwaitOrder \<Rightarrow> (if spurious then ([], c\<lparr>cb_consumer := Notified\<rparr>) else ([], c))
      | Notified \<Rightarrow>
          (let (bs, q) = PacketQueue_Pop (cb_queue c)
           in (bs, c\<lparr>cb_queue := q, cb_consumer := AwaitPacket,
                     cb_wait_pop_frames := cb_wait_pop_frames c - word_of_nat (length bs)\<rparr>)))"

datatype callback_event = Received u16 "u8 list" | TimerTick | ThreadStep bool

definition callback_step :: "callback_event \<Rightarrow> CallBackQueueThread \<Rightarrow> u8 list list \<times> CallBackQueueThread" where
  "callback_step e c =
     (case e of
        Received seq buffer \<Rightarrow> ([], CallBack_ReceiveRtpPacket seq buffer c)
      | TimerTick \<Rightarrow> ([], CallBack_OnTimer c)
      | ThreadStep spurious \<Rightarrow> TryCallData_step spurious c)"

text \<open>Any interleaving of the network thread, the timer and the consumer.\<close>

fun callback_run :: "callback_event list \<Rightarrow> CallBackQueueThread \<Rightarrow> u8 list list \<times> CallBackQueueThread" where
  "callback_run [] c = ([], c)"
| "callback_run (e # es) c =
     (let (out, c1) = callback_step e c; (outs, c2) = callback_run es c1 in (out @ outs, c2))"

section \<open>The map of packets\<close>

interpretation u32_keys: key_order "(<) :: u32 \<Rightarrow> u32 \<Rightarrow> bool" UNIV
  by unfold_locales auto

abbreviation packets_sorted :: "(u32 \<times> u8 list) list \<Rightarrow> bool" where
  "packets_sorted m \<equiv> sorted_tree (<) UNIV fst m"

lemma packets_sorted_Cons:
  "packets_sorted ((k, b) # m) \<longleftrightarrow> (\<forall>e\<in>set m. k < fst e) \<and> packets_sorted m"
  by (simp add: sorted_tree_Cons)

lemma map_of_emplace:
  "packets_sorted m \<Longrightarrow> map_of (tree_emplace (<) fst (k, b) m) k' =
    (if k' = k \<and> map_of m k = None then Some b else map_of m k')"
proof (induction m)
  case (Cons x m)
  obtain y c where x: "x = (y, c)" by fastforce
  have s: "packets_sorted m" "\<And>e. e \<in> set m \<Longrightarrow> y < fst e"
    using Cons.prems by (auto simp: x packets_sorted_Cons)
  have "map_of m k = None" if "k < y"
    using s(2) that by (force simp: map_of_eq_None_iff)
  then show ?case using Cons.IH [OF s(1)] by (auto simp: x)
qed simp

lemma number_packet_rest [simp]:
  "pq_packet_map (snd (number_packet seq q)) = pq_packet_map q"
  "pq_waite_pop_seq (snd (number_packet seq q)) = pq_waite_pop_seq q"
  by (simp_all add: number_packet_def Let_def split_beta)

lemma PacketQueue_Push_map:
  "pq_packet_map (snd (PacketQueue_Push seq b q)) =
     tree_emplace (<) fst (fst (number_packet seq q), b) (pq_packet_map q)"
  "pq_waite_pop_seq (snd (PacketQueue_Push seq b q)) = pq_waite_pop_seq q"
  by (simp_all add: PacketQueue_Push_def Let_def split_beta)

section \<open>What the listener gets\<close>

text \<open>The specification: every received packet with its extended number, in the order of arrival.\<close>

fun numbered :: "ThreadRtpPacketQueue \<Rightarrow> callback_event list \<Rightarrow> (u32 \<times> u8 list) list" where
  "numbered q [] = []"
| "numbered q (Received seq b # es) =
     (let (k, q') = number_packet seq q in (k, b) # numbered q' es)"
| "numbered q (_ # es) = numbered q es"

text \<open>Numbering depends on three fields only.\<close>

definition same_numbering :: "ThreadRtpPacketQueue \<Rightarrow> ThreadRtpPacketQueue \<Rightarrow> bool" where
  "same_numbering q q' \<longleftrightarrow>
     pq_is_start q = pq_is_start q' \<and> pq_cycle q = pq_cycle q' \<and> pq_max_seq q = pq_max_seq q'"

lemma same_numbering_packet:
  "same_numbering q q' \<Longrightarrow> fst (number_packet seq q) = fst (number_packet seq q')
     \<and> same_numbering (snd (number_packet seq q)) (snd (number_packet seq q'))"
  by (simp add: same_numbering_def number_packet_def Let_def split_beta)

lemma same_numbering_numbered: "same_numbering q q' \<Longrightarrow> numbered q es = numbered q' es"
proof (induction es arbitrary: q q')
  case (Cons e es)
  then show ?case using same_numbering_packet [of q q']
    by (cases e) (auto simp: split_beta Let_def)
qed simp

text \<open>
  What holds at any time between the packets received so far, \<open>hist\<close>, those delivered, and the
  queue: the next number is the number of packets delivered, the delivered ones are the first
  received with their number, and the map holds the first received of all later numbers.
\<close>

definition queue_inv :: "(u32 \<times> u8 list) list \<Rightarrow> u8 list list \<Rightarrow> ThreadRtpPacketQueue \<Rightarrow> bool" where
  "queue_inv hist out q \<longleftrightarrow> packets_sorted (pq_packet_map q)
     \<and> length out < 2 ^ 32 \<and> pq_waite_pop_seq q = word_of_nat (length out)
     \<and> (\<forall>i < length out. map_of hist (word_of_nat i) = Some (out ! i))
     \<and> (\<forall>k. length out \<le> unat k \<longrightarrow> map_of (pq_packet_map q) k = map_of hist k)"

lemma queue_inv_init: "queue_inv [] [] ThreadRtpPacketQueue_init"
  by (simp add: queue_inv_def ThreadRtpPacketQueue_init_def)

lemma queue_inv_Push:
  assumes "queue_inv hist out q"
  shows "queue_inv (hist @ [(fst (number_packet seq q), b)]) out (snd (PacketQueue_Push seq b q))"
proof -
  let ?k = "fst (number_packet seq q)"
  have s: "packets_sorted (pq_packet_map q)" using assms by (simp add: queue_inv_def)
  have "packets_sorted (tree_emplace (<) fst (?k, b) (pq_packet_map q))"
    using s by (rule u32_keys.emplace_sorted) simp
  moreover have "map_of (tree_emplace (<) fst (?k, b) (pq_packet_map q)) k = map_of (hist @ [(?k, b)]) k"
    if "length out \<le> unat k" for k
    using assms that unfolding map_of_emplace [OF s]
    by (auto simp: queue_inv_def map_add_def split: option.splits)
  ultimately show ?thesis using assms
    by (simp add: queue_inv_def PacketQueue_Push_map map_add_def)
qed

lemma word_of_nat_inj32:
  assumes "i < 2 ^ 32" "j < 2 ^ 32" "word_of_nat i = (word_of_nat j :: u32)"
  shows "i = j"
proof -
  have "unat (word_of_nat i :: u32) = i" "unat (word_of_nat j :: u32) = j"
    using assms(1,2) by (intro unat_of_nat_32; simp)+
  then show ?thesis using assms(3) by metis
qed

lemma numbers_bound:
  assumes "\<And>i. i < n \<Longrightarrow> map_of hist (word_of_nat i :: u32) \<noteq> None" "n \<le> 2 ^ 32"
  shows "n \<le> length hist"
proof -
  have "inj_on (\<lambda>i. word_of_nat i :: u32) {..<n}"
  proof (rule inj_onI)
    fix i j assume "i \<in> {..<n}" "j \<in> {..<n}" "word_of_nat i = (word_of_nat j :: u32)"
    then show "i = j" using word_of_nat_inj32 [of i j] assms(2) by simp
  qed
  then have "n = card ((\<lambda>i. word_of_nat i :: u32) ` {..<n})" by (simp add: card_image)
  also have "(\<lambda>i. word_of_nat i :: u32) ` {..<n} \<subseteq> fst ` set hist"
    using assms(1) by (auto simp: map_of_eq_None_iff)
  then have "card ((\<lambda>i. word_of_nat i :: u32) ` {..<n}) \<le> card (fst ` set hist)" by (intro card_mono) auto
  also have "card (fst ` set hist) \<le> length hist" by (metis card_image_le card_length finite_set order_trans)
  finally show ?thesis .
qed

lemma queue_inv_pop_loop:
  assumes "queue_inv hist out q" "length hist < 2 ^ 32"
    and "pop_loop (pq_waite_pop_seq q) (pq_packet_map q) = (bs, waite, m)"
  shows "queue_inv hist (out @ bs) (q\<lparr>pq_waite_pop_seq := waite, pq_packet_map := m\<rparr>)"
  using assms(1,3)
proof (induction "pq_waite_pop_seq q" "pq_packet_map q" arbitrary: out q bs rule: pop_loop.induct)
  case 1
  then show ?case using 1 by (auto simp: queue_inv_def)
next
  case (2 k b m1)
  show ?case
  proof (cases "pq_waite_pop_seq q = k")
    case False
    then have "bs = []" "waite = pq_waite_pop_seq q" "m = pq_packet_map q"
      using 2(2,4) by (auto simp flip: 2(2))
    then show ?thesis using 2(3) by (simp add: queue_inv_def)
  next
    case True
    let ?q = "q\<lparr>pq_waite_pop_seq := k + 1, pq_packet_map := m1\<rparr>"
    obtain bs' where bs': "pop_loop (k + 1) m1 = (bs', waite, m)" "bs = b # bs'"
      using 2(4) True by (auto simp flip: 2(2) split: prod.splits)
    have k: "k = word_of_nat (length out)" "unat k = length out"
      using 2(3) True unat_of_nat_32 [of "length out"] by (auto simp: queue_inv_def)
    have map: "map_of (pq_packet_map q) k' = map_of hist k'" if "length out \<le> unat k'" for k'
      using 2(3) that unfolding queue_inv_def by blast
    have b: "map_of hist k = Some b" using map [of k] k(2) by (simp flip: 2(2))
    have "map_of hist (word_of_nat i) \<noteq> None" if "i < Suc (length out)" for i
      using 2(3) that b k(1) by (cases "i = length out") (auto simp: queue_inv_def)
    from numbers_bound [OF this] have "Suc (length out) \<le> length hist"
      using 2(3) by (simp add: queue_inv_def)
    then have len: "Suc (length out) < 2 ^ 32" using assms(2) by simp
    have "queue_inv hist (out @ [b]) ?q"
    proof -
      have "map_of m1 k' = map_of hist k'" if "Suc (length out) \<le> unat k'" for k'
        using map [of k'] that k(2) by (auto simp flip: 2(2) split: if_splits)
      moreover have "packets_sorted m1" using 2(3) by (simp add: queue_inv_def packets_sorted_Cons flip: 2(2))
      ultimately show ?thesis using 2(3) len b k(1)
        by (auto simp: queue_inv_def nth_append less_Suc_eq)
    qed
    from 2(1) [OF True, of ?q "out @ [b]" bs'] this bs' True show ?thesis by simp
  qed
qed

lemma PacketQueue_Pop_loop:
  "PacketQueue_Pop q = (bs, q') \<Longrightarrow> pop_loop (pq_waite_pop_seq q) (pq_packet_map q) =
     (bs, pq_waite_pop_seq q', pq_packet_map q')
   \<and> q' = q\<lparr>pq_waite_pop_seq := pq_waite_pop_seq q', pq_packet_map := pq_packet_map q'\<rparr>"
  by (auto simp: PacketQueue_Pop_def split: prod.splits)

text \<open>What a step does to the queue and the packets received.\<close>

lemma notify_order_queue [simp]: "cb_queue (notify_order n c) = cb_queue c"
  by (simp add: notify_order_def)

lemma CallBack_ReceiveRtpPacket_queue:
  "cb_queue (CallBack_ReceiveRtpPacket seq b c) = snd (PacketQueue_Push seq b (cb_queue c))"
  by (simp add: CallBack_ReceiveRtpPacket_def split_beta Let_def)

lemma callback_step_inv:
  assumes inv: "queue_inv hist out (cb_queue c)" and len: "length hist < 2 ^ 32"
    and step: "callback_step e c = (bs, c')"
  shows "queue_inv (hist @ numbered (cb_queue c) [e]) (out @ bs) (cb_queue c')"
    and "numbered (cb_queue c) (e # es) = numbered (cb_queue c) [e] @ numbered (cb_queue c') es"
proof -
  have "queue_inv (hist @ numbered (cb_queue c) [e]) (out @ bs) (cb_queue c')
    \<and> numbered (cb_queue c) (e # es) = numbered (cb_queue c) [e] @ numbered (cb_queue c') es"
  proof (cases e)
    case (Received seq b)
    then have c': "bs = []" "cb_queue c' = snd (PacketQueue_Push seq b (cb_queue c))"
      using step CallBack_ReceiveRtpPacket_queue by (auto simp: callback_step_def)
    have "same_numbering (snd (number_packet seq (cb_queue c))) (cb_queue c')"
      unfolding c' by (simp add: PacketQueue_Push_def same_numbering_def split_beta Let_def)
    from same_numbering_numbered [OF this] show ?thesis
      using queue_inv_Push [OF inv, of seq b] by (simp add: Received c' split_beta)
  next
    case TimerTick
    then show ?thesis using step inv by (auto simp: callback_step_def CallBack_OnTimer_def)
  next
    case (ThreadStep spurious)
    then have t: "TryCallData_step spurious c = (bs, c')" using step by (simp add: callback_step_def)
    show ?thesis
    proof (cases "cb_consumer c = Notified")
      case False
      then have "bs = []" "cb_queue c' = cb_queue c"
        using t by (auto simp: TryCallData_step_def split: consumer.splits if_splits)
      then show ?thesis using inv ThreadStep by simp
    next
      case True
      then have "PacketQueue_Pop (cb_queue c) = (bs, cb_queue c')"
        using t by (auto simp: TryCallData_step_def split: prod.splits)
      note p = PacketQueue_Pop_loop [OF this]
      have "same_numbering (cb_queue c) (cb_queue c')"
        by (subst conjunct2 [OF p]) (simp add: same_numbering_def)
      from same_numbering_numbered [OF this] have "numbered (cb_queue c) es = numbered (cb_queue c') es" .
      moreover have "queue_inv hist (out @ bs) (cb_queue c')"
        using queue_inv_pop_loop [OF inv len conjunct1 [OF p]] unfolding conjunct2 [OF p, symmetric] .
      ultimately show ?thesis using ThreadStep by simp
    qed
  qed
  then show "queue_inv (hist @ numbered (cb_queue c) [e]) (out @ bs) (cb_queue c')"
    "numbered (cb_queue c) (e # es) = numbered (cb_queue c) [e] @ numbered (cb_queue c') es" by blast+
qed

lemma length_numbered: "length (numbered q es) \<le> length es"
proof (induction es arbitrary: q)
  case (Cons e es)
  then show ?case by (cases e) (simp_all add: split_beta Let_def le_SucI)
qed simp

lemma callback_run_inv:
  assumes "queue_inv hist out (cb_queue c)" "length hist + length es < 2 ^ 32"
    and "callback_run es c = (outs, c')"
  shows "queue_inv (hist @ numbered (cb_queue c) es) (out @ outs) (cb_queue c')"
  using assms
proof (induction es arbitrary: hist out c outs)
  case (Cons e es)
  obtain bs c1 outs1 where s: "callback_step e c = (bs, c1)" "callback_run es c1 = (outs1, c')" "outs = bs @ outs1"
    using Cons.prems(3) by (auto simp: split_beta Let_def) (metis prod.collapse)
  have len: "length hist < 2 ^ 32" using Cons.prems(2) by simp
  note step = callback_step_inv [OF Cons.prems(1) len s(1)]
  have "length (hist @ numbered (cb_queue c) [e]) + length es < 2 ^ 32"
    using Cons.prems(2) length_numbered [of "cb_queue c" "[e]"] by simp
  from Cons.IH [OF step(1) this s(2)] show ?case unfolding step(2) [of es] s(3) by simp
qed simp

lemma callback_run_start:
  assumes "callback_run es CallBackQueueThread_init = (out, c)" "length es < 2 ^ 32"
  shows "queue_inv (numbered ThreadRtpPacketQueue_init es) out (cb_queue c)"
proof -
  have i: "cb_queue CallBackQueueThread_init = ThreadRtpPacketQueue_init"
    by (simp add: CallBackQueueThread_init_def)
  from callback_run_inv [of "[]" "[]" CallBackQueueThread_init es out c] show ?thesis
    using assms queue_inv_init unfolding i by simp
qed

text \<open>
  Claim C28. Whatever the order in which packets arrive, the timer fires and the consumer runs or
  wakes: the \<open>i\<close>-th packet the listener gets is the first one received with the extended number
  \<open>i\<close>. So packets come in order, none twice and none skipped.
\<close>

theorem delivered_in_order:
  assumes run: "callback_run es CallBackQueueThread_init = (out, c)" and len: "length es < 2 ^ 32"
    and i: "i < length out"
  shows "map_of (numbered ThreadRtpPacketQueue_init es) (word_of_nat i) = Some (out ! i)"
  using callback_run_start [OF run len] i unfolding queue_inv_def by blast

section \<open>A queue that is blocked\<close>

text \<open>The first packet in the map is older than the one that is waited for.\<close>

definition queue_blocked :: "ThreadRtpPacketQueue \<Rightarrow> bool" where
  "queue_blocked q \<longleftrightarrow>
     (case pq_packet_map q of [] \<Rightarrow> False | (k, _) # _ \<Rightarrow> k < pq_waite_pop_seq q)"

lemma emplace_head:
  "\<exists>k0 b0 m0. tree_emplace (<) fst (k, b) m = (k0, b0) # m0 \<and> k0 \<le> (k :: u32)
     \<and> (\<forall>k1 b1 m1. m = (k1, b1) # m1 \<longrightarrow> k0 \<le> k1)"
  by (cases m) (auto simp: not_less)

lemma blocked_Push:
  assumes "queue_blocked q \<or> fst (number_packet seq q) < pq_waite_pop_seq q"
  shows "queue_blocked (snd (PacketQueue_Push seq b q))" and "\<not> fst (PacketQueue_Push seq b q)"
proof -
  obtain k0 b0 m0 where e: "pq_packet_map (snd (PacketQueue_Push seq b q)) = (k0, b0) # m0"
      "k0 \<le> fst (number_packet seq q)"
      "\<forall>k1 b1 m1. pq_packet_map q = (k1, b1) # m1 \<longrightarrow> k0 \<le> k1"
    using emplace_head [of "fst (number_packet seq q)" b "pq_packet_map q"]
    unfolding PacketQueue_Push_map(1) by blast
  have k0: "k0 < pq_waite_pop_seq q"
    using assms e(2,3) by (fastforce simp: queue_blocked_def split: list.splits)
  then show "queue_blocked (snd (PacketQueue_Push seq b q))"
    by (simp add: queue_blocked_def e(1) PacketQueue_Push_map(2))
  have "\<not> FindContinuousPacket (snd (PacketQueue_Push seq b q))"
    using k0 by (simp add: FindContinuousPacket_def e(1) PacketQueue_Push_map(2))
  then show "\<not> fst (PacketQueue_Push seq b q)"
    by (simp add: PacketQueue_Push_def split_beta Let_def)
qed

lemma blocked_Pop: "queue_blocked q \<Longrightarrow> PacketQueue_Pop q = ([], q)"
  by (cases "pq_packet_map q") (auto simp: queue_blocked_def PacketQueue_Pop_def)

lemma blocked_step:
  assumes "queue_blocked (cb_queue c)" "callback_step e c = (bs, c')"
  shows "bs = [] \<and> queue_blocked (cb_queue c')"
  using assms
  by (cases e) (auto simp: callback_step_def CallBack_ReceiveRtpPacket_queue blocked_Push blocked_Pop
      CallBack_OnTimer_def TryCallData_step_def split: consumer.splits if_splits)

lemma blocked_run: "queue_blocked (cb_queue c) \<Longrightarrow> fst (callback_run es c) = []"
proof (induction es arbitrary: c)
  case (Cons e es)
  then show ?case using blocked_step [of c e] by (cases "callback_step e c") (simp add: split_beta)
qed simp

text \<open>
  A packet that arrives late, with an extended number that has been delivered before
  (a duplicate from the network is enough), ends the delivery: whatever happens afterwards, the
  listener never gets another packet.
\<close>

lemma late_packet_ends_delivery:
  assumes run: "callback_run es CallBackQueueThread_init = (out, c)" and len: "length es < 2 ^ 32"
    and late: "unat (fst (number_packet seq (cb_queue c))) < length out"
  shows "fst (callback_run (Received seq b # es') c) = []"
proof -
  have inv: "queue_inv (numbered ThreadRtpPacketQueue_init es) out (cb_queue c)"
    using run len by (rule callback_run_start)
  then have "unat (pq_waite_pop_seq (cb_queue c)) = length out"
    using unat_of_nat_32 [of "length out"] by (simp add: queue_inv_def)
  then have "fst (number_packet seq (cb_queue c)) < pq_waite_pop_seq (cb_queue c)"
    using late by (simp add: word_less_nat_alt)
  then have "queue_blocked (cb_queue (CallBack_ReceiveRtpPacket seq b c))"
    unfolding CallBack_ReceiveRtpPacket_queue using blocked_Push(1) by blast
  then show ?thesis using blocked_run by (simp add: callback_step_def split_beta)
qed

section \<open>A packet that is there is delivered\<close>

text \<open>The consumer goes to wait, the timer fires, the consumer runs.\<close>

definition tick_round :: "callback_event list" where
  "tick_round = [ThreadStep False, TimerTick, ThreadStep False]"

lemma tick_round_pops:
  assumes "FindContinuousPacket (cb_queue c)"
  shows "fst (callback_run tick_round c) = fst (PacketQueue_Pop (cb_queue c))"
proof -
  have ne: "pq_packet_map (cb_queue c) \<noteq> []"
    using assms by (auto simp: FindContinuousPacket_def)
  obtain bs q where q: "PacketQueue_Pop (cb_queue c) = (bs, q)" by fastforce
  show ?thesis
    using assms ne q
    by (cases "cb_consumer c") (simp_all add: tick_round_def callback_step_def TryCallData_step_def
        CallBack_OnTimer_def notify_order_def)
qed

text \<open>
  Claim C29. If no packet in the queue is older than the next one to deliver, and the next one has
  arrived, then at the latest after a tick of the timer the listener gets it.
\<close>

theorem available_packet_is_delivered:
  assumes run: "callback_run es CallBackQueueThread_init = (out, c)" and len: "length es < 2 ^ 32"
    and not_blocked: "\<not> queue_blocked (cb_queue c)"
    and there: "map_of (numbered ThreadRtpPacketQueue_init es) (word_of_nat (length out)) = Some p"
  shows "\<exists>rest. fst (callback_run tick_round c) = p # rest"
proof -
  let ?q = "cb_queue c"
  have inv: "queue_inv (numbered ThreadRtpPacketQueue_init es) out ?q"
    using run len by (rule callback_run_start)
  have w: "pq_waite_pop_seq ?q = word_of_nat (length out)" "unat (pq_waite_pop_seq ?q) = length out"
    using inv unat_of_nat_32 [of "length out"] by (simp_all add: queue_inv_def)
  then have p: "map_of (pq_packet_map ?q) (pq_waite_pop_seq ?q) = Some p"
    using inv there unfolding queue_inv_def by simp
  then obtain k b m where m: "pq_packet_map ?q = (k, b) # m" by (cases "pq_packet_map ?q") auto
  have s: "packets_sorted ((k, b) # m)" using inv m by (simp add: queue_inv_def)
  have "k = pq_waite_pop_seq ?q"
  proof (rule ccontr)
    assume ne: "k \<noteq> pq_waite_pop_seq ?q"
    then have "(pq_waite_pop_seq ?q, p) \<in> set m" using p m by (auto dest: map_of_SomeD)
    then have "k < pq_waite_pop_seq ?q" using s unfolding packets_sorted_Cons by fastforce
    then show False using not_blocked by (simp add: queue_blocked_def m)
  qed
  then have "FindContinuousPacket ?q" "b = p" using p m by (simp_all add: FindContinuousPacket_def)
  moreover have "\<exists>rest. fst (PacketQueue_Pop ?q) = b # rest"
    using \<open>k = pq_waite_pop_seq ?q\<close> by (simp add: PacketQueue_Pop_def m split_beta Let_def)
  ultimately show ?thesis using tick_round_pops [of c] by simp
qed

section \<open>Extended numbers\<close>

text \<open>
  The extended number of a packet that is at most half the circle behind the newest
  one: as far below the newest extended number as it is behind. But if the newest one is from
  behind a wrap that the packet is not, the number is too high by 65536, and its place is never filled.
\<close>

lemma late_packet_number:
  assumes started: "\<not> pq_is_start q" and behind: "0 < unat (pq_max_seq q - seq)" "unat (pq_max_seq q - seq) \<le> 32767"
  shows "fst (number_packet seq q) + ucast (pq_max_seq q - seq) =
    push_bit 16 (pq_cycle q) + ucast (pq_max_seq q) + (if pq_max_seq q < seq then 65536 else 0)"
proof -
  have "IsLargeSeq (pq_max_seq q) seq = (False, False)"
    using behind unat_diff_cases [of "pq_max_seq q" seq] u16_bound [of seq]
    by (auto simp: IsLargeSeq_def word_less_nat_alt split: if_splits)
  then have "fst (number_packet seq q) = push_bit 16 (pq_cycle q) + ucast seq"
    using started by (simp add: number_packet_def)
  then show ?thesis using ucast_step [of "pq_max_seq q" seq] by (simp add: algebra_simps)
qed

text \<open>The queue after \<open>n\<close> packets that came in order from number 0 on.\<close>

definition numbering :: "nat \<Rightarrow> ThreadRtpPacketQueue \<Rightarrow> bool" where
  "numbering n q \<longleftrightarrow>
     (case n of
        0 \<Rightarrow> pq_is_start q \<and> pq_cycle q = 0
      | Suc m \<Rightarrow> \<not> pq_is_start q \<and> pq_max_seq q = word_of_nat m \<and> pq_cycle q = word_of_nat (m div 65536))"

lemma unat_word16: "unat (word_of_nat m :: u16) = m mod 65536"
  by (simp add: unsigned_of_nat take_bit_eq_mod)

lemma IsLargeSeq_next:
  "IsLargeSeq (word_of_nat m) (word_of_nat (Suc m)) = (True, Suc m mod 65536 = 0)"
proof (cases "Suc m mod 65536 = 0")
  case True
  then have "m mod 65536 = 65535" by (simp add: mod_Suc split: if_splits)
  then have u: "unat (word_of_nat m :: u16) = 65535" "unat (word_of_nat (Suc m) :: u16) = 0"
    unfolding unat_word16 True by simp_all
  show ?thesis unfolding IsLargeSeq_def word_less_nat_alt u True by simp
next
  case False
  then have "Suc m mod 65536 = Suc (m mod 65536)" by (simp add: mod_Suc split: if_splits)
  then have u: "unat (word_of_nat (Suc m) :: u16) = Suc (unat (word_of_nat m :: u16))"
    unfolding unat_word16 .
  show ?thesis unfolding IsLargeSeq_def word_less_nat_alt u using False by simp
qed

lemma extended_number:
  "push_bit 16 (word_of_nat (n div 65536)) + ucast (word_of_nat n :: u16) = (word_of_nat n :: u32)"
proof -
  have "(ucast (word_of_nat n :: u16) :: u32) = word_of_nat (n mod 65536)"
    by (simp add: word_unat_eq_iff unat_ucast_16_32 unat_word16 unat_of_nat_32)
  then have "push_bit 16 (word_of_nat (n div 65536)) + ucast (word_of_nat n :: u16)
      = (word_of_nat (n div 65536 * 65536 + n mod 65536) :: u32)"
    unfolding push_bit_eq_mult of_nat_add of_nat_mult by simp
  then show ?thesis unfolding div_mult_mod_eq .
qed

lemma number_packet_next:
  assumes "numbering n q"
  shows "fst (number_packet (word_of_nat n) q) = word_of_nat n
    \<and> numbering (Suc n) (snd (number_packet (word_of_nat n) q))"
proof (cases n)
  case 0
  then show ?thesis using assms by (simp add: numbering_def number_packet_def IsLargeSeq_def)
next
  case (Suc m)
  have c: "word_of_nat (m div 65536) + (if Suc m mod 65536 = 0 then 1 else 0) = (word_of_nat (Suc m div 65536) :: u32)"
    by (simp add: div_Suc)
  have q: "\<not> pq_is_start q" "pq_max_seq q = word_of_nat m" "pq_cycle q = word_of_nat (m div 65536)"
    using assms Suc by (simp_all add: numbering_def)
  let ?q = "q\<lparr>pq_max_seq := word_of_nat (Suc m), pq_cycle := word_of_nat (Suc m div 65536)\<rparr>"
  have "number_packet (word_of_nat (Suc m)) q =
      (push_bit 16 (word_of_nat (Suc m div 65536)) + ucast (word_of_nat (Suc m) :: u16), ?q)"
    unfolding number_packet_def Let_def q(2) using q IsLargeSeq_next [of m] c
    by (cases "Suc m mod 65536 = 0") (simp_all add: q(2,3) del: of_nat_Suc)
  then show ?thesis using extended_number [of "Suc m"] q(1) Suc by (simp add: numbering_def del: of_nat_Suc)
qed

section \<open>A stream in order\<close>

fun in_order_events :: "nat \<Rightarrow> u8 list list \<Rightarrow> callback_event list" where
  "in_order_events n [] = []"
| "in_order_events n (d # ds) = Received (word_of_nat n) d # in_order_events (Suc n) ds"

fun counted :: "nat \<Rightarrow> u8 list list \<Rightarrow> (u32 \<times> u8 list) list" where
  "counted n [] = []"
| "counted n (d # ds) = (word_of_nat n, d) # counted (Suc n) ds"

lemma emplace_back: "\<forall>e\<in>set m. fst e < k \<Longrightarrow> tree_emplace (<) fst (k, b) m = m @ [(k :: u32, b)]"
  by (induction m) auto

lemma in_order_run:
  assumes "numbering n (cb_queue c)" "cb_consumer c = AwaitPacket"
    and "\<forall>e\<in>set (pq_packet_map (cb_queue c)). unat (fst e) < n" "n + length ds \<le> 2 ^ 32"
  shows "\<exists>c'. callback_run (in_order_events n ds) c = ([], c') \<and> cb_consumer c' = AwaitPacket
    \<and> pq_packet_map (cb_queue c') = pq_packet_map (cb_queue c) @ counted n ds
    \<and> pq_waite_pop_seq (cb_queue c') = pq_waite_pop_seq (cb_queue c)"
  using assms
proof (induction ds arbitrary: n c)
  case (Cons d ds)
  let ?c = "CallBack_ReceiveRtpPacket (word_of_nat n) d c"
  note nxt = number_packet_next [OF Cons.prems(1)]
  have n: "unat (word_of_nat n :: u32) = n" using Cons.prems(4) by (intro unat_of_nat_32) simp
  have "\<forall>e\<in>set (pq_packet_map (cb_queue c)). fst e < word_of_nat n"
    using Cons.prems(3) n by (simp add: word_less_nat_alt)
  then have m: "pq_packet_map (cb_queue ?c) = pq_packet_map (cb_queue c) @ [(word_of_nat n, d)]"
    unfolding CallBack_ReceiveRtpPacket_queue PacketQueue_Push_map conjunct1 [OF nxt] by (rule emplace_back)
  have "numbering (Suc n) (cb_queue ?c)"
    using nxt unfolding CallBack_ReceiveRtpPacket_queue
    by (simp add: numbering_def PacketQueue_Push_def split_beta Let_def)
  moreover have "cb_consumer ?c = AwaitPacket"
    using Cons.prems(2) by (simp add: CallBack_ReceiveRtpPacket_def notify_order_def split_beta Let_def)
  moreover have "\<forall>e\<in>set (pq_packet_map (cb_queue ?c)). unat (fst e) < Suc n"
    using Cons.prems(3) n by (auto simp: m less_Suc_eq)
  ultimately obtain c' where c': "callback_run (in_order_events (Suc n) ds) ?c = ([], c')"
    "cb_consumer c' = AwaitPacket"
    "pq_packet_map (cb_queue c') = pq_packet_map (cb_queue ?c) @ counted (Suc n) ds"
    "pq_waite_pop_seq (cb_queue c') = pq_waite_pop_seq (cb_queue ?c)"
    using Cons.IH [of "Suc n" ?c] Cons.prems(4) by auto
  have "callback_run (in_order_events n (d # ds)) c = ([], c')"
    using c'(1) by (simp add: callback_step_def)
  then show ?case using c'(2-4) m
    by (simp add: CallBack_ReceiveRtpPacket_queue PacketQueue_Push_map(2))
qed simp

lemma pop_counted: "fst (pop_loop (word_of_nat n) (counted n ds)) = ds"
proof (induction ds arbitrary: n)
  case (Cons d ds)
  have "(word_of_nat n :: u32) + 1 = word_of_nat (Suc n)" by simp
  then show ?case using Cons.IH [of "Suc n"] by (simp add: split_beta Let_def del: of_nat_Suc)
qed simp

lemma callback_run_append:
  "callback_run (es @ es') c =
     (let (out, c1) = callback_run es c; (out', c2) = callback_run es' c1 in (out @ out', c2))"
  by (induction es arbitrary: c) (simp_all add: split_beta Let_def)

lemma in_order_stream:
  assumes "length ds \<le> 2 ^ 32"
  obtains c where "callback_run (in_order_events 0 ds) CallBackQueueThread_init = ([], c)"
    "fst (callback_run tick_round c) = ds"
proof -
  let ?i = CallBackQueueThread_init
  have "numbering 0 (cb_queue ?i)" "cb_consumer ?i = AwaitPacket" "pq_packet_map (cb_queue ?i) = []"
    "pq_waite_pop_seq (cb_queue ?i) = 0"
    by (simp_all add: numbering_def CallBackQueueThread_init_def ThreadRtpPacketQueue_init_def)
  with in_order_run [of 0 ?i ds] assms obtain c where c: "callback_run (in_order_events 0 ds) ?i = ([], c)"
    "pq_packet_map (cb_queue c) = counted 0 ds" "pq_waite_pop_seq (cb_queue c) = 0"
    "cb_consumer c = AwaitPacket"
    by auto
  have "fst (callback_run tick_round c) = ds"
  proof (cases ds)
    case Nil
    then show ?thesis using c(2,4)
      by (simp add: tick_round_def callback_step_def TryCallData_step_def CallBack_OnTimer_def notify_order_def)
  next
    case (Cons d rest)
    then have "FindContinuousPacket (cb_queue c)" using c(2,3) by (simp add: FindContinuousPacket_def)
    from tick_round_pops [OF this] show ?thesis
      using pop_counted [of 0 ds] c(2,3) by (simp add: PacketQueue_Pop_def split_beta Let_def)
  qed
  with c(1) show thesis by (rule that)
qed

section \<open>Concrete instances\<close>

definition queue_sample :: "callback_event list" where
  "queue_sample = [Received 1 [8], Received 0 [7], ThreadStep False, TimerTick, ThreadStep False]"

lemmas queue_eval = callback_step_def CallBack_ReceiveRtpPacket_def PacketQueue_Push_def
  number_packet_def IsLargeSeq_def FindContinuousPacket_def TryCallData_step_def CallBack_OnTimer_def
  notify_order_def PacketQueue_Pop_def CallBackQueueThread_init_def ThreadRtpPacketQueue_init_def

definition queue_after :: CallBackQueueThread where
  "queue_after = \<lparr>cb_queue = \<lparr>pq_packet_map = [], pq_is_start = False, pq_cycle = 0, pq_max_seq = 1,
     pq_waite_pop_seq = 2\<rparr>, cb_wait_pop_frames = 0, cb_consumer = AwaitPacket\<rparr>"

lemma queue_sample_run:
  "callback_run queue_sample CallBackQueueThread_init = ([[7], [8]], queue_after)"
  by (simp add: queue_sample_def queue_after_def queue_eval)

lemma delivered_in_order_witness:
  "map_of (numbered ThreadRtpPacketQueue_init queue_sample) 1 = Some [8]"
  using delivered_in_order [OF queue_sample_run, of 1] by (simp add: queue_sample_def)

lemma late_packet_ends_delivery_witness:
  "fst (callback_run [Received 1 [8], Received 2 [9], ThreadStep False, TimerTick, ThreadStep False] queue_after) = []"
  using late_packet_ends_delivery [OF queue_sample_run, of 1 "[8]"
      "[Received 2 [9], ThreadStep False, TimerTick, ThreadStep False]"]
  by (simp add: queue_sample_def number_packet_def queue_after_def IsLargeSeq_def)

lemma available_packet_is_delivered_witness:
  "\<exists>rest. fst (callback_run tick_round (snd (callback_run [Received 0 [7]] CallBackQueueThread_init))) = [7] # rest"
  by (rule available_packet_is_delivered [OF prod.collapse [symmetric]])
    (simp_all add: queue_eval queue_blocked_def)

lemma late_packet_number_witness:
  "fst (number_packet 65535 (ThreadRtpPacketQueue_init\<lparr>pq_is_start := False, pq_cycle := 1\<rparr>)) = 131071"
  using late_packet_number [of "ThreadRtpPacketQueue_init\<lparr>pq_is_start := False, pq_cycle := 1\<rparr>" 65535]
  by (simp add: ThreadRtpPacketQueue_init_def number_packet_def IsLargeSeq_def)

end
