(* ===== verification/Mem_Buffer.thy ===== *)
theory Mem_Buffer
  imports Prelude "HOL-Library.Monad_Syntax"
begin

text \<open>
  The class \<^verbatim>\<open>RTCUtils::MemBuffer\<close> (\<^verbatim>\<open>core/include/utils/utils.h\<close>): bytes in a block of memory that
  grows by doubling. The list is the whole block, the null pointer the empty list; its first
  \<open>mb_size\<close> bytes are in use. The new size of the block is computed with 32 bits, as in the code.
  \<open>None\<close> is undefined behaviour, a failed assertion, or a loop that does not end.
\<close>

section \<open>Operations\<close>

record membuf =
  mb_data :: "u8 list"
  mb_size :: nat

definition membuf_init :: "nat \<Rightarrow> membuf" where
  "membuf_init initial_buffer_size = \<lparr>mb_data = replicate initial_buffer_size 0, mb_size = 0\<rparr>"

definition membuf_uninit :: "membuf \<Rightarrow> membuf" where
  "membuf_uninit b = \<lparr>mb_data = [], mb_size = 0\<rparr>"

definition membuf_GetData :: "membuf \<Rightarrow> u8 list" where
  "membuf_GetData b = mb_data b"
definition membuf_GetLen :: "membuf \<Rightarrow> nat" where
  "membuf_GetLen b = mb_size b"

definition membuf_clear :: "nat \<Rightarrow> membuf \<Rightarrow> membuf" where
  "membuf_clear maxSize b =
     (if mb_data b \<noteq> [] \<and> mb_size b \<noteq> 0
      then (if maxSize > 1 \<and> length (mb_data b) > maxSize
            then \<lparr>mb_data = replicate maxSize 0, mb_size = 0\<rparr>
            else \<lparr>mb_data = replicate (length (mb_data b)) 0, mb_size = 0\<rparr>)
      else b)"

text \<open>The doubling of a 32-bit size; it stays at zero once the top bit has been shifted out.\<close>

partial_function (option) membuf_grow :: "nat \<Rightarrow> nat \<Rightarrow> nat option" where
  "membuf_grow new_buffer_size new_data_size =
     (if new_buffer_size < new_data_size
      then membuf_grow (new_buffer_size * 2 mod 2 ^ 32) new_data_size
      else Some new_buffer_size)"

definition membuf_reserve :: "nat \<Rightarrow> membuf \<Rightarrow> membuf option" where
  "membuf_reserve extra_size b =
     (if extra_size > length (mb_data b) - mb_size b
      then do { cap \<leftarrow> membuf_grow
                  ((if length (mb_data b) = 0 then extra_size else length (mb_data b) * 2) mod 2 ^ 32)
                  ((mb_size b + extra_size) mod 2 ^ 32);
                if cap = 0 \<or> cap < mb_size b then None
                else Some (b\<lparr>mb_data := take (mb_size b) (mb_data b) @ replicate (cap - mb_size b) 0\<rparr>) }
      else Some b)"

definition membuf_trunc :: "membuf \<Rightarrow> membuf" where
  "membuf_trunc b =
     (if length (mb_data b) \<noteq> mb_size b + 4
      then b\<lparr>mb_data := take (mb_size b) (mb_data b) @ replicate 4 0\<rparr> else b)"

text \<open>Copying bytes into the block.\<close>

definition write_at :: "nat \<Rightarrow> u8 list \<Rightarrow> u8 list \<Rightarrow> u8 list option" where
  "write_at i xs d =
     (if i + length xs \<le> length d then Some (take i d @ xs @ drop (i + length xs) d) else None)"

definition membuf_append_data :: "u8 list \<Rightarrow> membuf \<Rightarrow> membuf option" where
  "membuf_append_data data b =
     (if data = [] then Some b
      else do { b1 \<leftarrow> membuf_reserve (length data) b;
                d \<leftarrow> write_at (mb_size b1) data (mb_data b1);
                Some (b1\<lparr>mb_data := d, mb_size := mb_size b1 + length data\<rparr>) })"

text \<open>\<open>formatted\<close> is what the format and its arguments give. The size in use does not change.\<close>

definition membuf_append_format :: "u8 list \<Rightarrow> membuf \<Rightarrow> (nat \<times> membuf) option" where
  "membuf_append_format formatted b =
     (let n = length formatted + 1
      in do { b1 \<leftarrow> membuf_reserve n b;
              d \<leftarrow> write_at (mb_size b1) (formatted @ [0]) (mb_data b1);
              Some (n, b1\<lparr>mb_data := d\<rparr>) })"

text \<open>The tail is moved with \<^verbatim>\<open>memcpy\<close>, which is undefined if the old and the new place overlap.\<close>

definition membuf_insert :: "nat \<Rightarrow> u8 list \<Rightarrow> membuf \<Rightarrow> membuf option" where
  "membuf_insert offset data b =
     (if mb_size b \<le> offset then None
      else do { b1 \<leftarrow> membuf_reserve (length data) b;
                (let tail = take (mb_size b1 - offset) (drop offset (mb_data b1))
                 in if length data < length tail then None
                    else do { d1 \<leftarrow> write_at (offset + length data) tail (mb_data b1);
                              d2 \<leftarrow> write_at offset data d1;
                              Some (b1\<lparr>mb_data := d2, mb_size := mb_size b1 + length data\<rparr>) }) })"

definition membuf_remove :: "nat \<Rightarrow> nat \<Rightarrow> membuf \<Rightarrow> membuf option" where
  "membuf_remove offset n b =
     (if offset \<ge> mb_size b then Some b
      else
        (let b1 = (if (offset + n) mod 2 ^ 64 \<ge> mb_size b then b\<lparr>mb_size := offset\<rparr>
                   else b\<lparr>mb_data := take offset (mb_data b)
                              @ take (mb_size b - offset - n) (drop (offset + n) (mb_data b))
                              @ drop (mb_size b - n) (mb_data b),
                          mb_size := mb_size b - n\<rparr>)
         in if length (mb_data b1) \<ge> mb_size b1
            then (if mb_size b1 < length (mb_data b1)
                  then Some (b1\<lparr>mb_data := (mb_data b1)[mb_size b1 := 0]\<rparr>) else None)
            else Some b1))"

section \<open>The contents\<close>

definition mb_inv :: "membuf \<Rightarrow> bool" where
  "mb_inv b \<longleftrightarrow> mb_size b \<le> length (mb_data b)"

definition mb_contents :: "membuf \<Rightarrow> u8 list" where
  "mb_contents b = take (mb_size b) (mb_data b)"

lemma membuf_grow_enough:
  assumes "0 < cap" "cap < 2 ^ 32" "need \<le> 2 ^ 31"
  shows "\<exists>c. membuf_grow cap need = Some c \<and> need \<le> c \<and> cap \<le> c"
  using assms
proof (induction "need - cap" arbitrary: cap rule: less_induct)
  case less
  show ?case
  proof (cases "cap < need")
    case False
    then show ?thesis by (subst membuf_grow.simps) simp
  next
    case True
    then have e: "cap * 2 mod 2 ^ 32 = cap * 2" using less.prems by simp
    have "\<exists>c. membuf_grow (cap * 2) need = Some c \<and> need \<le> c \<and> cap * 2 \<le> c"
      by (rule less.hyps) (use True less.prems in simp_all)
    then show ?thesis using True e by (subst membuf_grow.simps) auto
  qed
qed

lemma membuf_grow_zero:
  assumes "membuf_grow cap need = Some c"
  shows "cap = 0 \<longrightarrow> need = 0"
proof (rule membuf_grow.raw_induct [where P = "\<lambda>cap need c. cap = 0 \<longrightarrow> need = 0", OF _ assms])
  fix rec and cap need c :: nat
  assume "\<And>cap need c. rec cap need = Some c \<Longrightarrow> cap = 0 \<longrightarrow> need = 0"
    and "(if cap < need then rec (cap * 2 mod 2 ^ 32) need else Some cap) = Some c"
  then show "cap = 0 \<longrightarrow> need = 0" by (auto split: if_splits)
qed

lemma membuf_reserve_works:
  assumes inv: "mb_inv b" and small: "mb_size b + n \<le> 2 ^ 31"
  obtains b' where "membuf_reserve n b = Some b'" "mb_size b' = mb_size b"
    "mb_contents b' = mb_contents b" "mb_size b + n \<le> length (mb_data b')"
proof (cases "n > length (mb_data b) - mb_size b")
  case False
  then show thesis using that [of b] inv by (simp add: membuf_reserve_def mb_inv_def)
next
  case True
  let ?cap = "(if length (mb_data b) = 0 then n else length (mb_data b) * 2) mod 2 ^ 32"
  have len: "length (mb_data b) < mb_size b + n" using True inv by (simp add: mb_inv_def)
  have need: "(mb_size b + n) mod 2 ^ 32 = mb_size b + n" using small by simp
  have cap: "?cap = (if length (mb_data b) = 0 then n else length (mb_data b) * 2)"
    using small len by auto
  have "0 < ?cap" "?cap < 2 ^ 32" unfolding cap using True len small by auto
  from membuf_grow_enough [OF this small] obtain c where
    c: "membuf_grow ?cap (mb_size b + n) = Some c" "mb_size b + n \<le> c" "?cap \<le> c" by blast
  have "0 < c" using c(2) True by simp
  then have r: "membuf_reserve n b = Some (b\<lparr>mb_data := take (mb_size b) (mb_data b) @ replicate (c - mb_size b) 0\<rparr>)"
    unfolding membuf_reserve_def need c(1) using True c(2) by simp
  show thesis
    by (rule that [OF r]) (use inv c(2) in \<open>simp_all add: mb_contents_def mb_inv_def\<close>)
qed

lemma append_works:
  assumes inv: "mb_inv b" and small: "mb_size b + length data \<le> 2 ^ 31"
  shows "\<exists>b'. membuf_append_data data b = Some b' \<and> mb_inv b'
    \<and> mb_contents b' = mb_contents b @ data \<and> mb_size b' = mb_size b + length data"
proof (cases "data = []")
  case True
  then show ?thesis using inv by (simp add: membuf_append_data_def)
next
  case False
  from inv small obtain b1 where b1: "membuf_reserve (length data) b = Some b1" "mb_size b1 = mb_size b"
    "mb_contents b1 = mb_contents b" "mb_size b + length data \<le> length (mb_data b1)"
    by (rule membuf_reserve_works)
  let ?d = "take (mb_size b) (mb_data b1) @ data @ drop (mb_size b + length data) (mb_data b1)"
  have "write_at (mb_size b1) data (mb_data b1) = Some ?d" using b1(2,4) by (simp add: write_at_def)
  then have "membuf_append_data data b = Some (b1\<lparr>mb_data := ?d, mb_size := mb_size b + length data\<rparr>)"
    using False b1(1,2) by (simp add: membuf_append_data_def)
  then show ?thesis using b1 inv by (simp add: mb_inv_def mb_contents_def)
qed

lemma clear_works:
  assumes "mb_inv b"
  shows "mb_inv (membuf_clear n b)" "mb_contents (membuf_clear n b) = []" "mb_size (membuf_clear n b) = 0"
  using assms by (auto simp: membuf_clear_def mb_inv_def mb_contents_def)

text \<open>
  Claim C30. The buffer is a sequence of bytes: appending adds the bytes behind those in use and
  keeps the others, clearing leaves none. The doubling of the block ends, with room for the
  bytes, as long as they are at most \<open>2\<^sup>3\<^sup>1\<close>; a full block of that size grows for ever.
\<close>

theorem membuf_is_a_sequence:
  assumes inv: "mb_inv b"
  shows "(mb_size b + length data \<le> 2 ^ 31 \<longrightarrow> (\<exists>b'. membuf_append_data data b = Some b'
      \<and> mb_inv b' \<and> mb_contents b' = mb_contents b @ data))
    \<and> mb_contents (membuf_clear n b) = []
    \<and> (mb_size b = 2 ^ 31 \<and> length (mb_data b) = 2 ^ 31 \<and> data \<noteq> [] \<and> length data < 2 ^ 31
        \<longrightarrow> membuf_append_data data b = None)"
proof -
  have "membuf_append_data data b = None"
    if full: "mb_size b = 2 ^ 31" "length (mb_data b) = 2 ^ 31" and data: "data \<noteq> []" "length data < 2 ^ 31"
  proof -
    have "membuf_grow 0 (2 ^ 31 + length data) = None"
      using membuf_grow_zero [of 0 "2 ^ 31 + length data"] by (cases "membuf_grow 0 (2 ^ 31 + length data)") auto
    then have "membuf_reserve (length data) b = None"
      using full data by (simp add: membuf_reserve_def)
    then show ?thesis using data by (simp add: membuf_append_data_def)
  qed
  then show ?thesis using append_works [OF inv, of data] clear_works(2) [OF inv, of n] by blast
qed

text \<open>
  Removing from a buffer is undefined exactly when it removes nothing from a full block:
  the byte behind the block is then set to zero. Otherwise the bytes from the offset on are cut out.
\<close>

lemma membuf_remove_works:
  assumes inv: "mb_inv b" and off: "offset < mb_size b" and n: "n < 2 ^ 63" "mb_size b < 2 ^ 63"
  shows "(membuf_remove offset n b = None \<longleftrightarrow> n = 0 \<and> mb_size b = length (mb_data b))
    \<and> (\<forall>b'. membuf_remove offset n b = Some b' \<longrightarrow> mb_inv b'
        \<and> mb_contents b' = take offset (mb_contents b) @ drop (offset + n) (mb_contents b))"
proof -
  have m: "(offset + n) mod 2 ^ 64 = offset + n" using off n by simp
  show ?thesis
  proof (cases "mb_size b \<le> offset + n")
    case True
    then show ?thesis using inv off
      unfolding membuf_remove_def m by (auto simp: mb_inv_def mb_contents_def Let_def min_def)
  next
    case False
    let ?d = "take offset (mb_data b) @ take (mb_size b - offset - n) (drop (offset + n) (mb_data b))
      @ drop (mb_size b - n) (mb_data b)"
    have l: "length ?d = length (mb_data b)" using False inv by (simp add: mb_inv_def)
    have t: "take (mb_size b - n) ?d = take offset (mb_contents b) @ drop (offset + n) (mb_contents b)"
    proof -
      have "\<not> mb_size b - n \<le> offset" "mb_size b - n - offset = mb_size b - (offset + n)"
        using False by simp_all
      then show ?thesis using False inv off
        by (simp add: mb_inv_def mb_contents_def drop_take min_def)
    qed
    show ?thesis using False inv off l t
      unfolding membuf_remove_def m by (auto simp: mb_inv_def mb_contents_def Let_def)
  qed
qed

section \<open>Concrete instances\<close>

lemma membuf_is_a_sequence_witness:
  "\<exists>b. membuf_append_data [1, 2, 3] (membuf_init 2) = Some b \<and> mb_contents b = [1, 2, 3]"
  using membuf_is_a_sequence [of "membuf_init 2" "[1, 2, 3]" 0]
  by (auto simp: mb_inv_def membuf_init_def mb_contents_def)

lemma membuf_remove_works_witness:
  "membuf_remove 1 0 \<lparr>mb_data = [1, 2], mb_size = 2\<rparr> = None"
  using membuf_remove_works [of "\<lparr>mb_data = [1, 2], mb_size = 2\<rparr>" 1 0] by (simp add: mb_inv_def)

end
