(* ===== verification/Websocket_Client.thy ===== *)
theory Websocket_Client
  imports Mem_Buffer Response_Json
begin

text \<open>
  The class \<^verbatim>\<open>CoreIO::WebsocketClient\<close> (\<^verbatim>\<open>core/include/io/websocket_client.h\<close>): the connection, whose
  outcome is reported once through a promise, the texts and the data that come in. The calls to the
  web socket library and to the dispatchers are returned. Setting a promise a second time, or
  asking for its future a second time, throws \<^verbatim>\<open>std::future_error\<close>.
\<close>

section \<open>State\<close>

record WebsocketClient =
  ws_is_connected :: bool
  ws_closed :: bool
  ws_client :: bool
  ws_promise :: "bool option"
  ws_future_taken :: bool
  ws_future_ready :: bool
  ws_timer :: bool
  ws_mem_buf :: membuf
  ws_response :: WebsocketEventResponse

datatype ws_call = AsyncConnect | AsyncWriteText string | AsyncWriteData "u8 list"
  | DispatchData "u8 list"

definition WebsocketClient_init :: WebsocketClient where
  "WebsocketClient_init =
     \<lparr>ws_is_connected = False, ws_closed = True, ws_client = False, ws_promise = None,
      ws_future_taken = False, ws_future_ready = False, ws_timer = False,
      ws_mem_buf = membuf_init 128, ws_response = WebsocketEventResponse_init\<rparr>"

section \<open>The connection\<close>

definition ws_Init :: "WebsocketClient \<Rightarrow> bool \<times> WebsocketClient" where
  "ws_Init c = (if \<not> ws_closed c then (False, c) else (True, c\<lparr>ws_client := True, ws_closed := False\<rparr>))"

definition ws_ConnectInvoke :: "WebsocketClient \<Rightarrow> fault + ws_call list \<times> WebsocketClient" where
  "ws_ConnectInvoke c =
     (let c1 = c\<lparr>ws_timer := True\<rparr>;
          calls = (if \<not> ws_closed c1 \<and> \<not> ws_is_connected c1 \<and> ws_client c1 then [AsyncConnect] else [])
      in if ws_future_taken c1 then Inl FutureError else Inr (calls, c1\<lparr>ws_future_taken := True\<rparr>))"

definition set_promise :: "bool \<Rightarrow> WebsocketClient \<Rightarrow> fault + WebsocketClient" where
  "set_promise v c = (if ws_promise c \<noteq> None then Inl FutureError else Inr (c\<lparr>ws_promise := Some v\<rparr>))"

definition ws_OnTimer :: "WebsocketClient \<Rightarrow> fault + WebsocketClient" where
  "ws_OnTimer c =
     (let c1 = c\<lparr>ws_timer := False\<rparr> in if \<not> ws_is_connected c1 then set_promise False c1 else Inr c1)"

definition ws_OnConnection :: "WebsocketClient \<Rightarrow> fault + WebsocketClient" where
  "ws_OnConnection c =
     set_promise True (c\<lparr>ws_is_connected := True, ws_timer := False, ws_future_ready := True\<rparr>)"

definition ws_OnClose :: "WebsocketClient \<Rightarrow> fault + WebsocketClient" where
  "ws_OnClose c =
     (let c1 = c\<lparr>ws_is_connected := False, ws_timer := False\<rparr>
      in if \<not> ws_future_ready c1
         then and_then (set_promise False c1) (\<lambda>c2. Inr (c2\<lparr>ws_future_ready := True\<rparr>))
         else Inr c1)"

definition ws_Close :: "WebsocketClient \<Rightarrow> WebsocketClient" where
  "ws_Close c = c\<lparr>ws_closed := True, ws_is_connected := False\<rparr>"

section \<open>Texts and data\<close>

definition SendText :: "string \<Rightarrow> WebsocketClient \<Rightarrow> ws_call list" where
  "SendText text c = (if \<not> ws_client c \<or> \<not> ws_is_connected c then [] else [AsyncWriteText text])"

definition SendData :: "u8 list \<Rightarrow> WebsocketClient \<Rightarrow> ws_call list" where
  "SendData data c = (if \<not> ws_client c \<or> \<not> ws_is_connected c then [] else [AsyncWriteData data])"

text \<open>The reader of the client, which takes the payload from its own position.\<close>

definition ws_ReadResponseJson :: "WebsocketEventResponse \<Rightarrow> string \<Rightarrow> fault + WebsocketEventResponse" where
  "ws_ReadResponseJson response text =
     and_then (substr 1 (word_of_nat (length text) - 2) text) (\<lambda>json_str.
      (let pos_header = find_pos ''header'' text in
       and_then (if pos_header = npos then Inr response
                 else and_then (object_lines (pos_header + 8) text) (\<lambda>ls.
                      and_then (read_lines read_header_line ls (resp_header response)) (\<lambda>h.
                        Inr (response\<lparr>resp_header := h\<rparr>)))) (\<lambda>response1.
       (let pos_payload = find_pos ''payload'' text in
        if pos_payload = npos then Inr response1
        else and_then (object_lines (pos_payload + 9) text) (\<lambda>ls.
             and_then (read_lines read_payload_line ls (resp_payload response1)) (\<lambda>p.
               Inr (response1\<lparr>resp_payload := p\<rparr>)))))))"

definition ws_OnReadText :: "int \<Rightarrow> string \<Rightarrow> WebsocketClient \<Rightarrow> fault + WebsocketClient" where
  "ws_OnReadText code text c =
     (if code < 0 then Inr (c\<lparr>ws_is_connected := False\<rparr>)
      else and_then (ws_ReadResponseJson (ws_response c) text) (\<lambda>r. Inr (c\<lparr>ws_response := r\<rparr>)))"

text \<open>A piece of 4096 bytes or more is taken for one that is not the last of its message.\<close>

definition ws_OnReadData :: "int \<Rightarrow> u8 list \<Rightarrow> WebsocketClient \<Rightarrow> fault + ws_call list \<times> WebsocketClient" where
  "ws_OnReadData code data c =
     (if code < 0 then Inr ([], c\<lparr>ws_is_connected := False\<rparr>)
      else (case membuf_append_data data (ws_mem_buf c) of
              None \<Rightarrow> Inl UndefinedBehaviour
            | Some b \<Rightarrow>
                if length data \<ge> 4096 then Inr ([], c\<lparr>ws_mem_buf := b\<rparr>)
                else Inr ([DispatchData (take (membuf_GetLen b) (membuf_GetData b))],
                       c\<lparr>ws_mem_buf := membuf_clear 0 b\<rparr>)))"

section \<open>Messages from pieces\<close>

fun ws_read_all :: "u8 list list \<Rightarrow> WebsocketClient \<Rightarrow> fault + ws_call list \<times> WebsocketClient" where
  "ws_read_all [] c = Inr ([], c)"
| "ws_read_all (d # ds) c =
     and_then (ws_OnReadData 0 d c) (\<lambda>(calls, c1).
     and_then (ws_read_all ds c1) (\<lambda>(rest, c2). Inr (calls @ rest, c2)))"

text \<open>The specification: pieces are joined up to the first one of less than 4096 bytes.\<close>

fun ws_messages :: "u8 list \<Rightarrow> u8 list list \<Rightarrow> u8 list list" where
  "ws_messages pending [] = []"
| "ws_messages pending (d # ds) =
     (if length d \<ge> 4096 then ws_messages (pending @ d) ds else (pending @ d) # ws_messages [] ds)"

text \<open>
  The dispatchers get the pieces joined into messages that end with a piece of less
  than 4096 bytes, whatever the pieces are, as long as they are together at most \<open>2\<^sup>3\<^sup>1\<close> bytes. So
  a message that comes in pieces of at least 4096 bytes and a shorter last one arrives whole; one whose
  last piece has 4096 bytes or more is held back and comes joined with the next message.
\<close>

lemma ws_reassembly:
  assumes inv: "mb_inv (ws_mem_buf c)"
    and small: "length (mb_contents (ws_mem_buf c)) + length (concat ds) \<le> 2 ^ 31"
  shows "\<exists>c'. ws_read_all ds c = Inr (map DispatchData (ws_messages (mb_contents (ws_mem_buf c)) ds), c')
    \<and> mb_inv (ws_mem_buf c')"
  using assms
proof (induction ds arbitrary: c)
  case (Cons d ds)
  let ?b = "ws_mem_buf c"
  have len: "length (mb_contents ?b) = mb_size ?b" using Cons.prems(1) by (simp add: mb_inv_def mb_contents_def)
  then have "mb_size ?b + length d \<le> 2 ^ 31" using Cons.prems(2) by simp
  from append_works [OF Cons.prems(1) this] obtain b where
    b: "membuf_append_data d ?b = Some b" "mb_inv b" "mb_contents b = mb_contents ?b @ d" by blast
  show ?case
  proof (cases "length d \<ge> 4096")
    case True
    then have "ws_OnReadData 0 d c = Inr ([], c\<lparr>ws_mem_buf := b\<rparr>)"
      using b(1) by (simp add: ws_OnReadData_def)
    moreover have "length (mb_contents b) + length (concat ds) \<le> 2 ^ 31"
      using Cons.prems(2) b(3) by simp
    ultimately show ?thesis using Cons.IH [of "c\<lparr>ws_mem_buf := b\<rparr>"] b(2,3) True by auto
  next
    case False
    then have r: "ws_OnReadData 0 d c =
        Inr ([DispatchData (mb_contents ?b @ d)], c\<lparr>ws_mem_buf := membuf_clear 0 b\<rparr>)"
      using b(1,3) by (simp add: ws_OnReadData_def membuf_GetLen_def membuf_GetData_def mb_contents_def)
    have "mb_inv (membuf_clear 0 b)" "mb_contents (membuf_clear 0 b) = []" using clear_works [OF b(2)] by simp_all
    then show ?thesis using Cons.IH [of "c\<lparr>ws_mem_buf := membuf_clear 0 b\<rparr>"] Cons.prems(2) r False by auto
  qed
qed simp

section \<open>Texts are read\<close>

text \<open>
  The client reads an answer whose header and payload are objects without nested
  braces, anywhere in the text: the fields are those of the lines between the braces.
\<close>

lemma ws_ReadResponseJson_reads:
  assumes len: "length msg < 2 ^ 63"
    and header: "str_find ''header'' msg = Some n" "drop (n + 8) msg = CHR ''{'' # h @ CHR ''}'' # rest"
    and payload: "str_find ''payload'' msg = Some m" "drop (m + 9) msg = CHR ''{'' # p @ CHR ''}'' # rest'"
    and flat: "CHR ''{'' \<notin> set h" "CHR ''}'' \<notin> set h" "CHR ''{'' \<notin> set p" "CHR ''}'' \<notin> set p"
  shows "ws_ReadResponseJson response msg =
    and_then (read_lines read_header_line (StringSplit h (CHR '','')) (resp_header response)) (\<lambda>hd.
    and_then (read_lines read_payload_line (StringSplit p (CHR '','')) (resp_payload response)) (\<lambda>pl.
      Inr (response\<lparr>resp_header := hd, resp_payload := pl\<rparr>)))"
proof -
  have n: "n + 8 \<le> length msg" "m + 9 \<le> length msg"
    using arg_cong [OF header(2), of length] arg_cong [OF payload(2), of length] by simp_all
  have pos: "find_pos ''header'' msg = word_of_nat n" "word_of_nat n \<noteq> npos"
    "find_pos ''payload'' msg = word_of_nat m" "word_of_nat m \<noteq> npos"
    using header(1) payload(1) position_found [OF len, of n] position_found [OF len, of m] n
    by (simp_all add: find_pos_def)
  have "word_of_nat n + 8 = (word_of_nat (n + 8) :: u64)" "word_of_nat m + 9 = (word_of_nat (m + 9) :: u64)"
    by simp_all
  then have obj: "object_lines (word_of_nat n + 8) msg = Inr (StringSplit h (CHR '',''))"
    "object_lines (word_of_nat m + 9) msg = Inr (StringSplit p (CHR '',''))"
    using object_lines_flat [OF len header(2) flat(1,2)] object_lines_flat [OF len payload(2) flat(3,4)]
    by simp_all
  obtain s where s: "substr 1 (word_of_nat (length msg) - 2) msg = Inr s"
    using n by (cases msg) (simp_all add: substr_def)
  show ?thesis
    unfolding ws_ReadResponseJson_def Let_def s pos obj
    using pos by (cases "read_lines read_header_line (StringSplit h (CHR '','')) (resp_header response)") simp_all
qed

section \<open>The outcome of connecting\<close>

text \<open>
  The outcome can be reported once only. A client that has been waiting too long reports a
  failure; if the connection then comes about after all, or is closed, the report throws, in a
  callback of the event loop that catches nothing.
\<close>

lemma ws_late_connection_throws:
  assumes "\<not> ws_is_connected c" "ws_promise c = None" "\<not> ws_future_ready c"
  shows "\<exists>c'. ws_OnTimer c = Inr c' \<and> ws_promise c' = Some False
    \<and> ws_OnConnection c' = Inl FutureError \<and> ws_OnClose c' = Inl FutureError \<and> ws_OnTimer c' = Inl FutureError"
  using assms
  by (intro exI [of _ "c\<lparr>ws_timer := False, ws_promise := Some False\<rparr>"])
    (simp add: ws_OnTimer_def ws_OnConnection_def ws_OnClose_def set_promise_def Let_def)

section \<open>Concrete instances\<close>

lemma ws_reassembly_witness:
  "\<exists>c. ws_read_all [[1, 2], [3]] WebsocketClient_init = Inr ([DispatchData [1, 2], DispatchData [3]], c)"
  using ws_reassembly [of WebsocketClient_init "[[1, 2], [3]]"]
  by (auto simp: WebsocketClient_init_def membuf_init_def mb_inv_def mb_contents_def)

definition payload_line :: string where
  "payload_line = [CHR 0x22] @ ''requestId'' @ [CHR 0x22] @ '':'' @ [CHR 0x22] @ ''b'' @ [CHR 0x22]"

lemma ws_ReadResponseJson_reads_witness:
  "ws_ReadResponseJson WebsocketEventResponse_init json_sample =
     Inr \<lparr>resp_header = \<lparr>message_type = ''a'', connect_id = [], status_message = [], status = None\<rparr>,
          resp_payload = \<lparr>request_id = ''b'', simple_rate = [], pack_overlap = []\<rparr>\<rparr>"
proof -
  have p: "drop (31 + 9) json_sample = CHR ''{'' # payload_line @ CHR ''}'' # ''}''"
    by (simp add: json_sample_def payload_line_def)
  have flat: "CHR ''{'' \<notin> set sample_line" "CHR ''}'' \<notin> set sample_line"
    "CHR ''{'' \<notin> set payload_line" "CHR ''}'' \<notin> set payload_line"
    by (simp_all add: sample_line_def payload_line_def)
  have len: "length json_sample < 2 ^ 63" by (simp add: json_sample_def)
  have split: "StringSplit sample_line (CHR '','') = [sample_line]"
    "StringSplit payload_line (CHR '','') = [payload_line]"
    by (simp_all add: StringSplit_def sample_line_def payload_line_def)
  have "read_lines read_payload_line [payload_line] (resp_payload WebsocketEventResponse_init)
      = Inr \<lparr>request_id = ''b'', simple_rate = [], pack_overlap = []\<rparr>"
    by (simp add: payload_line_def read_payload_line_def field_value_def find_pos_def npos_def substr_def
        WebsocketEventResponse_init_def)
  then show ?thesis
    using ws_ReadResponseJson_reads [OF len sample_text(1,3,2) p flat, of WebsocketEventResponse_init]
      sample_header_read
    unfolding split by (simp add: WebsocketEventResponse_init_def)
qed

lemma ws_late_connection_throws_witness:
  "\<exists>c. ws_OnTimer WebsocketClient_init = Inr c \<and> ws_OnConnection c = Inl FutureError"
  using ws_late_connection_throws [of WebsocketClient_init] by (auto simp: WebsocketClient_init_def)

end
