(* ===== verification/Rtc_Factory.thy ===== *)
theory Rtc_Factory
  imports Transport_Properties Packet_Queue Websocket_Client
begin

text \<open>
  The class \<^verbatim>\<open>RtcFactory\<close> (\<^verbatim>\<open>api/rtc_factory.h\<close>, \<^verbatim>\<open>api/rtc_factory.cpp\<close>), which joins the web
  socket, the transport, the queue of received packets and the application. What it gives to the UDP
  socket and to the application is returned. Its transport is the only dispatcher of the web socket.
\<close>

section \<open>State and calls\<close>

text \<open>
  \<open>rf_socket_closed\<close> is the flag \<^verbatim>\<open>SocketInterface::closed_\<close> that \<^verbatim>\<open>IsClosed\<close> reads. Nothing ever sets
  it: \<^verbatim>\<open>WebsocketClient\<close> has a flag of its own with the same name, which hides it.
\<close>

record RtcFactory =
  rf_websocket :: WebsocketClient
  rf_socket_closed :: bool
  rf_transport :: "RtcTransport option"
  rf_packet_call :: "CallBackQueueThread option"
  rf_udp_socket :: bool

text \<open>
  The constructor, for the web socket client with the outcome of its connection: without a
  connection it returns before the transport is made. The pointer to the UDP socket stays null, and
  \<open>flag\<close> is what the uninitialised flag holds.
\<close>

definition RtcFactory_init :: "WebsocketClient \<Rightarrow> bool \<Rightarrow> RtcFactory" where
  "RtcFactory_init c flag =
     (if ws_promise c = Some True
      then \<lparr>rf_websocket = c, rf_socket_closed = flag, rf_transport = Some RtcTransport_init,
            rf_packet_call = Some CallBackQueueThread_init, rf_udp_socket = False\<rparr>
      else \<lparr>rf_websocket = c, rf_socket_closed = flag, rf_transport = None, rf_packet_call = None,
            rf_udp_socket = False\<rparr>)"

datatype factory_out = UdpSend "u8 list" "u8 list" | OnReceiveAudio "u8 list" u32

text \<open>A packet for the application: the length is what its first two bytes say.\<close>

definition HasContinuousPacketCall :: "u8 list \<Rightarrow> factory_out list" where
  "HasContinuousPacketCall buffer =
     (if length buffer < 20 then [] else [OnReceiveAudio buffer (ucast (host16 buffer 0))])"

definition factory_OnPacketSent :: "bool \<Rightarrow> u8 list \<Rightarrow> u8 list \<Rightarrow> factory_out list" where
  "factory_OnPacketSent udp_socket data addr = (if udp_socket then [UdpSend data addr] else [])"

definition factory_OnPacketReceived ::
  "u16 \<Rightarrow> u8 list \<Rightarrow> CallBackQueueThread option \<Rightarrow> CallBackQueueThread option" where
  "factory_OnPacketReceived seq buffer packet_call = map_option (CallBack_ReceiveRtpPacket seq buffer) packet_call"

text \<open>The calls of the transport, in their order; \<open>None\<close> is a call on a null pointer.\<close>

fun listener_calls ::
  "bool \<Rightarrow> transport_call list \<Rightarrow> CallBackQueueThread option
    \<Rightarrow> (factory_out list \<times> CallBackQueueThread option) option"
where
  "listener_calls udp [] cb = Some ([], cb)"
| "listener_calls udp (OnPacketReceived seq buffer # calls) cb =
     (case factory_OnPacketReceived seq buffer cb of
        None \<Rightarrow> None
      | Some cb' \<Rightarrow> listener_calls udp calls (Some cb'))"
| "listener_calls udp (OnReceiveEvent # calls) cb = listener_calls udp calls cb"
| "listener_calls udp (OnPacketSent data addr # calls) cb =
     map_option (\<lambda>(out, cb'). (factory_OnPacketSent udp data addr @ out, cb')) (listener_calls udp calls cb)"

section \<open>Operations\<close>

definition factory_CreateStream ::
  "((u32 \<times> RtpStreamSender) list \<Rightarrow> (u32 \<times> RtpStreamSender) list)
    \<Rightarrow> ((u32 \<times> RtpStreamReceiver) list \<Rightarrow> (u32 \<times> RtpStreamReceiver) list)
    \<Rightarrow> (string \<Rightarrow> int \<Rightarrow> u8 list option)
    \<Rightarrow> StreamType \<Rightarrow> u32 \<Rightarrow> string \<Rightarrow> int \<Rightarrow> bool \<Rightarrow> RtcFactory \<Rightarrow> (bool \<times> RtcFactory) option"
where
  "factory_CreateStream arrange_s arrange_r ip4_addr stream_type ssrc target_ip port dynamic_addr f =
     (case rf_transport f of
        None \<Rightarrow> Some (False, f)
      | Some t \<Rightarrow>
          map_option (\<lambda>t'. (True, f\<lparr>rf_transport := Some t'\<rparr>))
            (CreateRtpStream arrange_s arrange_r ip4_addr ssrc stream_type target_ip port dynamic_addr t))"

definition factory_DeleteStream :: "u32 \<Rightarrow> RtcFactory \<Rightarrow> bool \<times> RtcFactory" where
  "factory_DeleteStream ssrc f =
     (case rf_transport f of
        None \<Rightarrow> (False, f)
      | Some t \<Rightarrow> (True, f\<lparr>rf_transport := Some (DeleteRtpStream ssrc t)\<rparr>))"

definition OnSendAudio ::
  "u8 list \<Rightarrow> u64 \<Rightarrow> u32 \<Rightarrow> u8 list \<Rightarrow> RtcFactory \<Rightarrow> (factory_out list \<times> RtcFactory) option"
where
  "OnSendAudio mem now ssrc data f =
     (case rf_transport f of
        None \<Rightarrow> Some ([], f)
      | Some t \<Rightarrow>
          do { (calls, t') \<leftarrow> OnSendPacket mem now ssrc data t;
               (out, cb) \<leftarrow> listener_calls (rf_udp_socket f) calls (rf_packet_call f);
               Some (out, f\<lparr>rf_transport := Some t', rf_packet_call := cb\<rparr>) })"

text \<open>A message of the web socket. Without a transport there is no dispatcher.\<close>

definition factory_message ::
  "(u16 \<Rightarrow> u64) \<Rightarrow> (nat \<Rightarrow> u64) \<Rightarrow> u64 \<Rightarrow> u8 list \<Rightarrow> RtcFactory \<Rightarrow> fault + factory_out list \<times> RtcFactory"
where
  "factory_message clk clock now data f =
     (case rf_transport f of
        None \<Rightarrow> Inr ([], f)
      | Some t \<Rightarrow>
          and_then (Dispatch clk clock now (rf_socket_closed f) WEBSOCKET data None t) (\<lambda>(calls, t').
            and_then (undefined_if_None (listener_calls (rf_udp_socket f) calls (rf_packet_call f)))
              (\<lambda>(out, cb). Inr (out, f\<lparr>rf_transport := Some t', rf_packet_call := cb\<rparr>))))"

text \<open>What the web socket reads.\<close>

fun dispatch_to_factory ::
  "(u16 \<Rightarrow> u64) \<Rightarrow> (nat \<Rightarrow> u64) \<Rightarrow> u64 \<Rightarrow> ws_call list \<Rightarrow> RtcFactory \<Rightarrow> fault + factory_out list \<times> RtcFactory"
where
  "dispatch_to_factory clk clock now [] f = Inr ([], f)"
| "dispatch_to_factory clk clock now (DispatchData data # calls) f =
     and_then (factory_message clk clock now data f) (\<lambda>(out, f1).
     and_then (dispatch_to_factory clk clock now calls f1) (\<lambda>(rest, f2). Inr (out @ rest, f2)))"
| "dispatch_to_factory clk clock now (_ # calls) f = dispatch_to_factory clk clock now calls f"

definition factory_read_data ::
  "(u16 \<Rightarrow> u64) \<Rightarrow> (nat \<Rightarrow> u64) \<Rightarrow> u64 \<Rightarrow> int \<Rightarrow> u8 list \<Rightarrow> RtcFactory
    \<Rightarrow> fault + factory_out list \<times> RtcFactory"
where
  "factory_read_data clk clock now code data f =
     and_then (ws_OnReadData code data (rf_websocket f)) (\<lambda>(calls, c).
       dispatch_to_factory clk clock now calls (f\<lparr>rf_websocket := c\<rparr>))"

definition factory_read_text :: "int \<Rightarrow> string \<Rightarrow> RtcFactory \<Rightarrow> fault + RtcFactory" where
  "factory_read_text code text_data f =
     and_then (ws_OnReadText code text_data (rf_websocket f)) (\<lambda>c. Inr (f\<lparr>rf_websocket := c\<rparr>))"

definition factory_OnSendText :: "string \<Rightarrow> RtcFactory \<Rightarrow> ws_call list" where
  "factory_OnSendText data f = SendText data (rf_websocket f)"

definition GetConnectId :: "RtcFactory \<Rightarrow> string" where
  "GetConnectId f = connect_id (resp_header (ws_response (rf_websocket f)))"

definition factory_thread :: "bool \<Rightarrow> RtcFactory \<Rightarrow> factory_out list \<times> RtcFactory" where
  "factory_thread spurious f =
     (case rf_packet_call f of
        None \<Rightarrow> ([], f)
      | Some c \<Rightarrow>
          (let (bs, c') = TryCallData_step spurious c
           in (concat (map HasContinuousPacketCall bs), f\<lparr>rf_packet_call := Some c'\<rparr>)))"

definition factory_timer :: "RtcFactory \<Rightarrow> RtcFactory" where
  "factory_timer f = f\<lparr>rf_packet_call := map_option CallBack_OnTimer (rf_packet_call f)\<rparr>"

section \<open>From the microphone to the other side's application\<close>

fun factory_reads ::
  "(u16 \<Rightarrow> u64) \<Rightarrow> (nat \<Rightarrow> u64) \<Rightarrow> nat \<Rightarrow> u8 list list \<Rightarrow> RtcFactory \<Rightarrow> fault + factory_out list \<times> RtcFactory"
where
  "factory_reads clk time i [] f = Inr ([], f)"
| "factory_reads clk time i (d # ds) f =
     and_then (factory_read_data clk time (time i) 0 d f) (\<lambda>(out, f1).
     and_then (factory_reads clk time (Suc i) ds f1) (\<lambda>(rest, f2). Inr (out @ rest, f2)))"

text \<open>The consumer goes to wait, the timer fires, the consumer runs.\<close>

definition factory_round :: "RtcFactory \<Rightarrow> factory_out list \<times> RtcFactory" where
  "factory_round f =
     (let (out1, f1) = factory_thread False f;
          (out2, f2) = factory_thread False (factory_timer f1)
      in (out1 @ out2, f2))"

lemma listener_calls_append:
  "listener_calls udp (calls @ calls') cb =
     Option.bind (listener_calls udp calls cb) (\<lambda>(out, cb').
       map_option (\<lambda>(out', cb''). (out @ out', cb'')) (listener_calls udp calls' cb'))"
  by (induction udp calls cb rule: listener_calls.induct)
    (auto split: option.splits simp: option.map_comp o_def split_beta bind_eq_Some_conv map_option_case)

text \<open>A client that holds nothing back.\<close>

definition ws_drained :: "WebsocketClient \<Rightarrow> bool" where
  "ws_drained c \<longleftrightarrow> mb_inv (ws_mem_buf c) \<and> mb_contents (ws_mem_buf c) = []"

lemma short_read:
  assumes "ws_drained c" "length d \<le> 1400"
  shows "\<exists>c'. ws_OnReadData 0 d c = Inr ([DispatchData d], c') \<and> ws_drained c'"
proof -
  have "mb_inv (ws_mem_buf c)" "mb_size (ws_mem_buf c) + length d \<le> 2 ^ 31"
    using assms by (auto simp: ws_drained_def mb_inv_def mb_contents_def)
  from append_works [OF this] assms(1) obtain b where
    b: "membuf_append_data d (ws_mem_buf c) = Some b" "mb_inv b" "mb_contents b = d"
    by (auto simp: ws_drained_def)
  from clear_works [OF b(2)] b assms(2) show ?thesis
    by (simp add: ws_OnReadData_def ws_drained_def membuf_GetLen_def membuf_GetData_def mb_contents_def)
qed

lemma reads_as_dispatch:
  assumes "dispatch_all clk time i WEBSOCKET None ds t = Inr (calls, t')" "rf_transport f = Some t"
    and "listener_calls (rf_udp_socket f) calls (rf_packet_call f) = Some (out, cb)"
    and "\<not> rf_socket_closed f" "ws_drained (rf_websocket f)" "list_all (\<lambda>d. length d \<le> 1400) ds"
  shows "\<exists>c. factory_reads clk time i ds f
    = Inr (out, f\<lparr>rf_websocket := c, rf_transport := Some t', rf_packet_call := cb\<rparr>)"
  using assms
proof (induction ds arbitrary: i t f calls out)
  case Nil
  then show ?case by (auto intro: exI [of _ "rf_websocket f"])
next
  case (Cons d ds)
  from Cons.prems(1) obtain calls1 t1 rest where s: "Dispatch clk time (time i) False WEBSOCKET d None t = Inr (calls1, t1)"
    "dispatch_all clk time (Suc i) WEBSOCKET None ds t1 = Inr (rest, t')" "calls = calls1 @ rest"
    by (auto simp: and_then_Inr)
  from Cons.prems(3) obtain out1 cb1 out2 where l: "listener_calls (rf_udp_socket f) calls1 (rf_packet_call f) = Some (out1, cb1)"
    "listener_calls (rf_udp_socket f) rest cb1 = Some (out2, cb)" "out = out1 @ out2"
    by (auto simp: s(3) listener_calls_append bind_eq_Some_conv)
  from short_read Cons.prems(5,6) obtain c where
    c: "ws_OnReadData 0 d (rf_websocket f) = Inr ([DispatchData d], c)" "ws_drained c" by auto
  let ?f = "f\<lparr>rf_websocket := c, rf_transport := Some t1, rf_packet_call := cb1\<rparr>"
  have "factory_read_data clk time (time i) 0 d f = Inr (out1, ?f)"
    using s(1) l(1) c(1) Cons.prems(2,4)
    by (simp add: factory_read_data_def factory_message_def undefined_if_None_def)
  moreover from Cons.IH [OF s(2), of ?f out2] obtain c' where "factory_reads clk time (Suc i) ds ?f
      = Inr (out2, ?f\<lparr>rf_websocket := c', rf_transport := Some t', rf_packet_call := cb\<rparr>)"
    using l(2) c(2) Cons.prems(4,6) by auto
  ultimately show ?case using l(3) by (auto intro: exI [of _ c'])
qed

lemma received_calls:
  "listener_calls udp (received (word_of_nat n) ds) (Some c) =
     Some ([], Some (snd (callback_run (in_order_events n ds) c)))"
proof (induction ds arbitrary: n c)
  case (Cons d ds)
  have "(word_of_nat n :: u16) + 1 = word_of_nat (Suc n)" by simp
  then show ?case using Cons.IH [of "Suc n"]
    by (simp add: factory_OnPacketReceived_def callback_step_def split_beta del: of_nat_Suc)
qed simp

lemma factory_round_tick:
  assumes "rf_packet_call f = Some c"
  shows "fst (factory_round f) = concat (map HasContinuousPacketCall (fst (callback_run tick_round c)))"
  using assms
  by (simp add: factory_round_def factory_thread_def factory_timer_def tick_round_def callback_step_def
      split_beta Let_def)

text \<open>A socket whose flag says closed: everything that is read is dropped.\<close>

lemma reads_dropped:
  assumes "rf_transport f = Some t" "rf_socket_closed f" "ws_drained (rf_websocket f)" "list_all (\<lambda>d. length d \<le> 1400) ds"
  shows "\<exists>c. factory_reads clk time i ds f = Inr ([], f\<lparr>rf_websocket := c\<rparr>)"
  using assms
proof (induction ds arbitrary: i f)
  case Nil
  then show ?case by (auto intro: exI [of _ "rf_websocket f"])
next
  case (Cons d ds)
  from short_read Cons.prems(3,4) obtain c where
    c: "ws_OnReadData 0 d (rf_websocket f) = Inr ([DispatchData d], c)" "ws_drained c" by auto
  have "factory_read_data clk time (time i) 0 d f = Inr ([], f\<lparr>rf_websocket := c\<rparr>)"
    using c(1) Cons.prems(1,2)
    by (cases f) (simp add: factory_read_data_def factory_message_def Dispatch_def undefined_if_None_def)
  moreover from Cons.IH [of "f\<lparr>rf_websocket := c\<rparr>" "Suc i"] obtain c' where
    "factory_reads clk time (Suc i) ds (f\<lparr>rf_websocket := c\<rparr>) = Inr ([], f\<lparr>rf_websocket := c'\<rparr>)"
    using c(2) Cons.prems by auto
  ultimately show ?case by auto
qed

lemma round_without_packets:
  "rf_packet_call f = Some CallBackQueueThread_init \<Longrightarrow> fst (factory_round f) = []"
proof -
  assume f: "rf_packet_call f = Some CallBackQueueThread_init"
  obtain c where "callback_run (in_order_events 0 []) CallBackQueueThread_init = ([], c)"
    "fst (callback_run tick_round c) = []" using in_order_stream [of "[]"] by auto
  then have "fst (callback_run tick_round CallBackQueueThread_init) = []" by simp
  with factory_round_tick [OF f] show ?thesis by simp
qed

lemma calls_of_pieces:
  "concat (map HasContinuousPacketCall datas)
     = map (\<lambda>d. OnReceiveAudio d (ucast (host16 d 0))) (filter (\<lambda>d. 20 \<le> length d) datas)"
  by (induction datas) (auto simp: HasContinuousPacketCall_def)

text \<open>
  Claim C1. The way of received audio through a factory: web socket, transport, queue, application.
  Take the datagrams that a transport makes of pieces of data, each of at most 1388 bytes and at most
  \<open>2\<^sup>3\<^sup>2\<close> of them, on a stream whose numbers start at zero, at times after the first 2500 ms of the clock,
  and suppose that some peer delivers them in order, one in a message, to the web socket of a factory
  that has a receiving stream of that number in step, a queue just made, and a web socket that holds
  nothing back. (The factory does not deliver them itself, see claim C31.) Then no read fails, and when
  the timer has fired the application has got, in order, exactly the pieces of 20 bytes and more, each
  with the length its own first two bytes say, whether that is the length of the piece or not; but if
  the flag of the socket, which nothing initialises, says closed, it has got nothing.
\<close>

theorem audio_reaches_listener:
  assumes send: "sending (ta i) ssrc a" "rt_test_seq a = 0" and recv: "receiving (tb j) ssrc 0 b"
    and f: "rf_transport f = Some b" "rf_packet_call f = Some CallBackQueueThread_init" "ws_drained (rf_websocket f)"
    and data: "list_all (\<lambda>data. length data \<le> 1388) datas" "length datas \<le> 2 ^ 32" "length memory = 1400"
    and times: "\<And>k. 2500 \<le> ta k \<and> ta k \<le> ta (Suc k)" "\<And>k. 2500 \<le> tb k \<and> tb k \<le> tb (Suc k)"
  shows "\<exists>sent a' f'. send_all memory ta i ssrc datas a = Some (sent, a')
    \<and> factory_reads clk tb j (datagrams sent) f = Inr ([], f')
    \<and> fst (factory_round f') =
        (if rf_socket_closed f then []
         else map (\<lambda>d. OnReceiveAudio d (ucast (host16 d 0))) (filter (\<lambda>d. 20 \<le> length d) datas))"
proof -
  have "receiving (tb j) ssrc (rt_test_seq a) b" using recv send(2) by simp
  from data_arrives [OF send(1) this data(1,3) times, where clk = clk and protocol = WEBSOCKET and addr = None]
  obtain sent a' b' where s: "send_all memory ta i ssrc datas a = Some (sent, a')"
    "dispatch_all clk tb j WEBSOCKET None (datagrams sent) b = Inr (received 0 datas, b')"
    "list_all (\<lambda>d. length d \<le> 1400) (datagrams sent)"
    using send(2) by auto
  show ?thesis
  proof (cases "rf_socket_closed f")
    case True
    from reads_dropped [OF f(1) True f(3) s(3)] obtain w where
      w: "factory_reads clk tb j (datagrams sent) f = Inr ([], f\<lparr>rf_websocket := w\<rparr>)" by blast
    have "fst (factory_round (f\<lparr>rf_websocket := w\<rparr>)) = []" using f(2) by (intro round_without_packets) simp
    with s(1) w True show ?thesis by auto
  next
    case False
    from in_order_stream [OF data(2)] obtain c where c:
      "callback_run (in_order_events 0 datas) CallBackQueueThread_init = ([], c)"
      "fst (callback_run tick_round c) = datas" by blast
    have "listener_calls (rf_udp_socket f) (received 0 datas) (rf_packet_call f) = Some ([], Some c)"
      using received_calls [of "rf_udp_socket f" 0 datas CallBackQueueThread_init] c(1) f(2) by simp
    from reads_as_dispatch [OF s(2) f(1) this False f(3) s(3)] obtain w where
      w: "factory_reads clk tb j (datagrams sent) f
        = Inr ([], f\<lparr>rf_websocket := w, rf_transport := Some b', rf_packet_call := Some c\<rparr>)" by blast
    have "fst (factory_round (f\<lparr>rf_websocket := w, rf_transport := Some b', rf_packet_call := Some c\<rparr>))
        = concat (map HasContinuousPacketCall datas)"
      using factory_round_tick [of "f\<lparr>rf_websocket := w, rf_transport := Some b', rf_packet_call := Some c\<rparr>" c]
        c(2) by simp
    with s(1) w False show ?thesis by (auto simp: calls_of_pieces)
  qed
qed

section \<open>What never leaves\<close>

text \<open>The states of a factory; its constructor never makes the UDP socket.\<close>

inductive factory_reach :: "RtcFactory \<Rightarrow> bool" where
  "factory_reach (RtcFactory_init c flag)"
| "factory_reach f \<Longrightarrow> factory_CreateStream arrange_s arrange_r ip4_addr stream_type ssrc ip port dynamic_addr f
     = Some (ok, f') \<Longrightarrow> factory_reach f'"
| "factory_reach f \<Longrightarrow> factory_DeleteStream ssrc f = (ok, f') \<Longrightarrow> factory_reach f'"
| "factory_reach f \<Longrightarrow> OnSendAudio memory now ssrc data f = Some (out, f') \<Longrightarrow> factory_reach f'"
| "factory_reach f \<Longrightarrow> factory_read_data clk clock now code data f = Inr (out, f') \<Longrightarrow> factory_reach f'"
| "factory_reach f \<Longrightarrow> factory_read_text code text_data f = Inr f' \<Longrightarrow> factory_reach f'"
| "factory_reach f \<Longrightarrow> factory_thread spurious f = (out, f') \<Longrightarrow> factory_reach f'"
| "factory_reach f \<Longrightarrow> factory_reach (factory_timer f)"

lemma dispatch_to_factory_socket:
  "dispatch_to_factory clk clock now calls f = Inr (out, f') \<Longrightarrow> rf_udp_socket f' = rf_udp_socket f"
  by (induction clk clock now calls f arbitrary: out rule: dispatch_to_factory.induct)
    (fastforce simp: factory_message_def and_then_Inr split: option.splits)+

lemma factory_no_socket: "factory_reach f \<Longrightarrow> \<not> rf_udp_socket f"
  by (induction rule: factory_reach.induct)
    (auto simp: RtcFactory_init_def factory_CreateStream_def factory_DeleteStream_def OnSendAudio_def
      factory_read_data_def factory_read_text_def factory_thread_def factory_timer_def bind_eq_Some_conv
      and_then_Inr dest!: dispatch_to_factory_socket split: option.splits prod.splits)

lemma listener_calls_no_socket:
  "listener_calls False calls cb = Some (out, cb') \<Longrightarrow> out = []"
  by (induction False calls cb arbitrary: out cb' rule: listener_calls.induct)
    (auto simp: factory_OnPacketSent_def split: option.splits)

text \<open>
  Claim C31. The pieces never leave the factory: in every reachable state sending audio gives
  nothing to the network, because the socket that is asked to send is never made.
\<close>

theorem audio_is_never_sent:
  assumes "factory_reach f" and "OnSendAudio memory now ssrc data f = Some (out, f')"
  shows "out = []"
  using assms(2) factory_no_socket [OF assms(1)] listener_calls_no_socket
  by (auto simp: OnSendAudio_def bind_eq_Some_conv split: option.splits)

section \<open>Concrete instances\<close>

definition frame_sample :: "u8 list" where
  "frame_sample = 20 # 0 # replicate 18 1"

definition factory_sample :: RtcFactory where
  "factory_sample = RtcFactory_init (WebsocketClient_init\<lparr>ws_promise := Some True\<rparr>) False"

lemma audio_reaches_listener_witness:
  "\<exists>sent a f. send_all (replicate 1400 0) (\<lambda>_. 5000) 0 7 [frame_sample, [4]] sending_sample = Some (sent, a)
     \<and> factory_reads (\<lambda>_. 6000) (\<lambda>_. 6000) 0 (datagrams sent)
         (factory_sample\<lparr>rf_transport := Some receiving_sample\<rparr>) = Inr ([], f)
     \<and> fst (factory_round f) = [OnReceiveAudio frame_sample 20]"
proof -
  have "map (\<lambda>d. OnReceiveAudio d (ucast (host16 d 0))) (filter (\<lambda>d. 20 \<le> length d) [frame_sample, [4]])
      = [OnReceiveAudio frame_sample 20]"
    by (simp add: frame_sample_def host16_def)
  then show ?thesis
    using audio_reaches_listener [of "\<lambda>_. 5000" 0 7 sending_sample "\<lambda>_. 6000" 0 receiving_sample
        "factory_sample\<lparr>rf_transport := Some receiving_sample\<rparr>" "[frame_sample, [4]]"
        "replicate 1400 0" "\<lambda>_. 6000"] samples_ready
    by (simp add: factory_sample_def RtcFactory_init_def frame_sample_def ws_drained_def
        WebsocketClient_init_def membuf_init_def mb_inv_def mb_contents_def)
qed

lemma audio_is_never_sent_witness:
  "map_option fst (OnSendAudio (replicate 1400 0) 5000 7 [1, 2, 3] factory_sample) = Some []"
proof -
  have "OnSendAudio (replicate 1400 0) 5000 7 [1, 2, 3] factory_sample \<noteq> None"
    by (simp add: OnSendAudio_def factory_sample_def RtcFactory_init_def OnSendPacket_def
        GetStreamSenderBySsrc_def RtcTransport_init_def)
  moreover have "factory_reach factory_sample" unfolding factory_sample_def by (rule factory_reach.intros(1))
  ultimately show ?thesis
    using audio_is_never_sent [of factory_sample "replicate 1400 0" 5000 7 "[1, 2, 3]"] by auto
qed

end
