(* ===== verification/Cow_Buffer.thy ===== *)
theory Cow_Buffer
  imports Prelude "HOL-Library.Monad_Syntax"
begin

text \<open>
  The byte buffers that carry every packet: \<^verbatim>\<open>BufferT<uint8_t>\<close> (\<^verbatim>\<open>core/include/utils/buffer.h\<close>), the
  reference counts of \<^verbatim>\<open>FinalRefCountedObject\<close> and \<^verbatim>\<open>scoped_refptr\<close>, and \<^verbatim>\<open>CopyOnWriteBuffer\<close>
  (\<^verbatim>\<open>core/include/utils/copy_on_write_buffer.h\<close>, \<^verbatim>\<open>core/src/utils/copy_on_write_buffer.cc\<close>). The
  state is an explicit heap of counted buffers and the list of the objects that exist; a use of a
  freed buffer, a null pointer or bytes outside an array is the value \<^term>\<open>None\<close>. A byte is \<^term>\<open>None\<close> as long
  as it was never written. Data is handed over by value: it does not alias the heap. Lengths and counts are
  natural numbers, as memory holds fewer than \<open>2\<^sup>6\<^sup>3\<close> bytes. Copying no bytes is no step here; in the code it
  is a \<^verbatim>\<open>memcpy\<close> of length zero, at a null pointer when the array is empty.
\<close>

section \<open>The plain buffer\<close>

type_synonym byte = "u8 option"

text \<open>The capacity is the length of the array.\<close>

record Buffer =
  bf_size :: nat
  bf_data :: "byte list"

definition Buffer_new :: "nat \<Rightarrow> nat \<Rightarrow> Buffer" where
  "Buffer_new len capacity = \<lparr>bf_size = len, bf_data = replicate (max len capacity) None\<rparr>"

definition Buffer_of :: "byte list \<Rightarrow> nat \<Rightarrow> Buffer" where
  "Buffer_of data capacity =
     (let b = Buffer_new (length data) capacity
      in b\<lparr>bf_data := data @ drop (length data) (bf_data b)\<rparr>)"

definition EnsureCapacityWithHeadroom :: "nat \<Rightarrow> bool \<Rightarrow> Buffer \<Rightarrow> Buffer" where
  "EnsureCapacityWithHeadroom capacity extra_headroom b =
     (let capacity0 = length (bf_data b) in
      if capacity \<le> capacity0 then b
      else (let new_capacity = (if extra_headroom then max capacity (capacity0 + capacity0 div 2) else capacity)
            in b\<lparr>bf_data := take (bf_size b) (bf_data b) @ replicate (new_capacity - bf_size b) None\<rparr>))"

definition Buffer_SetSize :: "nat \<Rightarrow> Buffer \<Rightarrow> Buffer" where
  "Buffer_SetSize len b = (EnsureCapacityWithHeadroom len True b)\<lparr>bf_size := len\<rparr>"

definition Buffer_AppendData :: "byte list \<Rightarrow> Buffer \<Rightarrow> Buffer" where
  "Buffer_AppendData data b =
     (let new_size = bf_size b + length data;
          b1 = EnsureCapacityWithHeadroom new_size True b
      in b1\<lparr>bf_data := take (bf_size b) (bf_data b1) @ data @ drop new_size (bf_data b1), bf_size := new_size\<rparr>)"

definition Buffer_SetData :: "byte list \<Rightarrow> Buffer \<Rightarrow> Buffer" where
  "Buffer_SetData data b = Buffer_AppendData data (b\<lparr>bf_size := 0\<rparr>)"

definition Buffer_Clear :: "Buffer \<Rightarrow> Buffer" where "Buffer_Clear b = b\<lparr>bf_size := 0\<rparr>"

section \<open>Counted buffers and the objects that share them\<close>

type_synonym heap = "(nat \<times> Buffer) option list"

record cow =
  cow_buffer :: "nat option"
  cow_offset :: nat
  cow_size :: nat

record cow_state =
  cs_heap :: heap
  cs_vars :: "cow list"

definition heap_cell :: "heap \<Rightarrow> nat \<Rightarrow> (nat \<times> Buffer) option" where
  "heap_cell h a = (if a < length h then h ! a else None)"

definition heap_AddRef :: "nat option \<Rightarrow> heap \<Rightarrow> heap option" where
  "heap_AddRef p h =
     (case p of None \<Rightarrow> Some h
      | Some a \<Rightarrow> map_option (\<lambda>(n, b). h[a := Some (n + 1, b)]) (heap_cell h a))"

definition heap_Release :: "nat option \<Rightarrow> heap \<Rightarrow> heap option" where
  "heap_Release p h =
     (case p of None \<Rightarrow> Some h
      | Some a \<Rightarrow> map_option (\<lambda>(n, b). h[a := (if n - 1 = 0 then None else Some (n - 1, b))]) (heap_cell h a))"

definition cow_var :: "nat \<Rightarrow> cow_state \<Rightarrow> cow option" where
  "cow_var i st = (if i < length (cs_vars st) then Some (cs_vars st ! i) else None)"

definition cow_deref :: "cow \<Rightarrow> cow_state \<Rightarrow> (nat \<times> Buffer) option" where
  "cow_deref c st = Option.bind (cow_buffer c) (heap_cell (cs_heap st))"

text \<open>\<^verbatim>\<open>scoped_refptr::operator=\<close> on the pointer of the object \<open>i\<close>; the new pointer is counted first.\<close>

definition set_buffer :: "nat \<Rightarrow> nat option \<Rightarrow> cow_state \<Rightarrow> cow_state option" where
  "set_buffer i p st =
     do { c \<leftarrow> cow_var i st;
          h1 \<leftarrow> heap_AddRef p (cs_heap st);
          h2 \<leftarrow> heap_Release (cow_buffer c) h1;
          Some \<lparr>cs_heap = h2, cs_vars = (cs_vars st)[i := c\<lparr>cow_buffer := p\<rparr>]\<rparr> }"

definition assign_new :: "nat \<Rightarrow> Buffer \<Rightarrow> cow_state \<Rightarrow> cow_state option" where
  "assign_new i b st =
     set_buffer i (Some (length (cs_heap st))) (st\<lparr>cs_heap := cs_heap st @ [Some (0, b)]\<rparr>)"

definition set_slice :: "nat \<Rightarrow> nat \<Rightarrow> nat \<Rightarrow> cow_state \<Rightarrow> cow_state" where
  "set_slice i off len st =
     st\<lparr>cs_vars := (cs_vars st)[i := (cs_vars st ! i)\<lparr>cow_offset := off, cow_size := len\<rparr>]\<rparr>"

definition with_buffer :: "nat \<Rightarrow> (Buffer \<Rightarrow> Buffer) \<Rightarrow> cow_state \<Rightarrow> cow_state option" where
  "with_buffer i f st =
     do { c \<leftarrow> cow_var i st;
          a \<leftarrow> cow_buffer c;
          (n, b) \<leftarrow> heap_cell (cs_heap st) a;
          Some (st\<lparr>cs_heap := (cs_heap st)[a := Some (n, f b)]\<rparr>) }"

text \<open>A new object that takes over a counted pointer, and one that counts its pointer.\<close>

definition push_var :: "cow \<Rightarrow> cow_state \<Rightarrow> cow_state" where
  "push_var c st = st\<lparr>cs_vars := cs_vars st @ [c]\<rparr>"

definition add_var :: "cow \<Rightarrow> cow_state \<Rightarrow> cow_state option" where
  "add_var c st =
     map_option (\<lambda>h. push_var c (st\<lparr>cs_heap := h\<rparr>)) (heap_AddRef (cow_buffer c) (cs_heap st))"

section \<open>The operations of the copy-on-write buffer\<close>

definition cow_null :: cow where "cow_null = \<lparr>cow_buffer = None, cow_offset = 0, cow_size = 0\<rparr>"

definition cow_capacity :: "cow \<Rightarrow> cow_state \<Rightarrow> nat option" where
  "cow_capacity c st =
     (if cow_buffer c = None then Some 0
      else map_option (\<lambda>(n, b). length (bf_data b) - cow_offset c) (cow_deref c st))"

definition slice_data :: "nat \<Rightarrow> nat \<Rightarrow> Buffer \<Rightarrow> byte list option" where
  "slice_data off len b =
     (if off + len \<le> length (bf_data b) then Some (take len (drop off (bf_data b))) else None)"

definition UnshareAndEnsureCapacity :: "nat \<Rightarrow> nat \<Rightarrow> cow_state \<Rightarrow> cow_state option" where
  "UnshareAndEnsureCapacity i new_capacity st =
     do { c \<leftarrow> cow_var i st;
          (n, b) \<leftarrow> cow_deref c st;
          capacity \<leftarrow> cow_capacity c st;
          if n = 1 \<and> new_capacity \<le> capacity then Some st
          else do { data \<leftarrow> slice_data (cow_offset c) (cow_size c) b;
                    st1 \<leftarrow> assign_new i (Buffer_of data new_capacity) st;
                    Some (set_slice i 0 (cow_size c) st1) } }"

definition cow_of_size :: "nat \<Rightarrow> nat \<Rightarrow> cow_state \<Rightarrow> cow_state option" where
  "cow_of_size len capacity st =
     (if len > 0 \<or> capacity > 0
      then add_var \<lparr>cow_buffer = Some (length (cs_heap st)), cow_offset = 0, cow_size = len\<rparr>
             (st\<lparr>cs_heap := cs_heap st @ [Some (0, Buffer_new len capacity)]\<rparr>)
      else add_var \<lparr>cow_buffer = None, cow_offset = 0, cow_size = len\<rparr> st)"

definition cow_of_data :: "byte list \<Rightarrow> nat \<Rightarrow> cow_state \<Rightarrow> cow_state option" where
  "cow_of_data data capacity st =
     do { st1 \<leftarrow> cow_of_size (length data) capacity st;
          c \<leftarrow> cow_var (length (cs_vars st)) st1;
          if cow_buffer c = None then Some st1
          else do { st2 \<leftarrow> with_buffer (length (cs_vars st))
                      (\<lambda>b. b\<lparr>bf_data := data @ drop (length data) (bf_data b)\<rparr>) st1;
                    Some (set_slice (length (cs_vars st)) 0 (length data) st2) } }"

definition cow_copy :: "nat \<Rightarrow> cow_state \<Rightarrow> cow_state option" where
  "cow_copy j st = Option.bind (cow_var j st) (\<lambda>c. add_var c st)"

definition cow_move :: "nat \<Rightarrow> cow_state \<Rightarrow> cow_state option" where
  "cow_move j st =
     do { c \<leftarrow> cow_var j st; Some (push_var c (st\<lparr>cs_vars := (cs_vars st)[j := cow_null]\<rparr>)) }"

definition cow_destroy :: "nat \<Rightarrow> cow_state \<Rightarrow> cow_state option" where
  "cow_destroy i st =
     do { c \<leftarrow> cow_var i st;
          h \<leftarrow> heap_Release (cow_buffer c) (cs_heap st);
          Some \<lparr>cs_heap = h, cs_vars = take i (cs_vars st) @ drop (Suc i) (cs_vars st)\<rparr> }"

definition cow_assign :: "nat \<Rightarrow> nat \<Rightarrow> cow_state \<Rightarrow> cow_state option" where
  "cow_assign i j st =
     do { c \<leftarrow> cow_var j st;
          if i = j then Some st
          else do { st1 \<leftarrow> set_buffer i (cow_buffer c) st;
                    Some (set_slice i (cow_offset c) (cow_size c) st1) } }"

text \<open>The pointer moves through a temporary, which releases what it gets from the object \<open>i\<close>.\<close>

definition cow_move_assign :: "nat \<Rightarrow> nat \<Rightarrow> cow_state \<Rightarrow> cow_state option" where
  "cow_move_assign i j st =
     do { c \<leftarrow> cow_var j st;
          let vs1 = (cs_vars st)[j := c\<lparr>cow_buffer := None\<rparr>];
          old \<leftarrow> cow_var i (st\<lparr>cs_vars := vs1\<rparr>);
          let vs2 = vs1[i := old\<lparr>cow_buffer := cow_buffer c\<rparr>];
          h \<leftarrow> heap_Release (cow_buffer old) (cs_heap st);
          let st1 = set_slice i (cow_offset c) (cow_size c) \<lparr>cs_heap = h, cs_vars = vs2\<rparr>;
          Some (set_slice j 0 0 st1) }"

definition cow_SetData :: "nat \<Rightarrow> byte list \<Rightarrow> cow_state \<Rightarrow> cow_state option" where
  "cow_SetData i data st =
     do { c \<leftarrow> cow_var i st;
          st1 \<leftarrow>
            (if cow_buffer c = None
             then (if length data > 0 then assign_new i (Buffer_of data (length data)) st else set_buffer i None st)
             else do { (n, b) \<leftarrow> cow_deref c st;
                       capacity \<leftarrow> cow_capacity c st;
                       if n \<noteq> 1 then assign_new i (Buffer_of data capacity) st
                       else with_buffer i (Buffer_SetData data) st });
          Some (set_slice i 0 (length data) st1) }"

definition cow_AppendData :: "nat \<Rightarrow> byte list \<Rightarrow> cow_state \<Rightarrow> cow_state option" where
  "cow_AppendData i data st =
     do { c \<leftarrow> cow_var i st;
          if cow_buffer c = None
          then do { st1 \<leftarrow> assign_new i (Buffer_of data (length data)) st;
                    Some (set_slice i 0 (length data) st1) }
          else do { capacity \<leftarrow> cow_capacity c st;
                    st1 \<leftarrow> UnshareAndEnsureCapacity i (max capacity (cow_size c + length data)) st;
                    c1 \<leftarrow> cow_var i st1;
                    st2 \<leftarrow> with_buffer i (Buffer_SetSize (cow_offset c1 + cow_size c1)) st1;
                    st3 \<leftarrow> with_buffer i (Buffer_AppendData data) st2;
                    Some (set_slice i (cow_offset c1) (cow_size c1 + length data) st3) } }"

definition cow_SetSize :: "nat \<Rightarrow> nat \<Rightarrow> cow_state \<Rightarrow> cow_state option" where
  "cow_SetSize i len st =
     do { c \<leftarrow> cow_var i st;
          if cow_buffer c = None
          then (if len > 0
                then do { st1 \<leftarrow> assign_new i (Buffer_new len len) st; Some (set_slice i 0 len st1) }
                else Some st)
          else if len \<le> cow_size c then Some (set_slice i (cow_offset c) len st)
          else do { capacity \<leftarrow> cow_capacity c st;
                    st1 \<leftarrow> UnshareAndEnsureCapacity i (max capacity len) st;
                    c1 \<leftarrow> cow_var i st1;
                    st2 \<leftarrow> with_buffer i (Buffer_SetSize (len + cow_offset c1)) st1;
                    Some (set_slice i (cow_offset c1) len st2) } }"

definition cow_EnsureCapacity :: "nat \<Rightarrow> nat \<Rightarrow> cow_state \<Rightarrow> cow_state option" where
  "cow_EnsureCapacity i new_capacity st =
     do { c \<leftarrow> cow_var i st;
          if cow_buffer c = None
          then (if new_capacity > 0
                then do { st1 \<leftarrow> assign_new i (Buffer_new 0 new_capacity) st; Some (set_slice i 0 0 st1) }
                else Some st)
          else do { capacity \<leftarrow> cow_capacity c st;
                    if new_capacity \<le> capacity then Some st
                    else UnshareAndEnsureCapacity i new_capacity st } }"

definition cow_Clear :: "nat \<Rightarrow> cow_state \<Rightarrow> cow_state option" where
  "cow_Clear i st =
     do { c \<leftarrow> cow_var i st;
          if cow_buffer c = None then Some st
          else do { (n, b) \<leftarrow> cow_deref c st;
                    capacity \<leftarrow> cow_capacity c st;
                    st1 \<leftarrow> (if n = 1 then with_buffer i Buffer_Clear st
                            else assign_new i (Buffer_new 0 capacity) st);
                    Some (set_slice i 0 0 st1) } }"

definition cow_swap :: "nat \<Rightarrow> nat \<Rightarrow> cow_state \<Rightarrow> cow_state option" where
  "cow_swap i j st =
     do { a \<leftarrow> cow_var i st; b \<leftarrow> cow_var j st; Some (st\<lparr>cs_vars := (cs_vars st)[i := b, j := a]\<rparr>) }"

text \<open>The arguments are not checked.\<close>

definition cow_Slice :: "nat \<Rightarrow> nat \<Rightarrow> nat \<Rightarrow> cow_state \<Rightarrow> cow_state option" where
  "cow_Slice i off len st =
     do { c \<leftarrow> cow_var i st;
          st1 \<leftarrow> add_var c st;
          Some (set_slice (length (cs_vars st)) (cow_offset c + off) len st1) }"

text \<open>
  A write through the pointer of \<^verbatim>\<open>MutableData\<close>, and one through the pointer of \<^verbatim>\<open>data\<close> with
  its \<^verbatim>\<open>const\<close> cast away, as \<^verbatim>\<open>HeartbeatPacket::SetTime\<close> does it.
\<close>

definition poke :: "nat \<Rightarrow> byte \<Rightarrow> nat \<Rightarrow> cow_state \<Rightarrow> cow_state option" where
  "poke k v i st =
     do { c \<leftarrow> cow_var i st;
          (n, b) \<leftarrow> cow_deref c st;
          if cow_offset c + k < length (bf_data b)
          then with_buffer i (\<lambda>b. b\<lparr>bf_data := (bf_data b)[cow_offset c + k := v]\<rparr>) st
          else None }"

definition write_MutableData :: "nat \<Rightarrow> nat \<Rightarrow> byte \<Rightarrow> cow_state \<Rightarrow> cow_state option" where
  "write_MutableData i k v st =
     do { c \<leftarrow> cow_var i st;
          capacity \<leftarrow> cow_capacity c st;
          st1 \<leftarrow> UnshareAndEnsureCapacity i capacity st;
          poke k v i st1 }"

definition write_const_data :: "nat \<Rightarrow> nat \<Rightarrow> byte \<Rightarrow> cow_state \<Rightarrow> cow_state option" where
  "write_const_data i k v st = poke k v i st"

text \<open>Equality: the same view of the same buffer or the same bytes.\<close>

definition cow_eq :: "nat \<Rightarrow> nat \<Rightarrow> cow_state \<Rightarrow> bool option" where
  "cow_eq i j st =
     do { a \<leftarrow> cow_var i st;
          b \<leftarrow> cow_var j st;
          if cow_size a \<noteq> cow_size b then Some False
          else if cow_buffer a = cow_buffer b \<and> cow_offset a = cow_offset b then Some True
          else do { x \<leftarrow> (if cow_buffer a = None then Some []
                          else Option.bind (cow_deref a st) (\<lambda>(n, f). slice_data (cow_offset a) (cow_size a) f));
                    y \<leftarrow> (if cow_buffer b = None then Some []
                          else Option.bind (cow_deref b st) (\<lambda>(n, f). slice_data (cow_offset b) (cow_size b) f));
                    Some (x = y) } }"

end
