(* ===== verification/Cow_Values.thy ===== *)
theory Cow_Values
  imports Cow_Buffer "HOL-Library.Multiset"
begin

text \<open>
  What \<^verbatim>\<open>CopyOnWriteBuffer\<close> promises: objects that share buffers behave as values. The
  invariant says that every count is the number of references and that no buffer is live without
  one; the abstraction maps the objects to the bytes they show.
\<close>

section \<open>Reference counts\<close>

definition refs :: "nat \<Rightarrow> cow list \<Rightarrow> nat" where
  "refs a vs = length (filter (\<lambda>c. cow_buffer c = Some a) vs)"

text \<open>The counts of a heap, with \<open>E\<close> the pointers held by temporaries.\<close>

definition counts :: "nat option list \<Rightarrow> heap \<Rightarrow> cow list \<Rightarrow> bool" where
  "counts E h vs \<longleftrightarrow> (\<forall>a. case heap_cell h a of
     None \<Rightarrow> refs a vs + count_list E (Some a) = 0
   | Some (n, b) \<Rightarrow> n = refs a vs + count_list E (Some a) \<and> n > 0)"

definition buf :: "heap \<Rightarrow> nat \<Rightarrow> Buffer option" where "buf h a = map_option snd (heap_cell h a)"

lemma refs_Nil [simp]: "refs a [] = 0" by (simp add: refs_def)

lemma refs_append [simp]: "refs a (vs @ ws) = refs a vs + refs a ws" by (simp add: refs_def)

lemma refs_Cons [simp]: "refs a (c # vs) = of_bool (cow_buffer c = Some a) + refs a vs"
  by (simp add: refs_def)

lemma refs_update:
  "i < length vs \<Longrightarrow> refs a (vs[i := c]) + of_bool (cow_buffer (vs ! i) = Some a) = refs a vs + of_bool (cow_buffer c = Some a)"
proof (induction vs arbitrary: i)
  case (Cons x vs)
  then show ?case by (cases i) auto
qed simp

lemma refs_zero: "refs a vs = 0 \<longleftrightarrow> (\<forall>c\<in>set vs. cow_buffer c \<noteq> Some a)"
  by (auto simp: refs_def filter_empty_conv)

lemma refs_others:
  assumes "refs a vs = 1" "i < length vs" "cow_buffer (vs ! i) = Some a" "j < length vs" "j \<noteq> i"
  shows "cow_buffer (vs ! j) \<noteq> Some a"
proof
  assume j: "cow_buffer (vs ! j) = Some a"
  have "refs a (vs[i := cow_null]) = 0"
    using refs_update [OF assms(2), of a cow_null] assms(1,3) by (simp add: cow_null_def)
  moreover have "vs ! j \<in> set (vs[i := cow_null])"
    using assms(4,5) by (metis length_list_update nth_list_update_neq nth_mem)
  ultimately show False using j by (auto simp: refs_zero)
qed

lemma heap_cell_update:
  "a < length h \<Longrightarrow> heap_cell (h[a := x]) a' = (if a' = a then x else heap_cell h a')"
  by (simp add: heap_cell_def)

lemma heap_cell_length: "heap_cell h a = Some x \<Longrightarrow> a < length h"
  by (simp add: heap_cell_def split: if_splits)

lemma heap_cell_append:
  "heap_cell (h @ [x]) a = (if a = length h then x else heap_cell h a)"
  by (auto simp: heap_cell_def nth_append)

lemma countsD:
  assumes "counts E h vs"
  shows "heap_cell h a = None \<Longrightarrow> refs a vs = 0 \<and> count_list E (Some a) = 0"
    and "heap_cell h a = Some (n, b) \<Longrightarrow> n = refs a vs + count_list E (Some a) \<and> n > 0"
  using assms by (auto simp: counts_def split: option.splits dest: spec [of _ a])

lemma counts_same:
  assumes "\<And>a. refs a vs + count_list E (Some a) = refs a vs' + count_list E' (Some a)"
  shows "counts E h vs \<longleftrightarrow> counts E' h vs'"
  unfolding counts_def assms ..

lemma counts_None [simp]: "counts (None # E) h vs \<longleftrightarrow> counts E h vs"
  by (rule counts_same) simp

lemma counts_live:
  assumes "counts E h vs" "c \<in> set vs" "cow_buffer c = Some a"
  shows "\<exists>n b. heap_cell h a = Some (n, b)"
proof (cases "heap_cell h a")
  case None
  then show ?thesis using countsD(1) [OF assms(1) None] assms(2,3) by (auto simp: refs_zero)
qed auto

lemma AddRef_works:
  assumes "counts E h vs" "\<And>a. p = Some a \<Longrightarrow> heap_cell h a \<noteq> None"
  shows "\<exists>h'. heap_AddRef p h = Some h' \<and> counts (p # E) h' vs \<and> buf h' = buf h \<and> length h' = length h"
proof (cases p)
  case None
  then show ?thesis using assms(1) by (simp add: heap_AddRef_def)
next
  case (Some a)
  then obtain n b where c: "heap_cell h a = Some (n, b)" using assms(2) by fastforce
  note l = heap_cell_length [OF c]
  have "counts (p # E) (h[a := Some (n + 1, b)]) vs"
    using countsD [OF assms(1)] c
    by (auto simp: counts_def heap_cell_update [OF l] Some split: option.splits)
  moreover have "buf (h[a := Some (n + 1, b)]) = buf h"
    using c by (auto simp: buf_def heap_cell_update [OF l])
  ultimately show ?thesis using c by (simp add: heap_AddRef_def Some)
qed

lemma Release_works:
  assumes "counts (p # E) h vs"
  shows "\<exists>h'. heap_Release p h = Some h' \<and> counts E h' vs
    \<and> (\<forall>c\<in>set vs. \<forall>a. cow_buffer c = Some a \<longrightarrow> buf h' a = buf h a) \<and> length h' = length h"
proof (cases p)
  case None
  then show ?thesis using assms(1) by (simp add: heap_Release_def)
next
  case (Some a)
  obtain n b where c: "heap_cell h a = Some (n, b)"
    using countsD(1) [OF assms, of a] Some by (cases "heap_cell h a") auto
  note l = heap_cell_length [OF c]
  let ?h = "h[a := (if n - 1 = 0 then None else Some (n - 1, b))]"
  have n: "n = refs a vs + count_list E (Some a) + 1" using countsD(2) [OF assms c] Some by simp
  have "case heap_cell ?h a' of None \<Rightarrow> refs a' vs + count_list E (Some a') = 0
    | Some (m, b) \<Rightarrow> m = refs a' vs + count_list E (Some a') \<and> m > 0" for a'
    using countsD [OF assms(1), of a'] n Some
    by (cases "a' = a"; cases "heap_cell h a'") (auto simp: heap_cell_update [OF l])
  then have "counts E ?h vs" by (simp add: counts_def)
  moreover have "buf ?h a' = buf h a'" if "c' \<in> set vs" "cow_buffer c' = Some a'" for c' a'
  proof (cases "a' = a")
    case True
    then have "refs a vs \<noteq> 0" using that by (auto simp: refs_zero)
    then show ?thesis using n c True by (simp add: buf_def heap_cell_update [OF l])
  qed (simp add: buf_def heap_cell_update [OF l])
  ultimately show ?thesis using c by (simp add: heap_Release_def Some)
qed

lemma counts_swap:
  assumes "counts (p # E) h vs" "i < length vs" "cow_buffer c = p"
  shows "counts (cow_buffer (vs ! i) # E) h (vs[i := c])"
proof -
  have "refs a (vs[i := c]) + count_list (cow_buffer (vs ! i) # E) (Some a) = refs a vs + count_list (p # E) (Some a)" for a
    using refs_update [OF assms(2), of a c] assms(3) by (auto split: if_splits)
  then show ?thesis using assms(1) counts_same by blast
qed

lemma counts_push: "counts (p # E) h vs \<Longrightarrow> cow_buffer c = p \<Longrightarrow> counts E h (vs @ [c])"
  by (erule counts_same [THEN iffD1, rotated]) auto

section \<open>Invariant and abstraction\<close>

definition bytes_in :: "heap \<Rightarrow> cow \<Rightarrow> byte list" where
  "bytes_in h c =
     (case cow_buffer c of None \<Rightarrow> []
      | Some a \<Rightarrow> (case buf h a of None \<Rightarrow> []
                   | Some b \<Rightarrow> take (cow_size c) (drop (cow_offset c) (bf_data b))))"

definition slice_ok :: "heap \<Rightarrow> cow \<Rightarrow> bool" where
  "slice_ok h c =
     (case cow_buffer c of None \<Rightarrow> cow_offset c = 0 \<and> cow_size c = 0
      | Some a \<Rightarrow> (case buf h a of None \<Rightarrow> False
                   | Some b \<Rightarrow> cow_offset c + cow_size c \<le> bf_size b))"

definition bufs_ok :: "heap \<Rightarrow> bool" where
  "bufs_ok h \<longleftrightarrow> (\<forall>a b. buf h a = Some b \<longrightarrow> bf_size b \<le> length (bf_data b))"

definition cow_inv :: "cow_state \<Rightarrow> bool" where
  "cow_inv st \<longleftrightarrow> counts [] (cs_heap st) (cs_vars st) \<and> bufs_ok (cs_heap st)
     \<and> (\<forall>c\<in>set (cs_vars st). slice_ok (cs_heap st) c)"

definition cow_values :: "cow_state \<Rightarrow> byte list list" where
  "cow_values st = map (bytes_in (cs_heap st)) (cs_vars st)"

lemma length_cow_values [simp]: "length (cow_values st) = length (cs_vars st)"
  by (simp add: cow_values_def)

lemma frame:
  assumes "\<And>a. cow_buffer c = Some a \<Longrightarrow> buf h' a = buf h a"
  shows "bytes_in h' c = bytes_in h c" "slice_ok h' c = slice_ok h c"
  using assms by (auto simp: bytes_in_def slice_ok_def split: option.splits)

lemma length_bytes_in: "slice_ok h c \<Longrightarrow> bufs_ok h \<Longrightarrow> length (bytes_in h c) = cow_size c"
  by (auto simp: slice_ok_def bytes_in_def bufs_ok_def split: option.splits dest!: spec)

lemma buf_append: "buf (h @ [Some (n, b)]) a = (if a = length h then Some b else buf h a)"
  by (simp add: buf_def heap_cell_append)

lemma buf_length: "buf h (length h) = None" by (simp add: buf_def heap_cell_def)

lemma Release_bufs_ok:
  assumes "heap_Release p h = Some h'" "bufs_ok h"
  shows "bufs_ok h'"
proof (cases p)
  case (Some a)
  with assms(1) obtain n b where c: "heap_cell h a = Some (n, b)"
    "h' = h[a := (if n - 1 = 0 then None else Some (n - 1, b))]"
    by (auto simp: heap_Release_def)
  show ?thesis using assms(2) c(1) unfolding c(2)
    by (auto simp: bufs_ok_def buf_def heap_cell_update [OF heap_cell_length [OF c(1)]] split: if_splits)
qed (use assms in \<open>simp add: heap_Release_def\<close>)

text \<open>Replacing the object \<open>i\<close>: its new pointer is counted, its old one released.\<close>

lemma replace_works:
  assumes c: "counts (cow_buffer c # []) h vs" and b: "bufs_ok h"
    and s: "\<forall>x\<in>set vs. slice_ok h x" "slice_ok h c" and i: "i < length vs"
  shows "\<exists>h'. heap_Release (cow_buffer (vs ! i)) h = Some h'
    \<and> cow_inv \<lparr>cs_heap = h', cs_vars = vs[i := c]\<rparr>
    \<and> cow_values \<lparr>cs_heap = h', cs_vars = vs[i := c]\<rparr> = (map (bytes_in h) vs)[i := bytes_in h c]
    \<and> (\<forall>x\<in>set (vs[i := c]). \<forall>a. cow_buffer x = Some a \<longrightarrow> buf h' a = buf h a)"
proof -
  from Release_works [OF counts_swap [OF c i refl]] obtain h' where
    h': "heap_Release (cow_buffer (vs ! i)) h = Some h'" "counts [] h' (vs[i := c])"
    "\<forall>x\<in>set (vs[i := c]). \<forall>a. cow_buffer x = Some a \<longrightarrow> buf h' a = buf h a" by blast
  have "x \<in> set (vs[i := c]) \<Longrightarrow> bytes_in h' x = bytes_in h x" for x
    using frame(1) h'(3) by blast
  then have v: "map (bytes_in h') (vs[i := c]) = (map (bytes_in h) vs)[i := bytes_in h c]"
    by (metis (no_types, lifting) map_eq_conv map_update)
  have "slice_ok h' x" if "x \<in> set (vs[i := c])" for x
  proof -
    have "slice_ok h x" using that s set_update_subset_insert [of vs i c] by blast
    moreover have "slice_ok h' x = slice_ok h x" by (rule frame(2)) (use h'(3) that in blast)
    ultimately show ?thesis by simp
  qed
  then show ?thesis using h' v Release_bufs_ok [OF h'(1) b] by (simp add: cow_inv_def cow_values_def)
qed

lemma inv_parts:
  assumes "cow_inv st"
  shows "counts [] (cs_heap st) (cs_vars st)" "bufs_ok (cs_heap st)"
    "i < length (cs_vars st) \<Longrightarrow> slice_ok (cs_heap st) (cs_vars st ! i)"
  using assms by (auto simp: cow_inv_def)

lemma counts_fresh:
  assumes "counts [] h vs"
  shows "counts [Some (length h)] (h @ [Some (Suc 0, b)]) vs"
proof -
  have "refs (length h) vs = 0" using countsD(1) [OF assms, of "length h"] by (simp add: heap_cell_def)
  then show ?thesis using countsD [OF assms]
    by (auto simp: counts_def heap_cell_append split: option.splits)
qed

lemma assign_new_works:
  assumes inv: "cow_inv st" and i: "i < length (cs_vars st)"
    and b: "off + len \<le> bf_size b" "bf_size b \<le> length (bf_data b)"
  shows "\<exists>st'. assign_new i b st = Some st' \<and> cow_inv (set_slice i off len st')
    \<and> cow_values (set_slice i off len st') = (cow_values st)[i := take len (drop off (bf_data b))]
    \<and> length (cs_vars st') = length (cs_vars st)
    \<and> cow_buffer (cs_vars st' ! i) = Some (length (cs_heap st))
    \<and> heap_cell (cs_heap st') (length (cs_heap st)) = Some (Suc 0, b)"
proof -
  let ?h = "cs_heap st" and ?vs = "cs_vars st"
  let ?a = "length ?h" and ?h1 = "cs_heap st @ [Some (Suc 0, b)]"
  let ?c = "\<lparr>cow_buffer = Some ?a, cow_offset = off, cow_size = len\<rparr>"
  have add: "heap_AddRef (Some ?a) (?h @ [Some (0, b)]) = Some ?h1"
    by (simp add: heap_AddRef_def heap_cell_append)
  have old: "buf ?h1 a = buf ?h a" if "x \<in> set ?vs" "cow_buffer x = Some a" for x a
    using counts_live [OF inv_parts(1) [OF inv] that] heap_cell_length by (fastforce simp: buf_append)
  have "counts [cow_buffer ?c] ?h1 ?vs" using counts_fresh [OF inv_parts(1) [OF inv]] by simp
  moreover have "bufs_ok ?h1"
    using inv_parts(2) [OF inv] b(2) by (simp add: bufs_ok_def buf_append)
  moreover have "\<forall>x\<in>set ?vs. slice_ok ?h1 x"
    using inv frame(2) [of _ ?h1 ?h] old by (simp add: cow_inv_def)
  moreover have "slice_ok ?h1 ?c" using b by (simp add: slice_ok_def buf_append)
  ultimately obtain h' where h': "heap_Release (cow_buffer (?vs ! i)) ?h1 = Some h'"
    "cow_inv \<lparr>cs_heap = h', cs_vars = ?vs[i := ?c]\<rparr>"
    "cow_values \<lparr>cs_heap = h', cs_vars = ?vs[i := ?c]\<rparr> = (map (bytes_in ?h1) ?vs)[i := bytes_in ?h1 ?c]"
    "\<forall>x\<in>set (?vs[i := ?c]). \<forall>a. cow_buffer x = Some a \<longrightarrow> buf h' a = buf ?h1 a"
    using replace_works i by blast
  let ?st = "\<lparr>cs_heap = h', cs_vars = ?vs[i := (?vs ! i)\<lparr>cow_buffer := Some ?a\<rparr>]\<rparr>"
  have "assign_new i b st = Some ?st"
    using i add h'(1) by (simp add: assign_new_def set_buffer_def cow_var_def)
  moreover have "set_slice i off len ?st = \<lparr>cs_heap = h', cs_vars = ?vs[i := ?c]\<rparr>"
    using i by (cases "cs_vars st ! i") (simp add: set_slice_def)
  moreover have "map (bytes_in ?h1) ?vs = cow_values st"
    using old frame(1) [of _ ?h1 ?h] by (simp add: cow_values_def)
  moreover have "bytes_in ?h1 ?c = take len (drop off (bf_data b))" by (simp add: bytes_in_def buf_append)
  moreover have "heap_cell h' ?a = Some (Suc 0, b)"
  proof -
    have "buf h' ?a = Some b" using h'(4) set_update_memI [OF i, of ?c] by (fastforce simp: buf_append)
    then obtain n where n: "heap_cell h' ?a = Some (n, b)" by (auto simp: buf_def)
    have "refs ?a ?vs = 0"
      using countsD(1) [OF inv_parts(1) [OF inv], of ?a] by (simp add: heap_cell_def)
    moreover from this have "cow_buffer (?vs ! i) \<noteq> Some ?a" using i by (auto simp: refs_zero)
    ultimately have "refs ?a (?vs[i := ?c]) = 1" using refs_update [OF i, of ?a ?c] by simp
    moreover have "n = refs ?a (?vs[i := ?c])"
      using countsD(2) [OF inv_parts(1) [OF h'(2)], of ?a n b] n by simp
    ultimately show ?thesis using n by simp
  qed
  ultimately show ?thesis using h'(2,3) i by simp
qed

lemma set_slice_twice [simp]:
  "i < length (cs_vars st) \<Longrightarrow> set_slice i off len (set_slice i off' len' st) = set_slice i off len st"
  by (simp add: set_slice_def)

lemma set_slice_same:
  "i < length (cs_vars st) \<Longrightarrow>
    set_slice i (cow_offset (cs_vars st ! i)) (cow_size (cs_vars st ! i)) st = st"
  by (cases "cs_vars st ! i") (simp add: set_slice_def list_update_same_conv)

lemma set_slice_simps [simp]:
  "cs_heap (set_slice i off len st) = cs_heap st"
  "length (cs_vars (set_slice i off len st)) = length (cs_vars st)"
  "i < length (cs_vars st) \<Longrightarrow> cs_vars (set_slice i off len st) ! i
    = (cs_vars st ! i)\<lparr>cow_offset := off, cow_size := len\<rparr>"
  by (simp_all add: set_slice_def)

lemma set_buffer_works:
  assumes inv: "cow_inv st" and i: "i < length (cs_vars st)" and j: "j < length (cs_vars st)"
    and c: "slice_ok (cs_heap st) \<lparr>cow_buffer = cow_buffer (cs_vars st ! j), cow_offset = off, cow_size = len\<rparr>"
      (is "slice_ok _ ?c")
  shows "\<exists>st'. set_buffer i (cow_buffer (cs_vars st ! j)) st = Some st' \<and> cow_inv (set_slice i off len st')
    \<and> cow_values (set_slice i off len st') = (cow_values st)[i := bytes_in (cs_heap st) ?c]"
proof -
  let ?h = "cs_heap st" and ?vs = "cs_vars st" let ?p = "cow_buffer (?vs ! j)"
  have "heap_cell ?h a \<noteq> None" if "?p = Some a" for a
    using counts_live [OF inv_parts(1) [OF inv] nth_mem [OF j] that] by auto
  from AddRef_works [OF inv_parts(1) [OF inv] this] obtain h1 where
    h1: "heap_AddRef ?p ?h = Some h1" "counts [?p] h1 ?vs" "buf h1 = buf ?h" by auto
  have same: "bytes_in h1 x = bytes_in ?h x" "slice_ok h1 x = slice_ok ?h x" for x
    using frame [of x h1 ?h] h1(3) by simp_all
  have "counts [cow_buffer ?c] h1 ?vs" "bufs_ok h1" "\<forall>x\<in>set ?vs. slice_ok h1 x" "slice_ok h1 ?c"
    using h1 inv c same by (simp_all add: cow_inv_def bufs_ok_def)
  from replace_works [OF this i] obtain h' where h': "heap_Release (cow_buffer (?vs ! i)) h1 = Some h'"
    "cow_inv \<lparr>cs_heap = h', cs_vars = ?vs[i := ?c]\<rparr>"
    "cow_values \<lparr>cs_heap = h', cs_vars = ?vs[i := ?c]\<rparr> = (map (bytes_in h1) ?vs)[i := bytes_in h1 ?c]" by blast
  have "map (bytes_in h1) ?vs = cow_values st" using same by (simp add: cow_values_def)
  moreover have "set_slice i off len \<lparr>cs_heap = h', cs_vars = ?vs[i := (?vs ! i)\<lparr>cow_buffer := ?p\<rparr>]\<rparr>
      = \<lparr>cs_heap = h', cs_vars = ?vs[i := ?c]\<rparr>"
    using i by (cases "?vs ! i") (simp add: set_slice_def)
  ultimately show ?thesis using h' h1(1) i same by (simp add: set_buffer_def cow_var_def)
qed

lemma own_works:
  assumes inv: "cow_inv st" and i: "i < length (cs_vars st)"
    and a: "cow_buffer (cs_vars st ! i) = Some a" "heap_cell (cs_heap st) a = Some (Suc 0, b)"
    and b: "bf_size (f b) \<le> length (bf_data (f b))" "off + len \<le> bf_size (f b)"
  shows "\<exists>st'. with_buffer i f st = Some st' \<and> cs_vars st' = cs_vars st \<and> cow_inv (set_slice i off len st')
    \<and> cow_values (set_slice i off len st') = (cow_values st)[i := take len (drop off (bf_data (f b)))]"
proof -
  let ?h = "cs_heap st" and ?vs = "cs_vars st"
  let ?h' = "?h[a := Some (Suc 0, f b)]" and ?c = "(cs_vars st ! i)\<lparr>cow_offset := off, cow_size := len\<rparr>"
  note l = heap_cell_length [OF a(2)]
  have buf': "buf ?h' x = (if x = a then Some (f b) else buf ?h x)" for x
    by (simp add: buf_def heap_cell_update [OF l])
  have "counts [] ?h ?vs" using inv by (simp add: cow_inv_def)
  then have "counts [] ?h' ?vs"
    using a(2) by (auto simp: counts_def heap_cell_update [OF l] split: option.splits)
  moreover have "counts [] h (?vs[i := ?c]) \<longleftrightarrow> counts [] h ?vs" for h
    by (rule counts_same) (use refs_update [OF i, of _ ?c] in simp)
  moreover have "refs a ?vs = 1" using countsD(2) [OF inv_parts(1) [OF inv] a(2)] by simp
  then have other: "buf ?h' x = buf ?h x" if "j < length ?vs" "j \<noteq> i" "cow_buffer (?vs ! j) = Some x" for j x
    using refs_others [OF _ i a(1) that(1,2)] that(3) buf' by auto
  have fr: "bytes_in ?h' (?vs ! j) = bytes_in ?h (?vs ! j)" "slice_ok ?h' (?vs ! j) = slice_ok ?h (?vs ! j)"
    if "j < length ?vs" "j \<noteq> i" for j
    by (rule frame, erule other [OF that])+
  have vals: "map (bytes_in ?h') (?vs[i := ?c]) = (cow_values st)[i := take len (drop off (bf_data (f b)))]"
  proof (rule nth_equalityI)
    fix j assume "j < length (map (bytes_in ?h') (?vs[i := ?c]))"
    then show "map (bytes_in ?h') (?vs[i := ?c]) ! j = (cow_values st)[i := take len (drop off (bf_data (f b)))] ! j"
      using fr(1) [of j] i a(1) buf' by (cases "j = i") (simp_all add: cow_values_def bytes_in_def)
  qed simp
  have sl: "slice_ok ?h' (?vs[i := ?c] ! j)" if "j < length ?vs" for j
    using fr(2) [of j] that i a(1) buf' b(2) inv_parts(3) [OF inv that]
    by (cases "j = i") (simp_all add: slice_ok_def)
  have "bufs_ok ?h'" using inv_parts(2) [OF inv] b(1) by (simp add: bufs_ok_def buf')
  moreover have "\<forall>x\<in>set (?vs[i := ?c]). slice_ok ?h' x"
    using sl by (metis in_set_conv_nth length_list_update)
  moreover have "with_buffer i f st = Some (st\<lparr>cs_heap := ?h'\<rparr>)"
    using i a by (simp add: with_buffer_def cow_var_def)
  ultimately show ?thesis using vals i by (simp add: cow_inv_def cow_values_def set_slice_def)
qed

section \<open>The plain buffer\<close>

lemma EnsureCapacity_enough [simp]: "cap \<le> length (bf_data b) \<Longrightarrow> EnsureCapacityWithHeadroom cap e b = b"
  by (simp add: EnsureCapacityWithHeadroom_def Let_def)

lemma EnsureCapacity_facts:
  assumes "bf_size b \<le> length (bf_data b)"
  shows "cap \<le> length (bf_data (EnsureCapacityWithHeadroom cap e b))"
    "bf_size (EnsureCapacityWithHeadroom cap e b) = bf_size b"
    "take (bf_size b) (bf_data (EnsureCapacityWithHeadroom cap e b)) = take (bf_size b) (bf_data b)"
  using assms by (auto simp: EnsureCapacityWithHeadroom_def Let_def)

lemma Buffer_of_facts [simp]:
  "bf_size (Buffer_of data cap) = length data"
  "length (bf_data (Buffer_of data cap)) = max (length data) cap"
  "take (length data) (bf_data (Buffer_of data cap)) = data"
  by (auto simp: Buffer_of_def Buffer_new_def Let_def)

lemma Buffer_new_facts [simp]:
  "bf_size (Buffer_new len cap) = len" "length (bf_data (Buffer_new len cap)) = max len cap"
  by (simp_all add: Buffer_new_def)

section \<open>Unsharing\<close>

lemma cow_var_at [simp]: "i < length (cs_vars st) \<Longrightarrow> cow_var i st = Some (cs_vars st ! i)"
  by (simp add: cow_var_def)

lemma cell_of:
  assumes "cow_inv st" "i < length (cs_vars st)" "cow_buffer (cs_vars st ! i) = Some a"
  obtains n b where "heap_cell (cs_heap st) a = Some (n, b)" "n > 0"
    "cow_offset (cs_vars st ! i) + cow_size (cs_vars st ! i) \<le> bf_size b" "bf_size b \<le> length (bf_data b)"
    "cow_values st ! i = take (cow_size (cs_vars st ! i)) (drop (cow_offset (cs_vars st ! i)) (bf_data b))"
proof -
  obtain n b where c: "heap_cell (cs_heap st) a = Some (n, b)"
    using counts_live [OF inv_parts(1) [OF assms(1)] nth_mem [OF assms(2)] assms(3)] by blast
  then have f: "buf (cs_heap st) a = Some b" by (simp add: buf_def)
  show thesis
  proof (rule that [OF c])
    show "n > 0" using countsD(2) [OF inv_parts(1) [OF assms(1)] c] by simp
    show "cow_offset (cs_vars st ! i) + cow_size (cs_vars st ! i) \<le> bf_size b"
      using inv_parts(3) [OF assms(1,2)] assms(3) f by (simp add: slice_ok_def)
    show "bf_size b \<le> length (bf_data b)" using inv_parts(2) [OF assms(1)] f by (simp add: bufs_ok_def)
    show "cow_values st ! i = take (cow_size (cs_vars st ! i)) (drop (cow_offset (cs_vars st ! i)) (bf_data b))"
      using assms(2,3) f by (simp add: cow_values_def bytes_in_def)
  qed
qed

lemma null_value:
  assumes "cow_inv st" "i < length (cs_vars st)" "cow_buffer (cs_vars st ! i) = None"
  shows "cow_values st ! i = []" "cow_offset (cs_vars st ! i) = 0" "cow_size (cs_vars st ! i) = 0"
    "(cow_values st)[i := []] = cow_values st"
proof -
  show v: "cow_values st ! i = []" using assms(2,3) by (simp add: cow_values_def bytes_in_def)
  show "cow_offset (cs_vars st ! i) = 0" "cow_size (cs_vars st ! i) = 0"
    using inv_parts(3) [OF assms(1,2)] assms(3) by (simp_all add: slice_ok_def)
  from list_update_id [of "cow_values st" i] show "(cow_values st)[i := []] = cow_values st" unfolding v .
qed

lemma value_length:
  assumes "cow_inv st" "i < length (cs_vars st)"
  shows "length (cow_values st ! i) = cow_size (cs_vars st ! i)"
  using length_bytes_in [OF inv_parts(3) [OF assms] inv_parts(2) [OF assms(1)]] assms(2)
  by (simp add: cow_values_def)

text \<open>After unsharing the object is the only one on its buffer, and nothing has changed for anyone.\<close>

definition owns :: "nat \<Rightarrow> nat \<Rightarrow> Buffer \<Rightarrow> cow_state \<Rightarrow> bool" where
  "owns i a b st \<longleftrightarrow> cow_buffer (cs_vars st ! i) = Some a \<and> heap_cell (cs_heap st) a = Some (Suc 0, b)"

lemma unshare_works:
  assumes inv: "cow_inv st" and i: "i < length (cs_vars st)" and a: "cow_buffer (cs_vars st ! i) = Some a0"
  obtains st' a b where "UnshareAndEnsureCapacity i cap st = Some st'" "cow_inv st'"
    "cow_values st' = cow_values st" "length (cs_vars st') = length (cs_vars st)" "owns i a b st'"
    "cow_offset (cs_vars st' ! i) + cap \<le> length (bf_data b)"
    "cow_size (cs_vars st' ! i) = cow_size (cs_vars st ! i)"
proof -
  let ?c = "cs_vars st ! i"
  from cell_of [OF assms] obtain n b where c: "heap_cell (cs_heap st) a0 = Some (n, b)"
    "cow_offset ?c + cow_size ?c \<le> bf_size b" "bf_size b \<le> length (bf_data b)"
    "cow_values st ! i = take (cow_size ?c) (drop (cow_offset ?c) (bf_data b))" by blast
  show thesis
  proof (cases "n = 1 \<and> cap \<le> length (bf_data b) - cow_offset ?c")
    case True
    have "UnshareAndEnsureCapacity i cap st = Some st"
      using True i a c(1) by (simp add: UnshareAndEnsureCapacity_def cow_deref_def cow_capacity_def)
    then show thesis by (rule that) (use inv True a c in \<open>auto simp: owns_def\<close>)
  next
    case False
    let ?d = "cow_values st ! i"
    have l: "length ?d = cow_size ?c" by (rule value_length [OF inv i])
    have "0 + cow_size ?c \<le> bf_size (Buffer_of ?d cap)" "bf_size (Buffer_of ?d cap) \<le> length (bf_data (Buffer_of ?d cap))"
      using l by simp_all
    from assign_new_works [OF inv i this] obtain st1 where st1: "assign_new i (Buffer_of ?d cap) st = Some st1"
      "cow_inv (set_slice i 0 (cow_size ?c) st1)"
      "cow_values (set_slice i 0 (cow_size ?c) st1)
        = (cow_values st)[i := take (cow_size ?c) (drop 0 (bf_data (Buffer_of ?d cap)))]"
      "length (cs_vars st1) = length (cs_vars st)" "cow_buffer (cs_vars st1 ! i) = Some (length (cs_heap st))"
      "heap_cell (cs_heap st1) (length (cs_heap st)) = Some (Suc 0, Buffer_of ?d cap)" by blast
    have "UnshareAndEnsureCapacity i cap st = Some (set_slice i 0 (cow_size ?c) st1)"
      using False i a c st1(1)
      by (auto simp: UnshareAndEnsureCapacity_def cow_deref_def cow_capacity_def slice_data_def)
    then show thesis
    proof (rule that)
      have "take (cow_size ?c) (bf_data (Buffer_of ?d cap)) = ?d" using l by (metis Buffer_of_facts(3))
      then show "cow_values (set_slice i 0 (cow_size ?c) st1) = cow_values st" using st1(3) by simp
    qed (use i st1 in \<open>auto simp: owns_def\<close>)
  qed
qed

section \<open>Every operation\<close>

lemma own_step:
  assumes "cow_inv st" "i < length (cs_vars st)" "owns i a b st"
    and "bf_size (f b) \<le> length (bf_data (f b))" "off + len \<le> bf_size (f b)"
  obtains st' where "with_buffer i f st = Some st'" "cs_vars st' = cs_vars st" "cow_inv (set_slice i off len st')"
    "cow_values (set_slice i off len st') = (cow_values st)[i := take len (drop off (bf_data (f b)))]"
  using own_works [of st i a b f off len] assms by (auto simp: owns_def)

lemma owns_facts:
  assumes "cow_inv st" "i < length (cs_vars st)" "owns i a b st"
  shows "cow_offset (cs_vars st ! i) + cow_size (cs_vars st ! i) \<le> bf_size b" "bf_size b \<le> length (bf_data b)"
    "cow_values st ! i = take (cow_size (cs_vars st ! i)) (drop (cow_offset (cs_vars st ! i)) (bf_data b))"
    "cow_buffer (cs_vars st ! i) = Some a" "cow_deref (cs_vars st ! i) st = Some (Suc 0, b)"
  using cell_of [OF assms(1,2), of a] assms(3) by (auto simp: owns_def cow_deref_def)

lemma with_buffer_twice:
  assumes "with_buffer i f st = Some st1"
  shows "with_buffer i g st1 = with_buffer i (g \<circ> f) st"
  using assms
  by (auto simp: with_buffer_def bind_eq_Some_conv cow_var_def heap_cell_update heap_cell_length split: if_splits)

lemma SetData_works:
  assumes inv: "cow_inv st" and i: "i < length (cs_vars st)"
  shows "\<exists>st'. cow_SetData i data st = Some st' \<and> cow_inv st' \<and> cow_values st' = (cow_values st)[i := data]"
proof -
  have fresh: "\<exists>st'. assign_new i (Buffer_of data cap) st = Some st' \<and> cow_inv (set_slice i 0 (length data) st')
      \<and> cow_values (set_slice i 0 (length data) st') = (cow_values st)[i := data]" for cap
    using assign_new_works [OF inv i, of 0 "length data" "Buffer_of data cap"] by auto
  show ?thesis
  proof (cases "cow_buffer (cs_vars st ! i)")
    case None
    show ?thesis
    proof (cases "data = []")
      case True
      have "slice_ok (cs_heap st) \<lparr>cow_buffer = cow_buffer (cs_vars st ! i), cow_offset = 0, cow_size = 0\<rparr>"
        using None by (simp add: slice_ok_def)
      from set_buffer_works [OF inv i i this] None True i show ?thesis
        by (auto simp: cow_SetData_def bytes_in_def)
    next
      case False
      then show ?thesis using fresh [of "length data"] None i by (auto simp: cow_SetData_def)
    qed
  next
    case (Some a)
    from cell_of [OF inv i Some] obtain n b where c: "heap_cell (cs_heap st) a = Some (n, b)" by blast
    show ?thesis
    proof (cases "n = 1")
      case True
      have o: "owns i a b st" using c True Some by (simp add: owns_def)
      note cap = EnsureCapacity_facts(1) [of "b\<lparr>bf_size := 0\<rparr>" "length data" True]
      have f: "bf_size (Buffer_SetData data b) = length data" "take (length data) (bf_data (Buffer_SetData data b)) = data"
        "length data \<le> length (bf_data (Buffer_SetData data b))"
        using cap by (simp_all add: Buffer_SetData_def Buffer_AppendData_def Let_def)
      then have "bf_size (Buffer_SetData data b) \<le> length (bf_data (Buffer_SetData data b))"
        "0 + length data \<le> bf_size (Buffer_SetData data b)" by simp_all
      from own_step [where f = "Buffer_SetData data", OF inv i o this] obtain st1 where
        "with_buffer i (Buffer_SetData data) st = Some st1" "cow_inv (set_slice i 0 (length data) st1)"
        "cow_values (set_slice i 0 (length data) st1)
          = (cow_values st)[i := take (length data) (drop 0 (bf_data (Buffer_SetData data b)))]" by blast
      with f(2) have "with_buffer i (Buffer_SetData data) st = Some st1" "cow_inv (set_slice i 0 (length data) st1)"
        "cow_values (set_slice i 0 (length data) st1) = (cow_values st)[i := data]" by simp_all
      then show ?thesis using c True Some i
        by (simp add: cow_SetData_def cow_deref_def cow_capacity_def)
    next
      case False
      from fresh [of "length (bf_data b) - cow_offset (cs_vars st ! i)"] obtain st1 where
        "assign_new i (Buffer_of data (length (bf_data b) - cow_offset (cs_vars st ! i))) st = Some st1"
        "cow_inv (set_slice i 0 (length data) st1)"
        "cow_values (set_slice i 0 (length data) st1) = (cow_values st)[i := data]" by blast
      then show ?thesis using c False Some i
        by (simp add: cow_SetData_def cow_deref_def cow_capacity_def)
    qed
  qed
qed

lemma cow_AppendData_works:
  assumes inv: "cow_inv st" and i: "i < length (cs_vars st)"
  shows "\<exists>st'. cow_AppendData i data st = Some st' \<and> cow_inv st'
    \<and> cow_values st' = (cow_values st)[i := cow_values st ! i @ data]"
proof (cases "cow_buffer (cs_vars st ! i)")
  case None
  then show ?thesis
    using assign_new_works [OF inv i, of 0 "length data" "Buffer_of data (length data)"] null_value [OF inv i] i
    by (auto simp: cow_AppendData_def)
next
  case (Some a0)
  from cell_of [OF inv i Some] obtain n b0 where c: "heap_cell (cs_heap st) a0 = Some (n, b0)" by blast
  let ?cap = "max (length (bf_data b0) - cow_offset (cs_vars st ! i)) (cow_size (cs_vars st ! i) + length data)"
  from unshare_works [OF inv i Some] obtain st1 a b where st1: "UnshareAndEnsureCapacity i ?cap st = Some st1"
    "cow_inv st1" "cow_values st1 = cow_values st" "length (cs_vars st1) = length (cs_vars st)" "owns i a b st1"
    "cow_offset (cs_vars st1 ! i) + ?cap \<le> length (bf_data b)"
    "cow_size (cs_vars st1 ! i) = cow_size (cs_vars st ! i)" by blast
  have i1: "i < length (cs_vars st1)" using i st1(4) by simp
  let ?off = "cow_offset (cs_vars st1 ! i)" and ?size = "cow_size (cs_vars st1 ! i)"
  let ?f = "Buffer_AppendData data \<circ> Buffer_SetSize (?off + ?size)"
  note own = owns_facts [OF st1(2) i1 st1(5)]
  have room: "?off + ?size + length data \<le> length (bf_data b)" using st1(6,7) by simp
  have f: "bf_size (?f b) = ?off + ?size + length data"
    "bf_data (?f b) = take (?off + ?size) (bf_data b) @ data @ drop (?off + ?size + length data) (bf_data b)"
    using room by (simp_all add: Buffer_AppendData_def Buffer_SetSize_def Let_def)
  have "bf_size (?f b) \<le> length (bf_data (?f b))" "?off + (?size + length data) \<le> bf_size (?f b)"
    using f room by simp_all
  from own_step [where f = ?f, OF st1(2) i1 st1(5) this] obtain st3 where st3: "with_buffer i ?f st1 = Some st3"
    "cow_inv (set_slice i ?off (?size + length data) st3)"
    "cow_values (set_slice i ?off (?size + length data) st3)
      = (cow_values st1)[i := take (?size + length data) (drop ?off (bf_data (?f b)))]" by blast
  obtain st2 where st2: "with_buffer i (Buffer_SetSize (?off + ?size)) st1 = Some st2"
    using st3(1) by (auto simp: with_buffer_def bind_eq_Some_conv)
  have "take (?size + length data) (drop ?off (bf_data (?f b))) = cow_values st ! i @ data"
    unfolding f(2) using room own(3) st1(3) by (simp add: drop_take)
  moreover have "cow_AppendData i data st = Some (set_slice i ?off (?size + length data) st3)"
    using i i1 Some c st1(1) st2 st3(1) with_buffer_twice [OF st2, of "Buffer_AppendData data"]
    by (simp add: cow_AppendData_def cow_capacity_def cow_deref_def)
  ultimately show ?thesis using st3 st1(3) by simp
qed

lemma shrink_works:
  assumes inv: "cow_inv st" and i: "i < length (cs_vars st)"
    and c: "slice_ok (cs_heap st) ((cs_vars st ! i)\<lparr>cow_offset := off, cow_size := len\<rparr>)" (is "slice_ok _ ?c")
  shows "cow_inv (set_slice i off len st)"
    "cow_values (set_slice i off len st) = (cow_values st)[i := bytes_in (cs_heap st) ?c]"
proof -
  have "counts [] (cs_heap st) ((cs_vars st)[i := ?c]) \<longleftrightarrow> counts [] (cs_heap st) (cs_vars st)"
    by (rule counts_same) (use refs_update [OF i, of _ ?c] in simp)
  then show "cow_inv (set_slice i off len st)"
    using inv c set_update_subset_insert [of "cs_vars st" i ?c] by (auto simp: cow_inv_def set_slice_def)
  show "cow_values (set_slice i off len st) = (cow_values st)[i := bytes_in (cs_heap st) ?c]"
    by (simp add: cow_values_def set_slice_def map_update)
qed

lemma SetSize_works:
  assumes inv: "cow_inv st" and i: "i < length (cs_vars st)"
  shows "\<exists>st' v. cow_SetSize i len st = Some st' \<and> cow_inv st' \<and> cow_values st' = (cow_values st)[i := v]
    \<and> length v = len \<and> take (min len (length (cow_values st ! i))) v = take len (cow_values st ! i)"
proof (cases "cow_buffer (cs_vars st ! i)")
  case None
  note n = null_value [OF inv i None]
  show ?thesis
  proof (cases "len = 0")
    case True
    then show ?thesis using inv i None n
      by (auto simp: cow_SetSize_def intro: exI [of _ "[]"])
  next
    case False
    from assign_new_works [OF inv i, of 0 len "Buffer_new len len"] obtain st' where
      "assign_new i (Buffer_new len len) st = Some st'" "cow_inv (set_slice i 0 len st')"
      "cow_values (set_slice i 0 len st') = (cow_values st)[i := take len (bf_data (Buffer_new len len))]" by auto
    then show ?thesis using False None n i
      by (intro exI [of _ "set_slice i 0 len st'"] exI [of _ "take len (bf_data (Buffer_new len len))"])
        (simp add: cow_SetSize_def)
  qed
next
  case (Some a0)
  from cell_of [OF inv i Some] obtain n b0 where c: "heap_cell (cs_heap st) a0 = Some (n, b0)"
    "cow_offset (cs_vars st ! i) + cow_size (cs_vars st ! i) \<le> bf_size b0"
    "cow_values st ! i = take (cow_size (cs_vars st ! i)) (drop (cow_offset (cs_vars st ! i)) (bf_data b0))" by blast
  note vl = value_length [OF inv i]
  show ?thesis
  proof (cases "len \<le> cow_size (cs_vars st ! i)")
    case True
    let ?c = "(cs_vars st ! i)\<lparr>cow_offset := cow_offset (cs_vars st ! i), cow_size := len\<rparr>"
    have "slice_ok (cs_heap st) ?c" using c True Some by (simp add: slice_ok_def buf_def)
    note sh = shrink_works [OF inv i this]
    have "bytes_in (cs_heap st) ?c = take len (cow_values st ! i)"
      using c Some True by (simp add: bytes_in_def buf_def)
    then show ?thesis using sh True Some i vl by (auto simp: cow_SetSize_def)
  next
    case False
    let ?cap = "max (length (bf_data b0) - cow_offset (cs_vars st ! i)) len"
    from unshare_works [OF inv i Some] obtain st1 a b where st1: "UnshareAndEnsureCapacity i ?cap st = Some st1"
      "cow_inv st1" "cow_values st1 = cow_values st" "length (cs_vars st1) = length (cs_vars st)" "owns i a b st1"
      "cow_offset (cs_vars st1 ! i) + ?cap \<le> length (bf_data b)"
      "cow_size (cs_vars st1 ! i) = cow_size (cs_vars st ! i)" by blast
    have i1: "i < length (cs_vars st1)" using i st1(4) by simp
    let ?off = "cow_offset (cs_vars st1 ! i)" let ?f = "Buffer_SetSize (len + ?off)"
    note own = owns_facts [OF st1(2) i1 st1(5)]
    have room: "len + ?off \<le> length (bf_data b)" using st1(6) by simp
    then have f: "bf_size (?f b) = len + ?off" "bf_data (?f b) = bf_data b" by (simp_all add: Buffer_SetSize_def)
    have "bf_size (?f b) \<le> length (bf_data (?f b))" "?off + len \<le> bf_size (?f b)" using f room by simp_all
    from own_step [where f = ?f, OF st1(2) i1 st1(5) this] obtain st2 where st2: "with_buffer i ?f st1 = Some st2"
      "cow_inv (set_slice i ?off len st2)"
      "cow_values (set_slice i ?off len st2) = (cow_values st1)[i := take len (drop ?off (bf_data b))]"
      unfolding f(2) by blast
    have "cow_SetSize i len st = Some (set_slice i ?off len st2)"
      using i i1 Some c(1) st1(1) st2(1) False by (simp add: cow_SetSize_def cow_capacity_def cow_deref_def)
    moreover have "length (take len (drop ?off (bf_data b))) = len" using room by simp
    moreover have "take (length (cow_values st ! i)) (take len (drop ?off (bf_data b))) = cow_values st ! i"
      using own(3) st1(3,7) vl False by (simp add: min_absorb1)
    ultimately show ?thesis using st2(2,3) st1(3) vl False by (auto simp: min_absorb2)
  qed
qed

lemma EnsureCapacity_works:
  assumes inv: "cow_inv st" and i: "i < length (cs_vars st)"
  shows "\<exists>st'. cow_EnsureCapacity i cap st = Some st' \<and> cow_inv st' \<and> cow_values st' = cow_values st"
proof (cases "cow_buffer (cs_vars st ! i)")
  case None
  note n = null_value [OF inv i None]
  then show ?thesis using assign_new_works [OF inv i, of 0 0 "Buffer_new 0 cap"] None inv i
    by (auto simp: cow_EnsureCapacity_def)
next
  case (Some a)
  from cell_of [OF inv i Some] obtain n b where c: "heap_cell (cs_heap st) a = Some (n, b)" by blast
  from unshare_works [OF inv i Some] obtain st' where "UnshareAndEnsureCapacity i cap st = Some st'"
    "cow_inv st'" "cow_values st' = cow_values st" by metis
  then show ?thesis using c Some inv i by (auto simp: cow_EnsureCapacity_def cow_capacity_def cow_deref_def)
qed

lemma Clear_works:
  assumes inv: "cow_inv st" and i: "i < length (cs_vars st)"
  shows "\<exists>st'. cow_Clear i st = Some st' \<and> cow_inv st' \<and> cow_values st' = (cow_values st)[i := []]"
proof (cases "cow_buffer (cs_vars st ! i)")
  case None
  then show ?thesis using null_value [OF inv i None] inv i by (auto simp: cow_Clear_def)
next
  case (Some a)
  from cell_of [OF inv i Some] obtain n b where c: "heap_cell (cs_heap st) a = Some (n, b)" by blast
  show ?thesis
  proof (cases "n = 1")
    case True
    then have o: "owns i a b st" using c Some by (simp add: owns_def)
    have "bf_size (Buffer_Clear b) \<le> length (bf_data (Buffer_Clear b))" "0 + 0 \<le> bf_size (Buffer_Clear b)"
      by (simp_all add: Buffer_Clear_def)
    from own_step [where f = Buffer_Clear, OF inv i o this] obtain st1 where
      "with_buffer i Buffer_Clear st = Some st1" "cow_inv (set_slice i 0 0 st1)"
      "cow_values (set_slice i 0 0 st1) = (cow_values st)[i := take 0 (drop 0 (bf_data (Buffer_Clear b)))]" by blast
    then show ?thesis using c True Some i by (simp add: cow_Clear_def cow_deref_def cow_capacity_def)
  next
    case False
    from assign_new_works [OF inv i, of 0 0 "Buffer_new 0 (length (bf_data b) - cow_offset (cs_vars st ! i))"]
    show ?thesis using c False Some i by (auto simp: cow_Clear_def cow_deref_def cow_capacity_def)
  qed
qed

lemma write_works:
  assumes inv: "cow_inv st" and i: "i < length (cs_vars st)" and k: "k < length (cow_values st ! i)"
  shows "\<exists>st'. write_MutableData i k v st = Some st' \<and> cow_inv st'
    \<and> cow_values st' = (cow_values st)[i := (cow_values st ! i)[k := v]]"
proof -
  obtain a0 where a0: "cow_buffer (cs_vars st ! i) = Some a0"
    using null_value(1) [OF inv i] k by (cases "cow_buffer (cs_vars st ! i)") auto
  from cell_of [OF inv i a0] obtain n b0 where c: "heap_cell (cs_heap st) a0 = Some (n, b0)" by blast
  let ?cap = "length (bf_data b0) - cow_offset (cs_vars st ! i)"
  from unshare_works [OF inv i a0] obtain st1 a b where st1: "UnshareAndEnsureCapacity i ?cap st = Some st1"
    "cow_inv st1" "cow_values st1 = cow_values st" "length (cs_vars st1) = length (cs_vars st)" "owns i a b st1"
    "cow_size (cs_vars st1 ! i) = cow_size (cs_vars st ! i)" by metis
  have i1: "i < length (cs_vars st1)" using i st1(4) by simp
  let ?off = "cow_offset (cs_vars st1 ! i)" and ?size = "cow_size (cs_vars st1 ! i)"
  let ?f = "\<lambda>b. b\<lparr>bf_data := (bf_data b)[?off + k := v]\<rparr>"
  note own = owns_facts [OF st1(2) i1 st1(5)]
  have kk: "k < ?size" using k value_length [OF inv i] st1(6) by simp
  have "bf_size (?f b) \<le> length (bf_data (?f b))" "?off + ?size \<le> bf_size (?f b)" using own by simp_all
  from own_step [where f = ?f, OF st1(2) i1 st1(5) this] obtain st2 where st2: "with_buffer i ?f st1 = Some st2"
    "cs_vars st2 = cs_vars st1" "cow_inv (set_slice i ?off ?size st2)"
    "cow_values (set_slice i ?off ?size st2) = (cow_values st1)[i := take ?size (drop ?off (bf_data (?f b)))]" by blast
  have "set_slice i ?off ?size st2 = st2" using set_slice_same [of i st2] i1 st2(2) by simp
  moreover have "take ?size (drop ?off (bf_data (?f b))) = (cow_values st ! i)[k := v]"
    using own(3) st1(3) kk by (simp add: drop_update_swap take_update_swap)
  moreover have "write_MutableData i k v st = Some st2"
    using i i1 a0 c st1(1) st2(1) own kk
    by (simp add: write_MutableData_def poke_def cow_capacity_def cow_deref_def)
  ultimately show ?thesis using st2(3,4) st1(3) by simp
qed

lemma assign_works:
  assumes inv: "cow_inv st" and i: "i < length (cs_vars st)" and j: "j < length (cs_vars st)"
  shows "\<exists>st'. cow_assign i j st = Some st' \<and> cow_inv st' \<and> cow_values st' = (cow_values st)[i := cow_values st ! j]"
proof (cases "i = j")
  case True
  then show ?thesis using inv j by (simp add: cow_assign_def)
next
  case False
  let ?c = "cs_vars st ! j"
  have "\<lparr>cow_buffer = cow_buffer ?c, cow_offset = cow_offset ?c, cow_size = cow_size ?c\<rparr> = ?c" by simp
  with set_buffer_works [OF inv i j, of "cow_offset ?c" "cow_size ?c"] inv_parts(3) [OF inv j] show ?thesis
    using False i j by (auto simp: cow_assign_def cow_values_def)
qed

lemma move_assign_works:
  assumes inv: "cow_inv st" and i: "i < length (cs_vars st)" and j: "j < length (cs_vars st)"
  shows "\<exists>st'. cow_move_assign i j st = Some st' \<and> cow_inv st'
    \<and> cow_values st' = (cow_values st)[i := cow_values st ! j, j := []]"
proof (cases "i = j")
  case True
  let ?c = "cs_vars st ! j"
  have "slice_ok (cs_heap st) (?c\<lparr>cow_offset := 0, cow_size := 0\<rparr>)"
    using inv_parts(3) [OF inv j] by (auto simp: slice_ok_def split: option.splits)
  note sh = shrink_works [OF inv j this]
  have "bytes_in (cs_heap st) (?c\<lparr>cow_offset := 0, cow_size := 0\<rparr>) = []"
    by (simp add: bytes_in_def split: option.splits)
  moreover have "cow_move_assign i j st = Some (set_slice j 0 0 st)"
    using True j by (cases st) (simp add: cow_move_assign_def cow_var_def heap_Release_def set_slice_def Let_def)
  ultimately show ?thesis using sh True by simp
next
  case False
  let ?h = "cs_heap st" and ?vs = "cs_vars st" let ?c = "?vs ! j"
  have len: "j < length ?vs" "i < length (?vs[j := cow_null])" using i j by simp_all
  have "counts [None] ?h ?vs" using inv_parts(1) [OF inv] by simp
  from counts_swap [OF this j, of cow_null] have c: "counts [cow_buffer ?c] ?h (?vs[j := cow_null])"
    by (simp add: cow_null_def)
  have "slice_ok ?h cow_null" by (simp add: slice_ok_def cow_null_def)
  then have "\<forall>x\<in>set (?vs[j := cow_null]). slice_ok ?h x"
    using inv set_update_subset_insert [of ?vs j cow_null] unfolding cow_inv_def by blast
  from replace_works [OF c inv_parts(2) [OF inv] this inv_parts(3) [OF inv j] len(2)] False i obtain h' where
    h': "heap_Release (cow_buffer (?vs ! i)) ?h = Some h'"
    "cow_inv \<lparr>cs_heap = h', cs_vars = ?vs[j := cow_null, i := ?c]\<rparr>"
    "cow_values \<lparr>cs_heap = h', cs_vars = ?vs[j := cow_null, i := ?c]\<rparr>
      = (map (bytes_in ?h) (?vs[j := cow_null]))[i := bytes_in ?h ?c]" by auto
  have "map (bytes_in ?h) (?vs[j := cow_null]) = (cow_values st)[j := []]"
    by (simp add: cow_values_def map_update bytes_in_def cow_null_def)
  then have v: "cow_values \<lparr>cs_heap = h', cs_vars = ?vs[j := cow_null, i := ?c]\<rparr>
      = (cow_values st)[i := cow_values st ! j, j := []]"
    unfolding h'(3) using list_update_swap [of i j "cow_values st" "cow_values st ! j" "[]"] False j
    by (simp add: cow_values_def)
  have "cow_move_assign i j st = Some \<lparr>cs_heap = h', cs_vars = ?vs[j := cow_null, i := ?c]\<rparr>"
    using False i j h'(1)
    by (cases "?vs ! j"; cases "?vs ! i")
      (simp add: cow_move_assign_def cow_var_def set_slice_def Let_def cow_null_def list_update_swap)
  with h'(2) v show ?thesis by blast
qed

section \<open>Objects that come and go\<close>

lemma push_works:
  assumes "counts [cow_buffer c] h vs" "bufs_ok h" "\<forall>x\<in>set vs. slice_ok h x" "slice_ok h c"
  shows "cow_inv \<lparr>cs_heap = h, cs_vars = vs @ [c]\<rparr>"
    "cow_values \<lparr>cs_heap = h, cs_vars = vs @ [c]\<rparr> = map (bytes_in h) vs @ [bytes_in h c]"
  using counts_push [OF assms(1)] assms(2-4) by (auto simp: cow_inv_def cow_values_def)

lemma add_var_works:
  assumes inv: "cow_inv st" and c: "slice_ok (cs_heap st) c"
  shows "\<exists>st'. add_var c st = Some st' \<and> cow_inv st' \<and> cs_vars st' = cs_vars st @ [c]
    \<and> cow_values st' = cow_values st @ [bytes_in (cs_heap st) c] \<and> buf (cs_heap st') = buf (cs_heap st)"
proof -
  have "heap_cell (cs_heap st) a \<noteq> None" if "cow_buffer c = Some a" for a
    using c that by (auto simp: slice_ok_def buf_def split: option.splits)
  from AddRef_works [OF inv_parts(1) [OF inv] this] obtain h where
    h: "heap_AddRef (cow_buffer c) (cs_heap st) = Some h" "counts [cow_buffer c] h (cs_vars st)"
    "buf h = buf (cs_heap st)" by auto
  have same: "bytes_in h x = bytes_in (cs_heap st) x" "slice_ok h x = slice_ok (cs_heap st) x" for x
    using frame [of x h "cs_heap st"] h(3) by simp_all
  have "bufs_ok h" "\<forall>x\<in>set (cs_vars st). slice_ok h x" "slice_ok h c"
    using inv c h(3) same by (simp_all add: cow_inv_def bufs_ok_def)
  note p = push_works [OF h(2) this]
  have "map (bytes_in h) (cs_vars st) = cow_values st" using same by (simp add: cow_values_def)
  then show ?thesis using p h same by (cases st) (simp add: add_var_def push_var_def)
qed

lemma of_size_works:
  assumes inv: "cow_inv st"
  shows "\<exists>st' c. cow_of_size len cap st = Some st' \<and> cow_inv st' \<and> cs_vars st' = cs_vars st @ [c]
    \<and> cow_values st' = cow_values st @ [replicate len None]
    \<and> (if len > 0 \<or> cap > 0 then owns (length (cs_vars st)) (length (cs_heap st)) (Buffer_new len cap) st'
       else cow_buffer c = None)"
proof (cases "len > 0 \<or> cap > 0")
  case False
  then show ?thesis using add_var_works [OF inv, of "\<lparr>cow_buffer = None, cow_offset = 0, cow_size = len\<rparr>"]
    by (auto simp: cow_of_size_def slice_ok_def bytes_in_def)
next
  case True
  let ?a = "length (cs_heap st)" and ?b = "Buffer_new len cap"
  let ?h = "cs_heap st @ [Some (Suc 0, ?b)]" and ?c = "\<lparr>cow_buffer = Some ?a, cow_offset = 0, cow_size = len\<rparr>"
  have old: "buf ?h a = buf (cs_heap st) a" if "x \<in> set (cs_vars st)" "cow_buffer x = Some a" for x a
    using counts_live [OF inv_parts(1) [OF inv] that] heap_cell_length by (fastforce simp: buf_append)
  have "counts [cow_buffer ?c] ?h (cs_vars st)" using counts_fresh [OF inv_parts(1) [OF inv]] by simp
  moreover have "bufs_ok ?h" using inv_parts(2) [OF inv] by (simp add: bufs_ok_def buf_append)
  moreover have "\<forall>x\<in>set (cs_vars st). slice_ok ?h x"
    using inv frame(2) [of _ ?h "cs_heap st"] old by (simp add: cow_inv_def)
  moreover have "slice_ok ?h ?c" by (simp add: slice_ok_def buf_append)
  ultimately have p: "cow_inv \<lparr>cs_heap = ?h, cs_vars = cs_vars st @ [?c]\<rparr>"
    "cow_values \<lparr>cs_heap = ?h, cs_vars = cs_vars st @ [?c]\<rparr> = map (bytes_in ?h) (cs_vars st) @ [bytes_in ?h ?c]"
    using push_works by blast+
  have "cow_of_size len cap st = Some \<lparr>cs_heap = ?h, cs_vars = cs_vars st @ [?c]\<rparr>"
    using True by (simp add: cow_of_size_def add_var_def push_var_def heap_AddRef_def heap_cell_append)
  moreover have "map (bytes_in ?h) (cs_vars st) = cow_values st"
    using old frame(1) [of _ ?h "cs_heap st"] by (simp add: cow_values_def)
  moreover have "bytes_in ?h ?c = replicate len None"
    by (simp add: bytes_in_def buf_append Buffer_new_def)
  ultimately show ?thesis using p True by (auto simp: owns_def heap_cell_append)
qed

lemma of_data_works:
  assumes inv: "cow_inv st"
  shows "\<exists>st'. cow_of_data data cap st = Some st' \<and> cow_inv st' \<and> cow_values st' = cow_values st @ [data]"
proof -
  let ?i = "length (cs_vars st)"
  from of_size_works [OF inv, of "length data" cap] obtain st1 c where st1: "cow_of_size (length data) cap st = Some st1"
    "cow_inv st1" "cs_vars st1 = cs_vars st @ [c]" "cow_values st1 = cow_values st @ [replicate (length data) None]"
    "if length data > 0 \<or> cap > 0 then owns ?i (length (cs_heap st)) (Buffer_new (length data) cap) st1
     else cow_buffer c = None" by blast
  have i: "?i < length (cs_vars st1)" by (simp add: st1(3))
  show ?thesis
  proof (cases "length data > 0 \<or> cap > 0")
    case False
    then show ?thesis using st1 i by (simp add: cow_of_data_def)
  next
    case True
    let ?b = "Buffer_new (length data) cap" and ?f = "\<lambda>b. b\<lparr>bf_data := data @ drop (length data) (bf_data b)\<rparr>"
    have o: "owns ?i (length (cs_heap st)) ?b st1" using st1(5) True by simp
    have "bf_size (?f ?b) \<le> length (bf_data (?f ?b))" "0 + length data \<le> bf_size (?f ?b)" by simp_all
    from own_step [where f = ?f, OF st1(2) i o this] obtain st2 where "with_buffer ?i ?f st1 = Some st2"
      "cow_inv (set_slice ?i 0 (length data) st2)"
      "cow_values (set_slice ?i 0 (length data) st2) = (cow_values st1)[?i := take (length data) (drop 0 (bf_data (?f ?b)))]"
      by blast
    moreover have "cow_buffer c \<noteq> None" using o st1(3) by (simp add: owns_def)
    ultimately show ?thesis using st1(1,3,4) i by (auto simp: cow_of_data_def list_update_append)
  qed
qed

lemma Slice_works:
  assumes inv: "cow_inv st" and i: "i < length (cs_vars st)" and r: "off + len \<le> length (cow_values st ! i)"
  shows "\<exists>st'. cow_Slice i off len st = Some st' \<and> cow_inv st'
    \<and> cow_values st' = cow_values st @ [take len (drop off (cow_values st ! i))]"
proof -
  let ?c = "cs_vars st ! i" and ?n = "length (cs_vars st)"
  note ok = inv_parts(3) [OF inv i]
  from add_var_works [OF inv ok] obtain st1 where st1: "add_var ?c st = Some st1" "cow_inv st1"
    "cs_vars st1 = cs_vars st @ [?c]" "cow_values st1 = cow_values st @ [bytes_in (cs_heap st) ?c]"
    "buf (cs_heap st1) = buf (cs_heap st)" by blast
  have n: "?n < length (cs_vars st1)" "cs_vars st1 ! ?n = ?c" by (simp_all add: st1(3))
  let ?c' = "?c\<lparr>cow_offset := cow_offset ?c + off, cow_size := len\<rparr>"
  note r' = r [unfolded value_length [OF inv i]]
  have s: "slice_ok (cs_heap st1) ?c'"
    using ok r' st1(5) by (auto simp: slice_ok_def split: option.splits)
  have b: "bytes_in (cs_heap st1) ?c' = take len (drop off (cow_values st ! i))"
    using i r' st1(5)
    by (auto simp: bytes_in_def cow_values_def drop_take min_def add.commute split: option.splits)
  have "cow_Slice i off len st = Some (set_slice ?n (cow_offset ?c + off) len st1)"
    using i st1(1) by (simp add: cow_Slice_def)
  then show ?thesis using shrink_works [where off = "cow_offset ?c + off" and len = len, OF st1(2) n(1)] s b n st1(4)
    by (simp add: list_update_append)
qed

lemma move_works:
  assumes inv: "cow_inv st" and j: "j < length (cs_vars st)"
  shows "\<exists>st'. cow_move j st = Some st' \<and> cow_inv st' \<and> cow_values st' = (cow_values st)[j := []] @ [cow_values st ! j]"
proof -
  let ?h = "cs_heap st" and ?vs = "cs_vars st" let ?c = "?vs ! j"
  have "counts [None] ?h ?vs" using inv_parts(1) [OF inv] by simp
  from counts_swap [OF this j, of cow_null] have c: "counts [cow_buffer ?c] ?h (?vs[j := cow_null])"
    by (simp add: cow_null_def)
  have "slice_ok ?h cow_null" by (simp add: slice_ok_def cow_null_def)
  then have "\<forall>x\<in>set (?vs[j := cow_null]). slice_ok ?h x"
    using inv set_update_subset_insert [of ?vs j cow_null] unfolding cow_inv_def by blast
  from push_works [OF c inv_parts(2) [OF inv] this inv_parts(3) [OF inv j]] show ?thesis
    using j by (cases st) (simp add: cow_move_def push_var_def cow_values_def map_update bytes_in_def cow_null_def)
qed

lemma destroy_works:
  assumes inv: "cow_inv st" and i: "i < length (cs_vars st)"
  shows "\<exists>st'. cow_destroy i st = Some st' \<and> cow_inv st'
    \<and> cow_values st' = take i (cow_values st) @ drop (Suc i) (cow_values st)"
proof -
  let ?h = "cs_heap st" and ?vs = "cs_vars st"
  let ?ws = "take i ?vs @ drop (Suc i) ?vs"
  have vs: "?vs = take i ?vs @ ?vs ! i # drop (Suc i) ?vs" by (rule id_take_nth_drop [OF i])
  have "refs a ?vs = refs a ?ws + of_bool (cow_buffer (?vs ! i) = Some a)" for a
    by (subst vs) simp
  then have "counts [cow_buffer (?vs ! i)] ?h ?ws \<longleftrightarrow> counts [] ?h ?vs" by (intro counts_same) simp
  then have "counts [cow_buffer (?vs ! i)] ?h ?ws" using inv_parts(1) [OF inv] by simp
  from Release_works [OF this] obtain h' where h': "heap_Release (cow_buffer (?vs ! i)) ?h = Some h'"
    "counts [] h' ?ws" "\<forall>c\<in>set ?ws. \<forall>a. cow_buffer c = Some a \<longrightarrow> buf h' a = buf ?h a" by blast
  have fr: "bytes_in h' c = bytes_in ?h c" "slice_ok h' c = slice_ok ?h c" if "c \<in> set ?ws" for c
    using h'(3) that by (intro frame; blast)+
  have "set ?ws \<subseteq> set ?vs" by (auto dest: in_set_takeD in_set_dropD)
  then have "\<forall>c\<in>set ?ws. slice_ok h' c" using fr(2) inv unfolding cow_inv_def by blast
  then have "cow_inv \<lparr>cs_heap = h', cs_vars = ?ws\<rparr>"
    using h' Release_bufs_ok inv_parts(2) [OF inv] by (simp add: cow_inv_def)
  moreover have "map (bytes_in h') ?ws = map (bytes_in ?h) ?ws" using fr(1) by (intro map_cong) simp_all
  then have "cow_values \<lparr>cs_heap = h', cs_vars = ?ws\<rparr> = take i (cow_values st) @ drop (Suc i) (cow_values st)"
    by (simp add: cow_values_def take_map drop_map)
  ultimately show ?thesis using i h'(1) by (simp add: cow_destroy_def)
qed

lemma swap_works:
  assumes inv: "cow_inv st" and i: "i < length (cs_vars st)" and j: "j < length (cs_vars st)"
  shows "\<exists>st'. cow_swap i j st = Some st' \<and> cow_inv st'
    \<and> cow_values st' = (cow_values st)[i := cow_values st ! j, j := cow_values st ! i]"
proof -
  let ?h = "cs_heap st" and ?vs = "cs_vars st"
  let ?ws = "?vs[i := ?vs ! j, j := ?vs ! i]"
  have m: "mset ?ws = mset ?vs" using mset_swap [OF j i] .
  have "refs a ?ws = refs a ?vs" for a
    using arg_cong [OF m, of "\<lambda>M. size (filter_mset (\<lambda>c. cow_buffer c = Some a) M)"]
    by (simp add: refs_def flip: mset_filter)
  then have "counts [] ?h ?ws \<longleftrightarrow> counts [] ?h ?vs" by (intro counts_same) simp
  moreover have "set ?ws = set ?vs" using mset_eq_setD [OF m] .
  ultimately have "cow_inv \<lparr>cs_heap = ?h, cs_vars = ?ws\<rparr>" using inv by (simp add: cow_inv_def)
  then show ?thesis using i j by (cases st) (simp add: cow_swap_def cow_values_def map_update)
qed

end
