(* ===== verification/Cow_Semantics.thy ===== *)
theory Cow_Semantics
  imports Cow_Values
begin

text \<open>
  The contract of \<^verbatim>\<open>CopyOnWriteBuffer\<close>: under any sequence of its operations the objects behave
  as independent sequences of bytes.
\<close>

section \<open>The operations and their specification\<close>

datatype cow_op =
    OpDefault | OpCopy nat | OpMove nat | OpOfSize nat nat | OpOfData "byte list" nat | OpDestroy nat
  | OpAssign nat nat | OpMoveAssign nat nat | OpSetData nat "byte list" | OpAppendData nat "byte list"
  | OpSetSize nat nat | OpEnsureCapacity nat nat | OpClear nat | OpSwap nat nat | OpSlice nat nat nat
  | OpWrite nat nat byte

fun cow_exec :: "cow_op \<Rightarrow> cow_state \<Rightarrow> cow_state option" where
  "cow_exec OpDefault st = add_var cow_null st"
| "cow_exec (OpCopy j) st = cow_copy j st"
| "cow_exec (OpMove j) st = cow_move j st"
| "cow_exec (OpOfSize len capacity) st = cow_of_size len capacity st"
| "cow_exec (OpOfData data capacity) st = cow_of_data data capacity st"
| "cow_exec (OpDestroy i) st = cow_destroy i st"
| "cow_exec (OpAssign i j) st = cow_assign i j st"
| "cow_exec (OpMoveAssign i j) st = cow_move_assign i j st"
| "cow_exec (OpSetData i data) st = cow_SetData i data st"
| "cow_exec (OpAppendData i data) st = cow_AppendData i data st"
| "cow_exec (OpSetSize i len) st = cow_SetSize i len st"
| "cow_exec (OpEnsureCapacity i capacity) st = cow_EnsureCapacity i capacity st"
| "cow_exec (OpClear i) st = cow_Clear i st"
| "cow_exec (OpSwap i j) st = cow_swap i j st"
| "cow_exec (OpSlice i off len) st = cow_Slice i off len st"
| "cow_exec (OpWrite i k v) st = write_MutableData i k v st"

text \<open>The caller's obligations: objects that exist, a slice and a write inside the object.\<close>

fun cow_ok :: "cow_op \<Rightarrow> byte list list \<Rightarrow> bool" where
  "cow_ok (OpCopy j) vs \<longleftrightarrow> j < length vs"
| "cow_ok (OpMove j) vs \<longleftrightarrow> j < length vs"
| "cow_ok (OpDestroy i) vs \<longleftrightarrow> i < length vs"
| "cow_ok (OpAssign i j) vs \<longleftrightarrow> i < length vs \<and> j < length vs"
| "cow_ok (OpMoveAssign i j) vs \<longleftrightarrow> i < length vs \<and> j < length vs"
| "cow_ok (OpSetData i data) vs \<longleftrightarrow> i < length vs"
| "cow_ok (OpAppendData i data) vs \<longleftrightarrow> i < length vs"
| "cow_ok (OpSetSize i len) vs \<longleftrightarrow> i < length vs"
| "cow_ok (OpEnsureCapacity i capacity) vs \<longleftrightarrow> i < length vs"
| "cow_ok (OpClear i) vs \<longleftrightarrow> i < length vs"
| "cow_ok (OpSwap i j) vs \<longleftrightarrow> i < length vs \<and> j < length vs"
| "cow_ok (OpSlice i off len) vs \<longleftrightarrow> i < length vs \<and> off + len \<le> length (vs ! i)"
| "cow_ok (OpWrite i k v) vs \<longleftrightarrow> i < length vs \<and> k < length (vs ! i)"
| "cow_ok _ vs \<longleftrightarrow> True"

text \<open>The values afterwards. What is new in an object that grows is left open.\<close>

fun cow_spec :: "cow_op \<Rightarrow> byte list list \<Rightarrow> byte list list \<Rightarrow> bool" where
  "cow_spec OpDefault vs ws \<longleftrightarrow> ws = vs @ [[]]"
| "cow_spec (OpCopy j) vs ws \<longleftrightarrow> ws = vs @ [vs ! j]"
| "cow_spec (OpMove j) vs ws \<longleftrightarrow> ws = vs[j := []] @ [vs ! j]"
| "cow_spec (OpOfSize len capacity) vs ws \<longleftrightarrow> ws = vs @ [replicate len None]"
| "cow_spec (OpOfData data capacity) vs ws \<longleftrightarrow> ws = vs @ [data]"
| "cow_spec (OpDestroy i) vs ws \<longleftrightarrow> ws = take i vs @ drop (Suc i) vs"
| "cow_spec (OpAssign i j) vs ws \<longleftrightarrow> ws = vs[i := vs ! j]"
| "cow_spec (OpMoveAssign i j) vs ws \<longleftrightarrow> ws = vs[i := vs ! j, j := []]"
| "cow_spec (OpSetData i data) vs ws \<longleftrightarrow> ws = vs[i := data]"
| "cow_spec (OpAppendData i data) vs ws \<longleftrightarrow> ws = vs[i := vs ! i @ data]"
| "cow_spec (OpSetSize i len) vs ws \<longleftrightarrow>
     ws = vs[i := ws ! i] \<and> length (ws ! i) = len
     \<and> take (min len (length (vs ! i))) (ws ! i) = take len (vs ! i)"
| "cow_spec (OpEnsureCapacity i capacity) vs ws \<longleftrightarrow> ws = vs"
| "cow_spec (OpClear i) vs ws \<longleftrightarrow> ws = vs[i := []]"
| "cow_spec (OpSwap i j) vs ws \<longleftrightarrow> ws = vs[i := vs ! j, j := vs ! i]"
| "cow_spec (OpSlice i off len) vs ws \<longleftrightarrow> ws = vs @ [take len (drop off (vs ! i))]"
| "cow_spec (OpWrite i k v) vs ws \<longleftrightarrow> ws = vs[i := (vs ! i)[k := v]]"

lemma cow_step_refines:
  assumes inv: "cow_inv st" and ok: "cow_ok x (cow_values st)"
  shows "\<exists>st'. cow_exec x st = Some st' \<and> cow_inv st' \<and> cow_spec x (cow_values st) (cow_values st')"
proof (cases x)
  case OpDefault
  have "slice_ok (cs_heap st) cow_null" "bytes_in (cs_heap st) cow_null = []"
    by (simp_all add: slice_ok_def bytes_in_def cow_null_def)
  then show ?thesis using add_var_works [OF inv, of cow_null] OpDefault by auto
next
  case (OpCopy j)
  then have j: "j < length (cs_vars st)" using ok by simp
  then show ?thesis using add_var_works [OF inv inv_parts(3) [OF inv j]] OpCopy
    by (auto simp: cow_copy_def cow_values_def)
next
  case (OpMove j)
  then show ?thesis using move_works [OF inv] ok by simp
next
  case (OpOfSize len capacity)
  then show ?thesis using of_size_works [OF inv, of len capacity] by (simp del: split_paired_Ex) blast
next
  case (OpOfData data capacity)
  then show ?thesis using of_data_works [OF inv] by simp
next
  case (OpDestroy i)
  then show ?thesis using destroy_works [OF inv] ok by simp
next
  case (OpAssign i j)
  then show ?thesis using assign_works [OF inv] ok by simp
next
  case (OpMoveAssign i j)
  then show ?thesis using move_assign_works [OF inv] ok by simp
next
  case (OpSetData i data)
  then show ?thesis using SetData_works [OF inv] ok by simp
next
  case (OpAppendData i data)
  then show ?thesis using cow_AppendData_works [OF inv] ok by simp
next
  case (OpSetSize i len)
  then have i: "i < length (cs_vars st)" using ok by simp
  from SetSize_works [OF inv this, of len] obtain st' v where "cow_SetSize i len st = Some st'" "cow_inv st'"
    "cow_values st' = (cow_values st)[i := v]" "length v = len"
    "take (min len (length (cow_values st ! i))) v = take len (cow_values st ! i)" by blast
  then show ?thesis using OpSetSize i by simp
next
  case (OpEnsureCapacity i capacity)
  then show ?thesis using EnsureCapacity_works [OF inv] ok by simp
next
  case (OpClear i)
  then show ?thesis using Clear_works [OF inv] ok by simp
next
  case (OpSwap i j)
  then show ?thesis using swap_works [OF inv] ok by simp
next
  case (OpSlice i off len)
  then show ?thesis using Slice_works [OF inv] ok by simp
next
  case (OpWrite i k v)
  then show ?thesis using write_works [OF inv] ok by simp
qed

inductive cow_reach :: "cow_state \<Rightarrow> bool" where
  cow_start: "cow_reach \<lparr>cs_heap = [], cs_vars = []\<rparr>"
| cow_step: "cow_reach st \<Longrightarrow> cow_ok x (cow_values st) \<Longrightarrow> cow_exec x st = Some st' \<Longrightarrow> cow_reach st'"

lemma cow_reach_inv: "cow_reach st \<Longrightarrow> cow_inv st"
proof (induction rule: cow_reach.induct)
  case cow_start
  show ?case by (simp add: cow_inv_def counts_def heap_cell_def bufs_ok_def buf_def)
next
  case (cow_step st x st')
  then show ?case using cow_step_refines [of st x] by auto
qed

section \<open>The contract\<close>

text \<open>
  Claim C3. Copy-on-write buffers behave as values. Whatever was done before, every operation whose caller
  names objects that exist and stays inside them is carried out without using freed
  memory, a null pointer or bytes outside a buffer, and changes the bytes of its own objects
  exactly as the same operation on separate sequences of bytes: copies, slices and
  assigned objects that share a buffer never see each other's changes.
\<close>

theorem cow_refines_values:
  assumes "cow_reach st" "cow_ok x (cow_values st)"
  shows "\<exists>st'. cow_exec x st = Some st' \<and> cow_spec x (cow_values st) (cow_values st')"
  using cow_step_refines [OF cow_reach_inv [OF assms(1)] assms(2)] by blast

text \<open>
  In every reachable state the count of a live buffer is the number of objects that point to
  it, and there is at least one; no object points to a freed buffer. So no buffer leaks, and
  when the last object is gone all memory is free.
\<close>

lemma cow_counts_exact:
  assumes "cow_reach st"
  shows "(\<forall>a n b. heap_cell (cs_heap st) a = Some (n, b) \<longrightarrow>
      n = length (filter (\<lambda>c. cow_buffer c = Some a) (cs_vars st)) \<and> n > 0)
    \<and> (\<forall>c\<in>set (cs_vars st). \<forall>a. cow_buffer c = Some a \<longrightarrow> heap_cell (cs_heap st) a \<noteq> None)
    \<and> (cs_vars st = [] \<longrightarrow> (\<forall>a. heap_cell (cs_heap st) a = None))"
proof -
  have c: "counts [] (cs_heap st) (cs_vars st)" using cow_reach_inv [OF assms] by (simp add: cow_inv_def)
  have "heap_cell (cs_heap st) a = None" if "cs_vars st = []" for a
    using countsD(2) [OF c, of a] that by (cases "heap_cell (cs_heap st) a") auto
  moreover have "n = length (filter (\<lambda>c. cow_buffer c = Some a) (cs_vars st)) \<and> n > 0"
    if "heap_cell (cs_heap st) a = Some (n, b)" for a n b
    using countsD(2) [OF c that] unfolding refs_def count_list.simps add_0_right .
  ultimately show ?thesis using counts_live [OF c] by fastforce
qed

text \<open>Two buffers are equal exactly if they show the same bytes, shared or not.\<close>

lemma cow_eq_is_equality:
  assumes "cow_reach st" "i < length (cs_vars st)" "j < length (cs_vars st)"
  shows "cow_eq i j st = Some (cow_values st ! i = cow_values st ! j)"
proof -
  note inv = cow_reach_inv [OF assms(1)]
  let ?a = "cs_vars st ! i" and ?b = "cs_vars st ! j"
  have bytes: "(if cow_buffer (cs_vars st ! k) = None then Some []
      else Option.bind (cow_deref (cs_vars st ! k) st)
        (\<lambda>(n, f). slice_data (cow_offset (cs_vars st ! k)) (cow_size (cs_vars st ! k)) f)) = Some (cow_values st ! k)"
    if k: "k < length (cs_vars st)" for k
  proof (cases "cow_buffer (cs_vars st ! k)")
    case None
    then show ?thesis using null_value [OF inv k] by simp
  next
    case (Some a)
    from cell_of [OF inv k Some] obtain n b where "heap_cell (cs_heap st) a = Some (n, b)"
      "cow_offset (cs_vars st ! k) + cow_size (cs_vars st ! k) \<le> bf_size b" "bf_size b \<le> length (bf_data b)"
      "cow_values st ! k = take (cow_size (cs_vars st ! k)) (drop (cow_offset (cs_vars st ! k)) (bf_data b))" by blast
    then show ?thesis using Some by (simp add: cow_deref_def slice_data_def)
  qed
  have same: "cow_values st ! i = cow_values st ! j"
    if "cow_size ?a = cow_size ?b" "cow_buffer ?a = cow_buffer ?b" "cow_offset ?a = cow_offset ?b"
    using that assms(2,3) by (simp add: cow_values_def bytes_in_def split: option.splits)
  show ?thesis
  proof (cases "cow_size ?a = cow_size ?b")
    case False
    then have "cow_values st ! i \<noteq> cow_values st ! j"
      using value_length [OF inv assms(2)] value_length [OF inv assms(3)] by auto
    then show ?thesis using False assms(2,3) by (simp add: cow_eq_def)
  next
    case True
    then show ?thesis using same bytes [OF assms(2)] bytes [OF assms(3)] assms(2,3) by (simp add: cow_eq_def)
  qed
qed

text \<open>
  A write through the pointer of \<^verbatim>\<open>data()\<close> with its \<^verbatim>\<open>const\<close> cast away, as in
  \<^verbatim>\<open>HeartbeatPacket::SetTime\<close>, breaks the contract: it changes every other object that shows
  the same place of the same buffer.
\<close>

lemma const_write_is_shared:
  assumes "cow_reach st" "i < length (cs_vars st)" "j < length (cs_vars st)"
    and same: "cow_buffer (cs_vars st ! i) = cow_buffer (cs_vars st ! j)"
      "cow_offset (cs_vars st ! i) = cow_offset (cs_vars st ! j)"
    and k: "k < length (cow_values st ! i)" "k < length (cow_values st ! j)"
  shows "\<exists>st'. write_const_data i k v st = Some st' \<and> cow_values st' ! j = (cow_values st ! j)[k := v]"
proof -
  note inv = cow_reach_inv [OF assms(1)]
  let ?c = "cs_vars st ! j"
  obtain a where a: "cow_buffer ?c = Some a"
    using null_value(1) [OF inv assms(3)] k(2) by (cases "cow_buffer ?c") auto
  from cell_of [OF inv assms(3) a] obtain n b where b: "heap_cell (cs_heap st) a = Some (n, b)"
    "cow_offset ?c + cow_size ?c \<le> bf_size b" "bf_size b \<le> length (bf_data b)"
    "cow_values st ! j = take (cow_size ?c) (drop (cow_offset ?c) (bf_data b))" by blast
  note l = heap_cell_length [OF b(1)]
  have kj: "k < cow_size ?c" using k(2) value_length [OF inv assms(3)] by simp
  let ?b = "b\<lparr>bf_data := (bf_data b)[cow_offset ?c + k := v]\<rparr>"
  let ?st = "st\<lparr>cs_heap := (cs_heap st)[a := Some (n, ?b)]\<rparr>"
  have "write_const_data i k v st = Some ?st"
    using assms(2) a b kj same by (simp add: write_const_data_def poke_def cow_deref_def with_buffer_def)
  moreover have "cow_values ?st ! j = (cow_values st ! j)[k := v]"
    unfolding b(4) using assms(3) a kj
    by (simp add: cow_values_def bytes_in_def buf_def heap_cell_update [OF l] drop_update_swap take_update_swap)
  ultimately show ?thesis by blast
qed

section \<open>Concrete instances\<close>

definition cow_sample :: cow_state where
  "cow_sample = (let c = \<lparr>cow_buffer = Some 0, cow_offset = 0, cow_size = 2\<rparr>
     in \<lparr>cs_heap = [Some (2, \<lparr>bf_size = 2, bf_data = [Some 1, Some 2]\<rparr>)], cs_vars = [c, c]\<rparr>)"

lemma cow_sample_values: "cow_values cow_sample = [[Some 1, Some 2], [Some 1, Some 2]]"
  by (simp add: cow_sample_def Let_def cow_values_def bytes_in_def buf_def heap_cell_def)

lemma cow_sample_reach: "cow_reach cow_sample"
proof -
  let ?c = "\<lparr>cow_buffer = Some 0, cow_offset = 0, cow_size = 2\<rparr>"
  let ?st1 = "\<lparr>cs_heap = [Some (1, \<lparr>bf_size = 2, bf_data = [Some 1, Some 2]\<rparr>)], cs_vars = [?c]\<rparr>"
  have "cow_exec (OpOfData [Some 1, Some 2] 2) \<lparr>cs_heap = [], cs_vars = []\<rparr> = Some ?st1"
    by (simp add: cow_of_data_def cow_of_size_def add_var_def push_var_def heap_AddRef_def heap_cell_def
        with_buffer_def set_slice_def Buffer_new_def)
  from cow_step [OF cow_start _ this] have "cow_reach ?st1" by simp
  moreover have "cow_exec (OpCopy 0) ?st1 = Some cow_sample"
    by (simp add: cow_copy_def add_var_def push_var_def heap_AddRef_def heap_cell_def cow_sample_def Let_def)
  ultimately show ?thesis using cow_step [of ?st1 "OpCopy 0"] by simp
qed

lemma cow_refines_values_witness:
  "map_option cow_values (cow_exec (OpAppendData 0 [Some 3]) cow_sample)
     = Some [[Some 1, Some 2, Some 3], [Some 1, Some 2]]"
  using cow_refines_values [OF cow_sample_reach, of "OpAppendData 0 [Some 3]"] cow_sample_values by auto

lemma cow_counts_exact_witness:
  "\<exists>a b. heap_cell (cs_heap cow_sample) a = Some (2, b)
     \<and> length (filter (\<lambda>c. cow_buffer c = Some a) (cs_vars cow_sample)) = 2"
proof -
  obtain n b where cell: "heap_cell (cs_heap cow_sample) 0 = Some (n, b)"
    by (simp add: cow_sample_def Let_def heap_cell_def)
  moreover have two: "length (filter (\<lambda>c. cow_buffer c = Some 0) (cs_vars cow_sample)) = 2"
    by (simp add: cow_sample_def Let_def)
  ultimately have "n = 2" using cow_counts_exact [OF cow_sample_reach] by metis
  then show ?thesis using cell two by blast
qed

lemma cow_eq_is_equality_witness: "cow_eq 0 1 cow_sample = Some True"
  using cow_eq_is_equality [OF cow_sample_reach, of 0 1] cow_sample_values by (simp add: cow_sample_def Let_def)

lemma const_write_is_shared_witness:
  "\<exists>st. write_const_data 0 1 (Some 9) cow_sample = Some st \<and> cow_values st ! 1 = [Some 1, Some 9]"
proof -
  have "cs_vars cow_sample ! 0 = cs_vars cow_sample ! 1" "length (cs_vars cow_sample) = 2"
    by (simp_all add: cow_sample_def Let_def)
  then show ?thesis
    using const_write_is_shared [OF cow_sample_reach, of 0 1 1 "Some 9"] cow_sample_values by simp
qed

end
