(* ===== verification/Base64.thy ===== *)
theory Base64
  imports Prelude
begin

unbundle bit_operations_syntax

text \<open>
  \<^verbatim>\<open>Base64Encode\<close> and \<^verbatim>\<open>Base64Decode\<close> (\<^verbatim>\<open>deps/cpp_websocket/utils/base64.cpp\<close>). The arrays of three and
  four bytes are lists that hold the part filled so far; a length is below \<open>2\<^sup>3\<^sup>1\<close>, so the casts of the
  code do not change it.
\<close>

section \<open>The functions\<close>

definition base64_chars :: string where
  "base64_chars = ''ABCDEFGHIJKLMNOPQRSTUVWXYZabcdefghijklmnopqrstuvwxyz0123456789+/''"

definition is_base64 :: "char \<Rightarrow> bool" where
  "is_base64 c \<longleftrightarrow>
     (let n = (of_char c :: nat)
      in (48 \<le> n \<and> n \<le> 57) \<or> (65 \<le> n \<and> n \<le> 90) \<or> (97 \<le> n \<and> n \<le> 122)) \<or> c = CHR ''+'' \<or> c = CHR ''/''"

text \<open>Four six-bit numbers from three bytes, and back.\<close>

fun encode_group :: "u8 \<Rightarrow> u8 \<Rightarrow> u8 \<Rightarrow> u8 list" where
  "encode_group a b c =
     [drop_bit 2 (a AND 0xfc), push_bit 4 (a AND 0x03) + drop_bit 4 (b AND 0xf0),
      push_bit 2 (b AND 0x0f) + drop_bit 6 (c AND 0xc0), c AND 0x3f]"

fun decode_group :: "u8 \<Rightarrow> u8 \<Rightarrow> u8 \<Rightarrow> u8 \<Rightarrow> u8 list" where
  "decode_group p q r s =
     [push_bit 2 p + drop_bit 4 (q AND 0x30), push_bit 4 (q AND 0xf) + drop_bit 2 (r AND 0x3c),
      push_bit 6 (r AND 0x3) + s]"

definition base64_char :: "u8 \<Rightarrow> char" where "base64_char k = base64_chars ! unat k"

fun encode_loop :: "u8 list \<Rightarrow> u8 list \<Rightarrow> string \<Rightarrow> u8 list \<times> string" where
  "encode_loop [] arr ret = (arr, ret)"
| "encode_loop (x # xs) arr ret =
     (case arr @ [x] of
        [a, b, c] \<Rightarrow> encode_loop xs [] (ret @ map base64_char (encode_group a b c))
      | arr1 \<Rightarrow> encode_loop xs arr1 ret)"

definition Base64Encode :: "u8 list \<Rightarrow> string" where
  "Base64Encode bytes =
     (let (arr, ret) = encode_loop bytes [] []; i = length arr; arr3 = arr @ replicate (3 - i) 0
      in if i \<noteq> 0
         then ret @ map base64_char (take (i + 1) (encode_group (arr3 ! 0) (arr3 ! 1) (arr3 ! 2)))
                @ replicate (3 - i) (CHR ''='')
         else ret)"

text \<open>\<^verbatim>\<open>base64_chars.find\<close> as a byte: 255 for a character that is not there.\<close>

definition base64_index :: "char \<Rightarrow> u8" where
  "base64_index c =
     (let k = length (takeWhile (\<lambda>d. d \<noteq> c) base64_chars) in if k < length base64_chars then of_nat k else 255)"

fun decode_loop :: "string \<Rightarrow> char list \<Rightarrow> u8 list \<Rightarrow> char list \<times> u8 list" where
  "decode_loop [] arr ret = (arr, ret)"
| "decode_loop (x # xs) arr ret =
     (if x = CHR ''='' \<or> \<not> is_base64 x then (arr, ret)
      else (case arr @ [x] of
          [p, q, r, s] \<Rightarrow> decode_loop xs []
            (ret @ decode_group (base64_index p) (base64_index q) (base64_index r) (base64_index s))
        | arr1 \<Rightarrow> decode_loop xs arr1 ret))"

definition Base64Decode :: "string \<Rightarrow> u8 list" where
  "Base64Decode encoded =
     (let (arr, ret) = decode_loop encoded [] []; i = length arr;
          arr4 = map base64_index (arr @ replicate (4 - i) (CHR 0x00))
      in if i \<noteq> 0
         then ret @ take (i - 1) (decode_group (arr4 ! 0) (arr4 ! 1) (arr4 ! 2) (arr4 ! 3))
         else ret)"

section \<open>Decoding undoes encoding\<close>

lemma and_low:
  "(a :: u8) AND 0x03 = take_bit 2 a" "a AND 0x0f = take_bit 4 a" "a AND 0x3f = take_bit 6 a"
  by (simp_all add: take_bit_eq_mask mask_eq_exp_minus_1)

lemma and_high:
  "drop_bit 2 ((a :: u8) AND 0xfc) = drop_bit 2 a" "drop_bit 4 (a AND 0xf0) = drop_bit 4 a"
  "drop_bit 6 (a AND 0xc0) = drop_bit 6 a"
  "drop_bit 4 (a AND 0x30) = take_bit 2 (drop_bit 4 a)" "drop_bit 2 (a AND 0x3c) = take_bit 4 (drop_bit 2 a)"
proof -
  have m: "(0xfc :: u8) = push_bit 2 (Bit_Operations.mask 6)" "(0xf0 :: u8) = push_bit 4 (Bit_Operations.mask 4)"
    "(0xc0 :: u8) = push_bit 6 (Bit_Operations.mask 2)" "(0x30 :: u8) = push_bit 4 (Bit_Operations.mask 2)"
    "(0x3c :: u8) = push_bit 2 (Bit_Operations.mask 4)"
    by (simp_all add: mask_eq_exp_minus_1)
  show "drop_bit 2 (a AND 0xfc) = drop_bit 2 a" "drop_bit 4 (a AND 0xf0) = drop_bit 4 a"
    "drop_bit 6 (a AND 0xc0) = drop_bit 6 a"
    "drop_bit 4 (a AND 0x30) = take_bit 2 (drop_bit 4 a)" "drop_bit 2 (a AND 0x3c) = take_bit 4 (drop_bit 2 a)"
    unfolding m by (rule bit_word_eqI; auto simp: bit_simps dest: bit_imp_le_length)+
qed

lemma unat_bits:
  "unat (drop_bit n (a :: u8)) = unat a div 2 ^ n" "unat (take_bit n (a :: u8)) = unat a mod 2 ^ n"
  "unat (push_bit n (a :: u8)) = unat a * 2 ^ n mod 256"
  unfolding unsigned_drop_bit_eq unsigned_take_bit_eq unsigned_push_bit_eq
  using u8_bound [of a] by (simp_all add: drop_bit_eq_div take_bit_eq_mod push_bit_eq_mult)

lemma unat_sum8: "unat (a :: u8) + unat b < 256 \<Longrightarrow> unat (a + b) = unat a + unat b"
  by (simp add: unat_word_ariths)

lemma split_number:
  "y < k \<Longrightarrow> (x * k + y) div k = (x :: nat)" "y < k \<Longrightarrow> (x * k + y) mod k = (y :: nat)"
  by simp_all

lemma byte_parts:
  "unat (a :: u8) div 4 < 64" "unat a mod 4 < 4" "unat a div 16 < 16" "unat a mod 16 < 16" "unat a div 64 < 4"
  "unat a mod 64 < 64"
  using u8_bound [of a] by (simp_all add: less_mult_imp_div_less)

lemma group_bounds:
  "unat (a :: u8) mod 4 * 16 + unat (b :: u8) div 16 < 64" "unat a mod 16 * 4 + unat b div 64 < 64"
  using byte_parts [of a] byte_parts [of b] by linarith+

lemma encode_group_unat:
  "map unat (encode_group a b c) = [unat a div 4, unat a mod 4 * 16 + unat b div 16,
     unat b mod 16 * 4 + unat c div 64, unat c mod 64]"
proof -
  note g = group_bounds(1) [of a b] group_bounds(2) [of b c]
  have "unat a mod 4 * 16 mod 256 = unat a mod 4 * 16" "unat b mod 16 * 4 mod 256 = unat b mod 16 * 4"
    by (rule mod_less, use g in linarith)+
  then have "unat (push_bit 4 (take_bit 2 a) + drop_bit 4 b) = unat a mod 4 * 16 + unat b div 16"
    "unat (push_bit 2 (take_bit 4 b) + drop_bit 6 c) = unat b mod 16 * 4 + unat c div 64"
    using g by (subst unat_sum8; simp add: unat_bits)+
  then show ?thesis unfolding encode_group.simps and_low and_high by (simp add: unat_bits)
qed

lemma decode_encode_group: "encode_group a b c = [p, q, r, s] \<Longrightarrow> decode_group p q r s = [a, b, c]"
proof -
  assume "encode_group a b c = [p, q, r, s]"
  then have "map unat [p, q, r, s] = map unat (encode_group a b c)" by simp
  then have v: "unat p = unat a div 4" "unat q = unat a mod 4 * 16 + unat b div 16"
    "unat r = unat b mod 16 * 4 + unat c div 64" "unat s = unat c mod 64"
    unfolding encode_group_unat by simp_all
  note b = byte_parts [of a] byte_parts [of b] byte_parts [of c]
  have parts: "unat q div 16 = unat a mod 4" "unat q mod 16 = unat b div 16" "unat r div 4 = unat b mod 16"
    "unat r mod 4 = unat c div 64"
    unfolding v using b by (simp_all only: split_number)
  have sums: "unat a div 4 * 4 + unat a mod 4 = unat a" "unat b div 16 * 16 + unat b mod 16 = unat b"
    "unat c div 64 * 64 + unat c mod 64 = unat c"
    by (rule div_mult_mod_eq)+
  have small: "unat a div 4 * 4 < 256" "unat b div 16 * 16 < 256" "unat c div 64 * 64 < 256"
    by (rule le_less_trans [OF div_times_less_eq_dividend u8_bound])+
  have hi: "unat (push_bit 2 p) = unat a div 4 * 4" "unat (push_bit 4 (take_bit 4 q)) = unat b div 16 * 16"
    "unat (push_bit 6 (take_bit 2 r)) = unat c div 64 * 64"
    using small by (simp_all add: unat_bits v(1) parts)
  have lo: "unat (take_bit 2 (drop_bit 4 q)) = unat a mod 4" "unat (take_bit 4 (drop_bit 2 r)) = unat b mod 16"
    by (simp_all add: unat_bits parts)
  have "unat (push_bit 2 p + take_bit 2 (drop_bit 4 q)) = unat a"
    "unat (push_bit 4 (take_bit 4 q) + take_bit 4 (drop_bit 2 r)) = unat b"
    "unat (push_bit 6 (take_bit 2 r) + s) = unat c"
    by (subst unat_sum8, unfold hi lo v(4) sums, rule u8_bound, rule refl)+
  then show ?thesis
    unfolding decode_group.simps and_low and_high by (simp add: word_unat_eq_iff)
qed

lemma encode_group_small: "k \<in> set (encode_group a b c) \<Longrightarrow> unat k < 64"
proof -
  assume "k \<in> set (encode_group a b c)"
  then have "unat k \<in> set (map unat (encode_group a b c))" by (simp del: encode_group.simps)
  then show ?thesis
    using byte_parts(1) [of a] byte_parts(6) [of c] group_bounds(1) [of a b] group_bounds(2) [of b c]
    unfolding encode_group_unat by auto
qed

text \<open>The alphabet: its 64 characters are distinct, and \<^verbatim>\<open>'='\<close> is not one of them.\<close>

lemma index_distinct: "distinct xs \<Longrightarrow> k < length xs \<Longrightarrow> length (takeWhile (\<lambda>d. d \<noteq> xs ! k) xs) = k"
proof (induction xs arbitrary: k)
  case (Cons x xs)
  then show ?case by (cases k) auto
qed simp

lemma alphabet:
  "distinct base64_chars" "list_all (\<lambda>c. is_base64 c \<and> c \<noteq> CHR ''='') base64_chars" "length base64_chars = 64"
proof -
  have "distinct (map (of_char :: char \<Rightarrow> nat) base64_chars)" by (simp add: base64_chars_def of_char_def)
  then show "distinct base64_chars" unfolding distinct_map by (rule conjunct1)
  show "list_all (\<lambda>c. is_base64 c \<and> c \<noteq> CHR ''='') base64_chars" by (simp add: base64_chars_def is_base64_def)
  show "length base64_chars = 64" by (simp add: base64_chars_def)
qed

lemma base64_char_index:
  assumes "unat k < 64"
  shows "base64_index (base64_char k) = k" "is_base64 (base64_char k)" "base64_char k \<noteq> CHR ''=''"
proof -
  have k: "unat k < length base64_chars" using assms alphabet(3) by simp
  show "base64_index (base64_char k) = k"
    using index_distinct [OF alphabet(1) k] k by (simp add: base64_index_def base64_char_def Let_def)
  show "is_base64 (base64_char k)" "base64_char k \<noteq> CHR ''=''"
    using alphabet(2) k by (simp_all add: base64_char_def list_all_length)
qed

fun is_group :: "string \<Rightarrow> u8 list \<Rightarrow> bool" where
  "is_group [w, x, y, z] bs \<longleftrightarrow> (\<forall>c\<in>{w, x, y, z}. is_base64 c \<and> c \<noteq> CHR ''='')
     \<and> decode_group (base64_index w) (base64_index x) (base64_index y) (base64_index z) = bs"
| "is_group _ _ \<longleftrightarrow> False"

lemma encoded_group: "is_group (map base64_char (encode_group a b c)) [a, b, c]"
proof -
  obtain p q r s where g: "encode_group a b c = [p, q, r, s]" by simp
  then have "\<forall>k\<in>{p, q, r, s}. unat k < 64" using encode_group_small [of _ a b c] by auto
  then show ?thesis using base64_char_index decode_encode_group [OF g] unfolding g by simp
qed

lemma decode_loop_group:
  assumes "is_group g bs"
  shows "decode_loop (g @ xs) [] ret = decode_loop xs [] (ret @ bs)"
  using assms by (cases "(g, bs)" rule: is_group.cases) auto

lemma encode_loop_ret: "encode_loop xs arr (r @ ret) = (fst (encode_loop xs arr ret), r @ snd (encode_loop xs arr ret))"
  by (induction xs arr ret rule: encode_loop.induct) (auto split: list.splits)

lemma decode_loop_ret: "decode_loop xs arr (r @ ret) = (fst (decode_loop xs arr ret), r @ snd (decode_loop xs arr ret))"
  by (induction xs arr ret rule: decode_loop.induct) (auto split: list.splits)

lemma Base64Encode_group:
  "Base64Encode (a # b # c # xs) = map base64_char (encode_group a b c) @ Base64Encode xs"
  using encode_loop_ret [of xs "[]" "map base64_char (encode_group a b c)" "[]"]
  by (simp add: Base64Encode_def Let_def del: encode_group.simps split: prod.split)

lemma Base64Decode_group:
  assumes "is_group g bs"
  shows "Base64Decode (g @ xs) = bs @ Base64Decode xs"
  using decode_loop_group [OF assms, of xs "[]"] decode_loop_ret [of xs "[]" bs "[]"]
  by (simp add: Base64Decode_def Let_def split: prod.split)

lemma Base64_rest:
  assumes "bytes = [a] \<or> bytes = [a, b]"
  shows "Base64Decode (Base64Encode bytes) = bytes"
proof -
  define b' where "b' = (if bytes = [a] then 0 else b)"
  obtain p q r s where g: "encode_group a b' 0 = [p, q, r, s]" by simp
  have k: "\<forall>k\<in>{p, q, r, s}. unat k < 64" using encode_group_small [of _ a b' 0] g by auto
  note chars = base64_char_index
  have d: "decode_group p q r s = [a, b', 0]" by (rule decode_encode_group [OF g])
  from assms show ?thesis
  proof
    assume bytes: "bytes = [a]"
    then have "Base64Encode bytes = [base64_char p, base64_char q, CHR ''='', CHR ''='']"
      using g by (simp add: Base64Encode_def b'_def numeral_eq_Suc del: encode_group.simps)
    then show ?thesis
      using k d bytes by (simp add: Base64Decode_def chars numeral_eq_Suc)
  next
    assume bytes: "bytes = [a, b]"
    then have "Base64Encode bytes = [base64_char p, base64_char q, base64_char r, CHR ''='']"
      using g by (simp add: Base64Encode_def b'_def numeral_eq_Suc del: encode_group.simps)
    then show ?thesis
      using k d bytes by (simp add: Base64Decode_def chars numeral_eq_Suc b'_def)
  qed
qed

text \<open>Claim C14. Decoding undoes encoding, for every list of bytes.\<close>

theorem Base64_roundtrip: "Base64Decode (Base64Encode bytes) = bytes"
proof (induction bytes rule: length_induct)
  case (1 bytes)
  consider "bytes = []" | a where "bytes = [a]" | a b where "bytes = [a, b]" | a b c xs where "bytes = a # b # c # xs"
    by (cases bytes rule: remdups_adj.cases; metis list.exhaust)
  then show ?case
  proof cases
    case 1
    then show ?thesis by (simp add: Base64Encode_def Base64Decode_def)
  next
    case (2 a)
    then show ?thesis by (intro Base64_rest) simp
  next
    case (3 a b)
    then show ?thesis by (intro Base64_rest) simp
  next
    case 4
    then have "Base64Decode (Base64Encode xs) = xs" using 1 by simp
    then show ?thesis using 4 Base64Decode_group [OF encoded_group] by (simp only: Base64Encode_group) simp
  qed
qed

end
