(* ===== verification/Sha1.thy ===== *)
theory Sha1
  imports Base64
begin

text \<open>
  The class \<^verbatim>\<open>sha1\<close> (\<^verbatim>\<open>deps/cpp_websocket/utils/sha1.hpp\<close>), the hash of the WebSocket handshake in a
  build without OpenSSL, and the algorithm of FIPS 180-4 that it implements: with a buffer of sixteen
  words that is overwritten in place instead of a schedule of eighty, bit tricks instead of the
  functions of the standard, and blocks that are hashed as they fill instead of a padded message.
\<close>

section \<open>The code\<close>

record sha1 =
  sha_state :: "u32 list"
  sha_buf :: "u8 list"
  sha_n_bits :: u64

text \<open>\<open>sha_buf\<close> is the filled part of \<^verbatim>\<open>buf\<close>; its length is \<^verbatim>\<open>i\<close>.\<close>

definition rol32 :: "u32 \<Rightarrow> nat \<Rightarrow> u32" where
  "rol32 x n = (push_bit n x OR drop_bit (32 - n) x)"

definition make_word :: "u8 list \<Rightarrow> nat \<Rightarrow> u32" where
  "make_word p i =
     (push_bit 24 (ucast (p ! i)) OR push_bit 16 (ucast (p ! (i + 1))) OR push_bit 8 (ucast (p ! (i + 2)))
       OR ucast (p ! (i + 3)))"

text \<open>The macros. The five variables are in the order of the arguments of a call; after it they are in
  the order of the next call.\<close>

type_synonym sha_vars = "u32 \<times> u32 \<times> u32 \<times> u32 \<times> u32 \<times> u32 list"

definition SHA1_LOAD :: "nat \<Rightarrow> u32 list \<Rightarrow> u32 list" where
  "SHA1_LOAD i w =
     w[i mod 16 := rol32 (w ! ((i + 13) mod 16) XOR w ! ((i + 8) mod 16) XOR w ! ((i + 2) mod 16) XOR w ! (i mod 16)) 1]"

definition SHA1_ROUND_0 :: "nat \<Rightarrow> sha_vars \<Rightarrow> sha_vars" where
  "SHA1_ROUND_0 i = (\<lambda>(v, u, x, y, z, w).
     (z + (((u AND (x XOR y)) XOR y) + w ! (i mod 16) + 0x5a827999 + rol32 v 5), v, rol32 u 30, x, y, w))"

definition SHA1_ROUND_1 :: "nat \<Rightarrow> sha_vars \<Rightarrow> sha_vars" where
  "SHA1_ROUND_1 i = (\<lambda>(v, u, x, y, z, w0). let w = SHA1_LOAD i w0 in
     (z + (((u AND (x XOR y)) XOR y) + w ! (i mod 16) + 0x5a827999 + rol32 v 5), v, rol32 u 30, x, y, w))"

definition SHA1_ROUND_2 :: "nat \<Rightarrow> sha_vars \<Rightarrow> sha_vars" where
  "SHA1_ROUND_2 i = (\<lambda>(v, u, x, y, z, w0). let w = SHA1_LOAD i w0 in
     (z + ((u XOR x XOR y) + w ! (i mod 16) + 0x6ed9eba1 + rol32 v 5), v, rol32 u 30, x, y, w))"

definition SHA1_ROUND_3 :: "nat \<Rightarrow> sha_vars \<Rightarrow> sha_vars" where
  "SHA1_ROUND_3 i = (\<lambda>(v, u, x, y, z, w0). let w = SHA1_LOAD i w0 in
     (z + ((((u OR x) AND y) OR (u AND x)) + w ! (i mod 16) + 0x8f1bbcdc + rol32 v 5), v, rol32 u 30, x, y, w))"

definition SHA1_ROUND_4 :: "nat \<Rightarrow> sha_vars \<Rightarrow> sha_vars" where
  "SHA1_ROUND_4 i = (\<lambda>(v, u, x, y, z, w0). let w = SHA1_LOAD i w0 in
     (z + ((u XOR x XOR y) + w ! (i mod 16) + 0xca62c1d6 + rol32 v 5), v, rol32 u 30, x, y, w))"

definition process_block :: "u8 list \<Rightarrow> u32 list \<Rightarrow> u32 list" where
  "process_block ptr state =
     (let w = map (\<lambda>i. make_word ptr (i * 4)) [0..<16];
          r0 = fold SHA1_ROUND_0 [0..<16] (state ! 0, state ! 1, state ! 2, state ! 3, state ! 4, w);
          r1 = fold SHA1_ROUND_1 [16..<20] r0;
          r2 = fold SHA1_ROUND_2 [20..<40] r1;
          r3 = fold SHA1_ROUND_3 [40..<60] r2;
          (a, b, c, d, e, _) = fold SHA1_ROUND_4 [60..<80] r3
      in [state ! 0 + a, state ! 1 + b, state ! 2 + c, state ! 3 + d, state ! 4 + e])"

definition add_byte_dont_count_bits :: "u8 \<Rightarrow> sha1 \<Rightarrow> sha1" where
  "add_byte_dont_count_bits x h =
     (let buf = sha_buf h @ [x]
      in if length buf \<ge> 64 then h\<lparr>sha_buf := [], sha_state := process_block buf (sha_state h)\<rparr>
         else h\<lparr>sha_buf := buf\<rparr>)"

definition sha1_init :: sha1 where
  "sha1_init = \<lparr>sha_state = [0x67452301, 0xEFCDAB89, 0x98BADCFE, 0x10325476, 0xC3D2E1F0], sha_buf = [], sha_n_bits = 0\<rparr>"

definition sha_add_byte :: "u8 \<Rightarrow> sha1 \<Rightarrow> sha1" where
  "sha_add_byte x h = (add_byte_dont_count_bits x h)\<lparr>sha_n_bits := sha_n_bits h + 8\<rparr>"

text \<open>The three loops of \<^verbatim>\<open>add(data, n)\<close>: up to the end of a block, whole blocks, the rest.\<close>

fun sha_fill :: "u8 list \<Rightarrow> sha1 \<Rightarrow> u8 list \<times> sha1" where
  "sha_fill [] h = ([], h)"
| "sha_fill (x # xs) h = (if length (sha_buf h) mod 64 \<noteq> 0 then sha_fill xs (sha_add_byte x h) else (x # xs, h))"

function sha_blocks :: "u8 list \<Rightarrow> sha1 \<Rightarrow> u8 list \<times> sha1" where
  "sha_blocks xs h =
     (if length xs \<ge> 64
      then sha_blocks (drop 64 xs)
             (h\<lparr>sha_state := process_block (take 64 xs) (sha_state h), sha_n_bits := sha_n_bits h + 512\<rparr>)
      else (xs, h))"
  by auto
termination by (relation "measure (\<lambda>(xs, h). length xs)") auto

declare sha_blocks.simps [simp del]

definition sha_add :: "u8 list \<Rightarrow> sha1 \<Rightarrow> sha1" where
  "sha_add data h =
     (let (rest1, h1) = sha_fill data h; (rest2, h2) = sha_blocks rest1 h1 in fold sha_add_byte rest2 h2)"

text \<open>\<^verbatim>\<open>finalize\<close>: the loop \<^verbatim>\<open>while (i % 64 != 56)\<close>, then the length in bits.\<close>

function sha_pad :: "sha1 \<Rightarrow> sha1" where
  "sha_pad h = (if length (sha_buf h) mod 64 \<noteq> 56 then sha_pad (add_byte_dont_count_bits 0 h) else h)"
  by auto
termination
  by (relation "measure (\<lambda>h. if length (sha_buf h) \<ge> 64 then 200
      else if length (sha_buf h) \<le> 56 then 56 - length (sha_buf h) else 120 - length (sha_buf h))")
    (auto simp: add_byte_dont_count_bits_def Let_def)

declare sha_pad.simps [simp del]

definition sha_finalize :: "sha1 \<Rightarrow> sha1" where
  "sha_finalize h =
     (let h2 = sha_pad (add_byte_dont_count_bits 0x80 h)
      in fold (\<lambda>j h. add_byte_dont_count_bits (ucast (drop_bit (j * 8) (sha_n_bits h))) h) [7, 6, 5, 4, 3, 2, 1, 0] h2)"

definition print_base64 :: "sha1 \<Rightarrow> string" where
  "print_base64 h =
     (let s = sha_state h;
          triples = [drop_bit 8 (s ! 0 AND 0xffffff00),
            push_bit 16 (s ! 0 AND 0x000000ff) OR drop_bit 16 (s ! 1 AND 0xffff0000),
            push_bit 8 (s ! 1 AND 0x0000ffff) OR drop_bit 24 (s ! 2 AND 0xff000000),
            s ! 2 AND 0x00ffffff,
            drop_bit 8 (s ! 3 AND 0xffffff00),
            push_bit 16 (s ! 3 AND 0x000000ff) OR drop_bit 16 (s ! 4 AND 0xffff0000),
            push_bit 8 (s ! 4 AND 0x0000ffff)];
          chars = concat (map (\<lambda>x. map (\<lambda>k. base64_chars ! unat (drop_bit (k * 6) x mod 64)) [3, 2, 1, 0]) triples)
      in chars[27 := CHR ''=''])"

section \<open>FIPS 180-4\<close>

definition fips_f :: "nat \<Rightarrow> u32 \<Rightarrow> u32 \<Rightarrow> u32 \<Rightarrow> u32" where
  "fips_f t x y z =
     (if t < 20 then (x AND y) XOR (NOT x AND z)
      else if t < 40 then x XOR y XOR z
      else if t < 60 then (x AND y) XOR (x AND z) XOR (y AND z)
      else x XOR y XOR z)"

definition fips_K :: "nat \<Rightarrow> u32" where
  "fips_K t = (if t < 20 then 0x5a827999 else if t < 40 then 0x6ed9eba1 else if t < 60 then 0x8f1bbcdc else 0xca62c1d6)"

text \<open>The schedule of a block: its sixteen words, then rotated sums of earlier ones.\<close>

fun fips_W :: "u8 list \<Rightarrow> nat \<Rightarrow> u32" where
  "fips_W block t =
     (if t < 16 then make_word block (t * 4)
      else rol32 (fips_W block (t - 3) XOR fips_W block (t - 8) XOR fips_W block (t - 14) XOR fips_W block (t - 16)) 1)"

declare fips_W.simps [simp del]

fun fips_step :: "u8 list \<Rightarrow> nat \<Rightarrow> u32 \<times> u32 \<times> u32 \<times> u32 \<times> u32 \<Rightarrow> u32 \<times> u32 \<times> u32 \<times> u32 \<times> u32" where
  "fips_step block t (a, b, c, d, e) =
     (rol32 a 5 + fips_f t b c d + e + fips_K t + fips_W block t, a, rol32 b 30, c, d)"

fun fips_block :: "u8 list \<Rightarrow> u32 list \<Rightarrow> u32 list" where
  "fips_block block H =
     (let (a, b, c, d, e) = fold (fips_step block) [0..<80] (H ! 0, H ! 1, H ! 2, H ! 3, H ! 4)
      in [a + H ! 0, b + H ! 1, c + H ! 2, d + H ! 3, e + H ! 4])"

text \<open>The padded message, its blocks of 64 bytes, and the hash.\<close>

definition fips_pad :: "u8 list \<Rightarrow> u8 list" where
  "fips_pad xs = xs @ [0x80] @ replicate ((119 - length xs mod 64) mod 64) 0
     @ map (\<lambda>j. ucast (drop_bit (j * 8) (of_nat (8 * length xs) :: u64))) [7, 6, 5, 4, 3, 2, 1, 0]"

function blocks64 :: "u8 list \<Rightarrow> u8 list list" where
  "blocks64 xs = (if length xs < 64 then [] else take 64 xs # blocks64 (drop 64 xs))"
  by auto
termination by (relation "measure length") auto

declare blocks64.simps [simp del]

definition fips_H0 :: "u32 list" where
  "fips_H0 = [0x67452301, 0xEFCDAB89, 0x98BADCFE, 0x10325476, 0xC3D2E1F0]"

definition fips_sha1 :: "u8 list \<Rightarrow> u32 list" where
  "fips_sha1 xs = fold fips_block (blocks64 (fips_pad xs)) fips_H0"

section \<open>A block\<close>

definition schedule :: "u8 list \<Rightarrow> nat \<Rightarrow> u32 list \<Rightarrow> bool" where
  "schedule block i w \<longleftrightarrow> length w = 16
     \<and> (\<forall>j. (if i < 16 then j < 16 else i - 16 \<le> j \<and> j < i) \<longrightarrow> w ! (j mod 16) = fips_W block j)"

lemma schedule_load:
  assumes s: "schedule block i w" and i: "16 \<le> i"
  shows "schedule block (Suc i) (SHA1_LOAD i w)" "SHA1_LOAD i w ! (i mod 16) = fips_W block i"
proof -
  have w: "length w = 16" "\<And>j. i - 16 \<le> j \<Longrightarrow> j < i \<Longrightarrow> w ! (j mod 16) = fips_W block j"
    using s i by (simp_all add: schedule_def)
  have e: "i + 13 = (i - 3) + 16" "i + 8 = (i - 8) + 16" "i + 2 = (i - 14) + 16" "i = (i - 16) + 16"
    using i by simp_all
  have m: "(i + 13) mod 16 = (i - 3) mod 16" "(i + 8) mod 16 = (i - 8) mod 16"
    "(i + 2) mod 16 = (i - 14) mod 16" "i mod 16 = (i - 16) mod 16"
    by (subst e(1), simp, subst e(2), simp, subst e(3), simp, subst e(4), simp)
  have "w ! ((i + 13) mod 16) = fips_W block (i - 3)" "w ! ((i + 8) mod 16) = fips_W block (i - 8)"
    "w ! ((i + 2) mod 16) = fips_W block (i - 14)" "w ! (i mod 16) = fips_W block (i - 16)"
    unfolding m by (rule w(2); use i in linarith)+
  moreover have "fips_W block i = rol32 (fips_W block (i - 3) XOR fips_W block (i - 8)
      XOR fips_W block (i - 14) XOR fips_W block (i - 16)) 1"
    using i by (subst fips_W.simps) simp
  ultimately have load: "SHA1_LOAD i w = w[i mod 16 := fips_W block i]" by (simp add: SHA1_LOAD_def)
  then show last: "SHA1_LOAD i w ! (i mod 16) = fips_W block i" using w(1) by simp
  show "schedule block (Suc i) (SHA1_LOAD i w)"
    unfolding schedule_def
  proof (intro conjI allI impI)
    show "length (SHA1_LOAD i w) = 16" by (simp add: load w(1))
    fix j assume j: "if Suc i < 16 then j < 16 else Suc i - 16 \<le> j \<and> j < Suc i"
    show "SHA1_LOAD i w ! (j mod 16) = fips_W block j"
    proof (cases "j = i")
      case False
      then have "i - 16 < j" "j < i" using j i by (auto split: if_splits)
      then have "\<not> 16 dvd i - j" by (intro nat_dvd_not_less) simp_all
      then have "j mod 16 \<noteq> i mod 16" using \<open>j < i\<close> mod_eq_dvd_iff_nat [of j i 16] by simp
      then show ?thesis using w(2) [of j] \<open>i - 16 < j\<close> \<open>j < i\<close> by (simp add: load)
    qed (simp add: last)
  qed
qed

lemma schedule_start: "schedule block 0 (map (\<lambda>i. make_word block (i * 4)) [0..<16])"
  by (auto simp: schedule_def fips_W.simps)

lemma schedule_early: "schedule block i w \<Longrightarrow> i < 16 \<Longrightarrow> schedule block (Suc i) w \<and> w ! i = fips_W block i"
  by (auto simp: schedule_def dest: spec [of _ i])

lemma choose_trick: "(u AND (x XOR y)) XOR y = (u AND x) XOR (NOT u AND (y :: u32))"
  by (rule bit_word_eqI) (auto simp: bit_simps)

lemma majority_trick: "((u OR x) AND y) OR (u AND x) = (u AND x) XOR (u AND y) XOR (x AND (y :: u32))"
  by (rule bit_word_eqI) (auto simp: bit_simps)

text \<open>The variables of the code after the first \<open>i\<close> rounds.\<close>

fun rounds_match :: "u8 list \<Rightarrow> nat \<Rightarrow> u32 \<times> u32 \<times> u32 \<times> u32 \<times> u32 \<Rightarrow> sha_vars \<Rightarrow> bool" where
  "rounds_match block i (a, b, c, d, e) (v, u, x, y, z, w)
     \<longleftrightarrow> (v, u, x, y, z) = (a, b, c, d, e) \<and> schedule block i w"

lemma round_0_match:
  "rounds_match block i s r \<Longrightarrow> i < 16 \<Longrightarrow> rounds_match block (Suc i) (fips_step block i s) (SHA1_ROUND_0 i r)"
  by (cases "(block, i, s, r)" rule: rounds_match.cases)
    (auto simp: SHA1_ROUND_0_def fips_f_def fips_K_def choose_trick schedule_early add.assoc add.commute add.left_commute)

lemma round_match:
  assumes "rounds_match block i s r" "16 \<le> i" "i < 80"
  shows "rounds_match block (Suc i) (fips_step block i s)
    ((if i < 20 then SHA1_ROUND_1 i else if i < 40 then SHA1_ROUND_2 i else if i < 60 then SHA1_ROUND_3 i
      else SHA1_ROUND_4 i) r)"
  using assms
  by (cases "(block, i, s, r)" rule: rounds_match.cases)
    (auto simp: SHA1_ROUND_1_def SHA1_ROUND_2_def SHA1_ROUND_3_def SHA1_ROUND_4_def Let_def fips_f_def fips_K_def
      choose_trick majority_trick schedule_load add.assoc add.commute add.left_commute)

lemma rounds_match_fold:
  assumes "rounds_match block m s r" "m \<le> n"
    "\<And>i s r. m \<le> i \<Longrightarrow> i < n \<Longrightarrow> rounds_match block i s r
      \<Longrightarrow> rounds_match block (Suc i) (fips_step block i s) (f i r)"
  shows "rounds_match block n (fold (fips_step block) [m..<n] s) (fold f [m..<n] r)"
  using assms(2,3)
proof (induction n rule: dec_induct)
  case base
  then show ?case using assms(1) by simp
next
  case (step n)
  then show ?case by (simp add: upt_Suc_append)
qed

lemma fold_upt_split: "m \<le> n \<Longrightarrow> n \<le> k \<Longrightarrow> fold f [m..<k] s = fold f [n..<k] (fold f [m..<n] s)"
  using upt_add_eq_append [of m n "k - n"] by simp

lemma process_block_fips: "process_block block H = fips_block block H"
proof -
  let ?s = "(H ! 0, H ! 1, H ! 2, H ! 3, H ! 4)" and ?w = "map (\<lambda>i. make_word block (i * 4)) [0..<16]"
  let ?F = "fold (fips_step block)"
  have "rounds_match block 0 ?s (H ! 0, H ! 1, H ! 2, H ! 3, H ! 4, ?w)" using schedule_start by simp
  then have 0: "rounds_match block 16 (?F [0..<16] ?s) (fold SHA1_ROUND_0 [0..<16] (H ! 0, H ! 1, H ! 2, H ! 3, H ! 4, ?w))"
    (is "rounds_match _ _ ?Sa ?Ra")
    by (rule rounds_match_fold) (auto intro: round_0_match)
  then have 1: "rounds_match block 20 (?F [16..<20] ?Sa) (fold SHA1_ROUND_1 [16..<20] ?Ra)"
    (is "rounds_match _ _ ?Sb ?Rb")
    by (rule rounds_match_fold) (use round_match in \<open>fastforce\<close>)+
  then have 2: "rounds_match block 40 (?F [20..<40] ?Sb) (fold SHA1_ROUND_2 [20..<40] ?Rb)"
    (is "rounds_match _ _ ?Sc ?Rc")
    by (rule rounds_match_fold) (use round_match in \<open>fastforce\<close>)+
  then have 3: "rounds_match block 60 (?F [40..<60] ?Sc) (fold SHA1_ROUND_3 [40..<60] ?Rc)"
    (is "rounds_match _ _ ?Sd ?Rd")
    by (rule rounds_match_fold) (use round_match in \<open>fastforce\<close>)+
  then have 4: "rounds_match block 80 (?F [60..<80] ?Sd) (fold SHA1_ROUND_4 [60..<80] ?Rd)"
    (is "rounds_match _ _ ?Se ?Re")
    by (rule rounds_match_fold) (use round_match in \<open>fastforce\<close>)+
  have "?F [0..<20] ?s = ?F [16..<20] ?Sa" "?F [0..<40] ?s = ?F [20..<40] (?F [0..<20] ?s)"
    "?F [0..<60] ?s = ?F [40..<60] (?F [0..<40] ?s)" "?F [0..<80] ?s = ?F [60..<80] (?F [0..<60] ?s)"
    by (rule fold_upt_split; simp)+
  then have "?Se = ?F [0..<80] ?s" by (simp only:)
  moreover obtain a b c d e where "?Se = (a, b, c, d, e)" by (cases ?Se)
  moreover obtain v u x y z w where "?Re = (v, u, x, y, z, w)" by (cases ?Re)
  ultimately show ?thesis
    using 4 by (simp add: process_block_def Let_def add.commute)
qed

section \<open>A message\<close>

definition tail64 :: "u8 list \<Rightarrow> u8 list" where
  "tail64 xs = drop (64 * (length xs div 64)) xs"

lemma length_tail64: "length (tail64 xs) = length xs mod 64"
  by (simp add: tail64_def minus_mult_div_eq_mod)

lemma tail64_step: "64 \<le> length xs \<Longrightarrow> tail64 xs = tail64 (drop 64 xs)"
  by (simp add: tail64_def le_div_geq algebra_simps)

lemma blocks64_append_byte:
  "blocks64 (bs @ [x]) = (if length (tail64 bs) = 63 then blocks64 bs @ [tail64 bs @ [x]] else blocks64 bs)
   \<and> tail64 (bs @ [x]) = (if length (tail64 bs) = 63 then [] else tail64 bs @ [x])"
proof (induction bs rule: blocks64.induct)
  case (1 bs)
  consider "length bs < 63" | "length bs = 63" | "64 \<le> length bs" by linarith
  then show ?case
  proof cases
    case 1
    then show ?thesis by (subst (1 2) blocks64.simps) (simp add: tail64_def)
  next
    case 2
    have "blocks64 [] = []" by (subst blocks64.simps) simp
    then show ?thesis using 2 by (subst (1 2) blocks64.simps) (simp add: tail64_def)
  next
    case 3
    then have ih: "blocks64 (drop 64 bs @ [x])
        = (if length (tail64 (drop 64 bs)) = 63 then blocks64 (drop 64 bs) @ [tail64 (drop 64 bs) @ [x]] else blocks64 (drop 64 bs))
      \<and> tail64 (drop 64 bs @ [x]) = (if length (tail64 (drop 64 bs)) = 63 then [] else tail64 (drop 64 bs) @ [x])"
      using 1 by simp
    have b: "blocks64 bs = take 64 bs # blocks64 (drop 64 bs)" using 3 by (subst blocks64.simps) simp
    have "blocks64 (bs @ [x]) = take 64 bs # blocks64 (drop 64 bs @ [x])"
      using 3 by (subst blocks64.simps) simp
    moreover have "tail64 (bs @ [x]) = tail64 (drop 64 bs @ [x])" using 3 tail64_step [of "bs @ [x]"] by simp
    ultimately show ?thesis using ih b tail64_step [OF 3] by simp
  qed
qed

text \<open>The hash of the bytes so far.\<close>

definition sha_holds :: "u8 list \<Rightarrow> sha1 \<Rightarrow> bool" where
  "sha_holds bs h \<longleftrightarrow> sha_state h = fold fips_block (blocks64 bs) fips_H0 \<and> sha_buf h = tail64 bs"

lemma sha_holds_init: "sha_holds [] sha1_init"
  by (simp add: sha_holds_def sha1_init_def fips_H0_def tail64_def) (subst blocks64.simps, simp)

lemma sha_holds_byte:
  assumes "sha_holds bs h"
  shows "sha_holds (bs @ [x]) (add_byte_dont_count_bits x h)"
  using assms blocks64_append_byte [of bs x] length_tail64 [of bs]
  by (auto simp: sha_holds_def add_byte_dont_count_bits_def Let_def process_block_fips simp del: fips_block.simps)

lemma sha_holds_bytes: "sha_holds bs h \<Longrightarrow> sha_holds (bs @ xs) (fold add_byte_dont_count_bits xs h)"
  by (induction xs arbitrary: bs h) (use sha_holds_byte in fastforce)+

lemma add_byte_bits [simp]: "sha_n_bits (add_byte_dont_count_bits x h) = sha_n_bits h"
  by (simp add: add_byte_dont_count_bits_def Let_def)

lemma fold_add_byte_bits: "sha_n_bits (fold add_byte_dont_count_bits xs h) = sha_n_bits h"
  by (induction xs arbitrary: h) simp_all

lemma add_byte_update: "add_byte_dont_count_bits x (h\<lparr>sha_n_bits := n\<rparr>) = (add_byte_dont_count_bits x h)\<lparr>sha_n_bits := n\<rparr>"
  by (cases h) (simp add: add_byte_dont_count_bits_def Let_def)

lemma fold_sha_add_byte:
  "fold sha_add_byte xs h = (fold add_byte_dont_count_bits xs h)\<lparr>sha_n_bits := sha_n_bits h + of_nat (8 * length xs)\<rparr>"
proof (induction xs arbitrary: h)
  case (Cons x xs)
  have fold_update: "fold add_byte_dont_count_bits xs (h\<lparr>sha_n_bits := n\<rparr>) = (fold add_byte_dont_count_bits xs h)\<lparr>sha_n_bits := n\<rparr>" for h n
    by (induction xs arbitrary: h) (simp_all add: add_byte_update)
  have "fold sha_add_byte (x # xs) h = fold sha_add_byte xs (sha_add_byte x h)" by simp
  also have "\<dots> = (fold add_byte_dont_count_bits xs (sha_add_byte x h))
      \<lparr>sha_n_bits := sha_n_bits (sha_add_byte x h) + of_nat (8 * length xs)\<rparr>" by (rule Cons)
  also have "\<dots> = (fold add_byte_dont_count_bits (x # xs) h)\<lparr>sha_n_bits := sha_n_bits h + of_nat (8 * length (x # xs))\<rparr>"
    by (simp add: sha_add_byte_def fold_update algebra_simps)
  finally show ?case .
qed simp

text \<open>The three loops of \<^verbatim>\<open>add\<close> do what adding byte by byte does.\<close>

lemma sha_fill_fold:
  assumes "sha_fill xs h = (rest, h1)" "length (sha_buf h) < 64"
  shows "fold sha_add_byte xs h = fold sha_add_byte rest h1 \<and> (rest = [] \<or> sha_buf h1 = [])
    \<and> length (sha_buf h1) < 64"
  using assms
proof (induction xs h rule: sha_fill.induct)
  case (2 x xs h)
  have "length (sha_buf (sha_add_byte x h)) < 64"
    using 2(3) by (simp add: sha_add_byte_def add_byte_dont_count_bits_def Let_def)
  then show ?case using 2 by (auto split: if_splits)
qed simp

lemma fold_block:
  assumes "sha_buf h = []" "length xs = 64"
  shows "fold add_byte_dont_count_bits xs h = h\<lparr>sha_state := process_block xs (sha_state h)\<rparr>"
proof -
  have part: "fold add_byte_dont_count_bits ys h = h\<lparr>sha_buf := ys\<rparr>" if "length ys < 64" for ys
    using that
  proof (induction ys rule: rev_induct)
    case Nil
    then show ?case using assms(1) by (cases h) simp
  next
    case (snoc y ys)
    then show ?case by (simp add: add_byte_dont_count_bits_def Let_def)
  qed
  obtain ys x where xs: "xs = ys @ [x]" using assms(2) by (cases xs rule: rev_cases) auto
  then show ?thesis
    using part [of ys] assms by (cases h) (simp add: add_byte_dont_count_bits_def Let_def)
qed

lemma sha_blocks_fold:
  assumes "sha_buf h = []"
  shows "(case sha_blocks xs h of (rest, h1) \<Rightarrow> fold sha_add_byte rest h1) = fold sha_add_byte xs h"
  using assms
proof (induction xs h rule: sha_blocks.induct)
  case (1 xs h)
  show ?case
  proof (cases "64 \<le> length xs")
    case True
    let ?h = "h\<lparr>sha_state := process_block (take 64 xs) (sha_state h), sha_n_bits := sha_n_bits h + 512\<rparr>"
    have "fold sha_add_byte (take 64 xs) h = ?h"
      using fold_block [OF 1(2), of "take 64 xs"] True by (cases h) (simp add: fold_sha_add_byte)
    then have "fold sha_add_byte xs h = fold sha_add_byte (drop 64 xs) ?h"
      by (metis append_take_drop_id fold_append comp_apply)
    then show ?thesis using 1 True by (subst sha_blocks.simps) simp
  next
    case False
    then show ?thesis by (subst sha_blocks.simps) simp
  qed
qed

lemma sha_add_fold:
  assumes "length (sha_buf h) < 64"
  shows "sha_add data h = fold sha_add_byte data h"
proof -
  obtain rest h1 where f: "sha_fill data h = (rest, h1)" by (cases "sha_fill data h")
  note fill = sha_fill_fold [OF f assms]
  have "(case sha_blocks rest h1 of (rest2, h2) \<Rightarrow> fold sha_add_byte rest2 h2) = fold sha_add_byte rest h1"
  proof (cases "rest = []")
    case True
    then show ?thesis by (subst sha_blocks.simps) simp
  next
    case False
    then show ?thesis using sha_blocks_fold fill by blast
  qed
  then show ?thesis using fill by (simp add: sha_add_def f)
qed

lemma sha_pad_fold:
  assumes "length (sha_buf h) < 64"
  shows "sha_pad h = fold add_byte_dont_count_bits (replicate ((120 - length (sha_buf h)) mod 64) 0) h"
  using assms
proof (induction h rule: sha_pad.induct)
  case (1 h)
  let ?n = "length (sha_buf h)"
  show ?case
  proof (cases "?n = 56")
    case True
    then show ?thesis by (subst sha_pad.simps) simp
  next
    case False
    let ?h = "add_byte_dont_count_bits 0 h"
    have n1: "length (sha_buf ?h) = (if ?n = 63 then 0 else ?n + 1)"
      using 1(2) by (auto simp: add_byte_dont_count_bits_def Let_def)
    have "(120 - ?n) mod 64 = Suc ((120 - length (sha_buf ?h)) mod 64)"
      using False 1(2) unfolding n1 by (cases "?n < 56") (auto simp: le_mod_geq not_less)
    moreover have "sha_pad h = sha_pad ?h" using False 1(2) by (subst sha_pad.simps) simp
    ultimately show ?thesis using 1 False n1 by (simp split: if_splits)
  qed
qed

lemma sha1_is_FIPS:
  "sha_state (sha_finalize (sha_add xs sha1_init)) = fips_sha1 xs"
proof -
  let ?bytes = "fold add_byte_dont_count_bits xs sha1_init" and ?n = "of_nat (8 * length xs) :: u64"
  let ?start = "?bytes\<lparr>sha_n_bits := ?n\<rparr>"
  have add: "sha_add xs sha1_init = ?start"
    by (simp add: sha_add_fold sha1_init_def fold_sha_add_byte)
  have "sha_holds xs ?bytes" using sha_holds_bytes [OF sha_holds_init, of xs] by simp
  then have h0: "sha_holds xs ?start" by (simp add: sha_holds_def)
  let ?ended = "add_byte_dont_count_bits 0x80 ?start"
  have h1: "sha_holds (xs @ [0x80]) ?ended" by (rule sha_holds_byte [OF h0])
  have len: "length (sha_buf ?ended) = Suc (length xs) mod 64"
    using h1 by (simp add: sha_holds_def length_tail64)
  have pad: "(120 - Suc (length xs) mod 64) mod 64 = (119 - length xs mod 64) mod (64 :: nat)"
    by (cases "length xs mod 64 = 63") (auto simp: mod_Suc)
  let ?zeros = "replicate ((119 - length xs mod 64) mod 64) (0 :: u8)"
  have "sha_pad ?ended = fold add_byte_dont_count_bits ?zeros ?ended"
    using len by (subst sha_pad_fold) (simp_all add: pad)
  moreover have "sha_n_bits (fold add_byte_dont_count_bits ?zeros ?ended) = ?n"
    unfolding fold_add_byte_bits by simp
  ultimately have h2: "sha_holds (xs @ [0x80] @ ?zeros) (sha_pad ?ended)" and bits: "sha_n_bits (sha_pad ?ended) = ?n"
    using sha_holds_bytes [OF h1, of ?zeros] by simp_all
  have tail: "fold (\<lambda>j h. add_byte_dont_count_bits (ucast (drop_bit (j * 8) (sha_n_bits h))) h) js h
      = fold add_byte_dont_count_bits (map (\<lambda>j. ucast (drop_bit (j * 8) (sha_n_bits h))) js) h" for js h
    by (induction js arbitrary: h) simp_all
  have "sha_holds (fips_pad xs) (sha_finalize ?start)"
    using sha_holds_bytes [OF h2, of "map (\<lambda>j. ucast (drop_bit (j * 8) ?n)) [7, 6, 5, 4, 3, 2, 1, 0]"]
    unfolding sha_finalize_def Let_def tail bits fips_pad_def append_assoc .
  then show ?thesis by (simp add: add sha_holds_def fips_sha1_def)
qed

text \<open>Claim C6. The class computes SHA-1: for every message of fewer than \<open>2\<^sup>3\<^sup>2\<close> bytes (the length of
  \<^verbatim>\<open>add\<close> is a 32-bit number), adding it and finalizing leaves the hash that FIPS 180-4 defines
  by padding the message, cutting it into blocks, and eighty steps over the schedule of each block.\<close>

theorem sha1_is_FIPS_180_4:
  "sha_state (sha_finalize (sha_add xs sha1_init)) = fips_sha1 xs"
  by (rule sha1_is_FIPS)

section \<open>The hash in base 64\<close>

definition word_bytes :: "u32 \<Rightarrow> u8 list" where
  "word_bytes s = [ucast (drop_bit 24 s), ucast (drop_bit 16 s), ucast (drop_bit 8 s), ucast s]"

definition triple :: "u8 \<Rightarrow> u8 \<Rightarrow> u8 \<Rightarrow> u32" where
  "triple a b c = (push_bit 16 (ucast a) OR push_bit 8 (ucast b) OR ucast c)"

lemma group_sums:
  "push_bit 4 (take_bit 2 (a :: u8)) + drop_bit 4 b = push_bit 4 (take_bit 2 a) OR drop_bit 4 b"
  "push_bit 2 (take_bit 4 (a :: u8)) + drop_bit 6 b = push_bit 2 (take_bit 4 a) OR drop_bit 6 b"
  by (rule disjunctive_add, auto simp: bit_simps dest: bit_imp_le_length)+

lemma triple_index:
  "take_bit 6 (drop_bit 18 (triple a b c)) = ucast (drop_bit 2 a)"
  "take_bit 6 (drop_bit 12 (triple a b c)) = ucast (push_bit 4 (take_bit 2 a) OR drop_bit 4 b)"
  "take_bit 6 (drop_bit 6 (triple a b c)) = ucast (push_bit 2 (take_bit 4 b) OR drop_bit 6 c)"
  "take_bit 6 (triple a b c) = ucast (take_bit 6 c)"
  unfolding triple_def by (rule bit_word_eqI; auto simp: bit_simps dest: bit_imp_le_length)+

lemma unat_ucast_8_32: "unat (ucast (a :: u8) :: u32) = unat a"
  using u8_bound [of a] by (simp add: unsigned_ucast_eq take_bit_nat_eq_self)

lemma triple_chars:
  "map (\<lambda>k. base64_chars ! unat (drop_bit (k * 6) (triple a b c) mod 64)) [3, 2, 1, 0]
     = map base64_char (encode_group a b c)"
proof -
  have m: "x mod 64 = take_bit 6 x" for x :: u32 by (simp add: take_bit_eq_mod)
  show ?thesis
    unfolding m encode_group.simps and_low and_high group_sums
    by (simp add: triple_index unat_ucast_8_32 base64_char_def del: take_bit_drop_bit)
qed

lemma byte_cases: "(n :: nat) < 8 \<or> (\<exists>k<8. n = 8 + k) \<or> (\<exists>k<8. n = 16 + k) \<or> (\<exists>k. n = 24 + k)"
  by presburger

lemma eq_by_bytes:
  "(\<And>k. k < 8 \<Longrightarrow> bit x k = bit y k) \<Longrightarrow> (\<And>k. k < 8 \<Longrightarrow> bit x (8 + k) = bit y (8 + k))
    \<Longrightarrow> (\<And>k. k < 8 \<Longrightarrow> bit x (16 + k) = bit y (16 + k)) \<Longrightarrow> (\<And>k. bit x (24 + k) = bit y (24 + k)) \<Longrightarrow> x = (y :: u32)"
  by (rule bit_word_eqI) (metis byte_cases)

lemma hash_triples:
  "drop_bit 8 (s AND 0xffffff00 :: u32) = triple (ucast (drop_bit 24 s)) (ucast (drop_bit 16 s)) (ucast (drop_bit 8 s))"
  "push_bit 16 (s AND 0x000000ff :: u32) OR drop_bit 16 (t AND 0xffff0000)
     = triple (ucast s) (ucast (drop_bit 24 t)) (ucast (drop_bit 16 t))"
  "push_bit 8 (s AND 0x0000ffff :: u32) OR drop_bit 24 (t AND 0xff000000)
     = triple (ucast (drop_bit 8 s)) (ucast s) (ucast (drop_bit 24 t))"
  "s AND 0x00ffffff = triple (ucast (drop_bit 16 s)) (ucast (drop_bit 8 s)) (ucast s)"
  "push_bit 8 (s AND 0x0000ffff :: u32) = triple (ucast (drop_bit 8 s)) (ucast s) 0"
proof -
  have m: "(0xffffff00 :: u32) = push_bit 8 (Bit_Operations.mask 24)" "(0x000000ff :: u32) = Bit_Operations.mask 8"
    "(0xffff0000 :: u32) = push_bit 16 (Bit_Operations.mask 16)" "(0x0000ffff :: u32) = Bit_Operations.mask 16"
    "(0xff000000 :: u32) = push_bit 24 (Bit_Operations.mask 8)" "(0x00ffffff :: u32) = Bit_Operations.mask 24"
    by (simp_all add: mask_eq_exp_minus_1)
  show "drop_bit 8 (s AND 0xffffff00 :: u32) = triple (ucast (drop_bit 24 s)) (ucast (drop_bit 16 s)) (ucast (drop_bit 8 s))"
    "push_bit 16 (s AND 0x000000ff :: u32) OR drop_bit 16 (t AND 0xffff0000)
       = triple (ucast s) (ucast (drop_bit 24 t)) (ucast (drop_bit 16 t))"
    "push_bit 8 (s AND 0x0000ffff :: u32) OR drop_bit 24 (t AND 0xff000000)
       = triple (ucast (drop_bit 8 s)) (ucast s) (ucast (drop_bit 24 t))"
    "s AND 0x00ffffff = triple (ucast (drop_bit 16 s)) (ucast (drop_bit 8 s)) (ucast s)"
    "push_bit 8 (s AND 0x0000ffff :: u32) = triple (ucast (drop_bit 8 s)) (ucast s) 0"
    unfolding m triple_def by (rule eq_by_bytes; auto simp: bit_simps)+
qed

lemma Base64Encode_two:
  "Base64Encode [a, b] = take 3 (map base64_char (encode_group a b 0)) @ ''=''"
  by (simp add: Base64Encode_def numeral_eq_Suc take_map del: encode_group.simps)

lemma length_encode_group: "length (encode_group a b c) = 4"
  by simp

lemma print_base64_words:
  assumes "sha_state h = [s0, s1, s2, s3, s4]"
  shows "print_base64 h = Base64Encode (concat (map word_bytes [s0, s1, s2, s3, s4]))"
proof -
  let ?b = "\<lambda>k s. ucast (drop_bit k s) :: u8"
  let ?g = "\<lambda>a b c. map base64_char (encode_group a b c)"
  define chars where "chars = (\<lambda>x :: u32. map (\<lambda>k. base64_chars ! unat (drop_bit (k * 6) x mod 64)) [3, 2, 1, 0])"
  have chars: "chars (triple a b c) = ?g a b c" for a b c unfolding chars_def by (rule triple_chars)
  have n: "sha_state h ! 0 = s0" "sha_state h ! 1 = s1" "sha_state h ! 2 = s2" "sha_state h ! 3 = s3"
    "sha_state h ! 4 = s4"
    by (simp_all add: assms)
  let ?front = "?g (?b 24 s0) (?b 16 s0) (?b 8 s0) @ ?g (ucast s0) (?b 24 s1) (?b 16 s1) @ ?g (?b 8 s1) (ucast s1) (?b 24 s2)
    @ ?g (?b 16 s2) (?b 8 s2) (ucast s2) @ ?g (?b 24 s3) (?b 16 s3) (?b 8 s3) @ ?g (ucast s3) (?b 24 s4) (?b 16 s4)"
  let ?last = "?g (?b 8 s4) (ucast s4) 0"
  have "print_base64 h = (concat (map chars [drop_bit 8 (s0 AND 0xffffff00),
      push_bit 16 (s0 AND 0x000000ff) OR drop_bit 16 (s1 AND 0xffff0000),
      push_bit 8 (s1 AND 0x0000ffff) OR drop_bit 24 (s2 AND 0xff000000), s2 AND 0x00ffffff,
      drop_bit 8 (s3 AND 0xffffff00), push_bit 16 (s3 AND 0x000000ff) OR drop_bit 16 (s4 AND 0xffff0000),
      push_bit 8 (s4 AND 0x0000ffff)]))[27 := CHR ''='']"
    by (simp only: print_base64_def Let_def chars_def n)
  also have "\<dots> = (?front @ ?last)[27 := CHR ''='']"
    unfolding hash_triples(1-4) unfolding hash_triples(5) list.map chars concat.simps append_Nil2 append_assoc ..
  also have "\<dots> = ?front @ ?last[3 := CHR ''='']"
    by (subst list_update_append) (simp del: encode_group.simps add: length_encode_group)
  also have "?last[3 := CHR ''=''] = take 3 ?last @ ''=''"
    by (simp add: upd_conv_take_nth_drop length_encode_group del: encode_group.simps)
  also have "?front @ \<dots> = Base64Encode (concat (map word_bytes [s0, s1, s2, s3, s4]))"
    by (simp add: word_bytes_def Base64Encode_group Base64Encode_two del: encode_group.simps)
  finally show ?thesis .
qed

end
