(* ===== verification/Data_Buffer.thy ===== *)
theory Data_Buffer
  imports Bytes "HOL-Library.Monad_Syntax"
begin

text \<open>
  The class \<^verbatim>\<open>cpp_streamer::DataBuffer\<close> (\<^verbatim>\<open>deps/cpp_websocket/utils/data_buffer.hpp\<close>): the bytes
  received from the socket, in a block of memory that keeps 200 bytes free in front. The block is
  the list \<open>db_buffer\<close> of all its bytes, those of \<^verbatim>\<open>new char[n]\<close> are the arbitrary byte
  \<open>fresh_byte\<close>; the cursors are C integers, so a cast to \<^verbatim>\<open>int\<close> wraps and a signed overflow
  is undefined. \<^term>\<open>None\<close> is undefined behaviour: an access outside a block, a copy between
  overlapping places, an overflow; or an exception of \<^verbatim>\<open>new\<close>.
\<close>

section \<open>C integers and memory\<close>

text \<open>Conversion to \<^verbatim>\<open>int\<close>, signed arithmetic, and conversion to and subtraction in \<^verbatim>\<open>size_t\<close>.\<close>

definition to_int32 :: "int \<Rightarrow> int" where
  "to_int32 x = (x + 2 ^ 31) mod 2 ^ 32 - 2 ^ 31"

definition int32_result :: "int \<Rightarrow> int option" where
  "int32_result x = (if - (2 ^ 31) \<le> x \<and> x < 2 ^ 31 then Some x else None)"

definition to_size :: "int \<Rightarrow> nat" where
  "to_size x = nat (x mod 2 ^ 64)"

definition fresh_byte :: u8 where "fresh_byte = 0xCD"

text \<open>The bytes read and written by one \<^verbatim>\<open>memcpy\<close>, and a \<^verbatim>\<open>memcpy\<close> inside one block.\<close>

definition mem_read :: "nat \<Rightarrow> nat \<Rightarrow> u8 list \<Rightarrow> u8 list option" where
  "mem_read i n mem = (if i + n \<le> length mem then Some (take n (drop i mem)) else None)"

definition mem_write :: "nat \<Rightarrow> u8 list \<Rightarrow> u8 list \<Rightarrow> u8 list option" where
  "mem_write i xs mem =
     (if i + length xs \<le> length mem then Some (take i mem @ xs @ drop (i + length xs) mem) else None)"

definition memcpy_inside :: "nat \<Rightarrow> nat \<Rightarrow> nat \<Rightarrow> u8 list \<Rightarrow> u8 list option" where
  "memcpy_inside dst src n mem =
     (if n \<noteq> 0 \<and> dst < src + n \<and> src < dst + n then None
      else do { xs \<leftarrow> mem_read src n mem; mem_write dst xs mem })"

section \<open>State and operations\<close>

definition EXTRA_LEN :: int where "EXTRA_LEN = 10 * 1024"
definition PRE_RESERVE_HEADER_SIZE :: int where "PRE_RESERVE_HEADER_SIZE = 200"

record DataBuffer =
  db_sent_flag :: bool
  db_dst_ip :: string
  db_dst_port :: u16
  db_buffer :: "u8 list"
  db_buffer_size :: nat
  db_data_len :: int
  db_start :: int
  db_end :: int

definition DataBuffer_init :: "nat \<Rightarrow> DataBuffer" where
  "DataBuffer_init data_size =
     \<lparr>db_sent_flag = False, db_dst_ip = [], db_dst_port = 0,
      db_buffer = replicate data_size 0 @ replicate (nat PRE_RESERVE_HEADER_SIZE) fresh_byte,
      db_buffer_size = data_size, db_data_len = 0, db_start = PRE_RESERVE_HEADER_SIZE,
      db_end = PRE_RESERVE_HEADER_SIZE\<rparr>"

text \<open>The deep copy.\<close>

definition DataBuffer_copy :: "DataBuffer \<Rightarrow> DataBuffer option" where
  "DataBuffer_copy input =
     (let fresh = replicate (db_buffer_size input + nat PRE_RESERVE_HEADER_SIZE) fresh_byte
      in do { xs \<leftarrow> mem_read 0 (to_size (db_data_len input)) (db_buffer input);
              mem \<leftarrow> mem_write 0 xs fresh;
              Some \<lparr>db_sent_flag = db_sent_flag input, db_dst_ip = db_dst_ip input,
                db_dst_port = db_dst_port input, db_buffer = mem, db_buffer_size = db_buffer_size input,
                db_data_len = db_data_len input, db_start = db_start input, db_end = db_end input\<rparr> })"

definition GetNewSize :: "int \<Rightarrow> int option" where
  "GetNewSize new_len =
     (if new_len \<le> 50 * 1024 then Some (50 * 1024)
      else if new_len > 50 * 1024 \<and> new_len \<le> 100 * 1024 then Some (100 * 1024)
      else if new_len > 100 * 1024 \<and> new_len \<le> 200 * 1024 then Some (200 * 1024)
      else if new_len > 200 * 1024 \<and> new_len \<le> 500 * 1024 then Some (500 * 1024)
      else int32_result (new_len + 10 * 1024))"

text \<open>The branch of \<^verbatim>\<open>AppendData\<close> that takes a larger block, and the one that moves the bytes to
  the front of the block.\<close>

definition db_grow :: "u8 list \<Rightarrow> nat \<Rightarrow> DataBuffer \<Rightarrow> (int \<times> DataBuffer) option" where
  "db_grow input_data input_len b = do {
     n0 \<leftarrow> int32_result (db_data_len b + to_int32 (int input_len));
     n1 \<leftarrow> int32_result (n0 + EXTRA_LEN);
     new_len \<leftarrow> GetNewSize n1;
     old \<leftarrow> mem_read (nat (db_start b)) (to_size (db_data_len b)) (db_buffer b);
     m1 \<leftarrow> mem_write (nat PRE_RESERVE_HEADER_SIZE) old (replicate (nat new_len) fresh_byte);
     xs \<leftarrow> mem_read 0 input_len input_data;
     m2 \<leftarrow> mem_write (nat (PRE_RESERVE_HEADER_SIZE + db_data_len b)) xs m1;
     (let n = to_int32 (db_data_len b + int input_len)
      in do { e \<leftarrow> int32_result (PRE_RESERVE_HEADER_SIZE + n);
              Some (n, b\<lparr>db_buffer := m2, db_buffer_size := nat new_len, db_data_len := n,
                db_start := PRE_RESERVE_HEADER_SIZE, db_end := e\<rparr>) }) }"

definition db_move :: "u8 list \<Rightarrow> nat \<Rightarrow> DataBuffer \<Rightarrow> (int \<times> DataBuffer) option" where
  "db_move input_data input_len b = do {
     m1 \<leftarrow> (if db_data_len b \<ge> db_start b
            then do { temp \<leftarrow> mem_read (nat (db_start b)) (to_size (db_data_len b)) (db_buffer b);
                      mem_write (nat PRE_RESERVE_HEADER_SIZE) temp (db_buffer b) }
            else memcpy_inside (nat PRE_RESERVE_HEADER_SIZE) (nat (db_start b))
                   (to_size (db_data_len b)) (db_buffer b));
     xs \<leftarrow> mem_read 0 input_len input_data;
     m2 \<leftarrow> mem_write (nat (PRE_RESERVE_HEADER_SIZE + db_data_len b)) xs m1;
     (let n = to_int32 (db_data_len b + int input_len)
      in do { e \<leftarrow> int32_result (PRE_RESERVE_HEADER_SIZE + n);
              Some (n, b\<lparr>db_buffer := m2, db_data_len := n, db_start := PRE_RESERVE_HEADER_SIZE,
                db_end := e\<rparr>) }) }"

text \<open>\<open>input_data\<close> is the memory from the pointer on, \<^term>\<open>None\<close> the null pointer.\<close>

definition AppendData :: "u8 list option \<Rightarrow> nat \<Rightarrow> DataBuffer \<Rightarrow> (int \<times> DataBuffer) option" where
  "AppendData input_data input_len b =
     (case input_data of
        None \<Rightarrow> Some (0, b)
      | Some input \<Rightarrow>
          if input_len = 0 then Some (0, b)
          else
            (let limit = to_size (int (db_buffer_size b) - PRE_RESERVE_HEADER_SIZE)
             in if to_size (db_end b + int input_len) > limit
                then if to_size (db_data_len b + int input_len) \<ge> limit then db_grow input input_len b
                     else db_move input input_len b
                else do {
                  xs \<leftarrow> mem_read 0 input_len input;
                  mem \<leftarrow> mem_write (nat (db_end b)) xs (db_buffer b);
                  n \<leftarrow> int32_result (db_data_len b + to_int32 (int input_len));
                  e \<leftarrow> int32_result (db_end b + to_int32 (int input_len));
                  Some (n, b\<lparr>db_buffer := mem, db_data_len := n, db_end := e\<rparr>) }))"

text \<open>The memory from the returned pointer on; \<^term>\<open>None\<close> is the null pointer.\<close>

definition ConsumeData :: "int \<Rightarrow> DataBuffer \<Rightarrow> u8 list option \<times> DataBuffer" where
  "ConsumeData consume_len b =
     (if consume_len > db_data_len b then (None, b)
      else if consume_len < 0 \<and> db_start b + consume_len < 0 then (None, b)
      else (let b' = b\<lparr>db_start := db_start b + consume_len, db_data_len := db_data_len b - consume_len\<rparr>
            in (Some (drop (nat (db_start b')) (db_buffer b')), b')))"

definition DataBuffer_Reset :: "DataBuffer \<Rightarrow> DataBuffer" where
  "DataBuffer_Reset b =
     b\<lparr>db_start := PRE_RESERVE_HEADER_SIZE, db_end := PRE_RESERVE_HEADER_SIZE, db_data_len := 0\<rparr>"

definition DataBuffer_Data :: "DataBuffer \<Rightarrow> u8 list" where
  "DataBuffer_Data b = drop (nat (db_start b)) (db_buffer b)"

definition DataLen :: "DataBuffer \<Rightarrow> nat" where
  "DataLen b = to_size (db_data_len b)"

definition Require :: "nat \<Rightarrow> DataBuffer \<Rightarrow> bool" where
  "Require len b = (to_int32 (int len) \<le> db_data_len b)"

section \<open>The bytes in the buffer\<close>

definition db_inv :: "DataBuffer \<Rightarrow> bool" where
  "db_inv b \<longleftrightarrow> 200 \<le> db_buffer_size b \<and> db_buffer_size b \<le> length (db_buffer b)
     \<and> int (db_buffer_size b) < 2 ^ 31 \<and> 0 \<le> db_start b \<and> 0 \<le> db_data_len b
     \<and> db_end b = db_start b + db_data_len b \<and> db_end b \<le> int (length (db_buffer b))
     \<and> length (db_buffer b) \<le> db_buffer_size b + 200 \<and> db_end b < 2 ^ 31"

definition db_contents :: "DataBuffer \<Rightarrow> u8 list" where
  "db_contents b = take (nat (db_data_len b)) (drop (nat (db_start b)) (db_buffer b))"

text \<open>When new bytes make \<^verbatim>\<open>AppendData\<close> move the old ones, and when that move copies between
  overlapping places.\<close>

definition db_moves :: "nat \<Rightarrow> DataBuffer \<Rightarrow> bool" where
  "db_moves n b \<longleftrightarrow> 0 < n \<and> db_end b + int n > int (db_buffer_size b) - 200
     \<and> db_data_len b + int n < int (db_buffer_size b) - 200"

definition db_overlap :: "DataBuffer \<Rightarrow> bool" where
  "db_overlap b \<longleftrightarrow> 0 < db_data_len b \<and> db_data_len b < db_start b
     \<and> 200 < db_start b + db_data_len b \<and> db_start b < 200 + db_data_len b"

lemma to_size_small: "0 \<le> x \<Longrightarrow> x < 2 ^ 64 \<Longrightarrow> to_size x = nat x"
  by (simp add: to_size_def)

lemma to_int32_small: "- (2 ^ 31) \<le> x \<Longrightarrow> x < 2 ^ 31 \<Longrightarrow> to_int32 x = x"
  by (simp add: to_int32_def)

lemma mem_write_read: 
  assumes "i + length xs \<le> length mem"
  shows "mem_write i xs mem = Some (take i mem @ xs @ drop (i + length xs) mem)"
  using assms by (simp add: mem_write_def)

lemma db_inv_init: "200 \<le> n \<Longrightarrow> n < 2 ^ 31 \<Longrightarrow> db_inv (DataBuffer_init n)"
  by (simp add: db_inv_def DataBuffer_init_def PRE_RESERVE_HEADER_SIZE_def)

lemma db_contents_init: "db_contents (DataBuffer_init n) = []"
  by (simp add: db_contents_def DataBuffer_init_def)

lemma db_inv_cursors:
  assumes "db_inv b"
  obtains s l where "db_start b = int s" "db_data_len b = int l" "db_end b = int (s + l)"
    "s + l \<le> length (db_buffer b)" "200 \<le> db_buffer_size b" "db_buffer_size b \<le> length (db_buffer b)"
    "db_buffer_size b < 2 ^ 31" "length (db_buffer b) \<le> db_buffer_size b + 200"
    "db_contents b = take l (drop s (db_buffer b))" "length (db_contents b) = l" "int s + int l < 2 ^ 31"
proof -
  have c: "0 \<le> db_start b" "0 \<le> db_data_len b" "db_end b = db_start b + db_data_len b"
      "db_end b \<le> int (length (db_buffer b))"
    using assms by (simp_all add: db_inv_def)
  then have "nat (db_start b) + nat (db_data_len b) \<le> length (db_buffer b)" by linarith
  moreover from this have "length (db_contents b) = nat (db_data_len b)" by (simp add: db_contents_def)
  ultimately show thesis
    using assms c that [of "nat (db_start b)" "nat (db_data_len b)"] by (simp add: db_inv_def db_contents_def)
qed

lemma DataLen_contents: "db_inv b \<Longrightarrow> DataLen b = length (db_contents b)"
  by (elim db_inv_cursors) (simp add: DataLen_def to_size_small)

lemma db_data_len_contents: "db_inv b \<Longrightarrow> db_data_len b = int (length (db_contents b))"
  by (elim db_inv_cursors) simp

lemma Data_contents: "db_inv b \<Longrightarrow> take (length (db_contents b)) (DataBuffer_Data b) = db_contents b"
  by (elim db_inv_cursors) (simp add: DataBuffer_Data_def)

lemma GetNewSize_bound:
  assumes "n + 10240 < 2 ^ 31"
  shows "\<exists>k. GetNewSize (int n) = Some (int k) \<and> n \<le> k \<and> 200 \<le> k \<and> k < 2 ^ 31"
proof (cases "n \<le> 512000")
  case True
  then show ?thesis
    by (auto simp: GetNewSize_def intro: exI [of _ 51200] exI [of _ 102400] exI [of _ 204800] exI [of _ 512000])
next
  case False
  then show ?thesis using assms by (intro exI [of _ "n + 10240"]) (simp add: GetNewSize_def int32_result_def)
qed

lemma db_grow_works:
  assumes b: "db_inv b" and n: "int (length (db_contents b) + length xs) + 20 * 1024 < 2 ^ 31"
  shows "\<exists>b'. db_grow (xs @ ys) (length xs) b = Some (int (length (db_contents b)) + int (length xs), b')
    \<and> db_inv b' \<and> db_contents b' = db_contents b @ xs"
  using b
proof (rule db_inv_cursors)
  fix s l
  assume c: "db_start b = int s" "db_data_len b = int l" "db_end b = int (s + l)"
    "s + l \<le> length (db_buffer b)" "length (db_contents b) = l"
    "db_contents b = take l (drop s (db_buffer b))"
  obtain k where k: "GetNewSize (int (l + length xs + 10240)) = Some (int k)" "l + length xs + 10240 \<le> k"
      "200 \<le> k" "k < 2 ^ 31"
    using GetNewSize_bound [of "l + length xs + 10240"] n c(5) by auto
  let ?old = "take l (drop s (db_buffer b))"
  have len: "length ?old = l" using c by simp
  have small: "int l + int (length xs) + 20480 < 2 ^ 31" using n c(5) by simp
  have r: "to_int32 (int (length xs)) = int (length xs)"
    "to_int32 (int l + int (length xs)) = int l + int (length xs)" "to_size (int l) = l"
    using small by (simp_all add: to_int32_small to_size_small)
  have sums: "int32_result (int l + int (length xs)) = Some (int l + int (length xs))"
    "int32_result (int l + int (length xs) + EXTRA_LEN) = Some (int l + int (length xs) + 10240)"
    "int32_result (PRE_RESERVE_HEADER_SIZE + (int l + int (length xs))) = Some (200 + (int l + int (length xs)))"
    using small by (simp_all add: int32_result_def EXTRA_LEN_def PRE_RESERVE_HEADER_SIZE_def)
  have new: "GetNewSize (int l + int (length xs) + 10240) = Some (int k)" using k(1) by simp
  let ?m1 = "replicate 200 fresh_byte @ ?old @ replicate (k - (200 + l)) fresh_byte"
  let ?m2 = "replicate 200 fresh_byte @ ?old @ xs @ replicate (k - (200 + l + length xs)) fresh_byte"
  let ?b = "b\<lparr>db_buffer := ?m2, db_buffer_size := k, db_data_len := int l + int (length xs),
    db_start := PRE_RESERVE_HEADER_SIZE, db_end := 200 + (int l + int (length xs))\<rparr>"
  have read: "mem_read s l (db_buffer b) = Some ?old" "mem_read 0 (length xs) (xs @ ys) = Some xs"
    using c by (simp_all add: mem_read_def)
  have w1: "mem_write 200 ?old (replicate k fresh_byte) = Some ?m1"
    using k len by (simp add: mem_write_def)
  have w2: "mem_write (200 + l) xs ?m1 = Some ?m2"
    using k len by (simp add: mem_write_def)
  have pre: "nat PRE_RESERVE_HEADER_SIZE = 200" "nat (PRE_RESERVE_HEADER_SIZE + int l) = 200 + l"
    by (simp_all add: PRE_RESERVE_HEADER_SIZE_def)
  have "db_grow (xs @ ys) (length xs) b = Some (int l + int (length xs), ?b)"
    unfolding db_grow_def c(1,2) r sums Option.bind.simps new nat_int read pre w1 w2 Let_def by simp
  moreover have "db_inv ?b"
    using k len by (simp add: db_inv_def PRE_RESERVE_HEADER_SIZE_def)
  moreover have "db_contents ?b = db_contents b @ xs"
    using len c(6) by (simp add: db_contents_def PRE_RESERVE_HEADER_SIZE_def nat_add_distrib)
  ultimately show ?thesis using c(5) by auto
qed

lemma db_move_works:
  assumes b: "db_inv b" and n: "length (db_contents b) + length xs < db_buffer_size b - 200"
  shows "if db_overlap b then db_move (xs @ ys) (length xs) b = None
    else (\<exists>b'. db_move (xs @ ys) (length xs) b = Some (int (length (db_contents b)) + int (length xs), b')
      \<and> db_inv b' \<and> db_contents b' = db_contents b @ xs)"
  using b
proof (rule db_inv_cursors)
  fix s l
  assume c: "db_start b = int s" "db_data_len b = int l" "db_end b = int (s + l)"
    "s + l \<le> length (db_buffer b)" "200 \<le> db_buffer_size b" "db_buffer_size b \<le> length (db_buffer b)"
    "db_buffer_size b < 2 ^ 31" "length (db_buffer b) \<le> db_buffer_size b + 200"
    "length (db_contents b) = l" "db_contents b = take l (drop s (db_buffer b))"
  let ?B = "db_buffer b" let ?old = "take l (drop s ?B)"
  have len: "length ?old = l" using c by simp
  have room: "200 + l + length xs \<le> length ?B" using n c by simp
  have small: "int l + int (length xs) + 200 < 2 ^ 31" using n c by simp
  have r: "to_int32 (int l + int (length xs)) = int l + int (length xs)" "to_size (int l) = l"
    "int32_result (PRE_RESERVE_HEADER_SIZE + (int l + int (length xs))) = Some (200 + (int l + int (length xs)))"
    using small by (simp_all add: to_int32_small to_size_small int32_result_def PRE_RESERVE_HEADER_SIZE_def)
  have pre: "nat PRE_RESERVE_HEADER_SIZE = 200" "nat (PRE_RESERVE_HEADER_SIZE + int l) = 200 + l"
    by (simp_all add: PRE_RESERVE_HEADER_SIZE_def)
  let ?m1 = "take 200 ?B @ ?old @ drop (200 + l) ?B"
  let ?m2 = "take 200 ?B @ ?old @ xs @ drop (200 + l + length xs) ?B"
  let ?b = "b\<lparr>db_buffer := ?m2, db_data_len := int l + int (length xs),
    db_start := PRE_RESERVE_HEADER_SIZE, db_end := 200 + (int l + int (length xs))\<rparr>"
  have read: "mem_read s l ?B = Some ?old" "mem_read 0 (length xs) (xs @ ys) = Some xs"
    using c by (simp_all add: mem_read_def)
  have w1: "mem_write 200 ?old ?B = Some ?m1"
    using room len by (simp add: mem_write_def)
  have w2: "mem_write (200 + l) xs ?m1 = Some ?m2"
    using room len by (simp add: mem_write_def add.commute)
  have inside: "memcpy_inside 200 s l ?B = (if l \<noteq> 0 \<and> 200 < s + l \<and> s < 200 + l then None else Some ?m1)"
    by (simp add: memcpy_inside_def read w1)
  have first: "(if int l \<ge> int s then do { temp \<leftarrow> mem_read s l ?B; mem_write 200 temp ?B }
      else memcpy_inside 200 s l ?B) = (if db_overlap b then None else Some ?m1)"
    by (simp add: inside read w1 db_overlap_def c)
  have "db_move (xs @ ys) (length xs) b = (if db_overlap b then None else Some (int l + int (length xs), ?b))"
    unfolding db_move_def c(1,2) r nat_int pre first
    using w2 read by (simp add: r Let_def)
  moreover have "db_inv ?b"
    using room c len small n by (simp add: db_inv_def PRE_RESERVE_HEADER_SIZE_def)
  moreover have "db_contents ?b = db_contents b @ xs"
    using len room c(10) by (simp add: db_contents_def PRE_RESERVE_HEADER_SIZE_def nat_add_distrib)
  ultimately show ?thesis using c(9) by simp
qed

lemma AppendData_works:
  assumes b: "db_inv b" and n: "int (length (db_contents b) + length xs) + 20 * 1024 < 2 ^ 31"
  shows "if db_moves (length xs) b \<and> db_overlap b then AppendData (Some (xs @ ys)) (length xs) b = None
    else (\<exists>b' r. AppendData (Some (xs @ ys)) (length xs) b = Some (r, b')
      \<and> db_inv b' \<and> db_contents b' = db_contents b @ xs)"
  using b
proof (rule db_inv_cursors)
  fix s l
  assume c: "db_start b = int s" "db_data_len b = int l" "db_end b = int (s + l)"
    "s + l \<le> length (db_buffer b)" "200 \<le> db_buffer_size b" "db_buffer_size b \<le> length (db_buffer b)"
    "db_buffer_size b < 2 ^ 31" "length (db_buffer b) \<le> db_buffer_size b + 200"
    "length (db_contents b) = l" "db_contents b = take l (drop s (db_buffer b))"
  let ?n = "length xs" and ?lim = "db_buffer_size b - 200"
  have lim: "to_size (int (db_buffer_size b) - PRE_RESERVE_HEADER_SIZE) = ?lim"
    using c by (simp add: to_size_small PRE_RESERVE_HEADER_SIZE_def nat_diff_distrib)
  have sums: "to_size (int l + int ?n) = l + ?n" "to_size (int (s + l) + int ?n) = s + l + ?n"
    "to_int32 (int ?n) = int ?n" "int32_result (int l + int ?n) = Some (int l + int ?n)"
    using c n by (simp_all add: to_size_small to_int32_small int32_result_def nat_add_distrib)
  have moves: "db_moves ?n b \<longleftrightarrow> xs \<noteq> [] \<and> s + l + ?n > ?lim \<and> l + ?n < ?lim"
    using c by (auto simp: db_moves_def)
  consider "xs = []" | "xs \<noteq> []" "s + l + ?n \<le> ?lim" | "xs \<noteq> []" "s + l + ?n > ?lim" "l + ?n < ?lim"
    | "xs \<noteq> []" "s + l + ?n > ?lim" "?lim \<le> l + ?n" by linarith
  then show ?thesis
  proof cases
    case 1
    then show ?thesis using b moves by (simp add: AppendData_def)
  next
    case 2
    let ?m = "take (s + l) (db_buffer b) @ xs @ drop (s + l + ?n) (db_buffer b)"
    let ?b = "b\<lparr>db_buffer := ?m, db_data_len := int l + int ?n, db_end := int (s + l) + int ?n\<rparr>"
    have "mem_read 0 ?n (xs @ ys) = Some xs" "mem_write (s + l) xs (db_buffer b) = Some ?m"
        "int32_result (int (s + l) + int ?n) = Some (int (s + l) + int ?n)"
      using 2 c by (simp_all add: mem_read_def mem_write_def int32_result_def)
    then have "AppendData (Some (xs @ ys)) ?n b = Some (int l + int ?n, ?b)"
      unfolding AppendData_def option.case Let_def c(2,3) lim sums nat_int using 2 by simp
    moreover have "db_inv ?b"
      using 2(2) c(1-8) by (simp add: db_inv_def, linarith)
    moreover have "db_contents ?b = db_contents b @ xs"
      using c by (simp add: db_contents_def nat_add_distrib drop_take)
    ultimately show ?thesis using 2 moves by auto
  next
    case 3
    then have "AppendData (Some (xs @ ys)) ?n b = db_move (xs @ ys) ?n b"
      unfolding AppendData_def option.case Let_def c(2,3) lim sums by simp
    then show ?thesis using db_move_works [OF b, of xs ys] 3 c moves by (auto split: if_splits)
  next
    case 4
    then have "AppendData (Some (xs @ ys)) ?n b = db_grow (xs @ ys) ?n b"
      unfolding AppendData_def option.case Let_def c(2,3) lim sums by simp
    then show ?thesis using db_grow_works [OF b n, of ys] 4 moves by auto
  qed
qed

lemma ConsumeData_works:
  assumes "db_inv b" "n \<le> length (db_contents b)"
  shows "db_inv (snd (ConsumeData (int n) b))" "db_contents (snd (ConsumeData (int n) b)) = drop n (db_contents b)"
    "fst (ConsumeData (int n) b) \<noteq> None"
  using assms(1)
  by (rule db_inv_cursors; use assms in \<open>simp add: ConsumeData_def db_inv_def db_contents_def Let_def nat_add_distrib
    nat_diff_distrib drop_take add.commute\<close>)+

lemma Reset_works: "db_inv b \<Longrightarrow> db_inv (DataBuffer_Reset b) \<and> db_contents (DataBuffer_Reset b) = []"
  by (simp add: db_inv_def DataBuffer_Reset_def db_contents_def PRE_RESERVE_HEADER_SIZE_def)

section \<open>A queue of bytes\<close>

text \<open>The abstract component: a queue of bytes, and the runs of both.\<close>

datatype db_op = DbAppend "u8 list" | DbConsume nat | DbReset

fun queue_op :: "db_op \<Rightarrow> u8 list \<Rightarrow> u8 list" where
  "queue_op (DbAppend xs) q = q @ xs"
| "queue_op (DbConsume n) q = (if n \<le> length q then drop n q else q)"
| "queue_op DbReset q = []"

fun db_op_step :: "db_op \<Rightarrow> DataBuffer \<Rightarrow> DataBuffer option" where
  "db_op_step (DbAppend xs) b = map_option snd (AppendData (Some xs) (length xs) b)"
| "db_op_step (DbConsume n) b = Some (snd (ConsumeData (int n) b))"
| "db_op_step DbReset b = Some (DataBuffer_Reset b)"

fun db_run :: "db_op list \<Rightarrow> DataBuffer \<Rightarrow> DataBuffer option" where
  "db_run [] b = Some b"
| "db_run (x # xs) b = Option.bind (db_op_step x b) (db_run xs)"

fun op_bytes :: "db_op \<Rightarrow> nat" where
  "op_bytes (DbAppend xs) = length xs"
| "op_bytes _ = 0"

definition run_bytes :: "db_op list \<Rightarrow> nat" where
  "run_bytes xs = sum_list (map op_bytes xs)"

text \<open>An append that copies between overlapping places.\<close>

fun overlapping_append :: "db_op \<Rightarrow> DataBuffer \<Rightarrow> bool" where
  "overlapping_append (DbAppend xs) b = (db_moves (length xs) b \<and> db_overlap b)"
| "overlapping_append _ b = False"

lemma ConsumeData_too_much: "db_inv b \<Longrightarrow> length (db_contents b) < n \<Longrightarrow> ConsumeData (int n) b = (None, b)"
  by (simp add: ConsumeData_def db_data_len_contents)

lemma db_op_step_works:
  assumes "db_inv b" "int (length (db_contents b) + op_bytes x) + 20 * 1024 < 2 ^ 31"
  shows "if overlapping_append x b then db_op_step x b = None
    else (\<exists>b'. db_op_step x b = Some b' \<and> db_inv b' \<and> db_contents b' = queue_op x (db_contents b))"
proof (cases x)
  case (DbAppend xs)
  then show ?thesis using AppendData_works [OF assms(1), of xs "[]"] assms(2) by (auto split: if_splits)
next
  case (DbConsume n)
  then show ?thesis
    using ConsumeData_works [OF assms(1), of n] ConsumeData_too_much [OF assms(1), of n] assms(1)
    by (cases "n \<le> length (db_contents b)") (auto simp: not_le)
next
  case DbReset
  then show ?thesis using Reset_works [OF assms(1)] by simp
qed

lemma length_queue_op: "length (queue_op x q) \<le> length q + op_bytes x"
  by (cases x) auto

lemma db_run_works:
  assumes "db_inv b" "int (length (db_contents b) + run_bytes ops) + 20 * 1024 < 2 ^ 31"
  shows "(\<exists>b'. db_run ops b = Some b' \<and> db_inv b' \<and> db_contents b' = fold queue_op ops (db_contents b))
    \<or> (db_run ops b = None \<and> (\<exists>pre x post b'. ops = pre @ x # post \<and> db_run pre b = Some b' \<and> overlapping_append x b'))"
  using assms
proof (induction ops arbitrary: b)
  case (Cons x ops)
  have small: "int (length (db_contents b) + op_bytes x) + 20 * 1024 < 2 ^ 31"
    using Cons.prems(2) by (simp add: run_bytes_def)
  note step = db_op_step_works [OF Cons.prems(1) small]
  show ?case
  proof (cases "overlapping_append x b")
    case True
    then show ?thesis using step by (metis append_Nil db_run.simps bind.simps(1))
  next
    case False
    then obtain b1 where b1: "db_op_step x b = Some b1" "db_inv b1" "db_contents b1 = queue_op x (db_contents b)"
      using step by auto
    have "int (length (db_contents b1) + run_bytes ops) + 20 * 1024 < 2 ^ 31"
      using Cons.prems(2) length_queue_op [of x "db_contents b"] by (simp add: run_bytes_def b1)
    from Cons.IH [OF b1(2) this] show ?thesis
    proof
      assume "db_run ops b1 = None \<and> (\<exists>pre y post b'. ops = pre @ y # post \<and> db_run pre b1 = Some b' \<and> overlapping_append y b')"
      then obtain pre y post b' where "db_run ops b1 = None" "ops = pre @ y # post" "db_run pre b1 = Some b'"
          "overlapping_append y b'" by blast
      then have "x # ops = (x # pre) @ y # post" "db_run (x # pre) b = Some b'" "db_run (x # ops) b = None"
        by (simp_all add: b1)
      then show ?thesis using \<open>overlapping_append y b'\<close> by blast
    qed (simp add: b1)
  qed
qed simp

text \<open>While the bytes of a run fit behind each other, nothing is moved.\<close>

lemma db_no_move:
  assumes "db_inv b" "db_end b + int (run_bytes ops) + 200 \<le> int (db_buffer_size b)" "200 \<le> db_end b"
  shows "\<exists>b'. db_run ops b = Some b'"
  using assms
proof (induction ops arbitrary: b)
  case (Cons x ops)
  have "\<exists>b1. db_op_step x b = Some b1 \<and> db_inv b1 \<and> db_end b1 \<le> db_end b + int (op_bytes x)
      \<and> 200 \<le> db_end b1 \<and> db_buffer_size b1 = db_buffer_size b"
    using Cons.prems(1)
  proof (rule db_inv_cursors)
    fix s l
    assume c: "db_start b = int s" "db_data_len b = int l" "db_end b = int (s + l)"
      "s + l \<le> length (db_buffer b)" "200 \<le> db_buffer_size b" "db_buffer_size b \<le> length (db_buffer b)"
      "db_buffer_size b < 2 ^ 31" "length (db_buffer b) \<le> db_buffer_size b + 200"
    show ?thesis
    proof (cases x)
      case (DbAppend xs)
      then have fits: "s + l + length xs + 200 \<le> db_buffer_size b"
        using Cons.prems(2) c by (simp add: run_bytes_def)
      then have "\<not> nat (int (db_buffer_size b) - 200) < s + l + length xs" by linarith
      then show ?thesis using c DbAppend Cons.prems(1,3) fits
        by (simp add: AppendData_def Let_def to_size_small PRE_RESERVE_HEADER_SIZE_def nat_add_distrib
            mem_read_def mem_write_def int32_result_def to_int32_small db_inv_def)
    next
      case (DbConsume n)
      then show ?thesis using c Cons.prems by (simp add: ConsumeData_def Let_def db_inv_def)
    next
      case DbReset
      then show ?thesis using c Cons.prems Reset_works [of b]
        by (simp add: DataBuffer_Reset_def PRE_RESERVE_HEADER_SIZE_def)
    qed
  qed
  then obtain b1 where b1: "db_op_step x b = Some b1" "db_inv b1" "db_end b1 \<le> db_end b + int (op_bytes x)"
      "200 \<le> db_end b1" "db_buffer_size b1 = db_buffer_size b" by blast
  have "db_end b1 + int (run_bytes ops) + 200 \<le> int (db_buffer_size b1)"
    using Cons.prems(2) b1 by (simp add: run_bytes_def)
  from Cons.IH [OF b1(2) this b1(4)] show ?case by (simp add: b1)
qed simp

text \<open>Claim C12. A buffer behaves as a queue of bytes for every sequence of appends, consumes and
  resets: it shows the bytes of the queue, unless an append came to copy between overlapping places
  of the block; and as long as all the bytes fit into the block that cannot happen.\<close>

theorem data_buffer_is_a_queue:
  assumes "200 \<le> n" "int (n + run_bytes ops) + 20 * 1024 < 2 ^ 31"
  shows "(case db_run ops (DataBuffer_init n) of
      Some b \<Rightarrow> db_contents b = fold queue_op ops []
    | None \<Rightarrow> (\<exists>pre x post b. ops = pre @ x # post \<and> db_run pre (DataBuffer_init n) = Some b
        \<and> overlapping_append x b))
    \<and> (db_run ops (DataBuffer_init n) = None \<longrightarrow> n < 400 + run_bytes ops)"
proof -
  have inv: "db_inv (DataBuffer_init n)" using assms by (simp add: db_inv_init)
  have "int (length (db_contents (DataBuffer_init n)) + run_bytes ops) + 20 * 1024 < 2 ^ 31"
    using assms by (simp add: db_contents_init)
  note run = db_run_works [OF inv this, unfolded db_contents_init]
  have "db_end (DataBuffer_init n) = 200" "db_buffer_size (DataBuffer_init n) = n"
    by (simp_all add: DataBuffer_init_def PRE_RESERVE_HEADER_SIZE_def)
  then have "db_run ops (DataBuffer_init n) = None \<longrightarrow> n < 400 + run_bytes ops"
    using db_no_move [OF inv, of ops] by force
  then show ?thesis using run by (auto split: option.split)
qed

lemma data_buffer_is_a_queue_witness:
  "\<exists>b. db_run [DbAppend [1, 2, 3], DbConsume 1, DbAppend [4]] (DataBuffer_init (nat EXTRA_LEN)) = Some b
    \<and> db_contents b = [2, 3, 4]"
  using data_buffer_is_a_queue [of "nat EXTRA_LEN" "[DbAppend [1, 2, 3], DbConsume 1, DbAppend [4]]"]
  by (cases "db_run [DbAppend [1, 2, 3], DbConsume 1, DbAppend [4]] (DataBuffer_init (nat EXTRA_LEN))")
    (simp_all add: EXTRA_LEN_def run_bytes_def del: db_run.simps)

text \<open>A move can copy between overlapping places: after 400 bytes of which 120 were consumed,
  9,500 more bytes make \<^verbatim>\<open>memcpy\<close> copy 280 bytes by 120 places to the front.\<close>

lemma append_overlaps:
  fixes xs ys :: "u8 list"
  assumes "length xs = 400" "length ys = 9500"
  shows "db_run [DbAppend xs, DbConsume 120] (DataBuffer_init (nat EXTRA_LEN)) \<noteq> None
    \<and> db_run [DbAppend xs, DbConsume 120, DbAppend ys] (DataBuffer_init (nat EXTRA_LEN)) = None"
proof -
  let ?b0 = "DataBuffer_init 10240"
  have "db_inv ?b0" by (simp add: db_inv_init)
  let ?m = "take 200 (db_buffer ?b0) @ xs @ drop 600 (db_buffer ?b0)"
  let ?b1 = "?b0\<lparr>db_buffer := ?m, db_data_len := 400, db_end := 600\<rparr>"
  have 1: "AppendData (Some xs) 400 ?b0 = Some (400, ?b1)"
    using assms by (simp add: AppendData_def DataBuffer_init_def Let_def to_size_small PRE_RESERVE_HEADER_SIZE_def
        mem_read_def mem_write_def int32_result_def to_int32_small)
  let ?b2 = "?b1\<lparr>db_start := 320, db_data_len := 280\<rparr>"
  have 2: "snd (ConsumeData 120 ?b1) = ?b2"
    by (simp add: ConsumeData_def Let_def DataBuffer_init_def PRE_RESERVE_HEADER_SIZE_def)
  have "db_inv ?b2" using assms by (simp add: db_inv_def DataBuffer_init_def PRE_RESERVE_HEADER_SIZE_def)
  moreover have "db_moves 9500 ?b2 \<and> db_overlap ?b2"
    by (simp add: db_moves_def db_overlap_def DataBuffer_init_def)
  moreover have "int (length (db_contents ?b2) + 9500) + 20 * 1024 < 2 ^ 31"
    using assms by (simp add: db_contents_def DataBuffer_init_def)
  ultimately have "AppendData (Some ys) 9500 ?b2 = None"
    using AppendData_works [of ?b2 ys "[]"] assms by (simp add: append_Nil2)
  then show ?thesis using 1 2 assms by (simp add: EXTRA_LEN_def)
qed

end
