(* ===== verification/Ws_Frame.thy ===== *)
theory Ws_Frame
  imports Data_Buffer
begin

unbundle bit_operations_syntax

text \<open>
  The frames of the WebSocket library: \<^verbatim>\<open>WebSocketFrame\<close>
  (\<^verbatim>\<open>deps/cpp_websocket/net/http/websocket/websocket_frame.cpp\<close>), which parses them out of the
  received bytes, and \<^verbatim>\<open>WebSocketClient::SendWsFrame\<close> (\<^verbatim>\<open>websocket_client.cpp\<close>), which builds them.
  \<^term>\<open>None\<close> is undefined behaviour, as in the theory of the buffer.
\<close>

section \<open>The header\<close>

definition WS_OP_CONTINUE_TYPE :: u8 where "WS_OP_CONTINUE_TYPE = 0x00"
definition WS_OP_TEXT_TYPE :: u8 where "WS_OP_TEXT_TYPE = 0x01"
definition WS_OP_BIN_TYPE :: u8 where "WS_OP_BIN_TYPE = 0x02"
definition WS_OP_CLOSE_TYPE :: u8 where "WS_OP_CLOSE_TYPE = 0x08"
definition WS_OP_PING_TYPE :: u8 where "WS_OP_PING_TYPE = 0x09"
definition WS_OP_PONG_TYPE :: u8 where "WS_OP_PONG_TYPE = 0x0a"

lemmas ws_op_defs = WS_OP_CONTINUE_TYPE_def WS_OP_TEXT_TYPE_def WS_OP_BIN_TYPE_def WS_OP_CLOSE_TYPE_def
  WS_OP_PING_TYPE_def WS_OP_PONG_TYPE_def

text \<open>The bit fields of the two header bytes, from the low bits up, and the bytes of given fields.\<close>

definition hdr_opcode :: "u8 \<Rightarrow> u8" where "hdr_opcode b0 = b0 AND 0x0F"
definition hdr_fin :: "u8 \<Rightarrow> bool" where "hdr_fin b0 = bit b0 7"
definition hdr_payload_len :: "u8 \<Rightarrow> u8" where "hdr_payload_len b1 = b1 AND 0x7F"
definition hdr_mask :: "u8 \<Rightarrow> bool" where "hdr_mask b1 = bit b1 7"

definition header_byte0 :: "bool \<Rightarrow> u8 \<Rightarrow> u8" where
  "header_byte0 fin opcode = (if fin then 0x80 else 0) OR (opcode AND 0x0F)"
definition header_byte1 :: "bool \<Rightarrow> u8 \<Rightarrow> u8" where
  "header_byte1 masked payload_len = (if masked then 0x80 else 0) OR (payload_len AND 0x7F)"

text \<open>The two loops that apply the masking key to \<open>n\<close> bytes: four at a time, then the rest.\<close>

function mask_words :: "nat \<Rightarrow> nat \<Rightarrow> u8 list \<Rightarrow> u8 list \<Rightarrow> u8 list" where
  "mask_words i temp_len key p =
     (if i < temp_len
      then mask_words (i + 4) temp_len key
             (p[i := p ! i XOR key ! 0, i + 1 := p ! (i + 1) XOR key ! 1,
                i + 2 := p ! (i + 2) XOR key ! 2, i + 3 := p ! (i + 3) XOR key ! 3])
      else p)"
  by auto
termination by (relation "measure (\<lambda>(i, temp_len, _, _). temp_len - i)") auto

function mask_rest :: "nat \<Rightarrow> nat \<Rightarrow> u8 list \<Rightarrow> u8 list \<Rightarrow> u8 list" where
  "mask_rest i n key p =
     (if i < n then mask_rest (i + 1) n key (p[i := p ! i XOR key ! (i mod 4)]) else p)"
  by auto
termination by (relation "measure (\<lambda>(i, n, _, _). n - i)") auto

declare mask_words.simps [simp del] mask_rest.simps [simp del]

definition apply_mask :: "nat \<Rightarrow> u8 list \<Rightarrow> u8 list \<Rightarrow> u8 list" where
  "apply_mask n key p = (let temp_len = n - n mod 4 in mask_rest temp_len n key (mask_words 0 temp_len key p))"

section \<open>Parsing\<close>

record WebSocketFrame =
  wf_buffer :: DataBuffer
  wf_payload_start :: int
  wf_payload_len :: int
  wf_opcode :: u8
  wf_mask_enable :: bool
  wf_fin :: bool
  wf_header_ready :: bool
  wf_masking_key :: "u8 list"

definition WebSocketFrame_init :: WebSocketFrame where
  "WebSocketFrame_init =
     \<lparr>wf_buffer = DataBuffer_init (nat EXTRA_LEN), wf_payload_start = 0, wf_payload_len = 0, wf_opcode = 0,
      wf_mask_enable = False, wf_fin = False, wf_header_ready = False,
      wf_masking_key = replicate 4 fresh_byte\<rparr>"

text \<open>The length in eight bytes, read into a signed integer.\<close>

definition ext_len64 :: "u8 list \<Rightarrow> int" where
  "ext_len64 p = sint
     ((push_bit 56 (ucast (p ! 2)) OR push_bit 48 (ucast (p ! 3)) OR push_bit 40 (ucast (p ! 4))
       OR push_bit 32 (ucast (p ! 5)) OR push_bit 24 (ucast (p ! 6)) OR push_bit 16 (ucast (p ! 7))
       OR push_bit 8 (ucast (p ! 8)) OR ucast (p ! 9)) :: u64)"

definition ext_len16 :: "u8 list \<Rightarrow> int" where
  "ext_len16 p = uint (push_bit 8 (ucast (p ! 2)) OR ucast (p ! 3) :: u16)"

text \<open>The part of \<^verbatim>\<open>Parse\<close> under \<^verbatim>\<open>if (!header_ready_)\<close>; false where it returns 1.\<close>

definition frame_lengths :: "WebSocketFrame \<Rightarrow> bool \<times> WebSocketFrame" where
  "frame_lengths f =
     (let p = DataBuffer_Data (wf_buffer f); n = DataLen (wf_buffer f); len7 = hdr_payload_len (p ! 1);
          f1 = f\<lparr>wf_payload_len := uint len7, wf_payload_start := 2, wf_fin := hdr_fin (p ! 0),
                 wf_opcode := hdr_opcode (p ! 0)\<rparr>
      in if len7 = 127
         then if n < 10 then (False, f1)
              else (True, f1\<lparr>wf_payload_len := ext_len64 p, wf_payload_start := 10\<rparr>)
         else if len7 = 126
         then if n < 4 then (False, f1)
              else (True, f1\<lparr>wf_payload_len := ext_len16 p, wf_payload_start := 4\<rparr>)
         else (True, f1))"

definition frame_key :: "WebSocketFrame \<Rightarrow> bool \<times> WebSocketFrame" where
  "frame_key f =
     (let p = DataBuffer_Data (wf_buffer f); masked = hdr_mask (p ! 1); start = wf_payload_start f;
          f1 = f\<lparr>wf_mask_enable := masked\<rparr>
      in if masked
         then if to_int32 (int (DataLen (wf_buffer f))) < start + 4 then (False, f1)
              else (True, f1\<lparr>wf_payload_start := start + 4, wf_header_ready := True,
                     wf_masking_key := map (\<lambda>i. p ! (nat start + i)) [0, 1, 2, 3]\<rparr>)
         else (True, f1\<lparr>wf_header_ready := True\<rparr>))"

definition frame_header :: "WebSocketFrame \<Rightarrow> bool \<times> WebSocketFrame" where
  "frame_header f =
     (if wf_header_ready f then (True, f)
      else (let (ok, f1) = frame_lengths f in if ok then frame_key f1 else (False, f1)))"

text \<open>Unmasking in place: the bytes behind the header in the block of the buffer.\<close>

definition frame_unmask :: "WebSocketFrame \<Rightarrow> WebSocketFrame option" where
  "frame_unmask f =
     (let b = wf_buffer f; frame_length = to_size (wf_payload_len f);
          at = nat (db_start b + wf_payload_start f); p = drop at (db_buffer b)
      in if length p < frame_length then None
         else Some (f\<lparr>wf_buffer := b\<lparr>db_buffer := take at (db_buffer b)
                        @ apply_mask frame_length (wf_masking_key f) p\<rparr>\<rparr>))"

definition int64_result :: "int \<Rightarrow> int option" where
  "int64_result x = (if - (2 ^ 63) \<le> x \<and> x < 2 ^ 63 then Some x else None)"

text \<open>\<^verbatim>\<open>Parse\<close> once the new bytes are in the buffer, and from the start.\<close>

definition parse_buffered :: "WebSocketFrame \<Rightarrow> (int \<times> WebSocketFrame) option" where
  "parse_buffered f0 =
     (if DataLen (wf_buffer f0) < 2 then Some (1, f0)
      else (case frame_header f0 of (ok, f1) \<Rightarrow>
        if \<not> ok then Some (1, f1)
        else do {
          total \<leftarrow> int64_result (wf_payload_start f1 + wf_payload_len f1);
          if to_int32 (int (DataLen (wf_buffer f0))) < total then Some (1, f1)
          else if wf_mask_enable f1 then map_option (Pair 0) (frame_unmask f1)
          else Some (0, f1) }))"

definition Parse :: "u8 list option \<Rightarrow> nat \<Rightarrow> WebSocketFrame \<Rightarrow> (int \<times> WebSocketFrame) option" where
  "Parse data len f =
     (if data \<noteq> None \<and> len > 0
      then do { (_, b) \<leftarrow> AppendData data len (wf_buffer f); parse_buffered (f\<lparr>wf_buffer := b\<rparr>) }
      else parse_buffered f)"

definition GetPayloadStart :: "WebSocketFrame \<Rightarrow> int" where "GetPayloadStart f = wf_payload_start f"
definition GetPayloadLen :: "WebSocketFrame \<Rightarrow> int" where "GetPayloadLen f = wf_payload_len f"

text \<open>The memory from the returned pointer on.\<close>

definition GetPayloadData :: "WebSocketFrame \<Rightarrow> u8 list" where
  "GetPayloadData f = drop (nat (db_start (wf_buffer f) + wf_payload_start f)) (db_buffer (wf_buffer f))"

definition GetBufferLen :: "WebSocketFrame \<Rightarrow> nat" where "GetBufferLen f = DataLen (wf_buffer f)"

definition PayloadIsReady :: "WebSocketFrame \<Rightarrow> bool" where
  "PayloadIsReady f \<longleftrightarrow>
     to_int32 (wf_payload_len f) \<le> to_int32 (int (DataLen (wf_buffer f))) - wf_payload_start f"

definition frame_Consume :: "int \<Rightarrow> WebSocketFrame \<Rightarrow> WebSocketFrame" where
  "frame_Consume len f = f\<lparr>wf_buffer := snd (ConsumeData (to_int32 len) (wf_buffer f))\<rparr>"

definition GetOperCode :: "WebSocketFrame \<Rightarrow> u8" where "GetOperCode f = wf_opcode f"
definition GetFin :: "WebSocketFrame \<Rightarrow> bool" where "GetFin f = wf_fin f"
definition IsHeaderReady :: "WebSocketFrame \<Rightarrow> bool" where "IsHeaderReady f = wf_header_ready f"

definition frame_Reset :: "WebSocketFrame \<Rightarrow> WebSocketFrame" where
  "frame_Reset f = f\<lparr>wf_payload_start := 0, wf_payload_len := 0, wf_header_ready := False\<rparr>"

section \<open>Building\<close>

text \<open>The bytes that \<^verbatim>\<open>SendWsFrame\<close> gives to the socket; \<open>key\<close> are the four random bytes.\<close>

definition frame_header_bytes :: "nat \<Rightarrow> u8 \<Rightarrow> u8 list" where
  "frame_header_bytes len op_code =
     (let b0 = header_byte0 True op_code; l = (of_nat len :: u64)
      in if len \<ge> 126
         then if len > 65535
              then [b0, header_byte1 True 127] @ map (\<lambda>k. ucast (drop_bit k l AND 0xFF)) [56, 48, 40, 32, 24, 16, 8, 0]
              else [b0, header_byte1 True 126] @ map (\<lambda>k. ucast (drop_bit k l AND 0xFF)) [8, 0]
         else [b0, header_byte1 True (of_nat len)])"

definition SendWsFrame_bytes :: "u8 list \<Rightarrow> u8 \<Rightarrow> u8 list \<Rightarrow> u8 list" where
  "SendWsFrame_bytes key op_code data =
     frame_header_bytes (length data) op_code @ key @ apply_mask (length data) key data"

text \<open>
  \<^verbatim>\<open>SendWsFrame\<close> copies the payload into a vector of its length and takes the address of the first
  element, which an empty vector does not have: without a payload the call is undefined.
\<close>

definition SendWsFrame :: "u8 list \<Rightarrow> u8 \<Rightarrow> u8 list \<Rightarrow> u8 list option" where
  "SendWsFrame key op_code data = (if data = [] then None else Some (SendWsFrame_bytes key op_code data))"

section \<open>Masking\<close>

lemma length_mask_words [simp]: "length (mask_words i t key p) = length p"
  by (induction i t key p rule: mask_words.induct) (subst mask_words.simps, simp)

lemma length_mask_rest [simp]: "length (mask_rest i n key p) = length p"
  by (induction i n key p rule: mask_rest.induct) (subst mask_rest.simps, simp)

lemma mask_words_nth:
  assumes "i mod 4 = 0" "t mod 4 = 0" "t \<le> length p" "j < length p"
  shows "mask_words i t key p ! j = (if i \<le> j \<and> j < t then p ! j XOR key ! (j mod 4) else p ! j)"
  using assms
proof (induction i t key p rule: mask_words.induct)
  case (1 i t key p)
  show ?case
  proof (cases "i < t")
    case True
    then have "i + 4 \<le> t" using 1(2,3) by presburger
    then have bounds: "i + 3 < length p" using 1(4) by simp
    obtain q where q: "i = 4 * q" using 1(2) by (auto simp: mod_eq_0_iff_dvd dvd_def)
    let ?p = "p[i := p ! i XOR key ! 0, i + 1 := p ! (i + 1) XOR key ! 1,
      i + 2 := p ! (i + 2) XOR key ! 2, i + 3 := p ! (i + 3) XOR key ! 3]"
    have step: "mask_words i t key p = mask_words (i + 4) t key ?p"
      using True by (subst mask_words.simps) simp
    have ih: "mask_words (i + 4) t key ?p ! j
        = (if i + 4 \<le> j \<and> j < t then ?p ! j XOR key ! (j mod 4) else ?p ! j)"
      using 1(1) [OF True] 1(2-5) by simp
    consider "j < i" | k where "k < 4" "j = i + k" | "i + 4 \<le> j"
      by (metis add_diff_inverse_nat linorder_not_le nat_add_left_cancel_less)
    then show ?thesis
    proof cases
      case 1
      then show ?thesis unfolding step ih by simp
    next
      case 2
      have "k = 0 \<or> k = 1 \<or> k = 2 \<or> k = 3" using 2(1) by linarith
      moreover have "j mod 4 = k" using 2 unfolding q by simp
      ultimately show ?thesis unfolding step ih using 2 bounds \<open>i + 4 \<le> t\<close> by auto
    next
      case 3
      then show ?thesis unfolding step ih by simp
    qed
  next
    case False
    then show ?thesis by (subst mask_words.simps) auto
  qed
qed

lemma mask_rest_nth:
  assumes "n \<le> length p" "j < length p"
  shows "mask_rest i n key p ! j = (if i \<le> j \<and> j < n then p ! j XOR key ! (j mod 4) else p ! j)"
  using assms
proof (induction i n key p rule: mask_rest.induct)
  case (1 i n key p)
  then show ?case by (cases "j = i"; subst mask_rest.simps) (auto simp: nth_list_update)
qed

text \<open>The mask of RFC 6455: byte \<open>j\<close> with byte \<open>j mod 4\<close> of the key.\<close>

definition xor_key :: "u8 list \<Rightarrow> u8 list \<Rightarrow> u8 list" where
  "xor_key key p = map (\<lambda>j. p ! j XOR key ! (j mod 4)) [0..<length p]"

lemma length_xor_key [simp]: "length (xor_key key p) = length p"
  by (simp add: xor_key_def)

lemma apply_mask_eq:
  assumes "n \<le> length p"
  shows "apply_mask n key p = xor_key key (take n p) @ drop n p"
proof (rule nth_equalityI)
  let ?t = "n - n mod 4"
  have t: "?t mod 4 = 0" "?t \<le> n" by presburger+
  fix j assume j: "j < length (apply_mask n key p)"
  then have "apply_mask n key p ! j = (if j < n then p ! j XOR key ! (j mod 4) else p ! j)"
    using t assms by (auto simp: apply_mask_def Let_def mask_rest_nth mask_words_nth)
  then show "apply_mask n key p ! j = (xor_key key (take n p) @ drop n p) ! j"
    using j assms by (simp add: xor_key_def nth_append apply_mask_def Let_def)
qed (use assms in \<open>simp add: apply_mask_def Let_def\<close>)

lemma xor_key_twice [simp]: "xor_key key (xor_key key p) = p"
  by (rule nth_equalityI) (simp_all add: xor_key_def xor.assoc)

section \<open>What a frame is\<close>

text \<open>The abstract decoder of RFC 6455: the length of the header at the front of the bytes, the
  declared length of the payload, and the whole frame with its unmasked payload.\<close>

definition ws_header_len :: "u8 list \<Rightarrow> nat option" where
  "ws_header_len bs =
     (if length bs < 2 then None
      else (let l = hdr_payload_len (bs ! 1);
                n = 2 + (if l = 127 then 8 else if l = 126 then 2 else 0) + (if hdr_mask (bs ! 1) then 4 else 0)
            in if length bs < n then None else Some n))"

definition ws_payload_len :: "u8 list \<Rightarrow> nat" where
  "ws_payload_len bs =
     (let l = hdr_payload_len (bs ! 1)
      in if l = 127 then unat (Get8Bytes bs 2) else if l = 126 then unat (Get2Bytes bs 2) else unat l)"

definition ws_key :: "u8 list \<Rightarrow> nat \<Rightarrow> u8 list" where
  "ws_key bs n = take 4 (drop (n - 4) bs)"

definition ws_decode :: "u8 list \<Rightarrow> (bool \<times> u8 \<times> u8 list \<times> u8 list) option" where
  "ws_decode bs =
     (case ws_header_len bs of
        None \<Rightarrow> None
      | Some n \<Rightarrow>
          (let l = ws_payload_len bs; body = take l (drop n bs)
           in if length bs < n + l then None
              else Some (hdr_fin (bs ! 0), hdr_opcode (bs ! 0),
                if hdr_mask (bs ! 1) then xor_key (ws_key bs n) body else body, drop (n + l) bs)))"

section \<open>Parsing refines decoding\<close>

lemma take_bit_byte: "8 \<le> n \<Longrightarrow> take_bit n (ucast (b :: u8) :: u64) = ucast b"
  by (rule bit_word_eqI) (auto simp: bit_simps dest: bit_imp_le_length)

lemma ucast_byte: "ucast (ucast (b :: u8) :: u32) = (ucast b :: u64)"
  by (rule bit_word_eqI) (auto simp: bit_simps dest: bit_imp_le_length)

lemma ext_len64_eq: "ext_len64 p = sint (Get8Bytes p 2)"
proof -
  have "(push_bit 56 (ucast (p ! 2)) OR push_bit 48 (ucast (p ! 3)) OR push_bit 40 (ucast (p ! 4))
       OR push_bit 32 (ucast (p ! 5)) OR push_bit 24 (ucast (p ! 6)) OR push_bit 16 (ucast (p ! 7))
       OR push_bit 8 (ucast (p ! 8)) OR ucast (p ! 9)) = Get8Bytes p 2"
    unfolding Get8Bytes_def Get4Bytes_def
    by (simp add: unsigned_or_eq unsigned_push_bit_eq take_bit_push_bit push_bit_or take_bit_byte ucast_byte or.assoc or.commute or.left_commute)
  then show ?thesis by (simp only: ext_len64_def)
qed

lemma sint_small64: "0 \<le> k \<Longrightarrow> k < 2 ^ 63 \<Longrightarrow> sint (word_of_int k :: u64) = k"
  by (simp add: signed_of_int signed_take_bit_int_eq_self)

lemma sint_unat64: "unat (w :: u64) < 2 ^ 63 \<Longrightarrow> sint w = int (unat w)"
proof -
  assume "unat w < 2 ^ 63"
  then have "int (unat w) < 2 ^ 63" by (metis of_nat_less_numeral_power_cancel_iff)
  then have "sint (word_of_int (int (unat w)) :: u64) = int (unat w)" by (intro sint_small64) simp_all
  moreover have "word_of_int (int (unat w)) = w" by simp
  ultimately show ?thesis by metis
qed

lemma ext_len16_eq: "ext_len16 p = int (unat (Get2Bytes p 2))"
  by (simp add: ext_len16_def Get2Bytes_def or.commute)

lemma Data_nth: "db_inv b \<Longrightarrow> i < length (db_contents b) \<Longrightarrow> DataBuffer_Data b ! i = db_contents b ! i"
  by (metis Data_contents nth_take)

text \<open>The header fields of a frame are those of the bytes in its buffer.\<close>

definition header_of :: "WebSocketFrame \<Rightarrow> u8 list \<Rightarrow> nat \<Rightarrow> bool" where
  "header_of f bs n \<longleftrightarrow> ws_header_len bs = Some n \<and> wf_payload_start f = int n
     \<and> wf_payload_len f = int (ws_payload_len bs) \<and> wf_fin f = hdr_fin (bs ! 0)
     \<and> wf_opcode f = hdr_opcode (bs ! 0) \<and> wf_mask_enable f = hdr_mask (bs ! 1)
     \<and> (hdr_mask (bs ! 1) \<longrightarrow> wf_masking_key f = ws_key bs n)"

definition frame_inv :: "WebSocketFrame \<Rightarrow> bool" where
  "frame_inv f \<longleftrightarrow> db_inv (wf_buffer f)
     \<and> (wf_header_ready f \<longrightarrow> (\<exists>n. header_of f (db_contents (wf_buffer f)) n))"

definition frame_contents :: "WebSocketFrame \<Rightarrow> u8 list" where
  "frame_contents f = db_contents (wf_buffer f)"

text \<open>The declared length of the payload, if it is known, does not use the sign bit.\<close>

definition ws_len_ok :: "u8 list \<Rightarrow> bool" where
  "ws_len_ok bs \<longleftrightarrow> (case ws_header_len bs of None \<Rightarrow> True | Some n \<Rightarrow> n + ws_payload_len bs < 2 ^ 63)"

lemma ws_header_len_bounds:
  "ws_header_len bs = Some n \<Longrightarrow> 2 \<le> n \<and> n \<le> 14 \<and> n \<le> length bs
     \<and> (hdr_payload_len (bs ! 1) = 127 \<longrightarrow> 10 \<le> n) \<and> (hdr_payload_len (bs ! 1) = 126 \<longrightarrow> 4 \<le> n)
     \<and> (hdr_mask (bs ! 1) \<longrightarrow> 6 \<le> n)"
  by (auto simp: ws_header_len_def Let_def split: if_splits)

lemma ws_header_append:
  assumes "ws_header_len bs = Some n"
  shows "ws_header_len (bs @ cs) = Some n" "ws_payload_len (bs @ cs) = ws_payload_len bs"
    "(bs @ cs) ! 0 = bs ! 0" "(bs @ cs) ! 1 = bs ! 1" "ws_key (bs @ cs) n = ws_key bs n \<or> \<not> hdr_mask (bs ! 1)"
proof -
  note b = ws_header_len_bounds [OF assms]
  show i: "(bs @ cs) ! 0 = bs ! 0" "(bs @ cs) ! 1 = bs ! 1"
    using b by (auto simp: nth_append)
  show "ws_header_len (bs @ cs) = Some n"
    using assms b unfolding ws_header_len_def i by (auto simp: Let_def split: if_splits)
  show "ws_payload_len (bs @ cs) = ws_payload_len bs"
    using b be64.get_append [of 2 bs cs] be16.get_append [of 2 bs cs]
    unfolding ws_payload_len_def i by (auto simp: Let_def)
  show "ws_key (bs @ cs) n = ws_key bs n \<or> \<not> hdr_mask (bs ! 1)"
    using b by (auto simp: ws_key_def)
qed

lemma header_of_append: "header_of f bs n \<Longrightarrow> header_of f (bs @ cs) n"
  using ws_header_append [of bs n cs] by (auto simp: header_of_def)

lemma take_four:
  assumes "k + 4 \<le> length xs"
  shows "take 4 (drop k xs) = map (\<lambda>i. xs ! (k + i)) [0, 1, 2, 3]"
proof (rule nth_equalityI)
  fix i assume "i < length (take 4 (drop k xs))"
  then have "i = 0 \<or> i = 1 \<or> i = 2 \<or> i = 3" by simp linarith
  then show "take 4 (drop k xs) ! i = map (\<lambda>i. xs ! (k + i)) [0, 1, 2, 3] ! i"
    using assms by auto
qed (use assms in simp)

lemma ws_key_at:
  "h + 4 \<le> length bs \<Longrightarrow> (\<And>i. i < length bs \<Longrightarrow> p ! i = bs ! i)
    \<Longrightarrow> map (\<lambda>i. p ! (nat (int h) + i)) [0, 1, 2, 3] = ws_key bs (h + 4)"
  by (simp add: ws_key_def take_four)

lemma frame_header_works:
  assumes b: "db_inv (wf_buffer f)" and bs: "bs = db_contents (wf_buffer f)" and two: "2 \<le> length bs"
    and new: "\<not> wf_header_ready f" and ok: "ws_len_ok bs"
  shows "case ws_header_len bs of
      None \<Rightarrow> \<exists>f1. frame_header f = (False, f1) \<and> wf_buffer f1 = wf_buffer f \<and> \<not> wf_header_ready f1
    | Some n \<Rightarrow> \<exists>f1. frame_header f = (True, f1) \<and> wf_buffer f1 = wf_buffer f \<and> wf_header_ready f1
        \<and> header_of f1 bs n"
proof -
  define p where "p = DataBuffer_Data (wf_buffer f)"
  have p: "p ! i = bs ! i" if "i < length bs" for i using Data_nth [OF b, of i] that by (simp add: p_def bs)
  have n: "DataLen (wf_buffer f) = length bs" using DataLen_contents [OF b] by (simp add: bs)
  have len: "length bs < 2 ^ 31" using b unfolding bs by (elim db_inv_cursors) simp
  have p01: "p ! 0 = bs ! 0" "p ! 1 = bs ! 1" by (rule p, use two in linarith)+
  have g8: "Get8Bytes p 2 = Get8Bytes bs 2" if "10 \<le> length bs"
    using that by (simp add: Get8Bytes_def Get4Bytes_def p)
  have g2: "Get2Bytes p 2 = Get2Bytes bs 2" if "4 \<le> length bs"
    using that by (simp add: Get2Bytes_def p)
  let ?l = "hdr_payload_len (bs ! 1)"
  let ?h = "2 + (if ?l = 127 then 8 else if ?l = 126 then 2 else 0) :: nat"
  let ?m = "if hdr_mask (bs ! 1) then 4 else 0 :: nat"
  have hl: "ws_header_len bs = (if length bs < ?h + ?m then None else Some (?h + ?m))"
    using two by (simp add: ws_header_len_def Let_def)
  show ?thesis
  proof (cases "length bs < ?h")
    case True
    then have "ws_header_len bs = None" by (simp add: hl)
    moreover have "\<exists>f1. frame_header f = (False, f1) \<and> wf_buffer f1 = wf_buffer f \<and> \<not> wf_header_ready f1"
      using True new two unfolding frame_header_def frame_lengths_def Let_def p_def [symmetric] p01 n
      by (auto simp: Let_def split: if_splits)
    ultimately show ?thesis by simp
  next
    case False
    define f1 where "f1 = snd (frame_lengths f)"
    have e16: "ext_len16 p = int (unat (Get2Bytes bs 2))" if "?l = 126"
      using False that by (simp add: ext_len16_eq g2)
    have f1: "frame_lengths f = (True, f1)" "wf_buffer f1 = wf_buffer f" "wf_payload_start f1 = int ?h"
      "wf_fin f1 = hdr_fin (bs ! 0)" "wf_opcode f1 = hdr_opcode (bs ! 0)" "wf_header_ready f1 = False"
      "wf_payload_len f1 = (if ?l = 127 then ext_len64 p else int (ws_payload_len bs))"
      using False new e16 unfolding f1_def frame_lengths_def Let_def p_def [symmetric] p01 n
      by (auto simp: Let_def ws_payload_len_def)
    have fh: "frame_header f = frame_key f1" using new f1(1) by (simp add: frame_header_def)
    show ?thesis
    proof (cases "length bs < ?h + ?m")
      case short: True
      then have m: "hdr_mask (bs ! 1)" using False by (auto split: if_splits)
      have "to_int32 (int (length bs)) < int ?h + 4" using short m len by (auto simp: to_int32_small split: if_splits)
      then have "\<exists>f2. frame_key f1 = (False, f2) \<and> wf_buffer f2 = wf_buffer f \<and> \<not> wf_header_ready f2"
        unfolding frame_key_def Let_def f1(2,3) p_def [symmetric] p01 n using m f1(6)
        by (simp add: f1(2) del: of_nat_add)
      then show ?thesis using short by (simp add: hl fh)
    next
      case full: False
      then have some: "ws_header_len bs = Some (?h + ?m)" by (simp add: hl)
      have "?h + ?m + ws_payload_len bs < 2 ^ 63" using ok unfolding ws_len_ok_def some by simp
      then have plen: "wf_payload_len f1 = int (ws_payload_len bs)"
        using f1(7) False by (auto simp: ws_payload_len_def Let_def ext_len64_eq g8 sint_unat64)
      have "\<not> to_int32 (int (length bs)) < int ?h + 4" if "hdr_mask (bs ! 1)"
        using full that len by (auto simp: to_int32_small split: if_splits)
      moreover have "map (\<lambda>i. p ! (nat (int ?h) + i)) [0, 1, 2, 3] = ws_key bs (?h + ?m)" if "hdr_mask (bs ! 1)"
        using full that ws_key_at [of ?h bs p, OF _ p] by (simp only: if_True not_less)
      ultimately have "\<exists>f2. frame_key f1 = (True, f2) \<and> wf_buffer f2 = wf_buffer f \<and> wf_header_ready f2
          \<and> header_of f2 bs (?h + ?m)"
        unfolding frame_key_def Let_def f1(2,3) p_def [symmetric] p01 n header_of_def
        using f1 some plen by (auto simp del: of_nat_add)
      then show ?thesis by (simp add: some fh)
    qed
  qed
qed

text \<open>Unmasking changes the payload only.\<close>

lemma frame_unmask_works:
  assumes b: "db_inv (wf_buffer f)" and bs: "bs = db_contents (wf_buffer f)"
    and start: "wf_payload_start f = int n" "wf_payload_len f = int l" "n + l \<le> length bs"
  shows "\<exists>f1. frame_unmask f = Some f1 \<and> db_inv (wf_buffer f1)
    \<and> db_contents (wf_buffer f1) = take n bs @ xor_key (wf_masking_key f) (take l (drop n bs)) @ drop (n + l) bs
    \<and> f1 = f\<lparr>wf_buffer := wf_buffer f1\<rparr>"
  using b
proof (rule db_inv_cursors)
  let ?b = "wf_buffer f" let ?B = "db_buffer ?b"
  fix s d
  assume c: "db_start ?b = int s" "db_data_len ?b = int d" "db_end ?b = int (s + d)" "s + d \<le> length ?B"
    "db_contents ?b = take d (drop s ?B)" "length (db_contents ?b) = d" "int s + int d < 2 ^ 31"
  have len: "n + l \<le> d" using start(3) c(6) by (simp add: bs)
  have sz: "to_size (int l) = l" using len c by (simp add: to_size_small)
  let ?p = "drop (s + n) ?B"
  have room: "l \<le> length ?p" using len c by simp
  let ?x = "xor_key (wf_masking_key f) (take l ?p)"
  let ?B1 = "take (s + n) ?B @ ?x @ drop (s + n + l) ?B"
  have at: "nat (db_start ?b + wf_payload_start f) = s + n" by (simp add: c start nat_add_distrib)
  have "frame_unmask f = Some (f\<lparr>wf_buffer := ?b\<lparr>db_buffer := ?B1\<rparr>\<rparr>)"
    using room apply_mask_eq [OF room, of "wf_masking_key f"]
    unfolding frame_unmask_def Let_def at start(2) sz by (simp add: add.commute)
  moreover have "length ?B1 = length ?B" using len c by simp
  then have "db_inv (?b\<lparr>db_buffer := ?B1\<rparr>)" using b by (simp add: db_inv_def)
  moreover have "db_contents (?b\<lparr>db_buffer := ?B1\<rparr>)
      = take n bs @ xor_key (wf_masking_key f) (take l (drop n bs)) @ drop (n + l) bs"
  proof -
    have "drop s ?B1 = take n (drop s ?B) @ ?x @ drop (n + l) (drop s ?B)"
      using c by (simp add: drop_take ac_simps)
    moreover have "take l (drop n (take d (drop s ?B))) = take l ?p"
      using len by (simp add: take_drop add.commute)
    moreover have "take n (take d (drop s ?B)) = take n (drop s ?B)" using len by (simp add: min_def)
    moreover have "length (take n (drop s ?B)) = n" "length ?x = l" using len c by simp_all
    ultimately show ?thesis using len by (simp add: db_contents_def c bs drop_take)
  qed
  ultimately show ?thesis
    by (intro exI [of _ "f\<lparr>wf_buffer := ?b\<lparr>db_buffer := ?B1\<rparr>\<rparr>"]) simp
qed

text \<open>The payload of a parsed frame, and the frame when it is consumed.\<close>

definition payload_bytes :: "WebSocketFrame \<Rightarrow> u8 list" where
  "payload_bytes f = take (nat (GetPayloadLen f)) (GetPayloadData f)"

definition frame_done :: "WebSocketFrame \<Rightarrow> WebSocketFrame" where
  "frame_done f = frame_Reset (frame_Consume (GetPayloadStart f + GetPayloadLen f) f)"

text \<open>A frame in the buffer, with its payload in the clear.\<close>

definition frame_ready :: "WebSocketFrame \<Rightarrow> bool \<Rightarrow> u8 \<Rightarrow> u8 list \<Rightarrow> u8 list \<Rightarrow> bool" where
  "frame_ready f fin opcode payload rest \<longleftrightarrow> db_inv (wf_buffer f) \<and> GetFin f = fin \<and> GetOperCode f = opcode
     \<and> (\<exists>n head. length head = n \<and> 2 \<le> n \<and> GetPayloadStart f = int n \<and> GetPayloadLen f = int (length payload)
          \<and> frame_contents f = head @ payload @ rest)"

lemma frame_ready_payload:
  assumes "frame_ready f fin opcode payload rest"
  shows "payload_bytes f = payload" "PayloadIsReady f" "frame_inv (frame_done f)"
    "frame_contents (frame_done f) = rest" "GetPayloadLen f = int (length payload)"
    "length payload < 2 ^ 31" "length payload \<le> length (GetPayloadData f)"
proof -
  let ?b = "wf_buffer f"
  obtain head where h: "db_inv ?b" "GetPayloadStart f = int (length head)"
      "GetPayloadLen f = int (length payload)" "db_contents ?b = head @ payload @ rest"
    using assms by (auto simp: frame_ready_def frame_contents_def)
  obtain s l where c: "db_start ?b = int s" "db_data_len ?b = int l" "s + l \<le> length (db_buffer ?b)"
      "db_contents ?b = take l (drop s (db_buffer ?b))" "length (db_contents ?b) = l" "int s + int l < 2 ^ 31"
    using h(1) by (rule db_inv_cursors) blast
  have l: "l = length head + length payload + length rest" using c(5) h(4) by simp
  have data: "GetPayloadData f = drop (length head) (drop s (db_buffer ?b))"
    using h(2) c(1) by (simp add: GetPayloadData_def GetPayloadStart_def nat_add_distrib add.commute)
  have "take (length payload) (drop (length head) (take l (drop s (db_buffer ?b)))) = payload"
    unfolding c(4) [symmetric] h(4) by simp
  then show "payload_bytes f = payload"
    using l by (simp add: payload_bytes_def h(3) data drop_take min_def)
  show "GetPayloadLen f = int (length payload)" by (rule h(3))
  show "length payload < 2 ^ 31" using l c(6) by simp
  show "length payload \<le> length (GetPayloadData f)" using l c(3) by (simp add: data)
  have n: "DataLen ?b = l" using DataLen_contents [OF h(1)] c(5) by simp
  show "PayloadIsReady f"
    using h(2,3) l c(6) by (simp add: PayloadIsReady_def n to_int32_small GetPayloadStart_def GetPayloadLen_def)
  have "to_int32 (GetPayloadStart f + GetPayloadLen f) = int (length head + length payload)"
    using h(2,3) l c(6) by (simp add: to_int32_small)
  then have fd: "frame_done f = frame_Reset (f\<lparr>wf_buffer := snd (ConsumeData (int (length head + length payload)) ?b)\<rparr>)"
    by (simp add: frame_done_def frame_Consume_def)
  have fits: "length head + length payload \<le> length (db_contents ?b)" using h(4) by simp
  show "frame_inv (frame_done f)"
    using ConsumeData_works(1) [OF h(1) fits] by (simp add: fd frame_inv_def frame_Reset_def)
  show "frame_contents (frame_done f) = rest"
    using ConsumeData_works(2) [OF h(1) fits] h(4) by (simp add: fd frame_contents_def frame_Reset_def)
qed

lemma frame_inv_init: "frame_inv WebSocketFrame_init" "frame_contents WebSocketFrame_init = []"
  by (simp_all add: frame_inv_def frame_contents_def WebSocketFrame_init_def EXTRA_LEN_def db_inv_init db_contents_init)

lemma ws_decode_short: "length bs < 2 \<Longrightarrow> ws_decode bs = None"
  by (simp add: ws_decode_def ws_header_len_def)

lemma parse_buffered_works:
  assumes f: "frame_inv f" and bs: "frame_contents f = bs" and ok: "ws_len_ok bs"
  shows "case ws_decode bs of
      None \<Rightarrow> \<exists>f1. parse_buffered f = Some (1, f1) \<and> frame_inv f1 \<and> frame_contents f1 = bs
    | Some (fin, opcode, payload, rest) \<Rightarrow>
        \<exists>f1. parse_buffered f = Some (0, f1) \<and> frame_ready f1 fin opcode payload rest"
proof (cases "length bs < 2")
  case True
  have "DataLen (wf_buffer f) = length bs"
    using f bs by (simp add: frame_inv_def frame_contents_def DataLen_contents)
  then show ?thesis using True f bs by (simp add: ws_decode_short parse_buffered_def)
next
  case False
  have b: "db_inv (wf_buffer f)" "bs = db_contents (wf_buffer f)"
    using f bs by (simp_all add: frame_inv_def frame_contents_def)
  have n: "DataLen (wf_buffer f) = length bs" using DataLen_contents [OF b(1)] b(2) by simp
  have small: "int (length bs) < 2 ^ 31" using b(1) unfolding b(2) by (rule db_inv_cursors) simp
  have header: "case ws_header_len bs of
      None \<Rightarrow> \<exists>f1. frame_header f = (False, f1) \<and> wf_buffer f1 = wf_buffer f \<and> \<not> wf_header_ready f1
    | Some n \<Rightarrow> \<exists>f1. frame_header f = (True, f1) \<and> wf_buffer f1 = wf_buffer f \<and> wf_header_ready f1
        \<and> header_of f1 bs n"
  proof (cases "wf_header_ready f")
    case True
    then obtain n where "header_of f bs n" using f b(2) by (auto simp: frame_inv_def)
    moreover from this have "ws_header_len bs = Some n" by (simp add: header_of_def)
    ultimately show ?thesis using True by (simp add: frame_header_def)
  next
    case not_ready: False
    show ?thesis by (rule frame_header_works [OF b _ not_ready ok]) (use False in simp)
  qed
  show ?thesis
  proof (cases "ws_header_len bs")
    case None
    then obtain f1 where "frame_header f = (False, f1)" "wf_buffer f1 = wf_buffer f" "\<not> wf_header_ready f1"
      using header by auto
    then show ?thesis
      using None False n b by (simp add: ws_decode_def parse_buffered_def frame_inv_def frame_contents_def)
  next
    case (Some k)
    then obtain f1 where f1: "frame_header f = (True, f1)" "wf_buffer f1 = wf_buffer f" "wf_header_ready f1"
        "header_of f1 bs k" using header by auto
    let ?l = "ws_payload_len bs"
    have total: "wf_payload_start f1 + wf_payload_len f1 = int (k + ?l)" "k + ?l < 2 ^ 63"
      using f1(4) ok Some by (simp_all add: header_of_def ws_len_ok_def)
    then have i64: "int64_result (wf_payload_start f1 + wf_payload_len f1) = Some (int (k + ?l))"
      by (simp add: int64_result_def)
    have parse: "parse_buffered f = (if length bs < k + ?l then Some (1, f1)
        else if wf_mask_enable f1 then map_option (Pair 0) (frame_unmask f1) else Some (0, f1))"
      using False small by (simp add: parse_buffered_def n f1(1) i64 to_int32_small)
    have inv1: "frame_inv f1" using f1 b by (auto simp: frame_inv_def)
    have con1: "frame_contents f1 = bs" using f1 b by (simp add: frame_contents_def)
    show ?thesis
    proof (cases "length bs < k + ?l")
      case True
      then show ?thesis using Some inv1 con1 by (simp add: ws_decode_def parse)
    next
      case whole: False
      let ?body = "take ?l (drop k bs)" and ?rest = "drop (k + ?l) bs"
      let ?payload = "if hdr_mask (bs ! 1) then xor_key (ws_key bs k) ?body else ?body"
      have dec: "ws_decode bs = Some (hdr_fin (bs ! 0), hdr_opcode (bs ! 0), ?payload, ?rest)"
        using whole Some by (simp add: ws_decode_def Let_def)
      have k: "2 \<le> k" "k \<le> length bs" using ws_header_len_bounds [OF Some] by simp_all
      have fields: "wf_payload_start f1 = int k" "wf_payload_len f1 = int ?l" "wf_fin f1 = hdr_fin (bs ! 0)"
        "wf_opcode f1 = hdr_opcode (bs ! 0)" "wf_mask_enable f1 = hdr_mask (bs ! 1)"
        "hdr_mask (bs ! 1) \<Longrightarrow> wf_masking_key f1 = ws_key bs k"
        using f1(4) by (auto simp: header_of_def)
      have lens: "length (take k bs) = k" "length ?payload = ?l" using k whole by simp_all
      have bs_split: "bs = take k bs @ ?body @ ?rest"
        by (metis append_take_drop_id drop_drop add.commute)
      have "\<exists>f2. parse_buffered f = Some (0, f2) \<and> frame_ready f2 (hdr_fin (bs ! 0)) (hdr_opcode (bs ! 0)) ?payload ?rest"
      proof (cases "hdr_mask (bs ! 1)")
        case True
        obtain f2 where f2: "frame_unmask f1 = Some f2" "db_inv (wf_buffer f2)"
            "db_contents (wf_buffer f2) = take k bs @ xor_key (ws_key bs k) ?body @ ?rest"
            "f2 = f1\<lparr>wf_buffer := wf_buffer f2\<rparr>"
          using frame_unmask_works [of f1 bs k ?l] f1(2) b fields True whole by (auto simp: not_less)
        have same: "GetFin f2 = wf_fin f1" "GetOperCode f2 = wf_opcode f1" "GetPayloadStart f2 = wf_payload_start f1"
            "GetPayloadLen f2 = wf_payload_len f1"
          by (subst f2(4), simp add: GetFin_def GetOperCode_def GetPayloadStart_def GetPayloadLen_def)+
        have "frame_ready f2 (hdr_fin (bs ! 0)) (hdr_opcode (bs ! 0)) ?payload ?rest"
          using f2(2,3) lens k True fields
          by (auto simp: frame_ready_def same frame_contents_def intro!: exI [of _ "take k bs"])
        then show ?thesis using f2(1) whole True fields by (simp add: parse)
      next
        case False
        have "frame_ready f1 (hdr_fin (bs ! 0)) (hdr_opcode (bs ! 0)) ?payload ?rest"
          using inv1 con1 lens k False fields bs_split
          by (auto simp: frame_ready_def frame_inv_def GetFin_def GetOperCode_def GetPayloadStart_def
              GetPayloadLen_def intro!: exI [of _ "take k bs"])
        then show ?thesis using whole False fields by (simp add: parse)
      qed
      then show ?thesis by (simp add: dec)
    qed
  qed
qed

section \<open>Sent frames are decoded\<close>

lemma header_bits [simp]:
  "hdr_fin (header_byte0 fin opcode) = fin" "hdr_opcode (header_byte0 fin opcode) = opcode AND 0x0F"
  "hdr_mask (header_byte1 masked l) = masked" "hdr_payload_len (header_byte1 masked l) = l AND 0x7F"
proof -
  show "hdr_fin (header_byte0 fin opcode) = fin" "hdr_mask (header_byte1 masked l) = masked"
    by (simp_all add: hdr_fin_def hdr_mask_def header_byte0_def header_byte1_def bit_or_iff bit_and_iff)
  show "hdr_opcode (header_byte0 fin opcode) = opcode AND 0x0F"
    "hdr_payload_len (header_byte1 masked l) = l AND 0x7F"
    by (simp_all add: hdr_opcode_def hdr_payload_len_def header_byte0_def header_byte1_def
        bit.conj_disj_distrib2 and.assoc)
qed

lemma low_byte: "(ucast (x AND 0xFF :: u64) :: u8) = ucast x"
proof -
  have m: "(0xFF :: u64) = Bit_Operations.mask 8" by (simp add: mask_eq_exp_minus_1)
  show ?thesis unfolding m by (rule bit_word_eqI) (auto simp: bit_simps)
qed

lemma length_frame_header_bytes:
  "length (frame_header_bytes n op) = 2 + (if n \<ge> 126 then if n > 65535 then 8 else 2 else 0)"
  by (simp add: frame_header_bytes_def Let_def)

lemma header_len7:
  assumes "n < 126"
  shows "(of_nat n :: u8) AND 0x7F = of_nat n" "unat (of_nat n :: u8) = n"
    "(of_nat n :: u8) \<noteq> 126" "(of_nat n :: u8) \<noteq> 127"
proof -
  show u: "unat (of_nat n :: u8) = n" using assms by (simp add: unat_of_nat)
  have m: "(0x7F :: u8) = Bit_Operations.mask 7" by (simp add: mask_eq_exp_minus_1)
  show "(of_nat n :: u8) AND 0x7F = of_nat n"
    unfolding m take_bit_eq_mask [symmetric] using assms
    by (simp only: word_unat_eq_iff unsigned_take_bit_eq) (simp add: unat_of_nat take_bit_nat_eq_self)
  show "(of_nat n :: u8) \<noteq> 126" "(of_nat n :: u8) \<noteq> 127" using u assms by auto
qed

lemma sent_len64:
  assumes "65535 < n" "n < 2 ^ 63"
  shows "unat (Get8Bytes (frame_header_bytes n op @ bs) 2) = n"
proof -
  have "Get8Bytes (frame_header_bytes n op @ bs) 2 = (of_nat n :: u64)"
    using assms join64 [of "of_nat n"]
    by (simp add: Get8Bytes_def Get4Bytes_def frame_header_bytes_def Let_def low_byte)
  then show ?thesis using assms by (simp add: unat_of_nat)
qed

lemma sent_len16:
  assumes "126 \<le> n" "n \<le> 65535"
  shows "unat (Get2Bytes (frame_header_bytes n op @ bs) 2) = n"
proof -
  let ?v = "of_nat n :: u16"
  have 1: "(ucast (drop_bit 8 (of_nat n :: u64)) :: u8) = ucast (drop_bit 8 ?v)" "(ucast (of_nat n :: u64) :: u8) = ucast ?v"
    by (rule bit_word_eqI; auto simp: bit_simps)+
  have "Get2Bytes (frame_header_bytes n op @ bs) 2 = ?v"
    using assms join16 [of ?v] by (simp add: Get2Bytes_def frame_header_bytes_def Let_def low_byte 1)
  then show ?thesis using assms by (simp add: unat_of_nat)
qed

lemma sent_header:
  assumes "length key = 4" "n < 2 ^ 63"
  shows "ws_header_len (frame_header_bytes n op @ key @ bs) = Some (length (frame_header_bytes n op) + 4)"
    "ws_payload_len (frame_header_bytes n op @ key @ bs) = n"
    "(frame_header_bytes n op @ key @ bs) ! 0 = header_byte0 True op"
    "hdr_mask ((frame_header_bytes n op @ key @ bs) ! 1)"
proof -
  let ?bs = "frame_header_bytes n op @ key @ bs"
  let ?l = "if n \<ge> 126 then if n > 65535 then 127 else 126 else (of_nat n :: u8)"
  show "?bs ! 0 = header_byte0 True op" by (simp add: frame_header_bytes_def Let_def)
  have b1: "?bs ! 1 = header_byte1 True ?l" by (simp add: frame_header_bytes_def Let_def)
  then show "hdr_mask (?bs ! 1)" by (simp del: One_nat_def)
  have l: "hdr_payload_len (?bs ! 1) = ?l" unfolding b1 by (simp add: header_len7)
  have m: "hdr_mask (?bs ! 1)" unfolding b1 by simp
  show "ws_header_len ?bs = Some (length (frame_header_bytes n op) + 4)"
    using assms unfolding ws_header_len_def l Let_def
    by (simp add: length_frame_header_bytes header_len7 m [simplified])
  show "ws_payload_len ?bs = n"
    using sent_len64 [of n op "key @ bs"] sent_len16 [of n op "key @ bs"] assms header_len7 [of n]
    unfolding ws_payload_len_def l Let_def by (auto simp: not_le not_less)
qed

lemma sent_frame_decodes:
  assumes "length key = 4" "length data < 2 ^ 62"
  shows "ws_decode (SendWsFrame_bytes key op data @ rest) = Some (True, op AND 0x0F, data, rest)"
    "ws_len_ok (SendWsFrame_bytes key op data @ rest)"
proof -
  let ?h = "frame_header_bytes (length data) op"
  let ?bs = "?h @ key @ xor_key key data @ rest"
  have bs: "SendWsFrame_bytes key op data @ rest = ?bs"
    using apply_mask_eq [of "length data" data key] by (simp add: SendWsFrame_bytes_def)
  have n: "length data < 2 ^ 63" using assms by simp
  note h = sent_header [OF assms(1) n, of op "xor_key key data @ rest"]
  have k: "ws_key ?bs (length ?h + 4) = key" using assms by (simp add: ws_key_def)
  have "drop (length ?h + 4) ?bs = xor_key key data @ rest" using assms by simp
  moreover have "drop (length ?h + 4 + length data) ?bs = rest" using assms by simp
  moreover have "length ?bs = length ?h + 4 + length data + length rest" using assms by simp
  ultimately show "ws_decode (SendWsFrame_bytes key op data @ rest) = Some (True, op AND 0x0F, data, rest)"
    unfolding bs ws_decode_def h(1,2) option.case Let_def k using h(3,4) by (simp del: One_nat_def)
  show "ws_len_ok (SendWsFrame_bytes key op data @ rest)"
    unfolding bs ws_len_ok_def h(1,2) using assms(2) by (simp add: length_frame_header_bytes)
qed

lemma Parse_works:
  assumes f: "frame_inv f" and ok: "ws_len_ok (frame_contents f @ xs)"
    and len: "int (length (frame_contents f) + length xs) + 20 * 1024 < 2 ^ 31"
  shows "if db_moves (length xs) (wf_buffer f) \<and> db_overlap (wf_buffer f)
    then Parse (Some (xs @ ys)) (length xs) f = None
    else (case ws_decode (frame_contents f @ xs) of
        None \<Rightarrow> \<exists>f1. Parse (Some (xs @ ys)) (length xs) f = Some (1, f1) \<and> frame_inv f1
          \<and> frame_contents f1 = frame_contents f @ xs
      | Some (fin, opcode, payload, rest) \<Rightarrow>
          \<exists>f1. Parse (Some (xs @ ys)) (length xs) f = Some (0, f1) \<and> frame_ready f1 fin opcode payload rest)"
proof -
  let ?b = "wf_buffer f"
  have b: "db_inv ?b" using f by (simp add: frame_inv_def)
  note append = AppendData_works [OF b, of xs ys]
  show ?thesis
  proof (cases "xs = []")
    case True
    then have same: "Parse (Some (xs @ ys)) (length xs) f = parse_buffered f" "frame_contents f @ xs = frame_contents f"
        "\<not> db_moves (length xs) ?b"
      by (simp_all add: Parse_def db_moves_def)
    show ?thesis using parse_buffered_works [OF f refl] ok unfolding same by (simp add: same(3))
  next
    case False
    show ?thesis
    proof (cases "db_moves (length xs) ?b \<and> db_overlap ?b")
      case True
      then show ?thesis using append len False by (simp add: Parse_def frame_contents_def)
    next
      case fine: False
      then obtain b1 r where b1: "AppendData (Some (xs @ ys)) (length xs) ?b = Some (r, b1)" "db_inv b1"
          "db_contents b1 = db_contents ?b @ xs"
        using append len by (auto simp: frame_contents_def)
      let ?f = "f\<lparr>wf_buffer := b1\<rparr>"
      have "header_of ?f bs n = header_of f bs n" for bs n by (simp add: header_of_def)
      then have "frame_inv ?f" using f b1 by (auto simp: frame_inv_def dest: header_of_append [where cs = xs])
      moreover have con: "frame_contents ?f = frame_contents f @ xs" by (simp add: frame_contents_def b1)
      moreover have parse: "Parse (Some (xs @ ys)) (length xs) f = parse_buffered ?f" using False b1 by (simp add: Parse_def)
      ultimately show ?thesis
        unfolding if_not_P [OF fine] parse using parse_buffered_works [of ?f "frame_contents f @ xs"] ok by simp
    qed
  qed
qed

text \<open>Claim C10. \<^verbatim>\<open>Parse\<close> implements the decoding of RFC 6455 incrementally: whatever bytes are in the
  buffer and whatever arrives (with a declared length that leaves the sign bit free), it returns 1 and
  keeps the bytes while the frame at their front is incomplete, and otherwise returns 0 with the
  fields, the unmasked payload and the rest of the bytes behind it. The one exception is an append that
  copies between overlapping places. The bytes \<open>ys\<close> behind the given ones are not read.\<close>

theorem Parse_refines_decode:
  assumes "frame_inv f" "ws_len_ok (frame_contents f @ xs)"
    "int (length (frame_contents f) + length xs) + 20 * 1024 < 2 ^ 31"
  shows "if db_moves (length xs) (wf_buffer f) \<and> db_overlap (wf_buffer f)
    then Parse (Some (xs @ ys)) (length xs) f = None
    else (case ws_decode (frame_contents f @ xs) of
        None \<Rightarrow> \<exists>f1. Parse (Some (xs @ ys)) (length xs) f = Some (1, f1) \<and> frame_inv f1
          \<and> frame_contents f1 = frame_contents f @ xs
      | Some (fin, opcode, payload, rest) \<Rightarrow> \<exists>f1. Parse (Some (xs @ ys)) (length xs) f = Some (0, f1)
          \<and> GetFin f1 = fin \<and> GetOperCode f1 = opcode \<and> payload_bytes f1 = payload \<and> PayloadIsReady f1
          \<and> frame_contents (frame_done f1) = rest \<and> frame_inv (frame_done f1))"
proof (cases "db_moves (length xs) (wf_buffer f) \<and> db_overlap (wf_buffer f)")
  case True
  then show ?thesis using Parse_works [OF assms, of ys] by simp
next
  case fine: False
  note works = Parse_works [OF assms, of ys, unfolded if_not_P [OF fine]]
  show ?thesis unfolding if_not_P [OF fine]
  proof (cases "ws_decode (frame_contents f @ xs)")
    case (Some x)
    obtain fin opcode payload rest where x: "x = (fin, opcode, payload, rest)" by (cases x)
    obtain f1 where f1: "Parse (Some (xs @ ys)) (length xs) f = Some (0, f1)" "frame_ready f1 fin opcode payload rest"
      using works Some x by auto
    then have "GetFin f1 = fin" "GetOperCode f1 = opcode" by (simp_all add: frame_ready_def)
    then show "case ws_decode (frame_contents f @ xs) of
        None \<Rightarrow> \<exists>f1. Parse (Some (xs @ ys)) (length xs) f = Some (1, f1) \<and> frame_inv f1
          \<and> frame_contents f1 = frame_contents f @ xs
      | Some (fin, opcode, payload, rest) \<Rightarrow> \<exists>f1. Parse (Some (xs @ ys)) (length xs) f = Some (0, f1)
          \<and> GetFin f1 = fin \<and> GetOperCode f1 = opcode \<and> payload_bytes f1 = payload \<and> PayloadIsReady f1
          \<and> frame_contents (frame_done f1) = rest \<and> frame_inv (frame_done f1)"
      using f1(1) frame_ready_payload [OF f1(2)] Some x by simp
  qed (use works in simp)
qed

text \<open>Frames given by their bytes are decoded by computing.\<close>

lemmas ws_eval = ws_decode_def ws_header_len_def ws_payload_len_def ws_key_def hdr_payload_len_def hdr_mask_def
  hdr_fin_def hdr_opcode_def Let_def

lemma Parse_refines_decode_witness:
  "\<exists>f1. Parse (Some [0x81, 1, 0x41, 0x88]) 4 WebSocketFrame_init = Some (0, f1) \<and> GetFin f1
    \<and> GetOperCode f1 = WS_OP_TEXT_TYPE \<and> payload_bytes f1 = [0x41] \<and> frame_contents (frame_done f1) = [0x88]"
proof -
  have "ws_decode [0x81, 1, 0x41, 0x88] = Some (True, WS_OP_TEXT_TYPE, [0x41], [0x88])"
    by (simp add: ws_eval ws_op_defs)
  moreover have "ws_len_ok [0x81, 1, 0x41, 0x88]" by (simp add: ws_len_ok_def ws_eval)
  moreover have "\<not> db_overlap (wf_buffer WebSocketFrame_init)"
    by (simp add: db_overlap_def WebSocketFrame_init_def DataBuffer_init_def)
  moreover have n: "length [0x81, 1, 0x41, 0x88 :: u8] = 4" by simp
  ultimately show ?thesis
    using Parse_refines_decode [OF frame_inv_init(1), of "[0x81, 1, 0x41, 0x88]" "[]"]
    unfolding frame_inv_init(2) append_Nil append_Nil2 n by auto
qed

text \<open>A frame that the client sends is decoded by its peer: parsing the bytes of
  \<^verbatim>\<open>SendWsFrame\<close>, whatever the masking key and whatever follows them, gives the opcode and the bytes
  that were sent, and leaves what follows.\<close>

lemma sent_frame_is_parsed:
  assumes "length key = 4" "op AND 0x0F = op"
    "int (length (SendWsFrame_bytes key op data @ rest)) + 20 * 1024 < 2 ^ 31"
  defines "bs \<equiv> SendWsFrame_bytes key op data @ rest"
  shows "\<exists>f. Parse (Some bs) (length bs) WebSocketFrame_init = Some (0, f) \<and> GetFin f \<and> GetOperCode f = op
    \<and> payload_bytes f = data \<and> frame_contents (frame_done f) = rest"
proof -
  let ?f = WebSocketFrame_init
  have "length data \<le> length bs"
    by (simp add: bs_def SendWsFrame_bytes_def apply_mask_def Let_def)
  then have "length data < 2 ^ 62" using assms(3) unfolding bs_def by simp
  note dec = sent_frame_decodes [OF assms(1) this, of op rest, folded bs_def]
  have "\<not> db_overlap (wf_buffer ?f)" by (simp add: db_overlap_def WebSocketFrame_init_def DataBuffer_init_def)
  then have "\<not> (db_moves (length bs) (wf_buffer ?f) \<and> db_overlap (wf_buffer ?f))" by simp
  note works = Parse_works [OF frame_inv_init(1), of bs "[]", unfolded if_not_P [OF this] frame_inv_init(2) append_Nil append_Nil2 dec(1)]
  have "int (length ([] :: u8 list) + length bs) + 20 * 1024 < 2 ^ 31" using assms(3) by (simp add: bs_def)
  then obtain f where f: "Parse (Some bs) (length bs) ?f = Some (0, f)" "frame_ready f True (op AND 0x0F) data rest"
    using works dec(2) by auto
  then have "GetFin f" "GetOperCode f = op" using assms(2) by (simp_all add: frame_ready_def)
  then show ?thesis using f(1) frame_ready_payload [OF f(2)] by blast
qed

text \<open>A length with the top bit set is taken for a negative one, and the frame for complete.\<close>

lemma Parse_negative:
  assumes "length bs = 10" "hdr_payload_len (bs ! 1) = 127" "\<not> hdr_mask (bs ! 1)" "bit (Get8Bytes bs 2) 63"
  shows "\<exists>f. Parse (Some (bs @ ys)) 10 WebSocketFrame_init = Some (0, f) \<and> GetPayloadLen f = sint (Get8Bytes bs 2)
    \<and> GetPayloadLen f < 0 \<and> PayloadIsReady f = (to_int32 (GetPayloadLen f) \<le> 0)
    \<and> db_inv (wf_buffer f)"
proof -
  let ?f = WebSocketFrame_init and ?w = "Get8Bytes bs 2"
  have inv: "db_inv (wf_buffer ?f)" "db_contents (wf_buffer ?f) = []"
    using frame_inv_init by (simp_all add: frame_inv_def frame_contents_def)
  have "\<not> db_overlap (wf_buffer ?f)" by (simp add: db_overlap_def WebSocketFrame_init_def DataBuffer_init_def)
  then obtain r b where b: "AppendData (Some (bs @ ys)) 10 (wf_buffer ?f) = Some (r, b)" "db_inv b" "db_contents b = bs"
    using AppendData_works [OF inv(1), of bs ys] assms(1) inv(2) by auto
  have n: "DataLen b = 10" using DataLen_contents [OF b(2)] b(3) assms(1) by simp
  define p where "p = DataBuffer_Data b"
  have p: "p ! i = bs ! i" if "i < 10" for i using Data_nth [OF b(2), of i] b(3) assms(1) that by (simp add: p_def)
  have p1: "p ! 1 = bs ! 1" by (rule p) simp
  have e: "ext_len64 p = sint ?w" by (simp add: ext_len64_eq Get8Bytes_def Get4Bytes_def p)
  have neg: "sint ?w < 0" "- (2 ^ 63) \<le> sint ?w"
    using assms(4) sint_ge [of ?w] by (simp_all add: bit_last_iff [symmetric])
  let ?g = "?f\<lparr>wf_buffer := b\<rparr>"
  obtain f1 where f1: "frame_header ?g = (True, f1)" "wf_buffer f1 = b" "wf_payload_len f1 = sint ?w"
      "wf_payload_start f1 = 10" "\<not> wf_mask_enable f1"
    using assms(2,3) p1 n
    by (simp add: frame_header_def frame_lengths_def frame_key_def Let_def p_def [symmetric] e WebSocketFrame_init_def)
  have "int64_result (wf_payload_start f1 + wf_payload_len f1) = Some (10 + sint ?w)"
    using neg by (simp add: f1 int64_result_def)
  then have "Parse (Some (bs @ ys)) 10 ?f = Some (0, f1)"
    using neg f1 n b(1) by (simp add: Parse_def parse_buffered_def to_int32_def)
  then show ?thesis
    using neg f1 n b(2) by (simp add: GetPayloadLen_def PayloadIsReady_def to_int32_def)
qed

end
