(* ===== verification/Ws_Session.thy ===== *)
theory Ws_Session
  imports Ws_Frame
begin

text \<open>
  The session of the WebSocket library: \<^verbatim>\<open>WebSocketSessionBase\<close> (\<^verbatim>\<open>ws_session_base.cpp\<close>), which takes
  the received bytes apart and acts on each frame, with the virtual functions of its one subclass
  \<^verbatim>\<open>WebSocketClient\<close> (\<^verbatim>\<open>websocket_client.cpp\<close>). What leaves the session is a list of events: frames
  given to \<^verbatim>\<open>SendWsFrame\<close> (opcode and payload; the call is \<^term>\<open>SendWsFrame\<close> with four random bytes, and
  undefined for an empty payload), calls of the callback \<^verbatim>\<open>conn_cb_\<close>, which is not null, and the closing of the socket. A text is
  the list of its bytes, the clock an argument.
\<close>

section \<open>State and operations\<close>

datatype ws_event = EvSend u8 "u8 list" | EvText int "u8 list" | EvData int "u8 list"
  | EvConnected | EvClosed int string | EvTcpClose

record WsSession =
  wss_frame :: WebSocketFrame
  wss_recv :: "DataBuffer list"
  wss_last_op_code :: u8
  wss_die_count :: int
  wss_last_recv_pong_ms :: int
  wss_last_send_ping_ms :: int
  wss_is_connected :: bool
  wss_close :: bool

definition WsSession_init :: WsSession where
  "WsSession_init =
     \<lparr>wss_frame = WebSocketFrame_init, wss_recv = [], wss_last_op_code = 1, wss_die_count = 0,
      wss_last_recv_pong_ms = -1, wss_last_send_ping_ms = -1, wss_is_connected = False, wss_close = False\<rparr>"

definition text_bytes :: "string \<Rightarrow> u8 list" where
  "text_bytes s = map of_char s"

definition AsyncWriteText :: "u8 list \<Rightarrow> ws_event list" where
  "AsyncWriteText text = [EvSend WS_OP_TEXT_TYPE text]"

definition AsyncWriteData :: "u8 list \<Rightarrow> ws_event list" where
  "AsyncWriteData data = [EvSend WS_OP_BIN_TYPE data]"

text \<open>The code of a close is not part of what is sent.\<close>

definition SendClose :: "u16 \<Rightarrow> string \<Rightarrow> ws_event list" where
  "SendClose code reason = [EvSend WS_OP_CLOSE_TYPE (text_bytes reason)]"

definition SendPingFrame :: "int \<Rightarrow> ws_event list" where
  "SendPingFrame now_ms =
     (let now_sec = (of_int (now_ms div 1000) :: u32)
      in [EvSend WS_OP_PING_TYPE (map (\<lambda>k. ucast (drop_bit k now_sec)) [24, 16, 8, 0])])"

definition HandleWsData :: "u8 list \<Rightarrow> u8 \<Rightarrow> ws_event list" where
  "HandleWsData data op_code =
     (if op_code = WS_OP_TEXT_TYPE then [EvText 0 data]
      else if op_code = WS_OP_BIN_TYPE then [EvData 0 data] else [])"

definition close_reply :: "u8 list \<Rightarrow> ws_event list" where
  "close_reply data =
     (if length data \<le> 1 then SendClose 1002 ''Incomplete close code''
      else (let code = (push_bit 8 (ucast (data ! 0)) OR ucast (data ! 1) :: u16)
            in if code < 1000 \<or> code \<ge> 5000 \<or> code \<in> {1004, 1005, 1006, 1015}
               then SendClose 1002 ''Invalid close code'' else [EvSend WS_OP_CLOSE_TYPE data]))"

definition HandleWsClose :: "u8 list \<Rightarrow> WsSession \<Rightarrow> ws_event list \<times> WsSession" where
  "HandleWsClose data st =
     (if wss_close st then ([], st)
      else (close_reply data @ [EvClosed 0 ''close'', EvTcpClose],
            st\<lparr>wss_close := True, wss_is_connected := False\<rparr>))"

fun handle_closes :: "u8 list list \<Rightarrow> WsSession \<Rightarrow> ws_event list \<times> WsSession" where
  "handle_closes [] st = ([], st)"
| "handle_closes (d # ds) st =
     (let (ev, st1) = HandleWsClose d st; (ev', st2) = handle_closes ds st1 in (ev @ ev', st2))"

text \<open>The bytes of a buffer by \<^verbatim>\<open>Data()\<close> and \<^verbatim>\<open>DataLen()\<close>, and the buffer for a received payload:
  \<^verbatim>\<open>new\<close> throws for a size that no allocation can have.\<close>

definition item_bytes :: "DataBuffer \<Rightarrow> u8 list" where
  "item_bytes b = take (DataLen b) (DataBuffer_Data b)"

definition DataBuffer_new :: "int \<Rightarrow> DataBuffer option" where
  "DataBuffer_new data_size =
     (if to_size data_size + 200 \<ge> 2 ^ 63 then None else Some (DataBuffer_init (to_size data_size)))"

definition HandleWsPing :: "WsSession \<Rightarrow> ws_event list" where
  "HandleWsPing st = map (\<lambda>item. EvSend WS_OP_PONG_TYPE (item_bytes item)) (wss_recv st)"

text \<open>The switch on the opcode of a frame that ends a message.\<close>

definition ws_dispatch :: "int \<Rightarrow> u8 \<Rightarrow> WsSession \<Rightarrow> ws_event list \<times> WsSession" where
  "ws_dispatch now op st =
     (let items = map item_bytes (wss_recv st)
      in if op = WS_OP_PING_TYPE then (HandleWsPing st, st)
         else if op = WS_OP_PONG_TYPE then ([], st\<lparr>wss_last_recv_pong_ms := now\<rparr>)
         else if op = WS_OP_CLOSE_TYPE then handle_closes items st
         else if op = WS_OP_CONTINUE_TYPE
         then (concat (map (\<lambda>d. HandleWsData d (wss_last_op_code st)) items), st)
         else if op = WS_OP_TEXT_TYPE \<or> op = WS_OP_BIN_TYPE
         then (concat (map (\<lambda>d. HandleWsData d op) items), st)
         else ([], st))"

text \<open>One round of the loop of \<^verbatim>\<open>HandleFrame\<close> after \<^verbatim>\<open>Parse\<close> returned 0; false where it returns 1.\<close>

definition handle_parsed :: "int \<Rightarrow> WsSession \<Rightarrow> (bool \<times> ws_event list \<times> WsSession) option" where
  "handle_parsed now st =
     (let f = wss_frame st; op = GetOperCode f;
          st1 = (if op = WS_OP_TEXT_TYPE \<or> op = WS_OP_BIN_TYPE then st\<lparr>wss_last_op_code := op\<rparr> else st)
      in if \<not> PayloadIsReady f then Some (False, [], st1)
         else do {
           b0 \<leftarrow> DataBuffer_new (GetPayloadLen f + 1024);
           (_, b) \<leftarrow> AppendData (Some (GetPayloadData f)) (to_size (GetPayloadLen f)) b0;
           (let st2 = st1\<lparr>wss_recv := wss_recv st1 @ [b],
                  wss_frame := frame_Reset (frame_Consume (GetPayloadStart f + GetPayloadLen f) f)\<rparr>
            in if \<not> GetFin f then Some (True, [], st2)
               else (case ws_dispatch now op (st2\<lparr>wss_die_count := 0\<rparr>) of
                   (ev, st3) \<Rightarrow> Some (True, ev, st3\<lparr>wss_recv := []\<rparr>))) })"

partial_function (option) handle_loop ::
  "int \<Rightarrow> u8 list option \<Rightarrow> nat \<Rightarrow> WsSession \<Rightarrow> (int \<times> ws_event list \<times> WsSession) option" where
  "handle_loop now data len st = do {
     (ret, f) \<leftarrow> Parse data len (wss_frame st);
     if ret \<noteq> 0 then Some (ret, [], st\<lparr>wss_frame := f\<rparr>)
     else do {
       (ready, ev, st2) \<leftarrow> handle_parsed now (st\<lparr>wss_frame := f\<rparr>);
       if \<not> ready then Some (1, ev, st2)
       else if GetBufferLen (wss_frame st2) > 0
       then do { (ret', ev', st3) \<leftarrow> handle_loop now None 0 st2; Some (ret', ev @ ev', st3) }
       else Some (0, ev, st2) } }"

definition HandleFrame :: "int \<Rightarrow> DataBuffer \<Rightarrow> WsSession \<Rightarrow> (int \<times> ws_event list \<times> WsSession) option" where
  "HandleFrame now data st = handle_loop now (Some (DataBuffer_Data data)) (DataLen data) st"

text \<open>\<^verbatim>\<open>WebSocketClient::OnTimer\<close>, every 200 ms.\<close>

definition kWebSocketPongTimeout :: int where "kWebSocketPongTimeout = 15 * 1000"

definition client_OnTimer :: "int \<Rightarrow> WsSession \<Rightarrow> ws_event list \<times> WsSession" where
  "client_OnTimer now_ms st =
     (if \<not> wss_is_connected st then ([], st)
      else
        (let (ev, st1) = (if now_ms - wss_last_send_ping_ms st > 2000
                          then (SendPingFrame now_ms, st\<lparr>wss_last_send_ping_ms := now_ms\<rparr>) else ([], st))
         in if wss_last_recv_pong_ms st1 \<le> 0 then (ev, st1\<lparr>wss_last_recv_pong_ms := now_ms\<rparr>)
            else if now_ms - wss_last_recv_pong_ms st1 > kWebSocketPongTimeout
            then (ev @ [EvTcpClose, EvClosed (-1) ''ping/pong timeout''], st1\<lparr>wss_is_connected := False\<rparr>)
            else (ev, st1)))"

section \<open>What a session does with a stream of frames\<close>

text \<open>The frames of a stream and the bytes of the incomplete one behind them.\<close>

lemma ws_decode_rest: "ws_decode bs = Some (fin, op, payload, rest) \<Longrightarrow> length rest < length bs"
  using ws_header_len_bounds [of bs] by (auto simp: ws_decode_def Let_def split: option.splits if_splits)

function ws_stream :: "u8 list \<Rightarrow> (bool \<times> u8 \<times> u8 list) list \<times> u8 list" where
  "ws_stream bs =
     (case ws_decode bs of
        None \<Rightarrow> ([], bs)
      | Some (fin, op, payload, rest) \<Rightarrow>
          (let (fs, r) = ws_stream rest in ((fin, op, payload) # fs, r)))"
  by auto
termination by (relation "measure length") (auto dest: ws_decode_rest)

declare ws_stream.simps [simp del]

function stream_ok :: "u8 list \<Rightarrow> bool" where
  "stream_ok bs \<longleftrightarrow> ws_len_ok bs
     \<and> (case ws_decode bs of None \<Rightarrow> True | Some (fin, op, payload, rest) \<Rightarrow> stream_ok rest)"
  by auto
termination by (relation "measure length") (auto dest: ws_decode_rest)

declare stream_ok.simps [simp del]

text \<open>The session without its buffers, and what it does with one frame. The view leaves out the
  time of the last pong and that of the last ping.\<close>

record WsView =
  wv_parts :: "u8 list list"
  wv_last_op :: u8
  wv_die_count :: int
  wv_connected :: bool
  wv_close :: bool

definition ws_view :: "WsSession \<Rightarrow> WsView" where
  "ws_view st =
     \<lparr>wv_parts = map item_bytes (wss_recv st), wv_last_op = wss_last_op_code st, wv_die_count = wss_die_count st,
      wv_connected = wss_is_connected st, wv_close = wss_close st\<rparr>"

fun spec_closes :: "u8 list list \<Rightarrow> WsView \<Rightarrow> ws_event list \<times> WsView" where
  "spec_closes [] v = ([], v)"
| "spec_closes (d # ds) v =
     (if wv_close v then ([], v)
      else (close_reply d @ [EvClosed 0 ''close'', EvTcpClose], v\<lparr>wv_close := True, wv_connected := False\<rparr>))"

definition spec_message :: "u8 \<Rightarrow> WsView \<Rightarrow> ws_event list \<times> WsView" where
  "spec_message op v =
     (if op = WS_OP_PING_TYPE then (map (EvSend WS_OP_PONG_TYPE) (wv_parts v), v)
      else if op = WS_OP_CLOSE_TYPE then spec_closes (wv_parts v) v
      else if op = WS_OP_CONTINUE_TYPE then (concat (map (\<lambda>d. HandleWsData d (wv_last_op v)) (wv_parts v)), v)
      else if op = WS_OP_TEXT_TYPE \<or> op = WS_OP_BIN_TYPE
      then (concat (map (\<lambda>d. HandleWsData d op) (wv_parts v)), v)
      else ([], v))"

fun spec_frame :: "bool \<times> u8 \<times> u8 list \<Rightarrow> WsView \<Rightarrow> ws_event list \<times> WsView" where
  "spec_frame (fin, op, payload) v =
     (let v1 = v\<lparr>wv_parts := wv_parts v @ [payload],
                 wv_last_op := (if op = WS_OP_TEXT_TYPE \<or> op = WS_OP_BIN_TYPE then op else wv_last_op v)\<rparr>
      in if \<not> fin then ([], v1)
         else (let (ev, v2) = spec_message op (v1\<lparr>wv_die_count := 0\<rparr>) in (ev, v2\<lparr>wv_parts := []\<rparr>)))"

fun spec_frames :: "(bool \<times> u8 \<times> u8 list) list \<Rightarrow> WsView \<Rightarrow> ws_event list \<times> WsView" where
  "spec_frames [] v = ([], v)"
| "spec_frames (f # fs) v = (let (ev, v1) = spec_frame f v; (ev', v2) = spec_frames fs v1 in (ev @ ev', v2))"

text \<open>Whether all the calls of \<^verbatim>\<open>SendWsFrame\<close> are defined, which does not depend on the keys; and the
  frames for which one is not: those that end with a ping and have an empty part.\<close>

definition sends_defined :: "ws_event list \<Rightarrow> bool" where
  "sends_defined ev \<longleftrightarrow>
     list_all (\<lambda>e. case e of EvSend op data \<Rightarrow> SendWsFrame (replicate 4 0) op data \<noteq> None | _ \<Rightarrow> True) ev"

fun empty_pong :: "u8 list list \<Rightarrow> (bool \<times> u8 \<times> u8 list) list \<Rightarrow> bool" where
  "empty_pong parts [] \<longleftrightarrow> False"
| "empty_pong parts ((fin, op, payload) # fs) \<longleftrightarrow>
     (if fin then op = WS_OP_PING_TYPE \<and> [] \<in> set (parts @ [payload]) \<or> empty_pong [] fs
      else empty_pong (parts @ [payload]) fs)"

lemma sends_defined_Nil [simp]: "sends_defined []"
  by (simp add: sends_defined_def)

lemma sends_defined_append [simp]: "sends_defined (ev @ ev') \<longleftrightarrow> sends_defined ev \<and> sends_defined ev'"
  by (simp add: sends_defined_def)

lemma sends_defined_data: "sends_defined (concat (map (\<lambda>d. HandleWsData d op) ds))"
  by (induction ds) (auto simp: sends_defined_def HandleWsData_def)

lemma sends_defined_pongs: "sends_defined (map (EvSend op) ds) \<longleftrightarrow> [] \<notin> set ds"
  by (induction ds) (auto simp: sends_defined_def SendWsFrame_def)

lemma sends_defined_close: "sends_defined (fst (spec_closes ds v))"
  by (cases ds) (auto simp: sends_defined_def SendWsFrame_def close_reply_def SendClose_def text_bytes_def Let_def)

lemma spec_message_sends:
  "sends_defined (fst (spec_message op v)) \<longleftrightarrow> \<not> (op = WS_OP_PING_TYPE \<and> [] \<in> set (wv_parts v))"
  using sends_defined_close [of "wv_parts v" v] sends_defined_data sends_defined_pongs [of WS_OP_PONG_TYPE "wv_parts v"]
  unfolding spec_message_def by (auto simp: ws_op_defs)

lemma spec_frames_sends:
  "sends_defined (fst (spec_frames fs v)) \<longleftrightarrow> \<not> empty_pong (wv_parts v) fs"
proof (induction fs arbitrary: v)
  case Nil
  then show ?case by (simp add: sends_defined_def)
next
  case (Cons f fs)
  obtain fin op payload where f: "f = (fin, op, payload)" by (cases f)
  let ?v = "v\<lparr>wv_parts := wv_parts v @ [payload],
    wv_last_op := (if op = WS_OP_TEXT_TYPE \<or> op = WS_OP_BIN_TYPE then op else wv_last_op v)\<rparr>"
  show ?case
  proof (cases fin)
    case True
    then show ?thesis
      using Cons [of "(snd (spec_message op (?v\<lparr>wv_die_count := 0\<rparr>)))\<lparr>wv_parts := []\<rparr>"]
        spec_message_sends [of op "?v\<lparr>wv_die_count := 0\<rparr>"]
      by (simp add: f split_beta Let_def)
  next
    case False
    then show ?thesis using Cons [of ?v] by (simp add: f split_beta sends_defined_def)
  qed
qed

section \<open>The handler refines the frames\<close>

lemma handle_closes_closed: "wss_close st \<Longrightarrow> handle_closes ds st = ([], st)"
  by (induction ds) (simp_all add: HandleWsClose_def)

lemma handle_closes_view:
  assumes "handle_closes ds st = (ev, st')"
  shows "spec_closes ds (ws_view st) = (ev, ws_view st') \<and> wss_frame st' = wss_frame st"
proof (cases ds)
  case Nil
  then show ?thesis using assms by simp
next
  case (Cons d ds')
  then show ?thesis
    using assms by (cases "wss_close st") (auto simp: HandleWsClose_def handle_closes_closed ws_view_def)
qed

lemma ws_dispatch_view:
  assumes "ws_dispatch now op st = (ev, st')"
  shows "spec_message op (ws_view st) = (ev, ws_view st')" "wss_frame st' = wss_frame st"
proof -
  have "spec_message op (ws_view st) = (ev, ws_view st') \<and> wss_frame st' = wss_frame st"
  proof (cases "op = WS_OP_CLOSE_TYPE")
    case True
    then have "handle_closes (map item_bytes (wss_recv st)) st = (ev, st')"
      using assms by (simp add: ws_dispatch_def Let_def ws_op_defs)
    from handle_closes_view [OF this] show ?thesis
      using True by (simp add: spec_message_def ws_op_defs ws_view_def)
  next
    case False
    then show ?thesis
      using assms unfolding ws_dispatch_def spec_message_def Let_def
      by (auto simp: ws_view_def HandleWsPing_def ws_op_defs split: if_splits)
  qed
  then show "spec_message op (ws_view st) = (ev, ws_view st')" "wss_frame st' = wss_frame st" by simp_all
qed

lemma item_bytes_contents: "db_inv b \<Longrightarrow> item_bytes b = db_contents b"
  by (simp add: item_bytes_def DataLen_contents Data_contents)

lemma received_payload:
  assumes "frame_ready f fin op payload rest" "int (length payload) + 30 * 1024 < 2 ^ 31"
  shows "\<exists>b0 r b. DataBuffer_new (GetPayloadLen f + 1024) = Some b0
    \<and> AppendData (Some (GetPayloadData f)) (to_size (GetPayloadLen f)) b0 = Some (r, b) \<and> item_bytes b = payload"
proof -
  let ?n = "length payload"
  let ?b0 = "DataBuffer_init (?n + 1024)"
  note f = frame_ready_payload [OF assms(1)]
  have sz: "to_size (GetPayloadLen f + 1024) = ?n + 1024" "to_size (GetPayloadLen f) = ?n"
    using assms(2) by (simp_all add: f(5) to_size_small nat_add_distrib)
  then have new: "DataBuffer_new (GetPayloadLen f + 1024) = Some ?b0"
    using assms(2) by (simp add: DataBuffer_new_def)
  have inv: "db_inv ?b0" "db_contents ?b0 = []"
    using assms(2) by (simp_all add: db_inv_init db_contents_init)
  have "\<not> db_overlap ?b0" by (simp add: db_overlap_def DataBuffer_init_def)
  moreover have "GetPayloadData f = payload @ drop ?n (GetPayloadData f)"
    using f(1,5) unfolding payload_bytes_def by (metis append_take_drop_id nat_int)
  moreover have "int (length (db_contents ?b0) + ?n) + 20 * 1024 < 2 ^ 31" using assms(2) inv by simp
  ultimately obtain b r where "AppendData (Some (GetPayloadData f)) ?n ?b0 = Some (r, b)" "db_inv b"
      "db_contents b = payload"
    using AppendData_works [OF inv(1), of payload "drop ?n (GetPayloadData f)"] inv(2) by auto
  then show ?thesis using new sz by (simp add: item_bytes_contents)
qed

lemma handle_parsed_works:
  assumes f: "frame_ready (wss_frame st) fin op payload rest" and n: "int (length payload) + 30 * 1024 < 2 ^ 31"
  shows "\<exists>ev st2. handle_parsed now st = Some (True, ev, st2)
    \<and> spec_frame (fin, op, payload) (ws_view st) = (ev, ws_view st2)
    \<and> wss_frame st2 = frame_done (wss_frame st)"
proof -
  obtain b0 r b where b: "DataBuffer_new (GetPayloadLen (wss_frame st) + 1024) = Some b0"
      "AppendData (Some (GetPayloadData (wss_frame st))) (to_size (GetPayloadLen (wss_frame st))) b0 = Some (r, b)"
      "item_bytes b = payload"
    using received_payload [OF f n] by blast
  have fields: "GetFin (wss_frame st) = fin" "GetOperCode (wss_frame st) = op" "PayloadIsReady (wss_frame st)"
    using f frame_ready_payload(2) [OF f] by (simp_all add: frame_ready_def)
  let ?st1 = "if op = WS_OP_TEXT_TYPE \<or> op = WS_OP_BIN_TYPE then st\<lparr>wss_last_op_code := op\<rparr> else st"
  let ?st2 = "?st1\<lparr>wss_recv := wss_recv ?st1 @ [b], wss_frame := frame_done (wss_frame st)\<rparr>"
  have eq: "handle_parsed now st = (if \<not> fin then Some (True, [], ?st2)
      else (case ws_dispatch now op (?st2\<lparr>wss_die_count := 0\<rparr>) of (ev, st3) \<Rightarrow> Some (True, ev, st3\<lparr>wss_recv := []\<rparr>)))"
    unfolding handle_parsed_def Let_def fields b(1) Option.bind.simps b(2) prod.case by (simp add: fields frame_done_def)
  let ?v1 = "(ws_view st)\<lparr>wv_parts := wv_parts (ws_view st) @ [payload],
    wv_last_op := (if op = WS_OP_TEXT_TYPE \<or> op = WS_OP_BIN_TYPE then op else wv_last_op (ws_view st))\<rparr>"
  have v2: "ws_view ?st2 = ?v1" by (simp add: ws_view_def b(3))
  show ?thesis
  proof (cases fin)
    case False
    then show ?thesis using eq v2 by simp
  next
    case True
    let ?v3 = "?v1\<lparr>wv_die_count := 0\<rparr>"
    obtain ev st3 where d: "ws_dispatch now op (?st2\<lparr>wss_die_count := 0\<rparr>) = (ev, st3)" by fastforce
    have "ws_view (?st2\<lparr>wss_die_count := 0\<rparr>) = (ws_view ?st2)\<lparr>wv_die_count := 0\<rparr>" by (simp add: ws_view_def)
    then have "spec_message op ?v3 = (ev, ws_view st3)" "wss_frame st3 = frame_done (wss_frame st)"
      using ws_dispatch_view [OF d] unfolding v2 by simp_all
    moreover have "ws_view (st3\<lparr>wss_recv := []\<rparr>) = (ws_view st3)\<lparr>wv_parts := []\<rparr>" by (simp add: ws_view_def)
    ultimately show ?thesis using eq True d by simp
  qed
qed

text \<open>Where the bytes end in the block, and its size: only an append changes them.\<close>

definition buf_room :: "WebSocketFrame \<Rightarrow> int \<times> nat" where
  "buf_room f = (db_end (wf_buffer f), db_buffer_size (wf_buffer f))"

lemma frame_header_buffer: "frame_header f = (ok, f1) \<Longrightarrow> wf_buffer f1 = wf_buffer f"
  by (auto simp: frame_header_def frame_lengths_def frame_key_def Let_def split: if_splits)

lemma parse_buffered_room: "parse_buffered f = Some (r, f1) \<Longrightarrow> buf_room f1 = buf_room f"
  by (auto simp: parse_buffered_def buf_room_def frame_unmask_def Let_def bind_eq_Some_conv
      dest!: frame_header_buffer split: if_splits prod.splits)

lemma frame_done_room: "buf_room (frame_done f) = buf_room f"
  by (simp add: buf_room_def frame_done_def frame_Reset_def frame_Consume_def ConsumeData_def Let_def)

lemma ws_stream_Nil: "ws_stream [] = ([], [])"
  by (subst ws_stream.simps) (simp add: ws_decode_short)

definition session_after :: "u8 list \<Rightarrow> WsSession \<Rightarrow> ws_event list \<Rightarrow> WsSession \<Rightarrow> bool" where
  "session_after bs st ev st' \<longleftrightarrow>
     spec_frames (fst (ws_stream bs)) (ws_view st) = (ev, ws_view st')
     \<and> frame_contents (wss_frame st') = snd (ws_stream bs) \<and> frame_inv (wss_frame st')"

lemma session_after_step:
  assumes "ws_decode bs = Some (fin, op, payload, rest)" "spec_frame (fin, op, payload) (ws_view st) = (ev, ws_view st2)"
    "session_after rest st2 ev' st3"
  shows "session_after bs st (ev @ ev') st3"
proof -
  obtain fs r where fs: "ws_stream rest = (fs, r)" by fastforce
  have "ws_stream bs = ((fin, op, payload) # fs, r)" by (subst ws_stream.simps) (simp add: assms(1) fs)
  then show ?thesis using assms(2,3) by (simp add: session_after_def fs)
qed

lemma handle_loop_works:
  assumes "frame_inv (wss_frame st)" "stream_ok (frame_contents (wss_frame st))"
    "int (length (frame_contents (wss_frame st))) + 30 * 1024 < 2 ^ 31"
  shows "\<exists>ret ev st'. handle_loop now None 0 st = Some (ret, ev, st')
    \<and> session_after (frame_contents (wss_frame st)) st ev st'
    \<and> buf_room (wss_frame st') = buf_room (wss_frame st)"
  using assms
proof (induction "length (frame_contents (wss_frame st))" arbitrary: st rule: less_induct)
  case less
  let ?f = "wss_frame st" let ?bs = "frame_contents ?f"
  have ok: "ws_len_ok ?bs" using less.prems(2) by (subst (asm) stream_ok.simps) simp
  note parse = parse_buffered_works [OF less.prems(1) refl ok]
  have loop: "handle_loop now None 0 st = do {
      (ret, f) \<leftarrow> parse_buffered ?f;
      if ret \<noteq> 0 then Some (ret, [], st\<lparr>wss_frame := f\<rparr>)
      else do {
        (ready, ev, st2) \<leftarrow> handle_parsed now (st\<lparr>wss_frame := f\<rparr>);
        if \<not> ready then Some (1, ev, st2)
        else if GetBufferLen (wss_frame st2) > 0
        then do { (ret', ev', st3) \<leftarrow> handle_loop now None 0 st2; Some (ret', ev @ ev', st3) }
        else Some (0, ev, st2) } }"
    by (subst handle_loop.simps) (simp add: Parse_def)
  show ?case
  proof (cases "ws_decode ?bs")
    case None
    then obtain f1 where f1: "parse_buffered ?f = Some (1, f1)" "frame_inv f1" "frame_contents f1 = ?bs"
      using parse by auto
    have "ws_stream ?bs = ([], ?bs)" by (subst ws_stream.simps) (simp add: None)
    then have "session_after ?bs st [] (st\<lparr>wss_frame := f1\<rparr>)"
      using f1 by (simp add: session_after_def ws_view_def)
    moreover have "handle_loop now None 0 st = Some (1, [], st\<lparr>wss_frame := f1\<rparr>)"
      unfolding loop f1(1) by simp
    ultimately show ?thesis using parse_buffered_room [OF f1(1)] by auto
  next
    case (Some x)
    obtain fin op payload rest where x: "x = (fin, op, payload, rest)" by (cases x)
    note dec = Some [unfolded x]
    obtain f1 where f1: "parse_buffered ?f = Some (0, f1)" "frame_ready f1 fin op payload rest"
      using parse dec by auto
    let ?st = "st\<lparr>wss_frame := f1\<rparr>"
    have shorter: "length rest < length ?bs" by (rule ws_decode_rest [OF dec])
    have "length payload \<le> length ?bs"
      using dec by (auto simp: ws_decode_def Let_def split: option.splits if_splits)
    then obtain ev st2 where st2: "handle_parsed now ?st = Some (True, ev, st2)"
        "spec_frame (fin, op, payload) (ws_view ?st) = (ev, ws_view st2)" "wss_frame st2 = frame_done f1"
      using handle_parsed_works [of ?st fin op payload rest now] f1(2) less.prems(3) by auto
    have view: "ws_view ?st = ws_view st" by (simp add: ws_view_def)
    have inv2: "frame_inv (wss_frame st2)" "frame_contents (wss_frame st2) = rest"
      using frame_ready_payload(3,4) [OF f1(2)] st2(3) by simp_all
    have room: "buf_room (wss_frame st2) = buf_room ?f"
      using parse_buffered_room [OF f1(1)] st2(3) by (simp add: frame_done_room)
    have len: "GetBufferLen (wss_frame st2) = length rest"
      using inv2 by (simp add: GetBufferLen_def frame_inv_def frame_contents_def DataLen_contents)
    show ?thesis
    proof (cases "rest = []")
      case True
      have "session_after rest st2 [] st2"
        using True inv2 by (simp add: session_after_def ws_stream_Nil)
      from session_after_step [OF dec st2(2) [unfolded view] this]
      have "session_after ?bs st ev st2" by simp
      moreover have "handle_loop now None 0 st = Some (0, ev, st2)"
        unfolding loop f1(1) using st2(1) len True by simp
      ultimately show ?thesis using room by blast
    next
      case False
      have "stream_ok rest" using less.prems(2) dec by (subst (asm) stream_ok.simps) simp
      moreover have "int (length rest) + 30 * 1024 < 2 ^ 31" using shorter less.prems(3) by linarith
      ultimately obtain ret' ev' st3 where st3: "handle_loop now None 0 st2 = Some (ret', ev', st3)"
          "session_after rest st2 ev' st3" "buf_room (wss_frame st3) = buf_room (wss_frame st2)"
        using less.hyps [of st2] shorter inv2 by auto
      have "handle_loop now None 0 st = Some (ret', ev @ ev', st3)"
        unfolding loop f1(1) using st2(1) len False st3(1) by simp
      then show ?thesis
        using session_after_step [OF dec st2(2) [unfolded view] st3(2)] st3(3) room by auto
    qed
  qed
qed

section \<open>Streams in pieces\<close>

lemma ws_decode_append:
  assumes "ws_decode bs = Some (fin, op, payload, rest)"
  shows "ws_decode (bs @ cs) = Some (fin, op, payload, rest @ cs)"
proof -
  obtain n where n: "ws_header_len bs = Some n"
    using assms by (auto simp: ws_decode_def split: option.splits)
  note h = ws_header_append [OF n, of cs] and b = ws_header_len_bounds [OF n]
  have "n + ws_payload_len bs \<le> length bs"
    using assms n by (auto simp: ws_decode_def Let_def split: if_splits)
  then show ?thesis
    using assms n h(5) b unfolding ws_decode_def h(1,2) n option.case Let_def h(3,4) by (auto split: if_splits)
qed

lemma ws_len_ok_append: "ws_len_ok (bs @ cs) \<Longrightarrow> ws_len_ok bs"
  by (cases "ws_header_len bs") (simp_all add: ws_len_ok_def ws_header_append)

lemma stream_ok_append:
  "stream_ok (bs @ cs) \<Longrightarrow> stream_ok bs \<and> stream_ok (snd (ws_stream bs) @ cs)"
proof (induction bs rule: ws_stream.induct)
  case (1 bs)
  show ?case
  proof (cases "ws_decode bs")
    case None
    then have "snd (ws_stream bs) = bs" by (subst ws_stream.simps) simp
    moreover have "stream_ok bs"
      using 1(2) None ws_len_ok_append by (subst stream_ok.simps, subst (asm) stream_ok.simps) auto
    ultimately show ?thesis using 1(2) by simp
  next
    case (Some x)
    obtain fin op payload rest where x: "x = (fin, op, payload, rest)" by (cases x)
    note dec = Some [unfolded x]
    have snd: "snd (ws_stream bs) = snd (ws_stream rest)"
      by (subst ws_stream.simps) (simp add: dec split: prod.split)
    have "ws_len_ok (bs @ cs)" "stream_ok (rest @ cs)"
      using 1(2) ws_decode_append [OF dec, of cs] by (subst (asm) stream_ok.simps, simp)+
    moreover from this(2) have "stream_ok rest \<and> stream_ok (snd (ws_stream rest) @ cs)"
      using 1(1) [OF dec refl refl refl] by simp
    ultimately show ?thesis
      using dec ws_len_ok_append by (subst stream_ok.simps) (auto simp: snd)
  qed
qed

lemma ws_stream_append:
  "ws_stream (bs @ cs)
     = (fst (ws_stream bs) @ fst (ws_stream (snd (ws_stream bs) @ cs)), snd (ws_stream (snd (ws_stream bs) @ cs)))"
proof (induction bs rule: ws_stream.induct)
  case (1 bs)
  show ?case
  proof (cases "ws_decode bs")
    case None
    then have "ws_stream bs = ([], bs)" by (subst ws_stream.simps) simp
    then show ?thesis by simp
  next
    case (Some x)
    obtain fin op payload rest where x: "x = (fin, op, payload, rest)" by (cases x)
    note dec = Some [unfolded x]
    have "ws_stream bs = ((fin, op, payload) # fst (ws_stream rest), snd (ws_stream rest))"
      by (subst ws_stream.simps) (simp add: dec split: prod.split)
    moreover have "ws_stream (bs @ cs) = ((fin, op, payload) # fst (ws_stream (rest @ cs)), snd (ws_stream (rest @ cs)))"
      by (subst ws_stream.simps) (simp add: ws_decode_append [OF dec] split: prod.split)
    ultimately show ?thesis using 1 [OF dec refl refl refl] by simp
  qed
qed

lemma ws_stream_rest: "ws_decode (snd (ws_stream bs)) = None" "length (snd (ws_stream bs)) \<le> length bs"
proof -
  have "ws_decode (snd (ws_stream bs)) = None \<and> length (snd (ws_stream bs)) \<le> length bs"
  proof (induction bs rule: ws_stream.induct)
    case (1 bs)
    show ?case
    proof (cases "ws_decode bs")
      case None
      then show ?thesis by (subst (1 2) ws_stream.simps) simp
    next
      case (Some x)
      obtain fin op payload rest where x: "x = (fin, op, payload, rest)" by (cases x)
      note dec = Some [unfolded x]
      have "snd (ws_stream bs) = snd (ws_stream rest)"
        by (subst ws_stream.simps) (simp add: dec split: prod.split)
      then show ?thesis using 1 [OF dec refl refl refl] ws_decode_rest [OF dec] by simp
    qed
  qed
  then show "ws_decode (snd (ws_stream bs)) = None" "length (snd (ws_stream bs)) \<le> length bs" by simp_all
qed

lemma spec_frames_append:
  "spec_frames (fs @ gs) v = (let (ev, v1) = spec_frames fs v; (ev', v2) = spec_frames gs v1 in (ev @ ev', v2))"
  by (induction fs arbitrary: v) (auto split: prod.split)

lemma session_after_append:
  assumes "session_after bs st ev st1" "session_after (frame_contents (wss_frame st1) @ cs) st1 ev' st2"
  shows "session_after (bs @ cs) st (ev @ ev') st2"
  using assms by (simp add: session_after_def ws_stream_append [of bs cs] spec_frames_append)

section \<open>Reads of the socket\<close>

lemma AppendData_room:
  assumes "db_inv b" "db_end b + int (length xs) + 200 \<le> int (db_buffer_size b)"
    "AppendData (Some (xs @ ys)) (length xs) b = Some (r, b1)"
  shows "db_end b1 = db_end b + int (length xs) \<and> db_buffer_size b1 = db_buffer_size b"
  using assms(1)
proof (rule db_inv_cursors)
  fix s l
  assume c: "db_start b = int s" "db_data_len b = int l" "db_end b = int (s + l)"
    "s + l \<le> length (db_buffer b)" "200 \<le> db_buffer_size b" "db_buffer_size b \<le> length (db_buffer b)"
    "db_buffer_size b < 2 ^ 31"
  have fits: "s + l + length xs + 200 \<le> db_buffer_size b" using assms(2) c by simp
  then have "\<not> nat (int (db_buffer_size b) - 200) < s + l + length xs" by linarith
  then show ?thesis
    using assms(3) c fits
    by (auto simp: AppendData_def Let_def to_size_small PRE_RESERVE_HEADER_SIZE_def nat_add_distrib
        mem_read_def mem_write_def int32_result_def to_int32_small split: if_splits)
qed

lemma frame_update_twice: "st\<lparr>wss_frame := f, wss_frame := g\<rparr> = st\<lparr>wss_frame := g\<rparr>"
  by (cases st) simp

lemma HandleFrame_works:
  assumes f: "frame_inv (wss_frame st)" and d: "db_inv data"
    and ok: "stream_ok (frame_contents (wss_frame st) @ db_contents data)"
    and n: "int (length (frame_contents (wss_frame st)) + length (db_contents data)) + 30 * 1024 < 2 ^ 31"
  defines "b \<equiv> wf_buffer (wss_frame st)"
  shows "if db_moves (length (db_contents data)) b \<and> db_overlap b then HandleFrame now data st = None
    else (\<exists>ret ev st'. HandleFrame now data st = Some (ret, ev, st')
      \<and> session_after (frame_contents (wss_frame st) @ db_contents data) st ev st'
      \<and> (db_end b + int (length (db_contents data)) + 200 \<le> int (db_buffer_size b)
          \<longrightarrow> buf_room (wss_frame st') = (db_end b + int (length (db_contents data)), db_buffer_size b)))"
proof -
  let ?f = "wss_frame st" let ?xs = "db_contents data"
  have b: "db_inv b" using f by (simp add: frame_inv_def b_def)
  obtain ys where ys: "DataBuffer_Data data = ?xs @ ys"
    using Data_contents [OF d] by (metis append_take_drop_id)
  have hf: "HandleFrame now data st = handle_loop now (Some (?xs @ ys)) (length ?xs) st"
    by (simp add: HandleFrame_def ys DataLen_contents [OF d])
  show ?thesis
  proof (cases "?xs = []")
    case True
    then have "Parse (Some (?xs @ ys)) (length ?xs) ?f = Parse None 0 ?f" by (simp add: Parse_def)
    then have "HandleFrame now data st = handle_loop now None 0 st"
      unfolding hf by (subst (1 2) handle_loop.simps) simp
    moreover have "\<not> db_moves (length ?xs) b" using True by (simp add: db_moves_def)
    ultimately show ?thesis
      using handle_loop_works [OF f, of now] ok n True by (auto simp: buf_room_def b_def)
  next
    case False
    show ?thesis
    proof (cases "db_moves (length ?xs) b \<and> db_overlap b")
      case True
      then have "Parse (Some (?xs @ ys)) (length ?xs) ?f = None"
        using AppendData_works [OF b, of ?xs ys] n False by (simp add: Parse_def frame_contents_def b_def)
      then have "HandleFrame now data st = None" unfolding hf by (subst handle_loop.simps) simp
      then show ?thesis using True by simp
    next
      case fine: False
      then obtain b1 r where b1: "AppendData (Some (?xs @ ys)) (length ?xs) b = Some (r, b1)" "db_inv b1"
          "db_contents b1 = db_contents b @ ?xs"
        using AppendData_works [OF b, of ?xs ys] n by (auto simp: frame_contents_def b_def)
      let ?st = "st\<lparr>wss_frame := ?f\<lparr>wf_buffer := b1\<rparr>\<rparr>"
      have "Parse (Some (?xs @ ys)) (length ?xs) ?f = Parse None 0 (wss_frame ?st)"
        using False b1 by (simp add: Parse_def b_def)
      then have run: "HandleFrame now data st = handle_loop now None 0 ?st"
        unfolding hf by (subst (1 2) handle_loop.simps) (simp add: frame_update_twice cong: if_cong)
      have "header_of (?f\<lparr>wf_buffer := b1\<rparr>) bs k = header_of ?f bs k" for bs k by (simp add: header_of_def)
      then have "frame_inv (wss_frame ?st)"
        using f b1 by (auto simp: frame_inv_def b_def dest: header_of_append [where cs = ?xs])
      moreover have con: "frame_contents (wss_frame ?st) = frame_contents ?f @ ?xs"
        by (simp add: frame_contents_def b1 b_def)
      ultimately obtain ret ev st' where st': "handle_loop now None 0 ?st = Some (ret, ev, st')"
          "session_after (frame_contents ?f @ ?xs) ?st ev st'" "buf_room (wss_frame st') = buf_room (wss_frame ?st)"
        using handle_loop_works [of ?st now] ok n by auto
      have "session_after (frame_contents ?f @ ?xs) st ev st'"
        using st'(2) by (simp add: session_after_def ws_view_def)
      moreover have "buf_room (wss_frame st') = (db_end b + int (length ?xs), db_buffer_size b)"
        if "db_end b + int (length ?xs) + 200 \<le> int (db_buffer_size b)"
        using AppendData_room [OF b that b1(1)] st'(3) by (simp add: buf_room_def)
      ultimately show ?thesis unfolding if_not_P [OF fine] run using st'(1) by blast
    qed
  qed
qed

text \<open>The reads of a connection, each with the time it is handled at.\<close>

fun ws_feed :: "(int \<times> DataBuffer) list \<Rightarrow> WsSession \<Rightarrow> (ws_event list \<times> WsSession) option" where
  "ws_feed [] st = Some ([], st)"
| "ws_feed ((now, data) # reads) st = do {
     (ret, ev, st1) \<leftarrow> HandleFrame now data st;
     (ev', st2) \<leftarrow> ws_feed reads st1;
     Some (ev @ ev', st2) }"

definition read_bytes :: "(int \<times> DataBuffer) list \<Rightarrow> u8 list" where
  "read_bytes reads = concat (map (\<lambda>(now, data). db_contents data) reads)"

lemma ws_feed_works:
  assumes "frame_inv (wss_frame st)" "\<forall>(now, data)\<in>set reads. db_inv data"
    "stream_ok (frame_contents (wss_frame st) @ read_bytes reads)"
    "int (length (frame_contents (wss_frame st)) + length (read_bytes reads)) + 30 * 1024 < 2 ^ 31"
    "ws_decode (frame_contents (wss_frame st)) = None"
  shows "case ws_feed reads st of
      Some (ev, st') \<Rightarrow> session_after (frame_contents (wss_frame st) @ read_bytes reads) st ev st'
    | None \<Rightarrow> int (snd (buf_room (wss_frame st)))
        < fst (buf_room (wss_frame st)) + int (length (read_bytes reads)) + 200"
  using assms
proof (induction reads arbitrary: st)
  case Nil
  then have "ws_stream (frame_contents (wss_frame st)) = ([], frame_contents (wss_frame st))"
    by (subst ws_stream.simps) simp
  then show ?case using Nil by (simp add: read_bytes_def session_after_def)
next
  case (Cons rd reads)
  obtain now data where rd: "rd = (now, data)" by (cases rd)
  let ?f = "wss_frame st" let ?b = "wf_buffer ?f" let ?n = "length (db_contents data)"
  let ?bs = "frame_contents ?f @ db_contents data"
  have bytes: "read_bytes (rd # reads) = db_contents data @ read_bytes reads" by (simp add: rd read_bytes_def)
  have ok: "stream_ok ?bs" "stream_ok (snd (ws_stream ?bs) @ read_bytes reads)"
    using stream_ok_append [of ?bs "read_bytes reads"] Cons.prems(3) by (simp_all add: bytes)
  have d: "db_inv data" using Cons.prems(2) by (simp add: rd)
  have n: "int (length (frame_contents ?f) + ?n) + 30 * 1024 < 2 ^ 31" using Cons.prems(4) by (simp add: bytes)
  note one = HandleFrame_works [OF Cons.prems(1) d ok(1) n, of now]
  show ?case
  proof (cases "db_moves ?n ?b \<and> db_overlap ?b")
    case True
    then have "HandleFrame now data st = None" using one by simp
    moreover have "int (db_buffer_size ?b) < db_end ?b + int ?n + 200" using True by (simp add: db_moves_def)
    ultimately show ?thesis by (simp add: rd buf_room_def bytes [unfolded rd])
  next
    case fine: False
    then obtain ret ev st1 where st1: "HandleFrame now data st = Some (ret, ev, st1)"
        "session_after ?bs st ev st1"
        "db_end ?b + int ?n + 200 \<le> int (db_buffer_size ?b) \<Longrightarrow> buf_room (wss_frame st1) = (db_end ?b + int ?n, db_buffer_size ?b)"
      using one by auto
    have inv1: "frame_inv (wss_frame st1)" "frame_contents (wss_frame st1) = snd (ws_stream ?bs)"
      using st1(2) by (simp_all add: session_after_def)
    have "length (snd (ws_stream ?bs)) \<le> length ?bs" by (rule ws_stream_rest(2))
    then have "int (length (frame_contents (wss_frame st1)) + length (read_bytes reads)) + 30 * 1024 < 2 ^ 31"
      using Cons.prems(4) inv1 by (simp add: bytes)
    then have ih: "case ws_feed reads st1 of
        Some (ev, st') \<Rightarrow> session_after (frame_contents (wss_frame st1) @ read_bytes reads) st1 ev st'
      | None \<Rightarrow> int (snd (buf_room (wss_frame st1)))
          < fst (buf_room (wss_frame st1)) + int (length (read_bytes reads)) + 200"
      using Cons.IH [OF inv1(1)] Cons.prems(2) ok(2) inv1(2) ws_stream_rest(1) by simp
    show ?thesis
    proof (cases "ws_feed reads st1")
      case None
      then have "int (db_buffer_size ?b) < db_end ?b + int ?n + int (length (read_bytes reads)) + 200"
        using ih st1(3) by (cases "db_end ?b + int ?n + 200 \<le> int (db_buffer_size ?b)") auto
      then show ?thesis using None st1(1) by (simp add: rd buf_room_def bytes [unfolded rd])
    next
      case (Some p)
      obtain ev' st2 where p: "p = (ev', st2)" by (cases p)
      have "session_after (?bs @ read_bytes reads) st (ev @ ev') st2"
        by (rule session_after_append [OF st1(2)]) (use ih Some p in simp)
      then show ?thesis using Some p st1(1) by (simp add: rd bytes [unfolded rd])
    qed
  qed
qed

section \<open>What a session delivers\<close>

lemma WsSession_init_facts:
  "frame_inv (wss_frame WsSession_init)" "frame_contents (wss_frame WsSession_init) = []"
  "buf_room (wss_frame WsSession_init) = (200, 10240)" "wv_parts (ws_view WsSession_init) = []"
  by (simp_all add: WsSession_init_def frame_inv_init ws_view_def)
    (simp add: buf_room_def WebSocketFrame_init_def DataBuffer_init_def PRE_RESERVE_HEADER_SIZE_def EXTRA_LEN_def)

lemma ws_feed_init:
  assumes "\<forall>(now, data)\<in>set reads. db_inv data" "stream_ok (read_bytes reads)"
    "int (length (read_bytes reads)) + 30 * 1024 < 2 ^ 31"
  shows "case ws_feed reads WsSession_init of
      Some (ev, st) \<Rightarrow> session_after (read_bytes reads) WsSession_init ev st
    | None \<Rightarrow> 9840 < length (read_bytes reads)"
  using ws_feed_works [OF WsSession_init_facts(1) assms(1)] assms(2,3)
  by (simp add: WsSession_init_facts ws_decode_short split: option.splits prod.splits)

text \<open>The buffer of one read, given its bytes.\<close>

definition buffer_of :: "u8 list \<Rightarrow> DataBuffer" where
  "buffer_of xs = snd (the (AppendData (Some xs) (length xs) (DataBuffer_init (nat EXTRA_LEN))))"

lemma buffer_of_works:
  assumes "length xs \<le> 9840"
  shows "db_inv (buffer_of xs)" "db_contents (buffer_of xs) = xs"
proof -
  have "db_inv (DataBuffer_init (nat EXTRA_LEN))" by (simp add: db_inv_init EXTRA_LEN_def)
  moreover have "\<not> db_overlap (DataBuffer_init (nat EXTRA_LEN))" by (simp add: db_overlap_def DataBuffer_init_def)
  ultimately have "\<exists>b r. AppendData (Some xs) (length xs) (DataBuffer_init (nat EXTRA_LEN)) = Some (r, b)
      \<and> db_inv b \<and> db_contents b = xs"
    using AppendData_works [of "DataBuffer_init (nat EXTRA_LEN)" xs "[]"] assms by (simp add: db_contents_init)
  then show "db_inv (buffer_of xs)" "db_contents (buffer_of xs) = xs" by (auto simp: buffer_of_def)
qed

lemma ws_stream_Cons:
  "ws_decode bs = Some (fin, op, payload, rest) \<Longrightarrow> ws_stream bs = ((fin, op, payload) # fst (ws_stream rest), snd (ws_stream rest))"
  by (subst ws_stream.simps) (simp add: case_prod_beta)

lemma stream_ok_Cons:
  "ws_decode bs = Some (fin, op, payload, rest) \<Longrightarrow> stream_ok bs = (ws_len_ok bs \<and> stream_ok rest)"
  by (subst stream_ok.simps) simp

lemma stream_ok_Nil: "stream_ok []"
  by (subst stream_ok.simps) (simp add: ws_decode_short ws_len_ok_def ws_header_len_def)

lemma text_frame_example:
  "ws_decode [0x81, 1, 0x41] = Some (True, WS_OP_TEXT_TYPE, [0x41], [])" "ws_len_ok [0x81, 1, 0x41]"
  by (simp_all add: ws_eval ws_op_defs ws_len_ok_def)

text \<open>Claim C2. As long as no frame of it announces a length that with the header reaches \<open>2\<^sup>6\<^sup>3\<close> (claim C34
  is about such a frame), a session does with a stream of bytes, shorter than \<open>2\<^sup>3\<^sup>1\<close> by 30 KB at least, exactly what its
  frames ask for, however the stream is cut into reads (each a well-formed buffer): the frames are those of RFC 6455, the events and
  the state of the session are those of handling them one after the other, and the bytes of an incomplete
  frame wait in the buffer. Taking such a stream apart can end in undefined behaviour only if it has more
  than 9,840 bytes (the overlapping copy); and of the frames the session sends in answer one is undefined
  exactly when a ping is to be answered that has an empty part, of its own or of a message it
  interrupts.\<close>

theorem session_refines_frames:
  assumes "\<forall>(now, data)\<in>set reads. db_inv data" "stream_ok (read_bytes reads)"
    "int (length (read_bytes reads)) + 30 * 1024 < 2 ^ 31"
  shows "case ws_feed reads WsSession_init of
      Some (ev, st) \<Rightarrow> spec_frames (fst (ws_stream (read_bytes reads))) (ws_view WsSession_init) = (ev, ws_view st)
        \<and> frame_contents (wss_frame st) = snd (ws_stream (read_bytes reads))
        \<and> (sends_defined ev \<longleftrightarrow> \<not> empty_pong [] (fst (ws_stream (read_bytes reads))))
    | None \<Rightarrow> 9840 < length (read_bytes reads)"
  using ws_feed_init [OF assms] WsSession_init_facts(4)
    spec_frames_sends [of "fst (ws_stream (read_bytes reads))" "ws_view WsSession_init"]
  by (auto simp: session_after_def split: option.splits)

lemma session_refines_frames_witness:
  "\<exists>st. ws_feed [(5, buffer_of [0x81]), (6, buffer_of [1, 0x41])] WsSession_init = Some ([EvText 0 [0x41]], st)"
proof -
  let ?r = "[(5, buffer_of [0x81]), (6, buffer_of [1, 0x41])]"
  have bytes: "read_bytes ?r = [0x81, 1, 0x41]" by (simp add: read_bytes_def buffer_of_works)
  have "fst (spec_frames [(True, WS_OP_TEXT_TYPE, [0x41])] (ws_view WsSession_init)) = [EvText 0 [0x41]]"
    using WsSession_init_facts(4) by (simp add: spec_message_def HandleWsData_def ws_op_defs)
  then show ?thesis
    using session_refines_frames [of ?r] unfolding bytes
    by (cases "ws_feed ?r WsSession_init")
      (auto simp: buffer_of_works ws_stream_Cons [OF text_frame_example(1)] stream_ok_Cons [OF text_frame_example(1)]
        text_frame_example(2) stream_ok_Nil ws_stream_Nil)
qed

text \<open>Messages as the client sends them.\<close>

fun message_bytes :: "u8 list \<times> u8 \<times> u8 list \<Rightarrow> u8 list" where
  "message_bytes (key, op, data) = SendWsFrame_bytes key op data"

fun good_message :: "u8 list \<times> u8 \<times> u8 list \<Rightarrow> bool" where
  "good_message (key, op, data) \<longleftrightarrow>
     length key = 4 \<and> (op = WS_OP_TEXT_TYPE \<or> op = WS_OP_BIN_TYPE) \<and> length data < 2 ^ 62"

fun message_event :: "u8 list \<times> u8 \<times> u8 list \<Rightarrow> ws_event" where
  "message_event (key, op, data) = (if op = WS_OP_TEXT_TYPE then EvText 0 data else EvData 0 data)"

lemma messages_stream:
  assumes "\<forall>m\<in>set ms. good_message m"
  shows "ws_stream (concat (map message_bytes ms)) = (map (\<lambda>(key, op, data). (True, op, data)) ms, [])
    \<and> stream_ok (concat (map message_bytes ms))"
  using assms
proof (induction ms)
  case Nil
  then show ?case
    by (simp add: ws_stream_Nil) (subst stream_ok.simps, simp add: ws_decode_short ws_len_ok_def ws_header_len_def)
next
  case (Cons m ms)
  obtain key op data where m: "m = (key, op, data)" by (cases m)
  let ?rest = "concat (map message_bytes ms)"
  have good: "length key = 4" "length data < 2 ^ 62" "op AND 0x0F = op"
    using Cons.prems m by (auto simp: ws_op_defs)
  note dec = sent_frame_decodes [OF good(1,2), of op ?rest, unfolded good(3)]
  have bs: "concat (map message_bytes (m # ms)) = SendWsFrame_bytes key op data @ ?rest" by (simp add: m)
  have "ws_stream (SendWsFrame_bytes key op data @ ?rest)
      = ((True, op, data) # map (\<lambda>(key, op, data). (True, op, data)) ms, [])"
    using Cons by (subst ws_stream.simps) (simp add: dec)
  moreover have "stream_ok (SendWsFrame_bytes key op data @ ?rest)"
    using Cons by (subst stream_ok.simps) (simp add: dec)
  ultimately show ?case unfolding bs by (simp add: m)
qed

lemma messages_events:
  assumes "\<forall>m\<in>set ms. good_message m" "wv_parts v = []"
  shows "fst (spec_frames (map (\<lambda>(key, op, data). (True, op, data)) ms) v) = map message_event ms"
  using assms
proof (induction ms arbitrary: v)
  case (Cons m ms)
  obtain key op data where m: "m = (key, op, data)" by (cases m)
  have "\<exists>v1. spec_frame (True, op, data) v = ([message_event m], v1) \<and> wv_parts v1 = []"
    using Cons.prems m by (auto simp: spec_message_def HandleWsData_def ws_op_defs)
  then obtain v1 where v1: "spec_frame (True, op, data) v = ([message_event m], v1)" "wv_parts v1 = []" by blast
  have "fst (spec_frames (map (\<lambda>(key, op, data). (True, op, data)) ms) v1) = map message_event ms"
    using Cons.IH [OF _ v1(2)] Cons.prems by simp
  then show ?case
    using m v1(1)
    by (cases "spec_frames (map (\<lambda>(key, op, data). (True, op, data)) ms) v1") (simp del: spec_frame.simps)
qed simp

text \<open>Claim C32. Text and binary messages arrive: the frames of any list of messages, as
  \<^verbatim>\<open>SendWsFrame\<close> builds them, cut into reads in any way, make the receiving session call its callback
  once for each message, with its bytes and in the order they were sent. Up to 9,840 bytes that always
  happens; a longer stream can only end in undefined behaviour instead.\<close>

theorem messages_arrive:
  assumes "\<forall>m\<in>set ms. good_message m" "read_bytes reads = concat (map message_bytes ms)"
    "\<forall>(now, data)\<in>set reads. db_inv data" "int (length (read_bytes reads)) + 30 * 1024 < 2 ^ 31"
  shows "case ws_feed reads WsSession_init of
      Some (ev, st) \<Rightarrow> ev = map message_event ms \<and> frame_contents (wss_frame st) = []
    | None \<Rightarrow> 9840 < length (read_bytes reads)"
proof -
  note ms = messages_stream [OF assms(1), folded assms(2)]
  have "fst (spec_frames (fst (ws_stream (read_bytes reads))) (ws_view WsSession_init)) = map message_event ms"
    using messages_events [OF assms(1) WsSession_init_facts(4)] ms by simp
  then show ?thesis
    using ws_feed_init [OF assms(3) _ assms(4)] ms by (auto simp: session_after_def split: option.splits)
qed

lemma messages_arrive_witness:
  "case ws_feed [(5, buffer_of (SendWsFrame_bytes [1, 2, 3, 4] WS_OP_TEXT_TYPE [0x68, 0x69]))] WsSession_init of
      Some (ev, st) \<Rightarrow> ev = [EvText 0 [0x68, 0x69]] \<and> frame_contents (wss_frame st) = [] | None \<Rightarrow> False"
proof -
  let ?m = "([1, 2, 3, 4], WS_OP_TEXT_TYPE, [0x68, 0x69])" let ?r = "[(5, buffer_of (message_bytes ?m))]"
  have n: "length (message_bytes ?m) \<le> 9840"
    by (simp add: SendWsFrame_bytes_def frame_header_bytes_def apply_mask_def Let_def)
  then have "read_bytes ?r = message_bytes ?m" by (simp add: read_bytes_def buffer_of_works del: message_bytes.simps)
  then show ?thesis
    using messages_arrive [of "[?m]" ?r] n by (auto simp: buffer_of_works split: option.splits)
qed

text \<open>Claim C33. A ping between the fragments of a message takes the message apart: RFC 6455 lets
  control frames come between fragments, but the fragment already received is sent back as a pong,
  before the pong for the ping, and never delivered; the callback sees the last fragment only.\<close>

theorem ping_between_fragments:
  assumes "ws_stream (read_bytes reads) = ([(False, WS_OP_TEXT_TYPE, a), (True, WS_OP_PING_TYPE, p),
      (True, WS_OP_CONTINUE_TYPE, c)], [])"
    "\<forall>(now, data)\<in>set reads. db_inv data" "stream_ok (read_bytes reads)" "length (read_bytes reads) \<le> 9840"
  shows "\<exists>st. ws_feed reads WsSession_init
    = Some ([EvSend WS_OP_PONG_TYPE a, EvSend WS_OP_PONG_TYPE p, EvText 0 c], st)"
proof -
  have small: "int (length (read_bytes reads)) + 30 * 1024 < 2 ^ 31" using assms(4) by simp
  have "fst (spec_frames (fst (ws_stream (read_bytes reads))) (ws_view WsSession_init))
      = [EvSend WS_OP_PONG_TYPE a, EvSend WS_OP_PONG_TYPE p, EvText 0 c]"
    using WsSession_init_facts(4) by (simp add: assms(1) spec_message_def HandleWsData_def ws_op_defs)
  then show ?thesis
    using ws_feed_init [OF assms(2,3) small] assms(4)
    by (cases "ws_feed reads WsSession_init") (auto simp: session_after_def)
qed

lemma ping_between_fragments_witness:
  "\<exists>st. ws_feed [(5, buffer_of [0x01, 1, 0x61, 0x89, 1, 0x62, 0x80, 1, 0x63])] WsSession_init
    = Some ([EvSend WS_OP_PONG_TYPE [0x61], EvSend WS_OP_PONG_TYPE [0x62], EvText 0 [0x63]], st)"
proof -
  let ?bs = "[0x01, 1, 0x61, 0x89, 1, 0x62, 0x80, 1, 0x63]" let ?r = "[(5, buffer_of ?bs)]"
  have dec: "ws_decode ?bs = Some (False, WS_OP_TEXT_TYPE, [0x61], [0x89, 1, 0x62, 0x80, 1, 0x63])"
      "ws_decode [0x89, 1, 0x62, 0x80, 1, 0x63] = Some (True, WS_OP_PING_TYPE, [0x62], [0x80, 1, 0x63])"
      "ws_decode [0x80, 1, 0x63] = Some (True, WS_OP_CONTINUE_TYPE, [0x63], [])"
    by (simp_all add: ws_eval ws_op_defs)
  have "ws_len_ok ?bs" "ws_len_ok [0x89, 1, 0x62, 0x80, 1, 0x63]" "ws_len_ok [0x80, 1, 0x63]"
    by (simp_all add: ws_eval ws_len_ok_def)
  then have "stream_ok ?bs" by (simp add: stream_ok_Cons [OF dec(1)] stream_ok_Cons [OF dec(2)]
    stream_ok_Cons [OF dec(3)] stream_ok_Nil)
  moreover have "ws_stream ?bs = ([(False, WS_OP_TEXT_TYPE, [0x61]), (True, WS_OP_PING_TYPE, [0x62]),
      (True, WS_OP_CONTINUE_TYPE, [0x63])], [])"
    by (simp add: ws_stream_Cons [OF dec(1)] ws_stream_Cons [OF dec(2)] ws_stream_Cons [OF dec(3)] ws_stream_Nil)
  moreover have "read_bytes ?r = ?bs" by (simp add: read_bytes_def buffer_of_works)
  ultimately show ?thesis
    using ping_between_fragments [of ?r "[0x61]" "[0x62]" "[0x63]"] by (simp add: buffer_of_works)
qed

lemma AppendData_past_end:
  "0 < n \<Longrightarrow> length input < n \<Longrightarrow> AppendData (Some input) n b = None"
  by (auto simp: AppendData_def db_grow_def db_move_def Let_def mem_read_def bind_eq_None_conv)

text \<open>Claim C34. Ten bytes from the peer crash the client: a frame with a 64-bit length whose top bit
  is set (and whose low half is not a positive \<^verbatim>\<open>int\<close>) passes for a complete frame of negative length,
  and the handler copies about \<open>2\<^sup>6\<^sup>4\<close> bytes from the end of its buffer.\<close>

theorem negative_length_crashes:
  assumes "db_inv data" "db_contents data = bs" "length bs = 10" "hdr_payload_len (bs ! 1) = 127"
    "\<not> hdr_mask (bs ! 1)" "bit (Get8Bytes bs 2) 63" "to_int32 (sint (Get8Bytes bs 2)) \<le> 0"
  shows "HandleFrame now data WsSession_init = None"
proof -
  let ?f = WebSocketFrame_init and ?w = "Get8Bytes bs 2"
  obtain ys where ys: "DataBuffer_Data data = bs @ ys"
    using Data_contents [OF assms(1)] assms(2) by (metis append_take_drop_id)
  obtain f where f: "Parse (Some (bs @ ys)) 10 ?f = Some (0, f)" "GetPayloadLen f = sint ?w"
      "GetPayloadLen f < 0" "PayloadIsReady f" "db_inv (wf_buffer f)"
    using Parse_negative [OF assms(3-6), of ys] assms(7) by auto
  let ?st = "WsSession_init\<lparr>wss_frame := f\<rparr>" and ?n = "to_size (sint ?w)"
  have neg: "sint ?w < 0" "- (2 ^ 63) \<le> sint ?w" using f(2,3) sint_ge [of ?w] by simp_all
  have "sint ?w mod 2 ^ 64 = (sint ?w + 2 ^ 64) mod 2 ^ 64" by simp
  also have "\<dots> = sint ?w + 2 ^ 64" by (rule mod_pos_pos_trivial) (use neg in simp_all)
  finally have "2 ^ 63 \<le> ?n" using neg by (simp add: to_size_def)
  moreover have "length (db_buffer (wf_buffer f)) < 2 ^ 63" using f(5) by (simp add: db_inv_def)
  then have "length (GetPayloadData f) < 2 ^ 63" unfolding GetPayloadData_def length_drop by linarith
  ultimately have "AppendData (Some (GetPayloadData f)) ?n b0 = None" for b0
    by (intro AppendData_past_end) auto
  then have "handle_parsed now ?st = None"
    using f by (simp add: handle_parsed_def Let_def bind_eq_None_conv)
  moreover have "HandleFrame now data WsSession_init = handle_loop now (Some (bs @ ys)) 10 WsSession_init"
    using DataLen_contents [OF assms(1)] assms(2,3) by (simp add: HandleFrame_def ys)
  ultimately show ?thesis
    using f(1) by (subst (asm) handle_loop.simps) (simp add: WsSession_init_def)
qed

lemma negative_length_crashes_witness:
  "HandleFrame 5 (buffer_of [0x81, 127, 0x80, 0, 0, 0, 0, 0, 0, 0]) WsSession_init = None"
proof -
  let ?bs = "[0x81, 127, 0x80, 0, 0, 0, 0, 0, 0, 0]"
  have "Get8Bytes ?bs 2 = 0x8000000000000000" by (simp add: Get8Bytes_def Get4Bytes_def)
  then have "bit (Get8Bytes ?bs 2) 63" "to_int32 (sint (Get8Bytes ?bs 2)) \<le> 0" by (simp_all add: to_int32_def)
  moreover have "hdr_payload_len (?bs ! 1) = 127" "\<not> hdr_mask (?bs ! 1)" by (simp_all add: ws_eval)
  ultimately show ?thesis
    by (intro negative_length_crashes [where bs = ?bs]) (simp_all add: buffer_of_works)
qed

end
