(* ===== verification/Ws_Client.thy ===== *)
theory Ws_Client
  imports Sha1 Ws_Session Response_Json
begin

text \<open>
  The client's side of the connection: \<^verbatim>\<open>HttpClient::OnRead\<close> (\<^verbatim>\<open>net/http/http_client.cpp\<close>), which reads
  the answer to the upgrade request, and the handshake of \<^verbatim>\<open>WebSocketClient\<close>
  (\<^verbatim>\<open>net/http/websocket/websocket_client.cpp\<close>) behind it. Failed assertions and uncaught exceptions are
  \<^term>\<open>None\<close>. The SHA-1 of OpenSSL, in the build that uses it, is a parameter. Requests to the socket to
  go on reading are left out: it goes on reading.
\<close>

section \<open>The accept key\<close>

definition websocket_guid :: string where
  "websocket_guid = ''258EAFA5-E914-47DA-95CA-C5AB0DC85B11''"

text \<open>\<^verbatim>\<open>GenWebSocketHashcode\<close> with OpenSSL, and without: then the text ends at a zero byte.\<close>

definition GenWebSocketHashcode_openssl :: "(u8 list \<Rightarrow> u8 list) \<Rightarrow> string \<Rightarrow> string" where
  "GenWebSocketHashcode_openssl SHA1 key = Base64Encode (SHA1 (text_bytes (key @ websocket_guid)))"

definition GenWebSocketHashcode :: "string \<Rightarrow> string" where
  "GenWebSocketHashcode key =
     print_base64 (sha_finalize (sha_add (text_bytes (takeWhile (\<lambda>c. c \<noteq> CHR 0x00) (key @ websocket_guid))) sha1_init))"

lemma fips_sha1_five: "\<exists>a b c d e. fips_sha1 xs = [a, b, c, d, e]"
proof -
  have "length (fold fips_block bs H) = 5" if "length H = 5" for bs H
    using that by (induction bs arbitrary: H) (simp_all split: prod.split)
  then have "length (fips_sha1 xs) = 5" by (simp add: fips_sha1_def fips_H0_def)
  then show ?thesis by (auto simp: length_Suc_conv numeral_eq_Suc)
qed

text \<open>Both builds compute the same accept key: with a library function that is SHA-1 as FIPS
  180-4 defines it, the variant with OpenSSL and the bundled implementation agree on every key
  without zero bytes.\<close>

lemma hash_builds_agree:
  assumes "\<And>xs. SHA1 xs = concat (map word_bytes (fips_sha1 xs))" "CHR 0x00 \<notin> set key"
  shows "GenWebSocketHashcode_openssl SHA1 key = GenWebSocketHashcode key"
proof -
  have "CHR 0x00 \<notin> set (key @ websocket_guid)" using assms(2) by (simp add: websocket_guid_def)
  then have "takeWhile (\<lambda>c. c \<noteq> CHR 0x00) (key @ websocket_guid) = key @ websocket_guid"
    by (simp add: takeWhile_eq_all_conv del: set_append) metis
  then have own: "GenWebSocketHashcode key = print_base64 (sha_finalize (sha_add (text_bytes (key @ websocket_guid)) sha1_init))"
    by (simp only: GenWebSocketHashcode_def)
  obtain a b c d e where "fips_sha1 (text_bytes (key @ websocket_guid)) = [a, b, c, d, e]"
    using fips_sha1_five by blast
  then show ?thesis
    unfolding own GenWebSocketHashcode_openssl_def assms(1)
    by (metis print_base64_words sha1_is_FIPS)
qed

lemma hash_builds_agree_witness:
  "GenWebSocketHashcode_openssl (\<lambda>xs. concat (map word_bytes (fips_sha1 xs))) ''dGhlIHNhbXBsZSBub25jZQ==''
    = GenWebSocketHashcode ''dGhlIHNhbXBsZSBub25jZQ==''"
  by (rule hash_builds_agree) simp_all

section \<open>The answer to the request\<close>

text \<open>\<^verbatim>\<open>StringSplit\<close> with a separator of one or more characters, and \<^verbatim>\<open>atoi\<close>, for which a number
  outside \<^verbatim>\<open>int\<close> is undefined.\<close>

function split_str_loop :: "char \<Rightarrow> string \<Rightarrow> string \<Rightarrow> string list" where
  "split_str_loop c cs s =
     (case str_find (c # cs) s of
        None \<Rightarrow> [s]
      | Some pos \<Rightarrow>
          take pos s # (let rest = drop (pos + length (c # cs)) s in if rest = [] then [] else split_str_loop c cs rest))"
  by pat_completeness auto

termination
  by (relation "measure (\<lambda>(_, _, s). length s)") (auto dest: str_find_bound)

definition split_str :: "string \<Rightarrow> char \<Rightarrow> string \<Rightarrow> string list" where
  "split_str s c cs = (if s = [] then [] else split_str_loop c cs s)"

definition atoi :: "string \<Rightarrow> int option" where
  "atoi s =
     (let s1 = dropWhile is_space s;
          negative = (s1 \<noteq> [] \<and> hd s1 = CHR ''-'');
          s2 = (if s1 \<noteq> [] \<and> (hd s1 = CHR ''-'' \<or> hd s1 = CHR ''+'') then tl s1 else s1);
          ds = takeWhile is_digit s2;
          v = (if negative then - digits_value ds else digits_value ds)
      in int32_result v)"

text \<open>A \<^verbatim>\<open>std::map\<close> of strings: its entries in the order of the keys.\<close>

fun str_less :: "string \<Rightarrow> string \<Rightarrow> bool" where
  "str_less _ [] = False"
| "str_less [] (c # cs) = True"
| "str_less (a # as) (c # cs) = (of_char a < (of_char c :: nat) \<or> a = c \<and> str_less as cs)"

fun headers_set :: "string \<Rightarrow> string \<Rightarrow> (string \<times> string) list \<Rightarrow> (string \<times> string) list" where
  "headers_set k v [] = [(k, v)]"
| "headers_set k v ((k', v') # hs) =
     (if k = k' then (k, v) # hs
      else if str_less k k' then (k, v) # (k', v') # hs else (k', v') # headers_set k v hs)"

text \<open>\<^verbatim>\<open>headers_[k]\<close>: the value, and the map with an empty entry if there was none.\<close>

definition headers_at :: "string \<Rightarrow> (string \<times> string) list \<Rightarrow> string \<times> (string \<times> string) list" where
  "headers_at k hs = (case map_of hs k of Some v \<Rightarrow> (v, hs) | None \<Rightarrow> ([], headers_set k [] hs))"

record HttpClientResponse =
  hr_status :: string
  hr_status_code :: int
  hr_proto :: string
  hr_version :: string
  hr_headers :: "(string \<times> string) list"
  hr_content_length :: int
  hr_data :: DataBuffer
  hr_header_ready :: bool
  hr_body_ready :: bool

definition HttpClientResponse_init :: HttpClientResponse where
  "HttpClientResponse_init =
     \<lparr>hr_status = ''OK'', hr_status_code = 200, hr_proto = ''HTTP'', hr_version = ''1.1'', hr_headers = [],
      hr_content_length = 0, hr_data = DataBuffer_init (nat EXTRA_LEN), hr_header_ready = False,
      hr_body_ready = False\<rparr>"

definition http_status_line :: "string \<Rightarrow> HttpClientResponse \<Rightarrow> HttpClientResponse option" where
  "http_status_line line r =
     (let items = split_str line (CHR '' '') []
      in if length items < 3 then None
         else do {
           pos \<leftarrow> str_find ''/'' (items ! 0);
           code \<leftarrow> atoi (items ! 1);
           Some (r\<lparr>hr_proto := take pos (items ! 0), hr_version := drop (pos + 1) (items ! 0), hr_status_code := code,
             hr_status := (if length items = 3 then items ! 2 else concat (drop 2 items))\<rparr>) })"

definition http_header_line :: "string \<Rightarrow> HttpClientResponse \<Rightarrow> HttpClientResponse option" where
  "http_header_line line r = do {
     pos \<leftarrow> str_find '':'' line;
     (let key = take pos line
      in if pos + 2 > length line then None
         else (let value = drop (pos + 2) line
               in do { n \<leftarrow> (if key = ''Content-Length'' then atoi value else Some (hr_content_length r));
                       Some (r\<lparr>hr_content_length := n, hr_headers := headers_set key value (hr_headers r)\<rparr>) })) }"

fun http_header_lines :: "string list \<Rightarrow> HttpClientResponse \<Rightarrow> HttpClientResponse option" where
  "http_header_lines [] r = Some r"
| "http_header_lines (l # ls) r = Option.bind (http_header_line l r) (http_header_lines ls)"

definition http_head :: "string \<Rightarrow> HttpClientResponse \<Rightarrow> HttpClientResponse option" where
  "http_head header_str r =
     (case split_str header_str (CHR 0x0D) [CHR 0x0A] of
        [] \<Rightarrow> Some r
      | l # ls \<Rightarrow> Option.bind (http_status_line l r) (http_header_lines ls))"

section \<open>The handshake\<close>

record WsClient =
  wsc_session :: WsSession
  wsc_http_ready :: bool
  wsc_key :: string
  wsc_resp :: "HttpClientResponse option"

definition WsClient_init :: "string \<Rightarrow> WsClient" where
  "WsClient_init key = \<lparr>wsc_session = WsSession_init, wsc_http_ready = False, wsc_key = key, wsc_resp = None\<rparr>"

fun nat_text :: "nat \<Rightarrow> string" where
  "nat_text n = (if n < 10 then [char_of (48 + n)] else nat_text (n div 10) @ [char_of (48 + n mod 10)])"

definition int_text :: "int \<Rightarrow> string" where
  "int_text i = (if i < 0 then ''-'' @ nat_text (nat (- i)) else nat_text (nat i))"

text \<open>\<^verbatim>\<open>ss\<close> still holds the headers when a message is written to it: \<^verbatim>\<open>clear\<close> does not empty it.\<close>

definition headers_text :: "(string \<times> string) list \<Rightarrow> string" where
  "headers_text hs = ''{'' @ concat (map (\<lambda>(k, v). '' '' @ k @ '':'' @ v) hs) @ ''}''"

definition set_connected :: "bool \<Rightarrow> WsClient \<Rightarrow> WsClient" where
  "set_connected b st = st\<lparr>wsc_session := (wsc_session st)\<lparr>wss_is_connected := b\<rparr>\<rparr>"

definition handshake_failed :: "string \<Rightarrow> HttpClientResponse \<Rightarrow> WsClient \<Rightarrow> ws_event list \<times> WsClient" where
  "handshake_failed desc r st = ([EvClosed (-1) desc], (set_connected False st)\<lparr>wsc_resp := Some r\<rparr>)"

text \<open>\<open>hash\<close> is \<^verbatim>\<open>GenWebSocketHashcode\<close> of the build.\<close>

definition HandleHttpRespone ::
  "(string \<Rightarrow> string) \<Rightarrow> HttpClientResponse \<Rightarrow> WsClient \<Rightarrow> ws_event list \<times> WsClient" where
  "HandleHttpRespone hash r st =
     (let ss = headers_text (hr_headers r)
      in if hr_status_code r \<noteq> 101
         then handshake_failed (ss @ ''websocket http response code error:'' @ int_text (hr_status_code r)) r st
         else
           (let (connection_desc, hs1) = headers_at ''Connection'' (hr_headers r)
            in if connection_desc \<noteq> ''Upgrade'' \<and> connection_desc \<noteq> ''upgrade''
               then handshake_failed (ss @ ''websocket http response Connection error:'' @ connection_desc)
                      (r\<lparr>hr_headers := hs1\<rparr>) st
               else
                 (let (upgrade_desc, hs2) = headers_at connection_desc hs1
                  in if upgrade_desc \<noteq> ''websocket''
                     then handshake_failed (ss @ ''websocket http response Upgrade error:'' @ connection_desc)
                            (r\<lparr>hr_headers := hs2\<rparr>) st
                     else
                       (let hash_code = hash (Base64Encode (text_bytes (wsc_key st)));
                            (accept_hash, hs3) = headers_at ''sec-websocket-accept'' hs2
                        in if hash_code \<noteq> accept_hash
                           then handshake_failed
                                  (ss @ ''websocket http response Sec-WebSocket-Accept error, response:'' @ accept_hash
                                     @ '', local hash:'' @ hash_code) (r\<lparr>hr_headers := hs3\<rparr>) st
                           else ([EvConnected],
                                 (set_connected True st)\<lparr>wsc_http_ready := True,
                                    wsc_resp := Some (r\<lparr>hr_headers := hs3, hr_data := DataBuffer_Reset (hr_data r)\<rparr>)\<rparr>)))))"

text \<open>\<^verbatim>\<open>OnHttpRead\<close> of the web socket; the response is \<open>wsc_resp\<close>.\<close>

definition OnHttpRead :: "(string \<Rightarrow> string) \<Rightarrow> int \<Rightarrow> int \<Rightarrow> WsClient \<Rightarrow> (ws_event list \<times> WsClient) option" where
  "OnHttpRead hash now ret st =
     (if ret < 0 then Some ([EvClosed (-1) ''http read error''], set_connected False st)
      else (case wsc_resp st of
          None \<Rightarrow> None
        | Some r \<Rightarrow>
            if \<not> wsc_http_ready st then Some (HandleHttpRespone hash r st)
            else do {
              (_, ev, s) \<leftarrow> HandleFrame now (hr_data r) (wsc_session st);
              Some (ev, st\<lparr>wsc_session := s, wsc_resp := Some (r\<lparr>hr_data := DataBuffer_Reset (hr_data r)\<rparr>)\<rparr>) }))"

section \<open>Reading\<close>

definition bytes_text :: "u8 list \<Rightarrow> string" where
  "bytes_text bs = map (\<lambda>b. char_of (unat b)) bs"

text \<open>The callback at the end of \<^verbatim>\<open>HttpClient::OnRead\<close>.\<close>

definition http_deliver :: "(string \<Rightarrow> string) \<Rightarrow> int \<Rightarrow> HttpClientResponse \<Rightarrow> WsClient
    \<Rightarrow> (ws_event list \<times> WsClient) option" where
  "http_deliver hash now r st =
     (if hr_content_length r > 0
      then if to_int32 (int (DataLen (hr_data r))) \<ge> hr_content_length r
           then OnHttpRead hash now 0 (st\<lparr>wsc_resp := Some (r\<lparr>hr_body_ready := True\<rparr>)\<rparr>)
           else Some ([], st\<lparr>wsc_resp := Some r\<rparr>)
      else OnHttpRead hash now 0 (st\<lparr>wsc_resp := Some r\<rparr>))"

definition head_end :: string where "head_end = [CHR 0x0D, CHR 0x0A, CHR 0x0D, CHR 0x0A]"

text \<open>\<^verbatim>\<open>HttpClient::OnRead\<close> up to its recursive call, and the bytes that call gets. The length of
  the bytes behind the head is taken from the size of this read.\<close>

definition http_read :: "(string \<Rightarrow> string) \<Rightarrow> int \<Rightarrow> u8 list \<Rightarrow> WsClient
    \<Rightarrow> (ws_event list \<times> WsClient \<times> u8 list option) option" where
  "http_read hash now data st =
     (let data_size = length data;
          r0 = (case wsc_resp st of None \<Rightarrow> HttpClientResponse_init | Some r \<Rightarrow> r)
      in do {
        (_, b) \<leftarrow> AppendData (Some data) data_size (hr_data r0);
        (let r1 = r0\<lparr>hr_data := b\<rparr>
         in if hr_header_ready r1
            then map_option (\<lambda>(ev, st'). (ev, st', None)) (http_deliver hash now r1 st)
            else (let header_str = bytes_text (take (DataLen b) (DataBuffer_Data b))
                  in case str_find head_end header_str of
                      None \<Rightarrow> Some ([], st\<lparr>wsc_resp := Some r1\<rparr>, None)
                    | Some pos \<Rightarrow>
                        (let has_websocket_together = data_size > pos + 4;
                             tcp_coalescence_offset = (if has_websocket_together then data_size - 4 - pos else 0);
                             r2 = r1\<lparr>hr_header_ready := True, hr_data := snd (ConsumeData (int (pos + 4)) b)\<rparr>
                         in do {
                           r3 \<leftarrow> http_head (take pos header_str) r2;
                           (ev, st') \<leftarrow> http_deliver hash now r3 st;
                           Some (ev, st', if has_websocket_together
                             then Some (drop (data_size - tcp_coalescence_offset) data) else None) }))) })"

partial_function (option) http_OnRead :: "(string \<Rightarrow> string) \<Rightarrow> int \<Rightarrow> int \<Rightarrow> u8 list \<Rightarrow> WsClient
    \<Rightarrow> (ws_event list \<times> WsClient) option" where
  "http_OnRead hash now ret_code data st =
     (if ret_code < 0 then OnHttpRead hash now ret_code st
      else if data = [] then OnHttpRead hash now (-2) st
      else do {
        (ev, st1, more) \<leftarrow> http_read hash now data st;
        (case more of
           None \<Rightarrow> Some (ev, st1)
         | Some rest \<Rightarrow> do { (ev', st2) \<leftarrow> http_OnRead hash now 0 rest st1; Some (ev @ ev', st2) }) })"

section \<open>When a handshake succeeds\<close>

definition header_value :: "string \<Rightarrow> HttpClientResponse \<Rightarrow> string" where
  "header_value k r = (case map_of (hr_headers r) k of Some v \<Rightarrow> v | None \<Rightarrow> [])"

text \<open>The second line asks for the header that is named like the value of the first one.\<close>

definition handshake_ok :: "(string \<Rightarrow> string) \<Rightarrow> string \<Rightarrow> HttpClientResponse \<Rightarrow> bool" where
  "handshake_ok hash key r \<longleftrightarrow> hr_status_code r = 101
     \<and> header_value ''Connection'' r \<in> {''Upgrade'', ''upgrade''}
     \<and> header_value (header_value ''Connection'' r) r = ''websocket''
     \<and> header_value ''sec-websocket-accept'' r = hash (Base64Encode (text_bytes key))"

lemma map_of_headers_set: "map_of (headers_set k v hs) = (map_of hs)(k \<mapsto> v)"
  by (induction k v hs rule: headers_set.induct) auto

lemma headers_at_value:
  assumes "headers_at k hs = (v, hs')"
  shows "v = (case map_of hs k of Some v \<Rightarrow> v | None \<Rightarrow> [])"
    "(case map_of hs' k' of Some v \<Rightarrow> v | None \<Rightarrow> []) = (case map_of hs k' of Some v \<Rightarrow> v | None \<Rightarrow> [])"
  using assms by (auto simp: headers_at_def map_of_headers_set split: option.splits if_splits)

text \<open>Looking a header up with \<^verbatim>\<open>operator[]\<close> enters it, with an empty value, which changes no later lookup.\<close>

definition same_headers :: "(string \<times> string) list \<Rightarrow> (string \<times> string) list \<Rightarrow> bool" where
  "same_headers hs hs' \<longleftrightarrow> (\<forall>k. (case map_of hs k of Some v \<Rightarrow> v | None \<Rightarrow> []) = (case map_of hs' k of Some v \<Rightarrow> v | None \<Rightarrow> []))"

lemma same_headers_at: "headers_at k hs = (v, hs') \<Longrightarrow> same_headers hs hs0 \<Longrightarrow> same_headers hs' hs0"
  using headers_at_value(2) by (auto simp: same_headers_def)

lemma same_headers_ok: "same_headers hs (hr_headers r) \<Longrightarrow> handshake_ok hash key (r\<lparr>hr_headers := hs\<rparr>) = handshake_ok hash key r"
  by (simp add: same_headers_def handshake_ok_def header_value_def)

lemma handshake_cases:
  assumes "HandleHttpRespone hash r st = (ev, st')"
  shows "if handshake_ok hash (wsc_key st) r
    then ev = [EvConnected] \<and> wsc_http_ready st' \<and> wsc_session st' = (wsc_session st)\<lparr>wss_is_connected := True\<rparr>
      \<and> (\<exists>hs. wsc_resp st' = Some (r\<lparr>hr_headers := hs, hr_data := DataBuffer_Reset (hr_data r)\<rparr>))
    else (\<exists>desc. ev = [EvClosed (-1) desc]) \<and> wsc_http_ready st' = wsc_http_ready st
      \<and> wsc_session st' = (wsc_session st)\<lparr>wss_is_connected := False\<rparr> \<and> wsc_key st' = wsc_key st
      \<and> (\<exists>hs. wsc_resp st' = Some (r\<lparr>hr_headers := hs\<rparr>) \<and> same_headers hs (hr_headers r))"
proof -
  obtain c hs1 where c: "headers_at ''Connection'' (hr_headers r) = (c, hs1)" by fastforce
  obtain u hs2 where u: "headers_at c hs1 = (u, hs2)" by fastforce
  obtain a hs3 where a: "headers_at ''sec-websocket-accept'' hs2 = (a, hs3)" by fastforce
  have cv: "header_value ''Connection'' r = c" using headers_at_value(1) [OF c] by (simp add: header_value_def)
  have uv: "header_value c r = u"
    using headers_at_value(1) [OF u] headers_at_value(2) [OF c, of c] by (simp add: header_value_def)
  have av: "header_value ''sec-websocket-accept'' r = a"
    using headers_at_value(1) [OF a] headers_at_value(2) [OF u, of "''sec-websocket-accept''"]
      headers_at_value(2) [OF c, of "''sec-websocket-accept''"] by (simp add: header_value_def)
  have s0: "same_headers (hr_headers r) (hr_headers r)" by (simp add: same_headers_def)
  note s1 = same_headers_at [OF c s0] note s2 = same_headers_at [OF u s1] note s3 = same_headers_at [OF a s2]
  have own: "\<exists>hs. r = r\<lparr>hr_headers := hs\<rparr> \<and> same_headers hs (hr_headers r)"
    using s0 by (intro exI [of _ "hr_headers r"]) simp
  show ?thesis
    using assms own s1 s2 s3 unfolding HandleHttpRespone_def handshake_ok_def cv uv av Let_def c u a prod.case
    by (auto simp: handshake_failed_def set_connected_def split: if_splits)
qed

section \<open>Frames behind the head\<close>

lemma str_find_append: "str_find pat a = Some i \<Longrightarrow> str_find pat (a @ b) = Some i"
proof (induction a arbitrary: i)
  case Nil
  then show ?case by (cases b) (auto split: if_splits)
next
  case (Cons c cs)
  show ?case
  proof (cases "take (length pat) (c # cs) = pat")
    case True
    then have "length pat \<le> length (c # cs)" by (metis length_take min.cobounded1)
    then have "take (length pat) ((c # cs) @ b) = pat"
      using True take_append [of "length pat" "c # cs" b] by simp
    then show ?thesis using Cons.prems True by simp
  next
    case False
    then obtain j where j: "str_find pat cs = Some j" "i = Suc j" using Cons.prems by auto
    have "str_find pat (c # cs) = Some i" by (rule Cons.prems)
    have "take (length pat) ((c # cs) @ b) \<noteq> pat"
    proof
      assume t: "take (length pat) ((c # cs) @ b) = pat"
      have "length pat \<le> length (c # cs)" using str_find_bound [OF Cons.prems] by simp
      then have "take (length pat) ((c # cs) @ b) = take (length pat) (c # cs)"
        using take_append [of "length pat" "c # cs" b] by simp
      then show False using t False by simp
    qed
    then show ?thesis using Cons.IH [OF j(1)] j(2) by simp
  qed
qed

lemma str_find_prefix:
  assumes "str_find pat (a @ b) = Some i" "length a < i + length pat"
  shows "str_find pat a = None"
proof (rule ccontr)
  assume "str_find pat a \<noteq> None"
  then obtain j where j: "str_find pat a = Some j" by blast
  then have "str_find pat (a @ b) = Some j" by (rule str_find_append)
  then show False using assms str_find_bound [OF j] by simp
qed

lemma bytes_text_append: "bytes_text (xs @ ys) = bytes_text xs @ bytes_text ys"
  by (simp add: bytes_text_def)

text \<open>The text of the head does not touch the buffer and the flag.\<close>

lemma http_status_line_frame:
  "http_status_line l (r\<lparr>hr_header_ready := h, hr_data := d\<rparr>)
     = map_option (\<lambda>r. r\<lparr>hr_header_ready := h, hr_data := d\<rparr>) (http_status_line l r)"
  by (cases r) (simp add: http_status_line_def Let_def map_option_bind comp_def)

lemma http_header_line_frame:
  "http_header_line l (r\<lparr>hr_header_ready := h, hr_data := d\<rparr>)
     = map_option (\<lambda>r. r\<lparr>hr_header_ready := h, hr_data := d\<rparr>) (http_header_line l r)"
  by (cases r) (auto simp: http_header_line_def Let_def split: Option.bind_split)

lemma http_header_lines_frame:
  "http_header_lines ls (r\<lparr>hr_header_ready := h, hr_data := d\<rparr>)
     = map_option (\<lambda>r. r\<lparr>hr_header_ready := h, hr_data := d\<rparr>) (http_header_lines ls r)"
  by (induction ls arbitrary: r)
    (auto simp: http_header_line_frame map_option_bind map_option_case split: option.split)

lemma http_head_frame:
  "http_head s (r\<lparr>hr_header_ready := h, hr_data := d\<rparr>)
     = map_option (\<lambda>r. r\<lparr>hr_header_ready := h, hr_data := d\<rparr>) (http_head s r)"
  by (auto simp: http_head_def http_status_line_frame http_header_lines_frame map_option_case
      split: list.split option.split)

text \<open>The bytes of a complete head, and the response they give.\<close>

definition good_head :: "(string \<Rightarrow> string) \<Rightarrow> string \<Rightarrow> u8 list \<Rightarrow> bool" where
  "good_head hash key H \<longleftrightarrow> 4 \<le> length H \<and> str_find head_end (bytes_text H) = Some (length H - 4)
     \<and> (\<exists>r. http_head (take (length H - 4) (bytes_text H)) HttpClientResponse_init = Some r
          \<and> hr_content_length r \<le> 0 \<and> handshake_ok hash key r)"

definition complete_head :: "u8 list \<Rightarrow> HttpClientResponse \<Rightarrow> bool" where
  "complete_head H r \<longleftrightarrow> 4 \<le> length H \<and> str_find head_end (bytes_text H) = Some (length H - 4)
     \<and> http_head (take (length H - 4) (bytes_text H)) HttpClientResponse_init = Some r \<and> hr_content_length r \<le> 0"

text \<open>An empty receive buffer with all its room, and the client before and after the handshake.\<close>

definition db_fresh :: "DataBuffer \<Rightarrow> bool" where
  "db_fresh b \<longleftrightarrow> db_inv b \<and> db_contents b = [] \<and> db_end b = 200 \<and> db_buffer_size b = 10240"

definition connected_session :: WsSession where
  "connected_session = WsSession_init\<lparr>wss_is_connected := True\<rparr>"

definition after_handshake :: "WsClient \<Rightarrow> bool" where
  "after_handshake st \<longleftrightarrow> wsc_http_ready st \<and> wsc_session st = connected_session
     \<and> (\<exists>r. wsc_resp st = Some r \<and> hr_header_ready r \<and> hr_content_length r \<le> 0 \<and> db_fresh (hr_data r))"

lemma db_fresh_init: "db_fresh (DataBuffer_init (nat EXTRA_LEN))"
  by (simp add: db_fresh_def db_inv_init db_contents_init EXTRA_LEN_def)
    (simp add: DataBuffer_init_def PRE_RESERVE_HEADER_SIZE_def)

lemma append_room:
  assumes b: "db_inv b" and room: "db_end b + int (length xs) + 200 \<le> int (db_buffer_size b)"
    and small: "db_buffer_size b = 10240"
  shows "\<exists>r b1. AppendData (Some xs) (length xs) b = Some (r, b1) \<and> db_inv b1 \<and> db_contents b1 = db_contents b @ xs
    \<and> db_end b1 = db_end b + int (length xs) \<and> db_buffer_size b1 = db_buffer_size b"
proof -
  have "\<not> db_moves (length xs) b" using room by (simp add: db_moves_def)
  moreover have "int (length (db_contents b) + length xs) + 20 * 1024 < 2 ^ 31"
    using b by (rule db_inv_cursors) (use room small in simp)
  ultimately obtain r b1 where b1: "AppendData (Some xs) (length xs) b = Some (r, b1)" "db_inv b1"
      "db_contents b1 = db_contents b @ xs"
    using AppendData_works [OF b, of xs "[]"] by auto
  then show ?thesis using AppendData_room [OF b room, of "[]" r b1] by auto
qed

lemma Reset_fresh: "db_inv b \<Longrightarrow> db_buffer_size b = 10240 \<Longrightarrow> db_fresh (DataBuffer_Reset b)"
  using Reset_works [of b] by (simp add: db_fresh_def) (simp add: DataBuffer_Reset_def PRE_RESERVE_HEADER_SIZE_def)

text \<open>The client while it waits for the head: some of its bytes may be in the buffer.\<close>

definition before_head :: "string \<Rightarrow> u8 list \<Rightarrow> WsClient \<Rightarrow> bool" where
  "before_head key P st \<longleftrightarrow> \<not> wsc_http_ready st \<and> wsc_session st = WsSession_init \<and> wsc_key st = key
     \<and> (\<exists>b. (case wsc_resp st of None \<Rightarrow> HttpClientResponse_init | Some r \<Rightarrow> r) = HttpClientResponse_init\<lparr>hr_data := b\<rparr>
          \<and> db_inv b \<and> db_contents b = P \<and> db_end b = 200 + int (length P) \<and> db_buffer_size b = 10240)"

lemma before_head_init: "before_head key [] (WsClient_init key)"
  using db_fresh_init
  by (auto simp: before_head_def WsClient_init_def db_fresh_def HttpClientResponse_init_def
      intro!: exI [of _ "DataBuffer_init (nat EXTRA_LEN)"])

lemma header_bytes: "db_inv b \<Longrightarrow> take (DataLen b) (DataBuffer_Data b) = db_contents b"
  by (simp add: DataLen_contents Data_contents)

text \<open>A read without the end of the head, and one with it.\<close>

lemma http_read_incomplete:
  assumes st: "before_head key P st" and n: "length P + length D \<le> 9840"
    and part: "str_find head_end (bytes_text (P @ D)) = None"
  shows "\<exists>st1. http_read hash now D st = Some ([], st1, None) \<and> before_head key (P @ D) st1"
proof -
  obtain b where b: "(case wsc_resp st of None \<Rightarrow> HttpClientResponse_init | Some r \<Rightarrow> r) = HttpClientResponse_init\<lparr>hr_data := b\<rparr>"
      "db_inv b" "db_contents b = P" "db_end b = 200 + int (length P)" "db_buffer_size b = 10240"
    using st by (auto simp: before_head_def)
  obtain r b1 where b1: "AppendData (Some D) (length D) b = Some (r, b1)" "db_inv b1" "db_contents b1 = P @ D"
      "db_end b1 = db_end b + int (length D)" "db_buffer_size b1 = 10240"
    using append_room [OF b(2), of D] b n by auto
  let ?r = "HttpClientResponse_init\<lparr>hr_data := b1\<rparr>"
  have "http_read hash now D st = Some ([], st\<lparr>wsc_resp := Some ?r\<rparr>, None)"
    using b1 part by (simp add: http_read_def Let_def b(1) header_bytes) (simp add: HttpClientResponse_init_def)
  moreover have "before_head key (P @ D) (st\<lparr>wsc_resp := Some ?r\<rparr>)"
    using st b b1 by (auto simp: before_head_def)
  ultimately show ?thesis by blast
qed

lemma http_read_answer:
  assumes st: "before_head key P st" and n: "length P + length D \<le> 9840"
    and head: "complete_head H r" and all: "P @ D = H @ F"
  shows "\<exists>d. db_inv d \<and> db_buffer_size d = 10240 \<and> db_end d = 200 + int (length (H @ F))
    \<and> (let r1 = r\<lparr>hr_header_ready := True, hr_data := d\<rparr>; (ev, st1) = HandleHttpRespone hash r1 (st\<lparr>wsc_resp := Some r1\<rparr>)
       in http_read hash now D st = Some (ev, st1, if length D > length H then Some (drop (length H) D) else None))"
proof -
  obtain b where b: "(case wsc_resp st of None \<Rightarrow> HttpClientResponse_init | Some r \<Rightarrow> r) = HttpClientResponse_init\<lparr>hr_data := b\<rparr>"
      "db_inv b" "db_contents b = P" "db_end b = 200 + int (length P)" "db_buffer_size b = 10240"
    using st by (auto simp: before_head_def)
  obtain x b1 where b1: "AppendData (Some D) (length D) b = Some (x, b1)" "db_inv b1" "db_contents b1 = H @ F"
      "db_end b1 = 200 + int (length P) + int (length D)" "db_buffer_size b1 = 10240"
    using append_room [OF b(2), of D] b n all by auto
  have PD: "int (length P) + int (length D) = int (length (H @ F))"
    using arg_cong [OF all, of length] by simp
  note H = head [unfolded complete_head_def]
  have found: "str_find head_end (bytes_text (H @ F)) = Some (length H - 4)"
    using str_find_append H by (simp add: bytes_text_append)
  have htext: "take (length H - 4) (bytes_text (H @ F)) = take (length H - 4) (bytes_text H)"
    by (simp add: bytes_text_append) (simp add: bytes_text_def)
  let ?d = "snd (ConsumeData (int (length H)) b1)"
  have d: "db_inv ?d" using ConsumeData_works(1) [OF b1(2), of "length H"] b1(3) by simp
  have dsize: "db_buffer_size ?d = 10240" "db_end ?d = 200 + int (length (H @ F))"
    using b1(4,5) PD by (simp_all add: ConsumeData_def Let_def)
  let ?r = "r\<lparr>hr_header_ready := True, hr_data := ?d\<rparr>"
  have parsed: "http_head (take (length H - 4) (bytes_text (H @ F)))
      (HttpClientResponse_init\<lparr>hr_data := b1, hr_header_ready := True, hr_data := ?d\<rparr>) = Some ?r"
    using http_head_frame [where s = "take (length H - 4) (bytes_text H)" and r = HttpClientResponse_init and h = True and d = ?d] H
    by (simp add: htext HttpClientResponse_init_def)
  obtain ev st1 where hs: "HandleHttpRespone hash ?r (st\<lparr>wsc_resp := Some ?r\<rparr>) = (ev, st1)" by fastforce
  have deliver: "http_deliver hash now ?r st = Some (ev, st1)"
    using H hs st by (simp add: http_deliver_def OnHttpRead_def before_head_def)
  have four: "length H - 4 + 4 = length H" using H by simp
  have flag: "\<not> hr_header_ready (HttpClientResponse_init\<lparr>hr_data := b1\<rparr>)"
    by (simp add: HttpClientResponse_init_def)
  have offset: "length D - (length D - 4 - (length H - 4)) = length H" if "length D > length H"
    using that H by simp
  have btext: "bytes_text (take (DataLen b1) (DataBuffer_Data b1)) = bytes_text (H @ F)"
    using header_bytes [OF b1(2)] b1(3) by simp
  have "http_read hash now D st = Some (ev, st1, if length D > length H then Some (drop (length H) D) else None)"
    using deliver parsed flag offset
    by (simp add: http_read_def Let_def b(1) b1(1) btext found four cong: if_cong)
  then show ?thesis using d dsize hs by (intro exI [of _ ?d]) simp
qed

lemma http_read_head:
  assumes st: "before_head key P st" and n: "length P + length D \<le> 9840"
    and head: "good_head hash key H" and all: "P @ D = H @ F"
  shows "\<exists>st1. http_read hash now D st = Some ([EvConnected], st1, if length D > length H then Some (drop (length H) D) else None)
    \<and> after_handshake st1"
proof -
  obtain r where r: "complete_head H r" "handshake_ok hash key r" using head by (auto simp: good_head_def complete_head_def)
  from http_read_answer [OF st n r(1) all, of hash now] obtain d where d: "db_inv d" "db_buffer_size d = 10240"
      "let r1 = r\<lparr>hr_header_ready := True, hr_data := d\<rparr>; (ev, st1) = HandleHttpRespone hash r1 (st\<lparr>wsc_resp := Some r1\<rparr>)
       in http_read hash now D st = Some (ev, st1, if length D > length H then Some (drop (length H) D) else None)" by blast
  let ?r = "r\<lparr>hr_header_ready := True, hr_data := d\<rparr>"
  obtain ev st1 where hs: "HandleHttpRespone hash ?r (st\<lparr>wsc_resp := Some ?r\<rparr>) = (ev, st1)" by fastforce
  have ok: "handshake_ok hash (wsc_key (st\<lparr>wsc_resp := Some ?r\<rparr>)) ?r"
    using r(2) st by (simp add: handshake_ok_def header_value_def before_head_def)
  note hcase = handshake_cases [OF hs, unfolded if_P [OF ok]]
  have "after_handshake st1"
    using hcase st r(1) Reset_fresh [OF d(1,2)]
    by (auto simp: after_handshake_def before_head_def connected_session_def complete_head_def)
  then show ?thesis using d(3) hs hcase by (auto simp: Let_def)
qed

text \<open>Frames that come once the client is connected, and those behind the head.\<close>

lemma http_OnRead_frames:
  assumes st: "after_handshake st" and F: "F \<noteq> []" "length F \<le> 9840" "stream_ok F"
  shows "\<exists>ev st'. http_OnRead hash now 0 F st = Some (ev, st') \<and> session_after F connected_session ev (wsc_session st')
    \<and> wsc_http_ready st'"
proof -
  obtain r where r: "wsc_resp st = Some r" "hr_header_ready r" "hr_content_length r \<le> 0" "db_fresh (hr_data r)"
      "wsc_http_ready st" "wsc_session st = connected_session"
    using st by (auto simp: after_handshake_def)
  have fresh: "db_inv (hr_data r)" "db_contents (hr_data r) = []" "db_end (hr_data r) = 200"
      "db_buffer_size (hr_data r) = 10240"
    using r(4) by (simp_all add: db_fresh_def)
  obtain x b where b: "AppendData (Some F) (length F) (hr_data r) = Some (x, b)" "db_inv b" "db_contents b = F"
    using append_room [OF fresh(1), of F] fresh F(2) by auto
  have init: "frame_inv (wss_frame connected_session)" "frame_contents (wss_frame connected_session) = []"
      "wss_frame connected_session = wss_frame WsSession_init"
    using WsSession_init_facts by (simp_all add: connected_session_def)
  have stay: "\<not> db_moves (length F) (wf_buffer (wss_frame connected_session))"
    using WsSession_init_facts(3) F(2) by (simp add: db_moves_def buf_room_def init(3))
  obtain ret ev s where s: "HandleFrame now b connected_session = Some (ret, ev, s)" "session_after F connected_session ev s"
    using HandleFrame_works [OF init(1) b(2), of now] stay F by (auto simp: b(3) init(2))
  have "\<exists>st'. http_read hash now F st = Some (ev, st', None) \<and> wsc_session st' = s \<and> wsc_http_ready st'"
    using r b(1) s(1) by (simp add: http_read_def http_deliver_def OnHttpRead_def)
  then show ?thesis using F(1) s(2) by (subst http_OnRead.simps) auto
qed

lemma http_OnRead_behind_head:
  assumes "before_head key P st" "good_head hash key H" "P @ D = H @ F" "D \<noteq> []" "length P + length D \<le> 9840"
    "stream_ok (drop (length H) D)"
  shows "\<exists>ev st'. http_OnRead hash now 0 D st = Some (EvConnected # ev, st')
    \<and> session_after (drop (length H) D) connected_session ev (wsc_session st') \<and> wsc_http_ready st'"
proof -
  obtain st1 where st1: "after_handshake st1" "http_read hash now D st
      = Some ([EvConnected], st1, if length D > length H then Some (drop (length H) D) else None)"
    using http_read_head [OF assms(1,5,2,3)] by blast
  show ?thesis
  proof (cases "length D > length H")
    case True
    then obtain ev st' where "http_OnRead hash now 0 (drop (length H) D) st1 = Some (ev, st')"
        "session_after (drop (length H) D) connected_session ev (wsc_session st')" "wsc_http_ready st'"
      using http_OnRead_frames [OF st1(1), of "drop (length H) D" hash now] assms(5,6) by force
    then show ?thesis using True st1(2) assms(4) by (subst http_OnRead.simps) simp
  next
    case False
    then have "session_after (drop (length H) D) connected_session [] (wsc_session st1) \<and> wsc_http_ready st1"
      using st1(1) WsSession_init_facts
      by (simp add: session_after_def ws_stream_Nil after_handshake_def connected_session_def)
    then show ?thesis using False st1(2) assms(4) by (subst http_OnRead.simps) simp
  qed
qed

text \<open>Claim C8. Frames that come in the same read as the whole head of the answer are not lost: the client
  reports the connection once and then does with them exactly what a session does with their bytes.\<close>

theorem frames_behind_head:
  assumes "good_head hash key H" "stream_ok F" "length (H @ F) \<le> 9840"
  shows "\<exists>ev st'. http_OnRead hash now 0 (H @ F) (WsClient_init key) = Some (EvConnected # ev, st')
    \<and> spec_frames (fst (ws_stream F)) (ws_view connected_session) = (ev, ws_view (wsc_session st'))
    \<and> frame_contents (wss_frame (wsc_session st')) = snd (ws_stream F)"
proof -
  have "H @ F \<noteq> []" using assms(1) by (auto simp: good_head_def)
  then show ?thesis
    using http_OnRead_behind_head [OF before_head_init assms(1), of "H @ F" F now] assms(2,3)
    by (auto simp: session_after_def)
qed

text \<open>A head, as bytes.\<close>

definition crlf :: string where "crlf = [CHR 0x0D, CHR 0x0A]"

definition example_head :: string where
  "example_head = ''HTTP/1.1 101 OK'' @ crlf @ ''Connection: Upgrade'' @ crlf @ ''Upgrade: websocket'' @ crlf
     @ ''sec-websocket-accept: ok'' @ crlf @ crlf"

lemma bytes_text_text_bytes: "bytes_text (text_bytes s) = s"
proof -
  have "char_of (unat (of_char c :: u8)) = c" for c
  proof -
    have "unat (of_char c :: u8) = of_char c mod 2 ^ 8"
      using unat_of_nat [where 'a = 8, of "of_char c", unfolded of_nat_of_char] by simp
    then show ?thesis by (simp add: take_bit_eq_mod [symmetric] char_of_take_bit_eq)
  qed
  then show ?thesis by (simp add: bytes_text_def text_bytes_def comp_def)
qed

lemma example_status_line:
  "http_status_line ''HTTP/1.1 101 OK'' r
    = Some (r\<lparr>hr_proto := ''HTTP'', hr_version := ''1.1'', hr_status_code := 101, hr_status := ''OK''\<rparr>)"
  by (simp add: http_status_line_def split_str_def Let_def atoi_def is_space_def is_digit_def digits_value_def
      int32_result_def)

lemma example_head_lines:
  "str_find head_end example_head = Some (length example_head - 4)"
  "split_str (take (length example_head - 4) example_head) (CHR 0x0D) [CHR 0x0A]
    = [''HTTP/1.1 101 OK'', ''Connection: Upgrade'', ''Upgrade: websocket'', ''sec-websocket-accept: ok'']"
  by (simp_all add: example_head_def head_end_def crlf_def split_str_def Let_def)

lemma example_head_good: "good_head (\<lambda>k. ''ok'') key (text_bytes example_head)"
proof -
  have n: "length (text_bytes example_head) = length example_head" "4 \<le> length example_head"
    by (simp_all add: text_bytes_def example_head_def crlf_def)
  show ?thesis
    unfolding good_head_def n(1) bytes_text_text_bytes example_head_lines
    using n(2) by (auto simp: http_head_def example_head_lines example_status_line http_header_line_def
        Let_def handshake_ok_def header_value_def map_of_headers_set HttpClientResponse_init_def)
qed

lemma frames_behind_head_witness:
  "\<exists>ev st'. http_OnRead (\<lambda>k. ''ok'') 5 0 (text_bytes example_head @ [0x81, 1, 0x41]) (WsClient_init ''k'')
      = Some ([EvConnected, EvText 0 [0x41]], st')"
proof -
  have "fst (spec_frames [(True, WS_OP_TEXT_TYPE, [0x41])] (ws_view connected_session)) = [EvText 0 [0x41]]"
    using WsSession_init_facts(4)
    by (simp add: spec_message_def HandleWsData_def ws_op_defs connected_session_def ws_view_def)
  moreover have "stream_ok [0x81, 1, 0x41]" "ws_stream [0x81, 1, 0x41] = ([(True, WS_OP_TEXT_TYPE, [0x41])], [])"
    using text_frame_example
    by (simp_all add: stream_ok_Cons stream_ok_Nil ws_stream_Cons ws_stream_Nil)
  moreover have "length (text_bytes example_head @ [0x81, 1, 0x41]) \<le> 9840"
    by (simp add: text_bytes_def example_head_def crlf_def)
  ultimately show ?thesis
    using frames_behind_head [OF example_head_good, of "[0x81, 1, 0x41]" 5 "''k''"] by fastforce
qed

section \<open>The handshake\<close>

lemma session_says_nothing_of_connecting: "EvConnected \<notin> set (fst (spec_frames fs v))"
proof (induction fs arbitrary: v)
  case (Cons f fs)
  obtain fin op payload where f: "f = (fin, op, payload)" by (cases f)
  have data: "EvConnected \<notin> set (HandleWsData d code)" for d code by (simp add: HandleWsData_def)
  have "EvConnected \<notin> set (fst (spec_closes ds w))" for ds w
    by (cases ds) (auto simp: close_reply_def SendClose_def Let_def)
  then have "EvConnected \<notin> set (fst (spec_message op w))" for w
    using data by (auto simp: spec_message_def)
  then show ?case using Cons by (simp add: f split_beta Let_def)
qed simp

text \<open>An answer that is refused is refused again for the bytes behind its head.\<close>

lemma refused_answer:
  assumes head: "complete_head H r" and n: "length (H @ F @ F) \<le> 9840" and no: "\<not> handshake_ok hash key r"
  shows "\<exists>d1 d2 st'. http_OnRead hash now 0 (H @ F) (WsClient_init key)
      = Some (EvClosed (-1) d1 # (if F = [] then [] else [EvClosed (-1) d2]), st')
    \<and> \<not> wsc_http_ready st' \<and> \<not> wss_is_connected (wsc_session st')"
proof -
  let ?st = "WsClient_init key"
  have HF: "length [] + length (H @ F) \<le> 9840" "[] @ (H @ F) = H @ F" "H @ F \<noteq> []"
    using n head by (auto simp: complete_head_def)
  from http_read_answer [OF before_head_init HF(1) head HF(2), where hash = hash and now = now and key = key] obtain d where d: "db_inv d"
      "db_buffer_size d = 10240" "db_end d = 200 + int (length (H @ F))"
      "let r1 = r\<lparr>hr_header_ready := True, hr_data := d\<rparr>; (ev, st1) = HandleHttpRespone hash r1 (?st\<lparr>wsc_resp := Some r1\<rparr>)
       in http_read hash now (H @ F) ?st = Some (ev, st1, if length (H @ F) > length H then Some (drop (length H) (H @ F)) else None)"
    by blast
  let ?r = "r\<lparr>hr_header_ready := True, hr_data := d\<rparr>"
  obtain ev st1 where hs: "HandleHttpRespone hash ?r (?st\<lparr>wsc_resp := Some ?r\<rparr>) = (ev, st1)" by fastforce
  have no1: "\<not> handshake_ok hash key ?r" using no by (simp add: handshake_ok_def header_value_def)
  obtain desc1 hs1 where one: "ev = [EvClosed (-1) desc1]" "\<not> wsc_http_ready st1" "wsc_key st1 = key"
      "\<not> wss_is_connected (wsc_session st1)" "wsc_resp st1 = Some (?r\<lparr>hr_headers := hs1\<rparr>)" "same_headers hs1 (hr_headers ?r)"
    using handshake_cases [OF hs] no1 by (auto simp: WsClient_init_def)
  have read: "http_read hash now (H @ F) ?st = Some (ev, st1, if F = [] then None else Some F)"
    using d(4) hs by (simp add: Let_def)
  show ?thesis
  proof (cases "F = []")
    case True
    then show ?thesis using read one HF(3) by (subst http_OnRead.simps) auto
  next
    case False
    obtain x b where b: "AppendData (Some F) (length F) d = Some (x, b)"
      using append_room [OF d(1), of F] d(2,3) n by auto
    let ?r2 = "?r\<lparr>hr_headers := hs1, hr_data := b\<rparr>"
    obtain ev2 st2 where hs2: "HandleHttpRespone hash ?r2 (st1\<lparr>wsc_resp := Some ?r2\<rparr>) = (ev2, st2)" by fastforce
    have "\<not> handshake_ok hash key ?r2"
      using no1 same_headers_ok [OF one(6)] by (simp add: handshake_ok_def header_value_def)
    then obtain desc2 where two: "ev2 = [EvClosed (-1) desc2]" "\<not> wsc_http_ready st2" "\<not> wss_is_connected (wsc_session st2)"
      using handshake_cases [OF hs2] one(2,3) by auto
    have "http_read hash now F st1 = Some (ev2, st2, None)"
      using b hs2 one(2,5) head
      by (simp add: http_read_def http_deliver_def OnHttpRead_def complete_head_def)
    then have "http_OnRead hash now 0 F st1 = Some (ev2, st2)"
      using False by (subst http_OnRead.simps) simp
    then have "http_OnRead hash now 0 (H @ F) ?st = Some (ev @ ev2, st2)"
      using read False HF(3) by (subst http_OnRead.simps) simp
    then show ?thesis using one(1) two False by auto
  qed
qed

text \<open>Claim C35. What the client makes of an answer to its request for an upgrade whose head comes in one
  read and announces no body: it succeeds exactly for the status 101, a \<^verbatim>\<open>Connection\<close> header that is
  \<^verbatim>\<open>Upgrade\<close> or \<^verbatim>\<open>upgrade\<close>, the value \<^verbatim>\<open>websocket\<close> under a header named like that value (not, as it should
  be, under \<^verbatim>\<open>Upgrade\<close>), and the accept key of the client's key under \<^verbatim>\<open>sec-websocket-accept\<close> in lower
  case. Then it says once that it is connected, before anything else. Any other answer leaves it
  unconnected and its callback hears of a close with code -1: once if nothing comes behind the head in
  the same read, and twice if something does. The bytes may be any that fit the buffer twice and, for
  frames, announce no length of \<open>2\<^sup>6\<^sup>3\<close>.\<close>

theorem handshake_iff:
  assumes "complete_head H r" "length (H @ F @ F) \<le> 9840" "stream_ok F"
  shows "\<exists>ev st'. http_OnRead hash now 0 (H @ F) (WsClient_init key) = Some (ev, st')
    \<and> (wsc_http_ready st' \<longleftrightarrow> handshake_ok hash key r)
    \<and> (if handshake_ok hash key r
       then \<exists>rest. ev = EvConnected # rest \<and> EvConnected \<notin> set rest
       else \<not> wss_is_connected (wsc_session st')
         \<and> (\<exists>d1 d2. ev = EvClosed (-1) d1 # (if F = [] then [] else [EvClosed (-1) d2])))"
proof (cases "handshake_ok hash key r")
  case True
  then have good: "good_head hash key H" using assms(1) by (auto simp: good_head_def complete_head_def)
  have "H @ F \<noteq> []" "length [] + length (H @ F) \<le> 9840" using assms(1,2) by (auto simp: complete_head_def)
  then obtain rest st' where run: "http_OnRead hash now 0 (H @ F) (WsClient_init key) = Some (EvConnected # rest, st')"
      "session_after F connected_session rest (wsc_session st')" "wsc_http_ready st'"
    using http_OnRead_behind_head [OF before_head_init good, of "H @ F" F now] assms(3) by auto
  have "EvConnected \<notin> set rest"
    using run(2) session_says_nothing_of_connecting [of "fst (ws_stream F)" "ws_view connected_session"]
    by (simp add: session_after_def)
  then show ?thesis using run True by auto
next
  case False
  then show ?thesis using refused_answer [OF assms(1,2) False, of now] by auto
qed

lemma handshake_iff_witness:
  "\<exists>d1 d2 st'. http_OnRead (\<lambda>k. ''other'') 5 0 (text_bytes example_head @ [0x81, 1, 0x41]) (WsClient_init ''k'')
      = Some ([EvClosed (-1) d1, EvClosed (-1) d2], st')"
proof -
  obtain r where r: "complete_head (text_bytes example_head) r" "handshake_ok (\<lambda>k. ''ok'') ''k'' r"
    using example_head_good [of "''k''"] by (auto simp: good_head_def complete_head_def)
  then have "\<not> handshake_ok (\<lambda>k. ''other'') ''k'' r" by (auto simp: handshake_ok_def)
  moreover have "stream_ok [0x81, 1, 0x41]" using text_frame_example by (simp add: stream_ok_Cons stream_ok_Nil)
  moreover have "length (text_bytes example_head @ [0x81, 1, 0x41] @ [0x81, 1, 0x41]) \<le> 9840"
    by (simp add: text_bytes_def example_head_def crlf_def)
  ultimately show ?thesis
    using handshake_iff [OF r(1), of "[0x81, 1, 0x41]" "\<lambda>k. ''other''" 5 "''k''"] by auto
qed

text \<open>Claim C36. When the head comes in two reads, as many bytes of the frames behind it are lost as its
  first part has: \<^verbatim>\<open>OnRead\<close> takes the place of the frames in the last read from the length of the whole
  head. The client is connected, but what it then reads starts in the middle of a frame, or is dropped.\<close>

theorem split_head_loses_frames:
  assumes "good_head hash key (H1 @ H2)" "H1 \<noteq> []" "H2 \<noteq> []" "length H1 + length H2 + length F \<le> 9840"
    "stream_ok (drop (length H1) F)"
  shows "\<exists>st1 ev st2. http_OnRead hash now1 0 H1 (WsClient_init key) = Some ([], st1)
    \<and> http_OnRead hash now2 0 (H2 @ F) st1 = Some (EvConnected # ev, st2)
    \<and> spec_frames (fst (ws_stream (drop (length H1) F))) (ws_view connected_session) = (ev, ws_view (wsc_session st2))"
proof -
  have four: "4 \<le> length (H1 @ H2)" using assms(1) unfolding good_head_def by blast
  have "length (bytes_text H1) < length (H1 @ H2) - 4 + length head_end"
    using four assms(3) by (cases H2) (simp_all add: head_end_def bytes_text_def)
  then have part: "str_find head_end (bytes_text H1) = None"
    using str_find_prefix [of head_end "bytes_text H1" "bytes_text H2" "length (H1 @ H2) - 4"] assms(1)
    unfolding good_head_def bytes_text_append by blast
  obtain st1 where st1: "http_read hash now1 H1 (WsClient_init key) = Some ([], st1, None)" "before_head key H1 st1"
    using http_read_incomplete [OF before_head_init, of H1 hash now1 key] part assms(4) by auto
  have "http_OnRead hash now1 0 H1 (WsClient_init key) = Some ([], st1)"
    using st1(1) assms(2) by (subst http_OnRead.simps) simp
  moreover have "drop (length (H1 @ H2)) (H2 @ F) = drop (length H1) F" by simp
  ultimately show ?thesis
    using http_OnRead_behind_head [OF st1(2) assms(1), of "H2 @ F" F now2] assms(3-5)
    by (auto simp: session_after_def)
qed

lemma split_head_loses_frames_witness:
  "\<exists>st1 st2. http_OnRead (\<lambda>k. ''ok'') 5 0 (take 3 (text_bytes example_head)) (WsClient_init ''k'') = Some ([], st1)
    \<and> http_OnRead (\<lambda>k. ''ok'') 6 0 (drop 3 (text_bytes example_head) @ [0x81, 1, 0x41]) st1 = Some ([EvConnected], st2)"
proof -
  have n: "length (text_bytes example_head) = 86" "text_bytes example_head \<noteq> []"
    by (simp_all add: text_bytes_def example_head_def crlf_def)
  have "good_head (\<lambda>k. ''ok'') ''k'' (take 3 (text_bytes example_head) @ drop 3 (text_bytes example_head))"
    using example_head_good by simp
  from split_head_loses_frames [OF this, of "[0x81, 1, 0x41]" 5 6] show ?thesis
    using n by (auto simp: stream_ok_Nil ws_stream_Nil)
qed

end
