(* ===== verification/Http_Session.thy ===== *)
theory Http_Session
  imports Ws_Client
begin

text \<open>
  Requests and answers of HTTP in the bundled library: what \<^verbatim>\<open>HttpClient\<close> sends
  (\<^verbatim>\<open>net/http/http_client.cpp\<close>), with the upgrade request of \<^verbatim>\<open>WebSocketClient::AsyncConnect\<close>, and the
  server's side, \<^verbatim>\<open>HttpSession\<close> (\<^verbatim>\<open>net/http/http_session.cpp\<close>) with \<^verbatim>\<open>HttpRequest\<close> and
  \<^verbatim>\<open>HttpResponse\<close> (\<^verbatim>\<open>net/http/http_common.hpp\<close>). The handler of a request is an argument: it gives
  the calls that the handler makes on the response. Uncaught exceptions and null pointers are \<^term>\<open>None\<close>.
\<close>

section \<open>The client's request\<close>

datatype HTTP_METHOD = HTTP_GET | HTTP_POST

record HttpClient =
  hc_host :: string
  hc_method :: HTTP_METHOD
  hc_headers :: "(string \<times> string) list"
  hc_subpath :: string
  hc_post_data :: string

definition HttpClient_Get :: "string \<Rightarrow> (string \<times> string) list \<Rightarrow> HttpClient \<Rightarrow> HttpClient" where
  "HttpClient_Get subpath headers c = c\<lparr>hc_method := HTTP_GET, hc_subpath := subpath, hc_headers := headers\<rparr>"

definition HttpClient_Post :: "string \<Rightarrow> (string \<times> string) list \<Rightarrow> string \<Rightarrow> HttpClient \<Rightarrow> HttpClient" where
  "HttpClient_Post subpath headers data c =
     c\<lparr>hc_method := HTTP_POST, hc_subpath := subpath, hc_post_data := data, hc_headers := headers\<rparr>"

definition header_line :: "string \<times> string \<Rightarrow> string" where
  "header_line h = fst h @ '': '' @ snd h"

definition header_lines :: "(string \<times> string) list \<Rightarrow> string" where
  "header_lines hs = concat (map (\<lambda>h. header_line h @ crlf) hs)"

definition request_text :: "HttpClient \<Rightarrow> string" where
  "request_text c =
     (case hc_method c of HTTP_GET \<Rightarrow> ''GET '' | HTTP_POST \<Rightarrow> ''POST '') @ hc_subpath c @ '' HTTP/1.1'' @ crlf
     @ ''Accept: */*'' @ crlf @ ''Host: '' @ hc_host c @ crlf @ header_lines (hc_headers c)
     @ (if hc_method c = HTTP_POST then ''Content-Length: '' @ nat_text (length (hc_post_data c)) @ crlf else [])
     @ crlf @ (if hc_method c = HTTP_POST then hc_post_data c else [])"

text \<open>\<^verbatim>\<open>OnConnect\<close>: the error for the callback, or the text that is sent.\<close>

definition HttpClient_OnConnect :: "int \<Rightarrow> HttpClient \<Rightarrow> int + string" where
  "HttpClient_OnConnect ret_code c = (if ret_code < 0 then Inl ret_code else Inr (request_text c))"

definition WebSocket_Key_Len :: nat where "WebSocket_Key_Len = 16"

definition AsyncConnect :: "string \<Rightarrow> string \<Rightarrow> HttpClient \<Rightarrow> HttpClient" where
  "AsyncConnect key subpath c =
     (let headers = fold (\<lambda>(k, v). headers_set k v)
            [(''Upgrade'', ''websocket''), (''Connection'', ''Upgrade''),
             (''Sec-WebSocket-Key'', Base64Encode (take WebSocket_Key_Len (text_bytes key))),
             (''Sec-WebSocket-Version'', ''13'')] []
      in HttpClient_Get subpath headers c)"

section \<open>The server's view of a request\<close>

record HttpRequest =
  hq_method :: string
  hq_uri :: string
  hq_params :: "(string \<times> string) list"
  hq_version :: string
  hq_content_body :: "u8 list option"
  hq_content_length :: int
  hq_headers :: "(string \<times> string) list"

definition HttpRequest_init :: HttpRequest where
  "HttpRequest_init =
     \<lparr>hq_method = [], hq_uri = [], hq_params = [], hq_version = [], hq_content_body = None, hq_content_length = 0,
      hq_headers = []\<rparr>"

text \<open>The result tells whether the return value is 0.\<close>

fun uri_params :: "string list \<Rightarrow> (string \<times> string) list \<Rightarrow> bool \<times> (string \<times> string) list" where
  "uri_params [] params = (True, params)"
| "uri_params (item # items) params =
     (let param_vec = split_str item (CHR ''='') []
      in if length param_vec \<noteq> 2 then (False, params)
         else uri_params items (headers_set (param_vec ! 0) (param_vec ! 1) params))"

definition GetUriAndParams ::
  "string \<Rightarrow> (string \<times> string) list \<Rightarrow> bool \<times> string \<times> (string \<times> string) list" where
  "GetUriAndParams input params =
     (case str_find ''?'' input of
        None \<Rightarrow> (True, input, params)
      | Some pos \<Rightarrow>
          (let (ok, params') = uri_params (split_str (drop (pos + 1) input) (CHR ''&'') []) params
           in (ok, take pos input, params')))"

definition request_line :: "string \<Rightarrow> HttpRequest \<Rightarrow> (bool \<times> HttpRequest) option" where
  "request_line line r =
     (let version_vec = split_str line (CHR '' '') []
      in if length version_vec \<noteq> 3 then Some (False, r)
         else
           (let (ok, uri, params) = GetUriAndParams (version_vec ! 1) (hq_params r);
                r1 = r\<lparr>hq_method := version_vec ! 0, hq_uri := uri, hq_params := params\<rparr>;
                version_info = version_vec ! 2
            in if \<not> ok then Some (False, r1)
               else (case str_find ''HTTP'' version_info of
                   None \<Rightarrow> Some (False, r1)
                 | Some pos \<Rightarrow> if pos + 5 > length version_info then None
                     else Some (True, r1\<lparr>hq_version := drop (pos + 5) version_info\<rparr>))))"

text \<open>\<^verbatim>\<open>insert\<close> keeps the value a key has.\<close>

definition headers_insert :: "string \<Rightarrow> string \<Rightarrow> (string \<times> string) list \<Rightarrow> (string \<times> string) list" where
  "headers_insert k v hs = (if map_of hs k = None then headers_set k v hs else hs)"

definition request_header :: "string \<Rightarrow> HttpRequest \<Rightarrow> (bool \<times> HttpRequest) option" where
  "request_header info_line r =
     (case str_find '':'' info_line of
        None \<Rightarrow> Some (False, r)
      | Some pos \<Rightarrow>
          if pos + 2 > length info_line then None
          else (let key = take pos info_line; value = drop (pos + 2) info_line
                in do { n \<leftarrow> (if key = ''Content-Length'' then atoi value else Some (hq_content_length r));
                        Some (True, r\<lparr>hq_content_length := n, hq_headers := headers_insert key value (hq_headers r)\<rparr>) }))"

fun request_headers :: "string list \<Rightarrow> HttpRequest \<Rightarrow> (bool \<times> HttpRequest) option" where
  "request_headers [] r = Some (True, r)"
| "request_headers (l # ls) r =
     do { (ok, r1) \<leftarrow> request_header l r; if ok then request_headers ls r1 else Some (False, r1) }"

definition request_head :: "string \<Rightarrow> HttpRequest \<Rightarrow> (bool \<times> HttpRequest) option" where
  "request_head header_str r =
     (case split_str header_str (CHR 0x0D) [CHR 0x0A] of
        [] \<Rightarrow> Some (False, r)
      | l # ls \<Rightarrow> do { (ok, r1) \<leftarrow> request_line l r; if ok then request_headers ls r1 else Some (False, r1) })"

section \<open>The server's answer\<close>

record HttpResponse =
  hp_is_close :: bool
  hp_written_header :: bool
  hp_status :: string
  hp_status_code :: int
  hp_proto :: string
  hp_version :: string
  hp_headers :: "(string \<times> string) list"
  hp_has_session :: bool
  hp_continue_flag :: bool
  hp_remain_bytes :: int

definition HttpResponse_init :: HttpResponse where
  "HttpResponse_init =
     \<lparr>hp_is_close = False, hp_written_header = False, hp_status = ''OK'', hp_status_code = 200, hp_proto = ''HTTP'',
      hp_version = ''1.1'', hp_headers = [], hp_has_session = True, hp_continue_flag = False, hp_remain_bytes = 0\<rparr>"

definition AddHeader :: "string \<Rightarrow> string \<Rightarrow> HttpResponse \<Rightarrow> HttpResponse" where
  "AddHeader key v r = r\<lparr>hp_headers := headers_set key v (hp_headers r)\<rparr>"

definition response_head :: "nat \<Rightarrow> bool \<Rightarrow> HttpResponse \<Rightarrow> string" where
  "response_head len continue_flag r =
     hp_proto r @ ''/'' @ hp_version r @ '' '' @ int_text (hp_status_code r) @ '' '' @ hp_status r @ crlf
     @ (if \<not> continue_flag then ''Content-Length:'' @ nat_text len @ crlf else []) @ header_lines (hp_headers r) @ crlf"

text \<open>\<^verbatim>\<open>Write\<close>: the result, the texts written, the response. Without data the length is zero.\<close>

definition HttpResponse_Write :: "u8 list option \<Rightarrow> bool \<Rightarrow> HttpResponse \<Rightarrow> int \<times> u8 list list \<times> HttpResponse" where
  "HttpResponse_Write data continue_flag r =
     (let body = (case data of None \<Rightarrow> [] | Some d \<Rightarrow> d); r1 = r\<lparr>hp_continue_flag := continue_flag\<rparr>
      in if hp_is_close r1 \<or> \<not> hp_has_session r1 then (-1, [], r1)
         else
           (let head = text_bytes (response_head (length body) continue_flag r1);
                out = (if hp_written_header r1 then [] else [head]) @ (if body = [] then [] else [body])
            in (0, out, r1\<lparr>hp_written_header := True,
                 hp_remain_bytes := hp_remain_bytes r1 + int (length (concat out))\<rparr>)))"

definition SetClose :: "bool \<Rightarrow> HttpResponse \<Rightarrow> HttpResponse" where
  "SetClose flag r = r\<lparr>hp_is_close := flag, hp_has_session := False\<rparr>"

section \<open>The session\<close>

datatype http_event = HsWrite "u8 list" | HsTryRead | HsTcpClose | HsOnClose

record HttpSession =
  hs_response :: "HttpResponse option"
  hs_header_data :: DataBuffer
  hs_content_data :: DataBuffer
  hs_request :: "HttpRequest option"
  hs_content_start :: int
  hs_header_is_ready :: bool
  hs_is_closed :: bool
  hs_continue_flag :: bool
  hs_not_alive_cnt :: int
  hs_try_max :: int

text \<open>The constructor reads at once.\<close>

definition HttpSession_init :: "http_event list \<times> HttpSession" where
  "HttpSession_init =
     ([HsTryRead], \<lparr>hs_response = None, hs_header_data = DataBuffer_init (nat EXTRA_LEN),
       hs_content_data = DataBuffer_init (nat EXTRA_LEN), hs_request = Some HttpRequest_init, hs_content_start = -1,
       hs_header_is_ready = False, hs_is_closed = False, hs_continue_flag = False, hs_not_alive_cnt = 0, hs_try_max = 4\<rparr>)"

definition KeepAlive :: "HttpSession \<Rightarrow> HttpSession" where "KeepAlive s = s\<lparr>hs_not_alive_cnt := 0\<rparr>"

definition IsAlive :: "HttpSession \<Rightarrow> bool \<times> HttpSession" where
  "IsAlive s = (\<not> hs_not_alive_cnt s > hs_try_max s, s\<lparr>hs_not_alive_cnt := hs_not_alive_cnt s + 1\<rparr>)"

definition UpdateMax :: "int \<Rightarrow> HttpSession \<Rightarrow> HttpSession" where "UpdateMax n s = s\<lparr>hs_try_max := n\<rparr>"

definition HttpSession_Close :: "HttpSession \<Rightarrow> http_event list \<times> HttpSession" where
  "HttpSession_Close s =
     (if hs_is_closed s then ([], s)
      else ([HsTcpClose, HsOnClose],
            s\<lparr>hs_is_closed := True, hs_response := map_option (SetClose True) (hs_response s), hs_request := None\<rparr>))"

text \<open>The calls a handler makes on the response, \<^verbatim>\<open>Close\<close> being the one that reaches the session.\<close>

datatype resp_call = RStatusCode int | RStatus string | RAddHeader string string | RWrite "u8 list option" bool | RClose

definition HttpResponse_Close :: "HttpResponse \<Rightarrow> HttpSession \<Rightarrow> (http_event list \<times> HttpSession) option" where
  "HttpResponse_Close r s =
     (if hp_is_close r then Some ([], s)
      else if \<not> hp_has_session r then None
      else (let (ev, s1) = HttpSession_Close (s\<lparr>hs_response := Some (r\<lparr>hp_is_close := True\<rparr>)\<rparr>)
            in Some (ev, s1\<lparr>hs_response := map_option (\<lambda>r. r\<lparr>hp_has_session := False\<rparr>) (hs_response s1)\<rparr>)))"

fun resp_step :: "resp_call \<Rightarrow> HttpSession \<Rightarrow> (http_event list \<times> HttpSession) option" where
  "resp_step call s =
     (case hs_response s of
        None \<Rightarrow> None
      | Some r \<Rightarrow>
          (case call of
             RStatusCode c \<Rightarrow> Some ([], s\<lparr>hs_response := Some (r\<lparr>hp_status_code := c\<rparr>)\<rparr>)
           | RStatus t \<Rightarrow> Some ([], s\<lparr>hs_response := Some (r\<lparr>hp_status := t\<rparr>)\<rparr>)
           | RAddHeader k v \<Rightarrow> Some ([], s\<lparr>hs_response := Some (AddHeader k v r)\<rparr>)
           | RWrite data flag \<Rightarrow>
               (let (_, out, r1) = HttpResponse_Write data flag r
                in Some (map HsWrite out, s\<lparr>hs_response := Some r1\<rparr>))
           | RClose \<Rightarrow> HttpResponse_Close r s))"

fun resp_steps :: "resp_call list \<Rightarrow> HttpSession \<Rightarrow> (http_event list \<times> HttpSession) option" where
  "resp_steps [] s = Some ([], s)"
| "resp_steps (c # cs) s =
     do { (ev, s1) \<leftarrow> resp_step c s; (ev', s2) \<leftarrow> resp_steps cs s1; Some (ev @ ev', s2) }"

definition AnalyzeHeader :: "HttpSession \<Rightarrow> (int \<times> HttpSession) option" where
  "AnalyzeHeader s =
     (let info = bytes_text (take (DataLen (hs_header_data s)) (DataBuffer_Data (hs_header_data s)))
      in case str_find head_end info of
          None \<Rightarrow> Some (0, s\<lparr>hs_header_is_ready := False\<rparr>)
        | Some pos \<Rightarrow>
            (let s1 = s\<lparr>hs_content_start := to_int32 (int pos) + 4, hs_header_is_ready := True\<rparr>
             in case hs_request s1 of
                 None \<Rightarrow> None
               | Some r \<Rightarrow> do { (ok, r1) \<leftarrow> request_head (take pos info) r;
                            Some (if ok then 0 else -1, s1\<lparr>hs_request := Some r1\<rparr>) }))"

text \<open>The answer to \<^verbatim>\<open>OPTIONS\<close>.\<close>

definition options_calls :: "resp_call list" where
  "options_calls =
     [RAddHeader ''Access-Control-Allow-Origin'' ''*'', RAddHeader ''Access-Control-Allow-Methods'' ''GET, POST, PUT'',
      RAddHeader ''Access-Control-Allow-Headers'' ''*'', RAddHeader ''Access-Control-Allow-Private-Network'' ''true'',
      RAddHeader ''Allow'' ''GET, HEAD, POST, PUT, DELETE, TRACE, OPTIONS, PATCH'', RWrite None False]"

definition new_response :: "HttpSession \<Rightarrow> HttpSession" where
  "new_response s = (if hs_response s = None then s\<lparr>hs_response := Some HttpResponse_init\<rparr> else s)"

definition call_continue :: "HttpSession \<Rightarrow> bool" where
  "call_continue s = (case hs_response s of None \<Rightarrow> False | Some r \<Rightarrow> hp_continue_flag r)"

text \<open>\<open>get_handle\<close> is \<^verbatim>\<open>GetHandle\<close>; the function it returns gives the calls on the response. The part of \<^verbatim>\<open>HandleRequest\<close> once the
  head is there.\<close>

definition handle_content ::
  "(HttpRequest \<Rightarrow> (HttpRequest \<Rightarrow> resp_call list) option) \<Rightarrow> HttpSession \<Rightarrow> (int \<times> http_event list \<times> HttpSession) option" where
  "handle_content get_handle s =
     (case hs_request s of
        None \<Rightarrow> None
      | Some r \<Rightarrow>
          if hq_method r = ''OPTIONS''
          then do { (ev, s1) \<leftarrow> resp_steps options_calls (new_response s);
                    Some (0, ev, s1\<lparr>hs_header_is_ready := False, hs_continue_flag := True,
                      hs_header_data := DataBuffer_Reset (hs_header_data s1)\<rparr>) }
          else if hq_method r = ''GET''
          then (case get_handle r of
              None \<Rightarrow> Some (-1, [], s)
            | Some h \<Rightarrow> do { (ev, s1) \<leftarrow> resp_steps (h r) (s\<lparr>hs_response := Some HttpResponse_init\<rparr>);
                             Some (0, ev, s1\<lparr>hs_continue_flag := call_continue s1\<rparr>) })
          else if to_int32 (int (DataLen (hs_content_data s))) \<ge> hq_content_length r
          then (case get_handle r of
              None \<Rightarrow> Some (-1, [], s)
            | Some h \<Rightarrow>
                (let s1 = new_response s;
                     r1 = r\<lparr>hq_content_body := Some (DataBuffer_Data (hs_content_data s1))\<rparr>
                 in do { (ev, s2) \<leftarrow> resp_steps (h r1) (s1\<lparr>hs_request := Some r1\<rparr>);
                         (let s3 = s2\<lparr>hs_continue_flag := call_continue s2\<rparr>
                          in Some (0, ev, if \<not> hs_continue_flag s3 then UpdateMax 0 s3 else s3)) }))
          else Some (0, [], s))"

definition HandleRequest ::
  "(HttpRequest \<Rightarrow> (HttpRequest \<Rightarrow> resp_call list) option) \<Rightarrow> u8 list \<Rightarrow> HttpSession \<Rightarrow> (int \<times> http_event list \<times> HttpSession) option" where
  "HandleRequest get_handle data s =
     (let s0 = (KeepAlive s)\<lparr>hs_continue_flag := True\<rparr>
      in if \<not> hs_header_is_ready s0
         then do {
           (_, b) \<leftarrow> AppendData (Some data) (length data) (hs_header_data s0);
           (ret, s1) \<leftarrow> AnalyzeHeader (s0\<lparr>hs_header_data := b\<rparr>);
           if ret \<noteq> 0 then Some (-1, [], s1)
           else if \<not> hs_header_is_ready s1 then Some (0, [], s1)
           else do {
             (_, c) \<leftarrow> AppendData (Some (drop (nat (hs_content_start s1)) (DataBuffer_Data b)))
               (nat (int (DataLen b) - hs_content_start s1)) (hs_content_data s1);
             handle_content get_handle (s1\<lparr>hs_content_data := c\<rparr>) } }
         else do {
           (_, c) \<leftarrow> AppendData (Some data) (length data) (hs_content_data s0);
           handle_content get_handle (s0\<lparr>hs_content_data := c\<rparr>) })"

definition HttpSession_OnRead ::
  "(HttpRequest \<Rightarrow> (HttpRequest \<Rightarrow> resp_call list) option) \<Rightarrow> int \<Rightarrow> u8 list \<Rightarrow> HttpSession \<Rightarrow> (http_event list \<times> HttpSession) option" where
  "HttpSession_OnRead get_handle ret_code data s =
     (if ret_code \<noteq> 0 then Some (HttpSession_Close s)
      else do {
        (ret, ev, s1) \<leftarrow> HandleRequest get_handle data s;
        (if ret < 0 then (let (ev', s2) = HttpSession_Close s1 in Some (ev @ ev', s2))
         else if hs_continue_flag s1 then Some (ev @ [HsTryRead], s1)
         else Some (ev, s1)) })"

definition HttpSession_OnWrite :: "int \<Rightarrow> nat \<Rightarrow> HttpSession \<Rightarrow> http_event list \<times> HttpSession" where
  "HttpSession_OnWrite ret_code sent_size s =
     (let (ev, s1) = (if ret_code \<noteq> 0 then HttpSession_Close s else ([], s)); s2 = KeepAlive s1
      in case hs_response s2 of
          None \<Rightarrow> (ev, s2)
        | Some r \<Rightarrow>
            (let r1 = r\<lparr>hp_remain_bytes := hp_remain_bytes r - int sent_size\<rparr>;
                 s3 = s2\<lparr>hs_response := Some r1, hs_continue_flag := hp_continue_flag r1\<rparr>
             in if \<not> hs_continue_flag s3 \<and> hp_remain_bytes r1 \<le> 0
                then (let (ev', s4) = HttpSession_Close s3 in (ev @ ev', s4)) else (ev, s3)))"

section \<open>Lines\<close>

lemma str_find_skip: "c \<notin> set l \<Longrightarrow> str_find (c # cs) (l @ s) = map_option ((+) (length l)) (str_find (c # cs) s)"
proof (induction l)
  case (Cons d l)
  then show ?case by (cases "str_find (c # cs) s") auto
next
  case Nil
  show ?case by (cases "str_find (c # cs) s") (simp_all del: str_find.simps)
qed

lemma str_find_absent: "c \<notin> set l \<Longrightarrow> str_find (c # cs) l = None"
  using str_find_skip [of c l cs "[]"] by simp

lemma str_find_here: "str_find (c # cs) ((c # cs) @ s) = Some 0"
  by simp

lemma split_str_loop_step:
  "c \<notin> set l \<Longrightarrow> split_str_loop c cs (l @ (c # cs) @ s) = l # (if s = [] then [] else split_str_loop c cs s)"
  by (subst split_str_loop.simps) (simp add: str_find_skip str_find_here Let_def del: append_Cons)

lemma split_str_loop_last: "c \<notin> set l \<Longrightarrow> split_str_loop c cs l = [l]"
  by (subst split_str_loop.simps) (simp add: str_find_absent)

declare split_str_loop.simps [simp del]

text \<open>The lines of a head, of which none is empty or contains a carriage return.\<close>

fun crlf_join :: "string list \<Rightarrow> string" where
  "crlf_join [] = []"
| "crlf_join [l] = l"
| "crlf_join (l # ls) = l @ crlf @ crlf_join ls"

definition good_line :: "string \<Rightarrow> bool" where
  "good_line l \<longleftrightarrow> l \<noteq> [] \<and> CHR 0x0D \<notin> set l"

lemma crlf_join_Nil: "\<forall>l\<in>set ls. good_line l \<Longrightarrow> ls \<noteq> [] \<Longrightarrow> crlf_join ls \<noteq> []"
  by (cases ls rule: crlf_join.cases) (auto simp: good_line_def crlf_def)

lemma split_join:
  assumes "\<forall>l\<in>set ls. good_line l" "ls \<noteq> []"
  shows "split_str (crlf_join ls) (CHR 0x0D) [CHR 0x0A] = ls"
proof -
  have "split_str_loop (CHR 0x0D) [CHR 0x0A] (crlf_join ls) = ls"
    using assms
  proof (induction ls rule: crlf_join.induct)
    case (3 l l2 ls)
    then have "crlf_join (l2 # ls) \<noteq> []" using crlf_join_Nil by simp
    then show ?case
      using 3 split_str_loop_step [of "CHR 0x0D" l "[CHR 0x0A]" "crlf_join (l2 # ls)"] by (simp add: crlf_def good_line_def)
  qed (simp_all add: split_str_loop_last good_line_def)
  then show ?thesis using crlf_join_Nil [OF assms] by (simp add: split_str_def)
qed

lemma find_head_end:
  assumes "\<forall>l\<in>set ls. good_line l" "ls \<noteq> []"
  shows "str_find head_end (crlf_join ls @ head_end @ rest) = Some (length (crlf_join ls))"
  using assms
proof (induction ls rule: crlf_join.induct)
  case (2 l)
  then show ?case using str_find_skip [of "CHR 0x0D" l] by (simp add: head_end_def good_line_def)
next
  case (3 l l2 ls)
  let ?s = "crlf_join (l2 # ls) @ head_end @ rest"
  have ih: "str_find head_end ?s = Some (length (crlf_join (l2 # ls)))" using 3 by simp
  obtain d ds where "?s = d # ds" "d \<noteq> CHR 0x0D"
    using 3(2) by (cases l2; cases ls) (auto simp: good_line_def)
  then have "str_find head_end (crlf @ ?s) = Some (2 + length (crlf_join (l2 # ls)))"
    using ih by (simp add: crlf_def head_end_def)
  then show ?case
    using 3(2) str_find_skip [of "CHR 0x0D" l "[CHR 0x0A, CHR 0x0D, CHR 0x0A]" "crlf @ ?s"]
    by (simp add: good_line_def head_end_def crlf_def)
qed simp

lemma join_lines: "ls \<noteq> [] \<Longrightarrow> concat (map (\<lambda>l. l @ crlf) ls) @ crlf @ rest = crlf_join ls @ head_end @ rest"
  by (induction ls rule: crlf_join.induct) (simp_all add: crlf_def head_end_def)

text \<open>Numbers in decimal.\<close>

lemma digit_char: "d < 10 \<Longrightarrow> is_digit (char_of (48 + d :: nat)) \<and> (of_char (char_of (48 + d :: nat)) :: int) = 48 + int d"
proof -
  assume "d < 10"
  then have "d \<in> {0, 1, 2, 3, 4, 5, 6, 7, 8, 9}" by auto
  then show ?thesis by (auto simp: is_digit_def char_of_def bit_0)
qed

lemma digits_value_snoc: "digits_value (ds @ [c]) = 10 * digits_value ds + (of_char c - 48)"
  by (simp add: digits_value_def)

declare nat_text.simps [simp del]

lemma nat_text_digits: "list_all is_digit (nat_text n) \<and> digits_value (nat_text n) = int n \<and> nat_text n \<noteq> []"
proof (induction n rule: nat_text.induct)
  case (1 n)
  show ?case
  proof (cases "n < 10")
    case True
    then have "nat_text n = [char_of (48 + n)]" by (subst nat_text.simps) simp
    then show ?thesis using digit_char [of n] True by (simp add: digits_value_def)
  next
    case False
    then have "nat_text n = nat_text (n div 10) @ [char_of (48 + n mod 10)]" by (subst nat_text.simps) simp
    moreover have "10 * int (n div 10) + int (n mod 10) = int n" by presburger
    ultimately show ?thesis using 1 False digit_char [of "n mod 10"] by (simp add: digits_value_snoc)
  qed
qed

lemma digit_no_sign: "is_digit c \<Longrightarrow> \<not> is_space c \<and> c \<noteq> CHR ''-'' \<and> c \<noteq> CHR ''+'' \<and> c \<noteq> CHR 0x0D \<and> c \<noteq> CHR '' '' \<and> c \<noteq> CHR '':''"
  by (auto simp: is_digit_def is_space_def)

lemma atoi_digits:
  assumes "list_all is_digit ds" "digits_value ds < 2 ^ 31" "0 \<le> digits_value ds"
  shows "atoi ds = Some (digits_value ds)"
proof -
  have drop: "dropWhile is_space ds = ds" using assms(1) digit_no_sign by (cases ds) auto
  have take: "takeWhile is_digit ds = ds" using assms(1) by (simp add: takeWhile_eq_all_conv list_all_iff)
  have sign: "\<not> (ds \<noteq> [] \<and> hd ds = CHR ''-'')" "\<not> (ds \<noteq> [] \<and> (hd ds = CHR ''-'' \<or> hd ds = CHR ''+''))"
    using assms(1) digit_no_sign by (cases ds; auto)+
  show ?thesis
    unfolding atoi_def Let_def drop if_not_P [OF sign(1)] if_not_P [OF sign(2)] take
    using assms(2,3) by (simp add: int32_result_def)
qed

section \<open>A request is served as it was made\<close>

definition method_name :: "HTTP_METHOD \<Rightarrow> string" where
  "method_name m = (case m of HTTP_GET \<Rightarrow> ''GET'' | HTTP_POST \<Rightarrow> ''POST'')"

definition request_body :: "HttpClient \<Rightarrow> string" where
  "request_body c = (if hc_method c = HTTP_POST then hc_post_data c else [])"

text \<open>The headers of a request: two of its own, those that were given, and the length of the body.\<close>

definition length_header :: "HttpClient \<Rightarrow> (string \<times> string) list" where
  "length_header c = (if hc_method c = HTTP_POST then [(''Content-Length'', nat_text (length (hc_post_data c)))] else [])"

definition given_headers :: "HttpClient \<Rightarrow> (string \<times> string) list" where
  "given_headers c = [(''Accept'', ''*/*''), (''Host'', hc_host c)] @ hc_headers c"

definition request_lines :: "HttpClient \<Rightarrow> string list" where
  "request_lines c =
     (method_name (hc_method c) @ '' '' @ hc_subpath c @ '' HTTP/1.1'') # map header_line (given_headers c @ length_header c)"

lemma request_text_lines: "request_text c = crlf_join (request_lines c) @ head_end @ request_body c"
proof -
  have "request_text c = concat (map (\<lambda>l. l @ crlf) (request_lines c)) @ crlf @ request_body c"
    by (simp add: request_text_def request_lines_def given_headers_def length_header_def header_line_def
        header_lines_def method_name_def request_body_def comp_def case_prod_beta split: HTTP_METHOD.split)
  also have "\<dots> = crlf_join (request_lines c) @ head_end @ request_body c"
    by (rule join_lines) (simp add: request_lines_def)
  finally show ?thesis .
qed

definition clean_header :: "string \<times> string \<Rightarrow> bool" where
  "clean_header h \<longleftrightarrow> CHR '':'' \<notin> set (fst h) \<and> CHR 0x0D \<notin> set (fst h @ snd h) \<and> fst h \<noteq> ''Content-Length''"

definition clean_request :: "HttpClient \<Rightarrow> bool" where
  "clean_request c \<longleftrightarrow> set (hc_subpath c) \<inter> {CHR '' '', CHR ''?'', CHR 0x0D} = {} \<and> hc_subpath c \<noteq> []
     \<and> CHR 0x0D \<notin> set (hc_host c) \<and> list_all clean_header (hc_headers c)"

lemma request_lines_good: "clean_request c \<Longrightarrow> \<forall>l\<in>set (request_lines c). good_line l"
  using nat_text_digits [of "length (hc_post_data c)"] digit_no_sign
  by (auto simp: request_lines_def given_headers_def length_header_def header_line_def method_name_def
      clean_request_def clean_header_def good_line_def list_all_iff split: HTTP_METHOD.split)

lemma request_line_read:
  assumes "clean_request c"
  shows "request_line (method_name (hc_method c) @ '' '' @ hc_subpath c @ '' HTTP/1.1'') r
    = Some (True, r\<lparr>hq_method := method_name (hc_method c), hq_uri := hc_subpath c, hq_version := ''1.1''\<rparr>)"
proof -
  let ?m = "method_name (hc_method c)" and ?sp = "CHR '' ''"
  have m: "?sp \<notin> set ?m" "?m \<noteq> []" by (auto simp: method_name_def split: HTTP_METHOD.split)
  have p: "?sp \<notin> set (hc_subpath c)" "CHR ''?'' \<notin> set (hc_subpath c)" using assms by (auto simp: clean_request_def)
  have "split_str_loop ?sp [] (?m @ [?sp] @ hc_subpath c @ [?sp] @ ''HTTP/1.1'') = [?m, hc_subpath c, ''HTTP/1.1'']"
    using split_str_loop_step [OF m(1), of "[]" "hc_subpath c @ [?sp] @ ''HTTP/1.1''"]
      split_str_loop_step [OF p(1), of "[]" "''HTTP/1.1''"] split_str_loop_last [of ?sp "''HTTP/1.1''" "[]"] by simp
  then have "split_str (?m @ '' '' @ hc_subpath c @ '' HTTP/1.1'') ?sp [] = [?m, hc_subpath c, ''HTTP/1.1'']"
    using m(2) by (simp add: split_str_def)
  moreover have "str_find ''?'' (hc_subpath c) = None" by (rule str_find_absent [OF p(2)])
  ultimately show ?thesis by (simp add: request_line_def GetUriAndParams_def)
qed

lemma header_find: "CHR '':'' \<notin> set k \<Longrightarrow> str_find '':'' (k @ '': '' @ v) = Some (length k)"
  using str_find_skip [of "CHR '':''" k "[]" "'': '' @ v"] by simp

lemma request_header_read:
  "CHR '':'' \<notin> set (fst h) \<Longrightarrow> fst h \<noteq> ''Content-Length'' \<Longrightarrow>
    request_header (header_line h) r = Some (True, r\<lparr>hq_headers := headers_insert (fst h) (snd h) (hq_headers r)\<rparr>)"
  using header_find [of "fst h" "snd h"] by (simp add: request_header_def header_line_def Let_def)

lemma request_length_read:
  "n < 2 ^ 31 \<Longrightarrow> request_header (header_line (''Content-Length'', nat_text n)) r
    = Some (True, r\<lparr>hq_content_length := int n, hq_headers := headers_insert ''Content-Length'' (nat_text n) (hq_headers r)\<rparr>)"
  using header_find [of "''Content-Length''" "nat_text n"] atoi_digits [of "nat_text n"] nat_text_digits [of n]
  by (simp add: request_header_def header_line_def)

abbreviation insert_headers :: "(string \<times> string) list \<Rightarrow> (string \<times> string) list \<Rightarrow> (string \<times> string) list" where
  "insert_headers \<equiv> fold (\<lambda>h. headers_insert (fst h) (snd h))"

lemma map_of_insert: "map_of (headers_insert k v hs) = [k \<mapsto> v] ++ map_of hs"
  by (rule ext) (auto simp: headers_insert_def map_of_headers_set map_add_def split: option.split)

lemma map_of_inserts: "map_of (insert_headers hs hs0) = map_of hs ++ map_of hs0"
proof (induction hs arbitrary: hs0)
  case (Cons h hs)
  then show ?case by (rule_tac ext) (cases h, auto simp: map_of_insert map_add_def split: option.split)
qed simp

lemma request_headers_read:
  assumes "\<forall>h\<in>set hs. CHR '':'' \<notin> set (fst h) \<and> fst h \<noteq> ''Content-Length''"
  shows "request_headers (map header_line hs @ ls) r
    = request_headers ls (r\<lparr>hq_headers := insert_headers hs (hq_headers r)\<rparr>)"
  using assms by (induction hs arbitrary: r) (simp_all add: request_header_read)

lemma request_head_lines:
  "split_str t (CHR 0x0D) [CHR 0x0A] = l # ls \<Longrightarrow> request_line l r = Some (True, r1) \<Longrightarrow> request_head t r = request_headers ls r1"
  by (simp add: request_head_def)

lemma request_head_read:
  assumes c: "clean_request c" and n: "length (request_body c) < 2 ^ 31"
  shows "\<exists>r. request_head (crlf_join (request_lines c)) HttpRequest_init = Some (True, r)
    \<and> hq_method r = method_name (hc_method c) \<and> hq_uri r = hc_subpath c \<and> hq_params r = [] \<and> hq_version r = ''1.1''
    \<and> map_of (hq_headers r) = map_of (length_header c) ++ map_of (given_headers c)
    \<and> hq_content_length r = int (length (request_body c))"
proof -
  let ?hs = "given_headers c"
  let ?r1 = "HttpRequest_init\<lparr>hq_method := method_name (hc_method c), hq_uri := hc_subpath c, hq_version := ''1.1''\<rparr>"
  let ?r2 = "?r1\<lparr>hq_headers := insert_headers ?hs []\<rparr>"
  have hs: "\<forall>h\<in>set ?hs. CHR '':'' \<notin> set (fst h) \<and> fst h \<noteq> ''Content-Length''"
    using c by (auto simp: given_headers_def clean_request_def clean_header_def list_all_iff)
  have "split_str (crlf_join (request_lines c)) (CHR 0x0D) [CHR 0x0A] = request_lines c"
    using split_join [OF request_lines_good [OF c]] by (simp add: request_lines_def)
  then have "request_head (crlf_join (request_lines c)) HttpRequest_init
      = request_headers (map header_line ?hs @ map header_line (length_header c)) ?r1"
    unfolding request_lines_def map_append by (rule request_head_lines) (rule request_line_read [OF c])
  also have "\<dots> = request_headers (map header_line (length_header c)) ?r2"
    using request_headers_read [OF hs, of _ ?r1] by (simp add: HttpRequest_init_def)
  finally have head: "request_head (crlf_join (request_lines c)) HttpRequest_init
      = request_headers (map header_line (length_header c)) ?r2" .
  have two: "map_of (hq_headers ?r2) = map_of ?hs" by (simp add: map_of_inserts)
  show ?thesis
  proof (cases "hc_method c")
    case HTTP_GET
    then show ?thesis
      using head two by (simp add: length_header_def request_body_def HttpRequest_init_def)
  next
    case HTTP_POST
    then show ?thesis
      using head two request_length_read [of "length (hc_post_data c)" ?r2] n
      by (simp add: length_header_def request_body_def HttpRequest_init_def map_of_insert)
  qed
qed

text \<open>The request as its handler gets it, and the session once the handler has made its calls.\<close>

definition handed_request :: "HTTP_METHOD \<Rightarrow> u8 list \<Rightarrow> HttpRequest \<Rightarrow> HttpRequest" where
  "handed_request m body r = (case m of HTTP_GET \<Rightarrow> r | HTTP_POST \<Rightarrow> r\<lparr>hq_content_body := Some body\<rparr>)"

definition after_handler :: "HTTP_METHOD \<Rightarrow> HttpSession \<Rightarrow> HttpSession" where
  "after_handler m s =
     (let s1 = s\<lparr>hs_continue_flag := call_continue s\<rparr>
      in if m = HTTP_POST \<and> \<not> call_continue s then UpdateMax 0 s1 else s1)"

definition handler_run ::
  "HTTP_METHOD \<Rightarrow> (HttpRequest \<Rightarrow> resp_call list) \<Rightarrow> HttpRequest \<Rightarrow> HttpSession \<Rightarrow> (int \<times> http_event list \<times> HttpSession) option" where
  "handler_run m handler q s = map_option (\<lambda>(ev, s'). (0, ev, after_handler m s')) (resp_steps (handler q) s)"

lemma call_continue_flag: "call_continue (s\<lparr>hs_continue_flag := b\<rparr>) = call_continue s"
  by (simp add: call_continue_def)

text \<open>The head is taken apart, the rest goes to the content, and the method decides.\<close>

lemma request_is_read:
  assumes "clean_request c" "length (request_text c) \<le> 9840"
  shows "\<exists>r s. HandleRequest get_handle (text_bytes (request_text c)) (snd HttpSession_init) = handle_content get_handle s
    \<and> hs_request s = Some r \<and> hq_method r = method_name (hc_method c) \<and> hq_uri r = hc_subpath c
    \<and> hq_params r = [] \<and> hq_version r = ''1.1''
    \<and> map_of (hq_headers r) = map_of (length_header c) ++ map_of (given_headers c)
    \<and> hq_content_length r = int (length (request_body c))
    \<and> db_inv (hs_content_data s) \<and> db_contents (hs_content_data s) = text_bytes (request_body c)
    \<and> hs_response s = None \<and> \<not> hs_is_closed s"
proof -
  let ?T = "request_text c" and ?L = "crlf_join (request_lines c)" and ?s0 = "snd HttpSession_init"
  have T: "?T = ?L @ head_end @ request_body c" by (rule request_text_lines)
  have "length (request_body c) < 2 ^ 31" using assms(2) unfolding T by simp
  then obtain r where r: "request_head ?L HttpRequest_init = Some (True, r)"
      "hq_method r = method_name (hc_method c)" "hq_uri r = hc_subpath c" "hq_params r = []" "hq_version r = ''1.1''"
      "map_of (hq_headers r) = map_of (length_header c) ++ map_of (given_headers c)"
      "hq_content_length r = int (length (request_body c))"
    using request_head_read [OF assms(1)] by blast
  have fresh: "db_fresh (hs_header_data ?s0)" "db_fresh (hs_content_data ?s0)"
    using db_fresh_init by (simp_all add: HttpSession_init_def)
  have n: "length (text_bytes ?T) = length ?T" by (simp add: text_bytes_def)
  obtain x b where b: "AppendData (Some (text_bytes ?T)) (length (text_bytes ?T)) (hs_header_data ?s0) = Some (x, b)"
      "db_inv b" "db_contents b = text_bytes ?T"
    using append_room [of "hs_header_data ?s0" "text_bytes ?T"] fresh(1) assms(2) n by (auto simp: db_fresh_def)
  have info: "bytes_text (take (DataLen b) (DataBuffer_Data b)) = ?T"
    using header_bytes [OF b(2)] b(3) bytes_text_text_bytes by simp
  have found: "str_find head_end ?T = Some (length ?L)"
    unfolding T by (rule find_head_end [OF request_lines_good [OF assms(1)]]) (simp add: request_lines_def)
  have small: "to_int32 (int (length ?L)) = int (length ?L)"
    using assms(2) unfolding T by (intro to_int32_small) simp_all
  let ?s1 = "?s0\<lparr>hs_not_alive_cnt := 0, hs_continue_flag := True, hs_header_data := b,
    hs_content_start := int (length ?L) + 4, hs_header_is_ready := True, hs_request := Some r\<rparr>"
  have analyze: "AnalyzeHeader (?s0\<lparr>hs_not_alive_cnt := 0, hs_continue_flag := True, hs_header_data := b\<rparr>) = Some (0, ?s1)"
    using r(1) by (simp add: AnalyzeHeader_def Let_def info found [unfolded T] small HttpSession_init_def T)
  obtain ys where ys: "DataBuffer_Data b = text_bytes ?T @ ys"
    using Data_contents [OF b(2)] b(3) by (metis append_take_drop_id)
  have split: "text_bytes ?T = text_bytes (?L @ head_end) @ text_bytes (request_body c)"
    by (simp add: T text_bytes_def)
  have four: "nat (int (length ?L) + 4) = length (text_bytes (?L @ head_end))"
    by (simp add: text_bytes_def head_end_def)
  have rest: "drop (nat (int (length ?L) + 4)) (DataBuffer_Data b) = text_bytes (request_body c) @ ys"
    unfolding ys split four by simp
  have len: "nat (int (DataLen b) - (int (length ?L) + 4)) = length (text_bytes (request_body c))"
    using DataLen_contents [OF b(2)] by (simp add: b(3) split) (simp add: text_bytes_def head_end_def)
  obtain y d where d: "AppendData (Some (text_bytes (request_body c) @ ys)) (length (text_bytes (request_body c)))
      (hs_content_data ?s0) = Some (y, d)" "db_contents d = text_bytes (request_body c)" "db_inv d"
  proof -
    have "length (text_bytes (request_body c)) \<le> 9840" using n assms(2) unfolding split by simp
    moreover have "\<not> db_overlap (hs_content_data ?s0)"
      by (simp add: HttpSession_init_def db_overlap_def DataBuffer_init_def)
    ultimately show ?thesis
      using AppendData_works [of "hs_content_data ?s0" "text_bytes (request_body c)" ys] fresh(2) that
      by (auto simp: db_fresh_def)
  qed
  have "HandleRequest get_handle (text_bytes ?T) ?s0 = handle_content get_handle (?s1\<lparr>hs_content_data := d\<rparr>)"
    using b(1) analyze d(1)
    by (simp add: HandleRequest_def KeepAlive_def Let_def rest len) (simp add: HttpSession_init_def)
  then show ?thesis using r d(2,3)
    by (intro exI [of _ r] exI [of _ "?s1\<lparr>hs_content_data := d\<rparr>"]) (simp add: HttpSession_init_def)
qed

lemma content_handled:
  assumes s: "hs_request s = Some r" "hs_response s = None" and m: "hq_method r = method_name m"
    and n: "hq_content_length r \<le> int (DataLen (hs_content_data s))" "int (DataLen (hs_content_data s)) < 2 ^ 31"
  defines "q \<equiv> handed_request m (DataBuffer_Data (hs_content_data s)) r"
  shows "handle_content get_handle s = (case get_handle r of None \<Rightarrow> Some (-1, [], s)
    | Some handler \<Rightarrow> handler_run m handler q (s\<lparr>hs_response := Some HttpResponse_init, hs_request := Some q\<rparr>))"
proof -
  have small: "to_int32 (int (DataLen (hs_content_data s))) = int (DataLen (hs_content_data s))"
    using n(2) by (intro to_int32_small) simp_all
  have req: "s\<lparr>hs_response := x, hs_request := Some r\<rparr> = s\<lparr>hs_response := x\<rparr>" for x
    using s(1) by (cases s) simp
  show ?thesis
  proof (cases m)
    case HTTP_GET
    then have q: "q = r" by (simp add: q_def handed_request_def)
    show ?thesis
      unfolding q req using HTTP_GET s m
      by (auto simp: handle_content_def handler_run_def after_handler_def method_name_def
          Let_def map_option_case split: option.split)
  next
    case HTTP_POST
    then show ?thesis
      using s m n(1) small
      by (auto simp: handle_content_def q_def handed_request_def handler_run_def after_handler_def method_name_def
          new_response_def call_continue_flag Let_def map_option_case split: option.split)
  qed
qed

text \<open>Claim C38. What a client asks for is what the handler on the server gets. The text of a request whose path has no
  blank, question mark or carriage return and is not empty, whose headers have no carriage return, no colon in a name and
  are none of \<^verbatim>\<open>Content-Length\<close>, and which with its body has at most 9,840 bytes, is sent to a new session in one read. The
  session looks up a handler for a request with the method, path and version that were asked for, without parameters,
  with every header that was given (the first one of a name), the two headers of the client itself and the length of
  the body. If there is no handler it fails with -1; otherwise it runs the calls the handler makes, on a new response,
  for that request, with the bytes of the body if it is a \<^verbatim>\<open>POST\<close>.\<close>

theorem request_is_served:
  assumes "clean_request c" "length (request_text c) \<le> 9840"
  shows "\<exists>r body s. hq_method r = method_name (hc_method c) \<and> hq_uri r = hc_subpath c
    \<and> hq_params r = [] \<and> hq_version r = ''1.1''
    \<and> map_of (hq_headers r) = map_of (length_header c) ++ map_of (given_headers c)
    \<and> hq_content_length r = int (length (request_body c))
    \<and> take (length (request_body c)) body = text_bytes (request_body c)
    \<and> hs_response s = Some HttpResponse_init \<and> \<not> hs_is_closed s
    \<and> hs_request s = Some (handed_request (hc_method c) body r)
    \<and> (case get_handle r of
         None \<Rightarrow> (\<exists>s'. HandleRequest get_handle (text_bytes (request_text c)) (snd HttpSession_init) = Some (-1, [], s'))
       | Some handler \<Rightarrow> HandleRequest get_handle (text_bytes (request_text c)) (snd HttpSession_init)
           = handler_run (hc_method c) handler (handed_request (hc_method c) body r) s)"
proof -
  obtain r s where s: "HandleRequest get_handle (text_bytes (request_text c)) (snd HttpSession_init) = handle_content get_handle s"
      "hs_request s = Some r" "hq_method r = method_name (hc_method c)" "hq_uri r = hc_subpath c" "hq_params r = []"
      "hq_version r = ''1.1''" "map_of (hq_headers r) = map_of (length_header c) ++ map_of (given_headers c)"
      "hq_content_length r = int (length (request_body c))" "db_inv (hs_content_data s)"
      "db_contents (hs_content_data s) = text_bytes (request_body c)" "hs_response s = None" "\<not> hs_is_closed s"
    using request_is_read [OF assms, of get_handle] by blast
  let ?b = "DataBuffer_Data (hs_content_data s)" and ?n = "length (request_body c)"
  have len: "DataLen (hs_content_data s) = ?n"
    using DataLen_contents [OF s(9)] s(10) by (simp add: text_bytes_def)
  have "take ?n ?b = text_bytes (request_body c)"
    using Data_contents [OF s(9)] s(10) by (simp add: text_bytes_def)
  moreover have "?n < 2 ^ 31" using assms(2) unfolding request_text_lines by simp
  ultimately show ?thesis
    using s(3-8,12) content_handled [OF s(2,11,3), of get_handle] unfolding s(1) len
    by (intro exI [of _ r] exI [of _ ?b]
        exI [of _ "s\<lparr>hs_response := Some HttpResponse_init, hs_request := Some (handed_request (hc_method c) ?b r)\<rparr>"])
      (auto split: option.split)
qed

text \<open>A handler that sends the body back.\<close>

definition echo_handle :: "HttpRequest \<Rightarrow> (HttpRequest \<Rightarrow> resp_call list) option" where
  "echo_handle r = (if hq_uri r = ''/a'' then Some (\<lambda>q. [RWrite (map_option (take (nat (hq_content_length q))) (hq_content_body q)) False])
     else None)"

lemma request_is_served_witness:
  "\<exists>head s. HandleRequest echo_handle (text_bytes (request_text
        \<lparr>hc_host = ''h'', hc_method = HTTP_POST, hc_headers = [(''X'', ''y'')], hc_subpath = ''/a'', hc_post_data = ''hi''\<rparr>))
      (snd HttpSession_init) = Some (0, [HsWrite head, HsWrite (text_bytes ''hi'')], s)"
proof -
  let ?c = "\<lparr>hc_host = ''h'', hc_method = HTTP_POST, hc_headers = [(''X'', ''y'')], hc_subpath = ''/a'', hc_post_data = ''hi''\<rparr>"
  have "clean_request ?c" by (simp add: clean_request_def clean_header_def)
  moreover have "length (request_text ?c) \<le> 9840"
    by (simp add: request_text_def crlf_def header_lines_def header_line_def nat_text.simps)
  ultimately obtain r body s where r: "hq_uri r = hc_subpath ?c" "hq_content_length r = int (length (request_body ?c))"
      "take (length (request_body ?c)) body = text_bytes (request_body ?c)" "hs_response s = Some HttpResponse_init"
      "case echo_handle r of
         None \<Rightarrow> (\<exists>s'. HandleRequest echo_handle (text_bytes (request_text ?c)) (snd HttpSession_init) = Some (-1, [], s'))
       | Some handler \<Rightarrow> HandleRequest echo_handle (text_bytes (request_text ?c)) (snd HttpSession_init)
           = handler_run (hc_method ?c) handler (handed_request (hc_method ?c) body r) s"
    using request_is_served [of ?c echo_handle] by blast
  have body: "request_body ?c = ''hi''" by (simp add: request_body_def)
  have "HandleRequest echo_handle (text_bytes (request_text ?c)) (snd HttpSession_init)
      = handler_run HTTP_POST (\<lambda>q. [RWrite (map_option (take (nat (hq_content_length q))) (hq_content_body q)) False])
          (handed_request HTTP_POST body r) s"
    using r(1,5) by (simp add: echo_handle_def)
  moreover have "take 2 body = text_bytes ''hi''"
    using r(3) unfolding body by (simp add: numeral_2_eq_2)
  moreover have "hq_content_length r = 2" "text_bytes ''hi'' \<noteq> []"
    using r(2) unfolding body by (simp_all add: text_bytes_def)
  ultimately show ?thesis
    using r(4) by (simp add: handler_run_def handed_request_def HttpResponse_Write_def HttpResponse_init_def Let_def)
qed

text \<open>A request whose last word is just the name of the protocol, or a header line that ends with its colon,
  makes \<^verbatim>\<open>substr\<close> throw, which nothing catches.\<close>

lemma bare_version_throws: "request_head ''GET / HTTP'' r = None"
  by (simp add: request_head_def request_line_def GetUriAndParams_def split_str_def split_str_loop.simps)

lemma empty_header_throws:
  "CHR '':'' \<notin> set k \<Longrightarrow> request_header (k @ '':'') r = None"
  using str_find_skip [of "CHR '':''" k "[]" "'':''"] by (simp add: request_header_def)

section \<open>How the client reads the length of an answer\<close>

lemma digits_value_Cons: "digits_value (d # ds) = (of_char d - 48) * 10 ^ length ds + digits_value ds"
proof -
  define f :: "int \<Rightarrow> char \<Rightarrow> int" where "f v c = 10 * v + (of_char c - 48)" for v c
  have val: "digits_value ds = foldl f 0 ds" for ds by (simp add: digits_value_def f_def [abs_def])
  have "foldl f v ds = v * 10 ^ length ds + foldl f 0 ds" for v
  proof (induction ds arbitrary: v)
    case (Cons c ds)
    show ?case
      using Cons [of "f v c"] Cons [of "f 0 c"] by (simp add: f_def algebra_simps)
  qed simp
  from this [of "f 0 d"] show ?thesis by (simp add: val) (simp add: f_def)
qed

lemma digits_value_bound: "list_all is_digit ds \<Longrightarrow> 0 \<le> digits_value ds \<and> digits_value ds < 10 ^ length ds"
proof (induction ds)
  case (Cons d ds)
  then have d: "0 \<le> (of_char d - 48 :: int)" "(of_char d - 48 :: int) \<le> 9" by (auto simp: is_digit_def)
  have ds: "0 \<le> digits_value ds" "digits_value ds < 10 ^ length ds" using Cons by simp_all
  have "(of_char d - 48) * 10 ^ length ds \<le> (9 :: int) * 10 ^ length ds" by (rule mult_right_mono [OF d(2)]) simp
  moreover have "0 \<le> (of_char d - 48 :: int) * 10 ^ length ds" by (rule mult_nonneg_nonneg [OF d(1)]) simp
  moreover have "(10 :: int) ^ length (d # ds) = 10 * 10 ^ length ds" by simp
  ultimately show ?case using ds unfolding digits_value_Cons by linarith
qed (simp add: digits_value_def)

lemma digits_value_tl:
  assumes "list_all is_digit (d # ds)"
  shows "digits_value ds = digits_value (d # ds) mod 10 ^ length ds"
  using assms digits_value_bound [of ds] by (simp add: digits_value_Cons)

lemma http_header_lines_read:
  assumes "\<forall>h\<in>set hs. clean_header h"
  shows "http_header_lines (map header_line hs) r
    = Some (r\<lparr>hr_headers := fold (\<lambda>h. headers_set (fst h) (snd h)) hs (hr_headers r)\<rparr>)"
  using assms
proof (induction hs arbitrary: r)
  case (Cons h hs)
  have "http_header_line (header_line h) r = Some (r\<lparr>hr_headers := headers_set (fst h) (snd h) (hr_headers r)\<rparr>)"
    using Cons.prems header_find [of "fst h" "snd h"] by (simp add: http_header_line_def header_line_def clean_header_def Let_def)
  then show ?case using Cons by simp
qed simp

text \<open>Claim C39. The server of the library writes \<^verbatim>\<open>Content-Length:\<close> without a space behind the colon, and the
  client of the library skips one character there: it takes the length without its first digit, so
  the answer to a request is cut short, and for a body of fewer than ten bytes the client waits for none.\<close>

theorem response_length_misread:
  assumes "n < 2 ^ 31" "\<forall>h\<in>set hs. clean_header h"
  shows "\<exists>H r. response_head n False (HttpResponse_init\<lparr>hp_headers := hs\<rparr>) = H @ head_end
    \<and> http_head H HttpClientResponse_init = Some r \<and> hr_status_code r = 200
    \<and> hr_content_length r = int n mod 10 ^ (length (nat_text n) - 1)"
proof -
  let ?status = "''HTTP/1.1 200 OK''" and ?len = "''Content-Length:'' @ nat_text n"
  let ?ls = "?status # ?len # map header_line hs"
  obtain d ds where ds: "nat_text n = d # ds" using nat_text_digits [of n] by (cases "nat_text n") auto
  have digits: "list_all is_digit (d # ds)" "digits_value (d # ds) = int n"
    using nat_text_digits [of n] by (simp_all add: ds)
  have v: "digits_value ds = int n mod 10 ^ length ds" using digits_value_tl [OF digits(1)] digits(2) by simp
  then have "0 \<le> digits_value ds" "digits_value ds \<le> int n" by (simp_all add: zmod_le_nonneg_dividend)
  then have tlval: "atoi ds = Some (digits_value ds)"
    using assms(1) digits(1) by (intro atoi_digits) simp_all
  have two: "int_text 200 = ''200''" by (simp add: int_text_def nat_text.simps char_of_def bit_0)
  have "response_head n False (HttpResponse_init\<lparr>hp_headers := hs\<rparr>) = concat (map (\<lambda>l. l @ crlf) ?ls) @ crlf @ []"
    by (simp add: response_head_def HttpResponse_init_def header_lines_def two comp_def)
  also have "\<dots> = crlf_join ?ls @ head_end" using join_lines [of ?ls "[]"] by simp
  finally have rtext: "response_head n False (HttpResponse_init\<lparr>hp_headers := hs\<rparr>) = crlf_join ?ls @ head_end" .
  have "\<forall>l\<in>set ?ls. good_line l"
    using nat_text_digits [of n] digit_no_sign assms(2)
    by (auto simp: good_line_def list_all_iff header_line_def clean_header_def)
  then have "split_str (crlf_join ?ls) (CHR 0x0D) [CHR 0x0A] = ?ls" by (rule split_join) simp
  then have head: "http_head (crlf_join ?ls) HttpClientResponse_init
      = Option.bind (http_status_line ?status HttpClientResponse_init) (http_header_lines (?len # map header_line hs))"
    by (simp add: http_head_def)
  have stline: "http_status_line ?status r = Some (r\<lparr>hr_proto := ''HTTP'', hr_version := ''1.1'', hr_status_code := 200, hr_status := ''OK''\<rparr>)" for r
    by (simp add: http_status_line_def split_str_def split_str_loop.simps Let_def atoi_def is_space_def is_digit_def
        digits_value_def int32_result_def)
  have "http_header_line ?len r
      = Some (r\<lparr>hr_content_length := digits_value ds, hr_headers := headers_set ''Content-Length'' ds (hr_headers r)\<rparr>)" for r
    by (simp add: http_header_line_def ds tlval)
  then show ?thesis
    using rtext head stline http_header_lines_read [OF assms(2)] v
    by (intro exI [of _ "crlf_join ?ls"]) (simp add: ds HttpClientResponse_init_def)
qed

lemma response_length_misread_witness:
  "\<exists>H r. response_head 42 False HttpResponse_init = H @ head_end
    \<and> http_head H HttpClientResponse_init = Some r \<and> hr_content_length r = 2"
proof -
  have "HttpResponse_init\<lparr>hp_headers := []\<rparr> = HttpResponse_init" by (simp add: HttpResponse_init_def)
  moreover have "length (nat_text 42) = 2" by (simp add: nat_text.simps)
  ultimately show ?thesis using response_length_misread [of 42 "[]"] by auto
qed

end
