(* ===== verification/Byte_Crypto.thy ===== *)
theory Byte_Crypto
  imports Ws_Frame
begin

text \<open>
  The class \<^verbatim>\<open>ByteCrypto\<close> (\<^verbatim>\<open>deps/cpp_websocket/utils/byte_crypto.cpp\<close>): the checksum CRC-32 by a table
  of 256 words, compared with its definition as a division of polynomials bit by bit, and the random
  keys of the web socket. The engine of the standard library behind \<^verbatim>\<open>GetRandomUint\<close> is a stream of
  numbers that each call takes one of.
\<close>

section \<open>The checksum\<close>

definition crc32_table :: "u32 list" where
  "crc32_table =
   [0x00000000, 0x77073096, 0xee0e612c, 0x990951ba, 0x076dc419, 0x706af48f, 0xe963a535, 0x9e6495a3,
    0x0edb8832, 0x79dcb8a4, 0xe0d5e91e, 0x97d2d988, 0x09b64c2b, 0x7eb17cbd, 0xe7b82d07, 0x90bf1d91,
    0x1db71064, 0x6ab020f2, 0xf3b97148, 0x84be41de, 0x1adad47d, 0x6ddde4eb, 0xf4d4b551, 0x83d385c7,
    0x136c9856, 0x646ba8c0, 0xfd62f97a, 0x8a65c9ec, 0x14015c4f, 0x63066cd9, 0xfa0f3d63, 0x8d080df5,
    0x3b6e20c8, 0x4c69105e, 0xd56041e4, 0xa2677172, 0x3c03e4d1, 0x4b04d447, 0xd20d85fd, 0xa50ab56b,
    0x35b5a8fa, 0x42b2986c, 0xdbbbc9d6, 0xacbcf940, 0x32d86ce3, 0x45df5c75, 0xdcd60dcf, 0xabd13d59,
    0x26d930ac, 0x51de003a, 0xc8d75180, 0xbfd06116, 0x21b4f4b5, 0x56b3c423, 0xcfba9599, 0xb8bda50f,
    0x2802b89e, 0x5f058808, 0xc60cd9b2, 0xb10be924, 0x2f6f7c87, 0x58684c11, 0xc1611dab, 0xb6662d3d,
    0x76dc4190, 0x01db7106, 0x98d220bc, 0xefd5102a, 0x71b18589, 0x06b6b51f, 0x9fbfe4a5, 0xe8b8d433,
    0x7807c9a2, 0x0f00f934, 0x9609a88e, 0xe10e9818, 0x7f6a0dbb, 0x086d3d2d, 0x91646c97, 0xe6635c01,
    0x6b6b51f4, 0x1c6c6162, 0x856530d8, 0xf262004e, 0x6c0695ed, 0x1b01a57b, 0x8208f4c1, 0xf50fc457,
    0x65b0d9c6, 0x12b7e950, 0x8bbeb8ea, 0xfcb9887c, 0x62dd1ddf, 0x15da2d49, 0x8cd37cf3, 0xfbd44c65,
    0x4db26158, 0x3ab551ce, 0xa3bc0074, 0xd4bb30e2, 0x4adfa541, 0x3dd895d7, 0xa4d1c46d, 0xd3d6f4fb,
    0x4369e96a, 0x346ed9fc, 0xad678846, 0xda60b8d0, 0x44042d73, 0x33031de5, 0xaa0a4c5f, 0xdd0d7cc9,
    0x5005713c, 0x270241aa, 0xbe0b1010, 0xc90c2086, 0x5768b525, 0x206f85b3, 0xb966d409, 0xce61e49f,
    0x5edef90e, 0x29d9c998, 0xb0d09822, 0xc7d7a8b4, 0x59b33d17, 0x2eb40d81, 0xb7bd5c3b, 0xc0ba6cad,
    0xedb88320, 0x9abfb3b6, 0x03b6e20c, 0x74b1d29a, 0xead54739, 0x9dd277af, 0x04db2615, 0x73dc1683,
    0xe3630b12, 0x94643b84, 0x0d6d6a3e, 0x7a6a5aa8, 0xe40ecf0b, 0x9309ff9d, 0x0a00ae27, 0x7d079eb1,
    0xf00f9344, 0x8708a3d2, 0x1e01f268, 0x6906c2fe, 0xf762575d, 0x806567cb, 0x196c3671, 0x6e6b06e7,
    0xfed41b76, 0x89d32be0, 0x10da7a5a, 0x67dd4acc, 0xf9b9df6f, 0x8ebeeff9, 0x17b7be43, 0x60b08ed5,
    0xd6d6a3e8, 0xa1d1937e, 0x38d8c2c4, 0x4fdff252, 0xd1bb67f1, 0xa6bc5767, 0x3fb506dd, 0x48b2364b,
    0xd80d2bda, 0xaf0a1b4c, 0x36034af6, 0x41047a60, 0xdf60efc3, 0xa867df55, 0x316e8eef, 0x4669be79,
    0xcb61b38c, 0xbc66831a, 0x256fd2a0, 0x5268e236, 0xcc0c7795, 0xbb0b4703, 0x220216b9, 0x5505262f,
    0xc5ba3bbe, 0xb2bd0b28, 0x2bb45a92, 0x5cb36a04, 0xc2d7ffa7, 0xb5d0cf31, 0x2cd99e8b, 0x5bdeae1d,
    0x9b64c2b0, 0xec63f226, 0x756aa39c, 0x026d930a, 0x9c0906a9, 0xeb0e363f, 0x72076785, 0x05005713,
    0x95bf4a82, 0xe2b87a14, 0x7bb12bae, 0x0cb61b38, 0x92d28e9b, 0xe5d5be0d, 0x7cdcefb7, 0x0bdbdf21,
    0x86d3d2d4, 0xf1d4e242, 0x68ddb3f8, 0x1fda836e, 0x81be16cd, 0xf6b9265b, 0x6fb077e1, 0x18b74777,
    0x88085ae6, 0xff0f6a70, 0x66063bca, 0x11010b5c, 0x8f659eff, 0xf862ae69, 0x616bffd3, 0x166ccf45,
    0xa00ae278, 0xd70dd2ee, 0x4e048354, 0x3903b3c2, 0xa7672661, 0xd06016f7, 0x4969474d, 0x3e6e77db,
    0xaed16a4a, 0xd9d65adc, 0x40df0b66, 0x37d83bf0, 0xa9bcae53, 0xdebb9ec5, 0x47b2cf7f, 0x30b5ffe9,
    0xbdbdf21c, 0xcabac28a, 0x53b39330, 0x24b4a3a6, 0xbad03605, 0xcdd70693, 0x54de5729, 0x23d967bf,
    0xb3667a2e, 0xc4614ab8, 0x5d681b02, 0x2a6f2b94, 0xb40bbe37, 0xc30c8ea1, 0x5a05df1b, 0x2d02ef8d]"

definition GetCrc32 :: "u8 list \<Rightarrow> u32" where
  "GetCrc32 data =
     NOT (fold (\<lambda>b crc. crc32_table ! unat ((crc XOR ucast b) AND 0xFF) XOR drop_bit 8 crc) data 0xFFFFFFFF)"

text \<open>The definition: the register takes the bits of the message one after the other, the lowest bit
  of a byte first, and subtracts the polynomial whenever a one leaves it.\<close>

definition crc_bit :: "bool \<Rightarrow> u32 \<Rightarrow> u32" where
  "crc_bit b r = (if bit r 0 \<noteq> b then drop_bit 1 r XOR 0xEDB88320 else drop_bit 1 r)"

definition byte_bits :: "u8 \<Rightarrow> bool list" where
  "byte_bits b = map (bit b) [0..<8]"

definition crc32_reference :: "u8 list \<Rightarrow> u32" where
  "crc32_reference data = NOT (fold crc_bit (concat (map byte_bits data)) 0xFFFFFFFF)"

text \<open>Eight steps without input are linear, shift a word whose low byte is zero, and give the table.\<close>

definition crc_step :: "u32 \<Rightarrow> u32" where
  "crc_step r = (if bit r 0 then drop_bit 1 r XOR 0xEDB88320 else drop_bit 1 r)"

lemma crc_step_xor: "crc_step (x XOR y) = crc_step x XOR crc_step y"
  by (rule bit_word_eqI) (auto simp: crc_step_def bit_simps)

lemma crc_steps_xor: "(crc_step ^^ n) (x XOR y) = (crc_step ^^ n) x XOR (crc_step ^^ n) y"
  by (induction n) (simp_all add: crc_step_xor)

lemma crc_steps_shift: "(\<And>i. i < n \<Longrightarrow> \<not> bit x i) \<Longrightarrow> (crc_step ^^ n) x = drop_bit n x"
proof (induction n arbitrary: x)
  case (Suc n)
  have "crc_step x = drop_bit 1 x" using Suc.prems [of 0] by (simp add: crc_step_def)
  moreover have "(crc_step ^^ n) (drop_bit 1 x) = drop_bit n (drop_bit 1 x)"
    by (rule Suc.IH) (use Suc.prems in \<open>auto simp: bit_simps\<close>)
  ultimately show ?case by (simp add: funpow_Suc_right del: funpow.simps)
qed simp

text \<open>A bit of input is the same as one in the register, and so are eight.\<close>

lemma crc_bit_step: "crc_bit b r = crc_step (r XOR of_bool b)"
  by (auto simp: crc_bit_def crc_step_def bit_simps intro!: bit_word_eqI)

primrec bits_word :: "bool list \<Rightarrow> u32" where
  "bits_word [] = 0"
| "bits_word (b # bs) = (of_bool b XOR push_bit 1 (bits_word bs))"

declare bits_word.simps(2) [simp del]

lemma bit_bits_word_Cons:
  "bit (bits_word (b # bs)) i \<longleftrightarrow> (if i = 0 then b else i < 32 \<and> bit (bits_word bs) (i - 1))"
proof (cases i)
  case 0
  show ?thesis unfolding 0 bits_word.simps bit_xor_iff bit_push_bit_iff by simp
next
  case (Suc k)
  show ?thesis
    unfolding Suc bits_word.simps bit_xor_iff bit_push_bit_iff possible_bit_word by (simp add: bit_of_bool_iff)
qed

lemma bit_bits_word: "length bs \<le> 32 \<Longrightarrow> bit (bits_word bs) i \<longleftrightarrow> i < length bs \<and> bs ! i"
proof (induction bs arbitrary: i)
  case (Cons b bs)
  then have "length bs \<le> 32" "length bs < 32" by simp_all
  note ih = Cons.IH [OF this(1)] and n = this(2)
  show ?case
  proof (cases i)
    case 0
    show ?thesis unfolding 0 bit_bits_word_Cons by simp
  next
    case (Suc k)
    show ?thesis unfolding Suc bit_bits_word_Cons using n by (simp add: ih) linarith
  qed
qed simp

lemma crc_step_push:
  assumes "\<not> bit x 31"
  shows "crc_step (push_bit 1 x) = x"
proof -
  have "\<not> bit (push_bit 1 x) 0" by (simp only: bit_push_bit_iff) simp
  moreover have "drop_bit 1 (push_bit 1 x) = x"
  proof (rule bit_word_eqI)
    fix n assume n: "n < LENGTH(32)"
    show "bit (drop_bit 1 (push_bit 1 x)) n = bit x n"
    proof (cases "n = 31")
      case True
      then show ?thesis using assms by (simp only: bit_drop_bit_eq comp_def bit_push_bit_iff) simp
    next
      case False
      then have "1 \<le> 1 + n" "1 + n < LENGTH(32)" "1 + n - 1 = n" using n by simp_all
      then show ?thesis by (simp only: bit_drop_bit_eq comp_def bit_push_bit_iff) (simp add: possible_bit_word)
    qed
  qed
  ultimately show ?thesis by (simp only: crc_step_def if_False)
qed

lemma crc_bits_steps: "length bs \<le> 32 \<Longrightarrow> fold crc_bit bs r = (crc_step ^^ length bs) (r XOR bits_word bs)"
proof (induction bs arbitrary: r)
  case (Cons b bs)
  have "\<not> bit (bits_word bs) 31" using Cons.prems by (simp add: bit_bits_word)
  note push = crc_step_push [OF this]
  have "crc_step (r XOR bits_word (b # bs)) = crc_bit b r XOR bits_word bs"
    unfolding bits_word.simps crc_bit_step xor.assoc [symmetric]
      crc_step_xor [of "r XOR of_bool b" "push_bit 1 (bits_word bs)"] push by (rule refl)
  then show ?case using Cons by (simp add: funpow_Suc_right del: funpow.simps)
qed simp

lemma crc_byte_steps: "fold crc_bit (byte_bits b) r = (crc_step ^^ 8) (r XOR ucast b)"
proof -
  have "bits_word (byte_bits b) = ucast b"
    by (rule bit_word_eqI)
      (use bit_imp_le_length [of b] in \<open>force simp: bit_bits_word byte_bits_def bit_ucast_iff\<close>)
  then show ?thesis using crc_bits_steps [of "byte_bits b" r] by (simp add: byte_bits_def)
qed

lemma crc_steps8:
  "(crc_step ^^ 8) r = crc_step (crc_step (crc_step (crc_step (crc_step (crc_step (crc_step (crc_step r)))))))"
  by (simp add: eval_nat_numeral)

text \<open>The table from the entries of the powers of two: its second half is the first one plus one entry.\<close>

definition crc_entry :: "nat \<Rightarrow> u32" where
  "crc_entry i = (crc_step ^^ 8) (of_nat i)"

lemma power_and_below:
  assumes "i < 2 ^ k"
  shows "(2 ^ k AND i) = (0 :: nat)"
proof (rule bit_eqI)
  fix n
  have "\<not> bit i k" using assms by (simp add: bit_iff_odd)
  then show "bit (2 ^ k AND i) n = bit (0 :: nat) n" by (auto simp only: bit_and_iff bit_exp_iff bit_0_eq)
qed

lemma crc_entry_sum:
  assumes "i < 2 ^ k"
  shows "crc_entry (2 ^ k + i) = crc_entry (2 ^ k) XOR crc_entry i"
proof -
  have "2 ^ k + i = (2 ^ k XOR i :: nat)"
    using power_and_below [OF assms] by (rule disjunctive_add_eq_xor)
  then show ?thesis by (simp add: crc_entry_def of_nat_xor_eq crc_steps_xor)
qed

definition crc_entries :: "nat \<Rightarrow> u32 list" where
  "crc_entries n = map crc_entry [0..<n]"

lemma crc_entries_double: "crc_entries (2 ^ Suc k) = crc_entries (2 ^ k) @ map ((XOR) (crc_entry (2 ^ k))) (crc_entries (2 ^ k))"
proof -
  have "[0..<2 ^ Suc k] = [0..<2 ^ k] @ map (\<lambda>i. 2 ^ k + i) [0..<2 ^ k]"
    using upt_add_eq_append [of 0 "2 ^ k" "2 ^ k"] map_add_upt [of "2 ^ k" "2 ^ k"] by (simp add: mult_2 add.commute)
  then show ?thesis by (simp add: crc_entries_def crc_entry_sum)
qed

lemma crc_powers:
  "map crc_entry [1, 2, 4, 8, 16, 32, 64, 128]
    = [0x77073096, 0xee0e612c, 0x076dc419, 0x0edb8832, 0x1db71064, 0x3b6e20c8, 0x76dc4190, 0xedb88320]"
  by (simp add: crc_entry_def crc_steps8 crc_step_def)

lemma crc32_table_halves:
  "\<forall>n\<in>{1, 2, 4, 8, 16, 32, 64, 128}.
     take (2 * n) crc32_table = take n crc32_table @ map ((XOR) (crc32_table ! n)) (take n crc32_table)"
  by (simp add: crc32_table_def)

lemma crc32_table_steps: "crc32_table = crc_entries 256"
proof -
  have powers: "crc_entry n = crc32_table ! n" if "n \<in> {1, 2, 4, 8, 16, 32, 64, 128}" for n
    using that crc_powers by (auto simp: crc32_table_def)
  have double: "crc_entries (2 ^ Suc k) = take (2 ^ Suc k) crc32_table"
    if "crc_entries (2 ^ k) = take (2 ^ k) crc32_table" "2 ^ k \<in> {1, 2, 4, 8, 16, 32, 64, 128 :: nat}" for k
    unfolding crc_entries_double that(1) powers [OF that(2)] using bspec [OF crc32_table_halves that(2)] by simp
  have "crc_entries (2 ^ k) = take (2 ^ k) crc32_table" if "k \<le> 8" for k
    using that
  proof (induction k)
    case 0
    show ?case by (simp add: crc_entries_def crc_entry_def crc_steps8 crc_step_def crc32_table_def)
  next
    case (Suc k)
    then have "k \<in> {0, 1, 2, 3, 4, 5, 6, 7}" by auto
    then have "2 ^ k \<in> {1, 2, 4, 8, 16, 32, 64, 128 :: nat}" by auto
    then show ?case using Suc double by simp
  qed
  from this [of 8] show ?thesis by (simp add: crc32_table_def)
qed

lemma crc_table_step:
  "crc32_table ! unat (x AND 0xFF) XOR drop_bit 8 x = (crc_step ^^ 8) x"
proof -
  let ?low = "x AND 0xFF" and ?high = "x AND NOT 0xFF"
  have "?low \<le> 0xFF" by (rule word_and_le1)
  then have "unat ?low < 256" by (simp add: word_le_nat_alt)
  then have table: "crc32_table ! unat ?low = (crc_step ^^ 8) ?low"
    by (simp add: crc32_table_steps crc_entries_def crc_entry_def)
  have bits: "bit (0xFF :: u32) i \<longleftrightarrow> i < 8" for i
  proof -
    have "(0xFF :: u32) = mask 8" by (simp add: mask_eq_exp_minus_1)
    then show ?thesis by (simp only: bit_mask_iff) (auto simp: possible_bit_word)
  qed
  have "(crc_step ^^ 8) ?high = drop_bit 8 ?high"
    by (rule crc_steps_shift) (simp only: bit_and_iff bit_not_iff bits, simp)
  also have "\<dots> = drop_bit 8 x"
    by (rule bit_word_eqI) (simp only: bit_drop_bit_eq comp_def bit_and_iff bit_not_iff bits possible_bit_word, auto dest: bit_imp_le_length)
  finally have high: "(crc_step ^^ 8) ?high = drop_bit 8 x" .
  have "x = ?low XOR ?high" by (rule bit_word_eqI) (auto simp: bit_simps)
  then have "(crc_step ^^ 8) x = (crc_step ^^ 8) ?low XOR (crc_step ^^ 8) ?high"
    by (metis crc_steps_xor)
  then show ?thesis unfolding table high by (rule sym)
qed

text \<open>Claim C37. The table-driven checksum is CRC-32: for every message it equals the division by the
  polynomial 0xEDB88320 (bits reversed) one bit at a time.\<close>

theorem GetCrc32_is_CRC32: "GetCrc32 data = crc32_reference data"
proof -
  have "fold (\<lambda>b crc. crc32_table ! unat ((crc XOR ucast b) AND 0xFF) XOR drop_bit 8 crc) data r
      = fold crc_bit (concat (map byte_bits data)) r" for r
  proof (induction data arbitrary: r)
    case (Cons b data)
    have "drop_bit 8 (r XOR ucast b) = (drop_bit 8 r :: u32)"
      by (rule bit_word_eqI) (auto simp: bit_simps dest: bit_imp_le_length)
    then show ?case
      using crc_table_step [of "r XOR ucast b"] by (simp add: Cons.IH crc_byte_steps)
  qed simp
  then show ?thesis by (simp add: GetCrc32_def crc32_reference_def)
qed

section \<open>Random keys\<close>

text \<open>\<open>uniform\<close> draws a number between two bounds from the engine and leaves the engine behind.\<close>

definition random_chars :: string where
  "random_chars = ''0123456789abcdefghijklmnopqrstuvwxyz''"

fun random_chars_loop :: "(nat \<Rightarrow> nat \<Rightarrow> 'g \<Rightarrow> nat \<times> 'g) \<Rightarrow> nat \<Rightarrow> 'g \<Rightarrow> string \<times> 'g" where
  "random_chars_loop uniform 0 g = ([], g)"
| "random_chars_loop uniform (Suc n) g =
     (let (rand_number, g1) = uniform 0 (length random_chars - 1) g; (cs, g2) = random_chars_loop uniform n g1
      in (random_chars ! rand_number # cs, g2))"

definition GetRandomString :: "(nat \<Rightarrow> nat \<Rightarrow> 'g \<Rightarrow> nat \<times> 'g) \<Rightarrow> nat \<Rightarrow> 'g \<Rightarrow> string \<times> 'g" where
  "GetRandomString uniform len g = random_chars_loop uniform (if len > 256 then 256 else len) g"

definition random_masking_key :: "(nat \<Rightarrow> nat \<Rightarrow> 'g \<Rightarrow> nat \<times> 'g) \<Rightarrow> 'g \<Rightarrow> u8 list \<times> 'g" where
  "random_masking_key uniform g =
     (let (a, g1) = uniform 1 0xff g; (b, g2) = uniform 1 0xff g1; (c, g3) = uniform 1 0xff g2;
          (d, g4) = uniform 1 0xff g3
      in (map of_nat [a, b, c, d], g4))"

lemma GetRandomString_chars:
  assumes "\<And>lo hi g. lo \<le> hi \<Longrightarrow> fst (uniform lo hi g) \<in> {lo..hi}"
  shows "length (fst (GetRandomString uniform len g)) = min len 256
    \<and> set (fst (GetRandomString uniform len g)) \<subseteq> set random_chars"
proof -
  have "length (fst (random_chars_loop uniform n g)) = n
      \<and> set (fst (random_chars_loop uniform n g)) \<subseteq> set random_chars" for n g
  proof (induction n arbitrary: g)
    case (Suc n)
    obtain r g1 where r: "uniform 0 (length random_chars - 1) g = (r, g1)" by fastforce
    obtain cs g2 where cs: "random_chars_loop uniform n g1 = (cs, g2)" by fastforce
    have "r \<le> length random_chars - 1" using assms [of 0 "length random_chars - 1" g] r by simp
    then have "r < length random_chars" by (simp add: random_chars_def)
    then show ?case using Suc [of g1] r cs by simp
  qed simp
  then show ?thesis by (simp add: GetRandomString_def min_def)
qed

end
