(* ===== verification/Pcm_Queue.thy ===== *)
theory Pcm_Queue
  imports Bytes "HOL-Library.Monad_Syntax"
begin

text \<open>
  The class \<^verbatim>\<open>DecodedSmoothPCMQueue\<close> (\<^verbatim>\<open>api/rtc_factory.h\<close>, \<^verbatim>\<open>api/rtc_factory.cpp\<close>): frames of decoded audio
  wait for playback, and frames that were restored after losses are blended with the ones behind them.
  A \<^verbatim>\<open>float\<close> is its bit pattern, and the arithmetic of the processor on it is an argument. Reads
  outside a frame or a vector, and loops that never end, are \<^term>\<open>None\<close>.
\<close>

section \<open>State and operations\<close>

record RestoreFrame =
  fr_data :: "u8 list"
  fr_smooth_flag :: bool

record DecodedSmoothPCMQueue =
  pcm_overlap_frame_size :: nat
  pcm_smooth_frame_count :: nat
  pcm_frame_size :: nat
  pcm_frames :: "RestoreFrame list"

record float_ops =
  fl_add :: "u32 \<Rightarrow> u32 \<Rightarrow> u32"
  fl_sub :: "u32 \<Rightarrow> u32 \<Rightarrow> u32"
  fl_mul :: "u32 \<Rightarrow> u32 \<Rightarrow> u32"
  fl_div :: "u32 \<Rightarrow> u32 \<Rightarrow> u32"
  fl_of_size :: "u64 \<Rightarrow> u32"

definition PCMQueue_init :: "nat \<Rightarrow> DecodedSmoothPCMQueue" where
  "PCMQueue_init overlap_frame_size =
     \<lparr>pcm_overlap_frame_size = overlap_frame_size, pcm_smooth_frame_count = 0, pcm_frame_size = 0, pcm_frames = []\<rparr>"

definition pcm_IsEmpty :: "DecodedSmoothPCMQueue \<Rightarrow> bool" where
  "pcm_IsEmpty q = (pcm_frames q = [])"

definition SetAllFrameNeedSmooth :: "DecodedSmoothPCMQueue \<Rightarrow> DecodedSmoothPCMQueue" where
  "SetAllFrameNeedSmooth q =
     q\<lparr>pcm_frames := map (\<lambda>f. f\<lparr>fr_smooth_flag := True\<rparr>) (pcm_frames q),
       pcm_smooth_frame_count := pcm_smooth_frame_count q + length (pcm_frames q)\<rparr>"

definition pcm_Push :: "u8 list \<Rightarrow> bool \<Rightarrow> DecodedSmoothPCMQueue \<Rightarrow> DecodedSmoothPCMQueue" where
  "pcm_Push data is_need_smooth q =
     q\<lparr>pcm_frame_size := length data,
       pcm_smooth_frame_count := pcm_smooth_frame_count q + (if is_need_smooth then 1 else 0),
       pcm_frames := pcm_frames q @ [\<lparr>fr_data = data, fr_smooth_flag = is_need_smooth\<rparr>]\<rparr>"

text \<open>The numbers of one frame: four bytes at a time until \<open>n\<close>, which is unsigned, is zero.\<close>

definition float_one :: u32 where "float_one = 0x3F800000"
definition float_32768 :: u32 where "float_32768 = 0x47000000"

fun pcm_samples :: "float_ops \<Rightarrow> nat \<Rightarrow> u8 list \<Rightarrow> u32 list option" where
  "pcm_samples fl n data =
     (if n = 0 then Some []
      else if n < 4 \<or> length data < 4 then None
      else map_option ((#) (fl_div fl (host32 data 0) float_32768)) (pcm_samples fl (n - 4) (drop 4 data)))"

declare pcm_samples.simps [simp del]

fun frames_samples :: "float_ops \<Rightarrow> nat \<Rightarrow> RestoreFrame list \<Rightarrow> u32 list option" where
  "frames_samples fl n [] = Some []"
| "frames_samples fl n (f # fs) =
     do { xs \<leftarrow> pcm_samples fl n (fr_data f); ys \<leftarrow> frames_samples fl n fs; Some (xs @ ys) }"

definition GetOverLapSizeFrameToFloat ::
  "float_ops \<Rightarrow> DecodedSmoothPCMQueue \<Rightarrow> (u32 list \<times> DecodedSmoothPCMQueue) option" where
  "GetOverLapSizeFrameToFloat fl q =
     (let k = pcm_overlap_frame_size q
      in do { segment \<leftarrow> frames_samples fl (pcm_frame_size q) (take k (pcm_frames q));
              Some (segment, q\<lparr>pcm_frames := drop k (pcm_frames q)\<rparr>) })"

definition SmoothPCM :: "float_ops \<Rightarrow> u32 list \<Rightarrow> u32 list \<Rightarrow> u32 list option" where
  "SmoothPCM fl pre seg_last =
     (let overlap = length pre;
          step = fl_div fl float_one (fl_of_size fl (of_nat overlap - 1));
          weights1 = map (\<lambda>i. fl_sub fl float_one (fl_mul fl step (fl_of_size fl (of_nat i)))) [0..<overlap];
          weights2 = map (\<lambda>i. fl_mul fl step (fl_of_size fl (of_nat i))) [0..<overlap]
      in if length seg_last < overlap then None
         else Some (map (\<lambda>i. fl_mul fl
             (fl_div fl
               (fl_add fl (fl_mul fl (pre ! i) (weights1 ! i)) (fl_mul fl (seg_last ! i) (weights2 ! i)))
               (fl_add fl (weights1 ! i) (weights2 ! i)))
             float_32768) [0..<overlap]))"

text \<open>The blended numbers are cut into frames of \<open>n\<close> bytes.\<close>

definition float_bytes :: "u32 \<Rightarrow> u8 list" where
  "float_bytes v = put_host32 (replicate 4 0) 0 v"

function pcm_frames_of :: "nat \<Rightarrow> u32 list \<Rightarrow> u8 list list option" where
  "pcm_frames_of n vs =
     (if vs = [] then Some []
      else if n = 0 \<or> n mod 4 \<noteq> 0 \<or> length vs < n div 4 then None
      else map_option ((#) (concat (map float_bytes (take (n div 4) vs)))) (pcm_frames_of n (drop (n div 4) vs)))"
  by auto
termination by (relation "measure (\<lambda>(n, vs). length vs)") (auto simp: less_eq_div_iff_mult_less_eq)

declare pcm_frames_of.simps [simp del]

text \<open>The first frame, of which \<open>frame_size_\<close> bytes are copied out, is taken off the queue.\<close>

definition pcm_take_first :: "DecodedSmoothPCMQueue \<Rightarrow> (bool \<times> u8 list option \<times> bool \<times> DecodedSmoothPCMQueue) option" where
  "pcm_take_first q =
     (let n = pcm_frame_size q; data = fr_data (hd (pcm_frames q))
      in if length data < n then None
         else Some (True, Some (take n data), False, q\<lparr>pcm_frames := tl (pcm_frames q)\<rparr>))"

text \<open>The result, the bytes that are copied out, whether \<^verbatim>\<open>range_pop\<close> is set, and the queue.\<close>

definition pcm_Pop ::
  "float_ops \<Rightarrow> DecodedSmoothPCMQueue \<Rightarrow> (bool \<times> u8 list option \<times> bool \<times> DecodedSmoothPCMQueue) option" where
  "pcm_Pop fl q =
     (if pcm_frames q = [] then Some (False, None, False, q)
      else if \<not> fr_smooth_flag (hd (pcm_frames q)) then pcm_take_first q
      else if pcm_smooth_frame_count q \<ge> pcm_overlap_frame_size q * 2
      then do {
        (pre, q1) \<leftarrow> GetOverLapSizeFrameToFloat fl q;
        (seg_last, q2) \<leftarrow> GetOverLapSizeFrameToFloat fl q1;
        new_data \<leftarrow> SmoothPCM fl pre seg_last;
        frames \<leftarrow> pcm_frames_of (pcm_frame_size q2) new_data;
        Some (False, None, True,
          q2\<lparr>pcm_frames := pcm_frames q2 @ map (\<lambda>d. \<lparr>fr_data = d, fr_smooth_flag = False\<rparr>) frames\<rparr>) }
      else Some (False, None, False, q))"

definition pcm_ForcePop ::
  "DecodedSmoothPCMQueue \<Rightarrow> (bool \<times> u8 list option \<times> bool \<times> DecodedSmoothPCMQueue) option" where
  "pcm_ForcePop q =
     (if pcm_frames q = [] then Some (False, None, False, q) else pcm_take_first q)"

section \<open>Frames without smoothing\<close>

datatype pcm_op = PcmPush "u8 list" | PcmPop | PcmForcePop

fun pcm_step :: "float_ops \<Rightarrow> pcm_op \<Rightarrow> DecodedSmoothPCMQueue \<Rightarrow> (u8 list list \<times> DecodedSmoothPCMQueue) option" where
  "pcm_step fl (PcmPush d) q = Some ([], pcm_Push d False q)"
| "pcm_step fl PcmPop q = map_option (\<lambda>(ret, out, range_pop, q'). (case out of None \<Rightarrow> [] | Some d \<Rightarrow> [d], q')) (pcm_Pop fl q)"
| "pcm_step fl PcmForcePop q = map_option (\<lambda>(ret, out, range_pop, q'). (case out of None \<Rightarrow> [] | Some d \<Rightarrow> [d], q')) (pcm_ForcePop q)"

fun pcm_run :: "float_ops \<Rightarrow> pcm_op list \<Rightarrow> DecodedSmoothPCMQueue \<Rightarrow> (u8 list list \<times> DecodedSmoothPCMQueue) option" where
  "pcm_run fl [] q = Some ([], q)"
| "pcm_run fl (x # xs) q =
     do { (out, q1) \<leftarrow> pcm_step fl x q; (outs, q2) \<leftarrow> pcm_run fl xs q1; Some (out @ outs, q2) }"

fun frame_queue :: "pcm_op \<Rightarrow> u8 list list \<Rightarrow> u8 list list \<times> u8 list list" where
  "frame_queue (PcmPush d) ds = ([], ds @ [d])"
| "frame_queue _ [] = ([], [])"
| "frame_queue _ (d # ds) = ([d], ds)"

fun frame_queue_run :: "pcm_op list \<Rightarrow> u8 list list \<Rightarrow> u8 list list \<times> u8 list list" where
  "frame_queue_run [] ds = ([], ds)"
| "frame_queue_run (x # xs) ds =
     (let (out, ds1) = frame_queue x ds; (outs, ds2) = frame_queue_run xs ds1 in (out @ outs, ds2))"

definition plain_queue :: "nat \<Rightarrow> DecodedSmoothPCMQueue \<Rightarrow> bool" where
  "plain_queue n q \<longleftrightarrow> (pcm_frames q \<noteq> [] \<longrightarrow> pcm_frame_size q = n)
     \<and> (\<forall>f\<in>set (pcm_frames q). length (fr_data f) = n \<and> \<not> fr_smooth_flag f)"

fun pushes :: "nat \<Rightarrow> pcm_op \<Rightarrow> bool" where
  "pushes n (PcmPush d) = (length d = n)"
| "pushes n _ = True"

lemma pcm_step_queue:
  assumes "plain_queue n q" "pushes n x"
  shows "\<exists>out q'. pcm_step fl x q = Some (out, q') \<and> plain_queue n q'
    \<and> frame_queue x (map fr_data (pcm_frames q)) = (out, map fr_data (pcm_frames q'))"
  using assms
  by (cases x; cases "pcm_frames q")
    (auto simp: plain_queue_def pcm_Push_def pcm_Pop_def pcm_ForcePop_def pcm_take_first_def)

lemma pcm_run_queue:
  assumes "plain_queue n q" "\<forall>x\<in>set xs. pushes n x"
  shows "\<exists>outs q'. pcm_run fl xs q = Some (outs, q')
    \<and> frame_queue_run xs (map fr_data (pcm_frames q)) = (outs, map fr_data (pcm_frames q'))"
  using assms
proof (induction xs arbitrary: q)
  case (Cons x xs)
  obtain out q1 where q1: "pcm_step fl x q = Some (out, q1)" "plain_queue n q1"
      "frame_queue x (map fr_data (pcm_frames q)) = (out, map fr_data (pcm_frames q1))"
    using pcm_step_queue [OF Cons.prems(1)] Cons.prems(2) by fastforce
  obtain outs q2 where "pcm_run fl xs q1 = Some (outs, q2)"
      "frame_queue_run xs (map fr_data (pcm_frames q1)) = (outs, map fr_data (pcm_frames q2))"
    using Cons.IH [OF q1(2)] Cons.prems(2) by auto
  then show ?case using q1 by simp
qed simp

text \<open>Without frames to smooth, and with frames of one size, the queue is first in, first out, and
  nothing is read outside a frame.\<close>

lemma unsmoothed_frames_are_a_queue:
  assumes "\<forall>x\<in>set xs. pushes n x"
  shows "\<exists>outs q. pcm_run fl xs (PCMQueue_init k) = Some (outs, q)
    \<and> frame_queue_run xs [] = (outs, map fr_data (pcm_frames q))"
  using pcm_run_queue [of n "PCMQueue_init k" xs fl] assms by (simp add: plain_queue_def PCMQueue_init_def)

text \<open>The size of the frame that was pushed last is taken for the size of every frame.\<close>

lemma shorter_frame_is_overrun:
  "length a < length b \<Longrightarrow> pcm_Pop fl (pcm_Push b False (pcm_Push a False (PCMQueue_init k))) = None"
  by (simp add: pcm_Pop_def pcm_Push_def PCMQueue_init_def pcm_take_first_def)

section \<open>Smoothing\<close>

lemma pcm_samples_works:
  "length data = 4 * m \<Longrightarrow> \<exists>xs. pcm_samples fl (4 * m) data = Some xs \<and> length xs = m"
proof (induction m arbitrary: data)
  case 0
  then show ?case by (subst pcm_samples.simps) simp
next
  case (Suc m)
  then have "length (drop 4 data) = 4 * m" by simp
  then obtain xs where "pcm_samples fl (4 * m) (drop 4 data) = Some xs" "length xs = m" using Suc.IH by blast
  then show ?case using Suc.prems by (subst pcm_samples.simps) simp
qed

lemma frames_samples_works:
  "\<forall>f\<in>set fs. length (fr_data f) = 4 * m
    \<Longrightarrow> \<exists>xs. frames_samples fl (4 * m) fs = Some xs \<and> length xs = length fs * m"
proof (induction fs)
  case (Cons f fs)
  obtain xs where xs: "pcm_samples fl (4 * m) (fr_data f) = Some xs" "length xs = m"
    using pcm_samples_works [of "fr_data f" m fl] Cons.prems by auto
  obtain ys where "frames_samples fl (4 * m) fs = Some ys" "length ys = length fs * m" using Cons by auto
  then show ?case using xs by simp
qed simp

lemma pcm_frames_of_works:
  assumes "0 < m" "length vs = k * m"
  shows "\<exists>ds. pcm_frames_of (4 * m) vs = Some ds \<and> length ds = k \<and> (\<forall>d\<in>set ds. length d = 4 * m)"
  using assms(2)
proof (induction k arbitrary: vs)
  case 0
  then show ?case by (subst pcm_frames_of.simps) simp
next
  case (Suc k)
  have "length (drop m vs) = k * m" using Suc.prems by simp
  then obtain ds where ds: "pcm_frames_of (4 * m) (drop m vs) = Some ds" "length ds = k" "\<forall>d\<in>set ds. length d = 4 * m"
    using Suc.IH by blast
  have "length (concat (map float_bytes (take m vs))) = 4 * length (take m vs)"
    by (simp add: length_concat float_bytes_def comp_def sum_list_triv)
  moreover have "length vs \<ge> m" "vs \<noteq> []" using Suc.prems assms(1) by auto
  ultimately show ?case using ds assms(1) by (subst pcm_frames_of.simps) simp
qed

text \<open>What a \<^verbatim>\<open>Pop\<close> does that smooths: the first two segments of \<open>k\<close> frames become one, which comes
  behind all the frames that were behind them.\<close>

lemma Pop_smooths:
  assumes "0 < m" "\<forall>f\<in>set (pre @ seg @ rest). length (fr_data f) = 4 * m"
    and k: "0 < k" "length pre = k" "length seg = k" "fr_smooth_flag (hd pre)" "2 * k \<le> n"
  shows "\<exists>ds. length ds = k \<and> (\<forall>d\<in>set ds. length d = 4 * m)
    \<and> pcm_Pop fl \<lparr>pcm_overlap_frame_size = k, pcm_smooth_frame_count = n, pcm_frame_size = 4 * m, pcm_frames = pre @ seg @ rest\<rparr>
      = Some (False, None, True, \<lparr>pcm_overlap_frame_size = k, pcm_smooth_frame_count = n, pcm_frame_size = 4 * m,
          pcm_frames = rest @ map (\<lambda>d. \<lparr>fr_data = d, fr_smooth_flag = False\<rparr>) ds\<rparr>)"
proof -
  obtain xs where xs: "frames_samples fl (4 * m) pre = Some xs" "length xs = k * m"
    using frames_samples_works [of pre m fl] assms(2) k(2) by auto
  obtain ys where ys: "frames_samples fl (4 * m) seg = Some ys" "length ys = k * m"
    using frames_samples_works [of seg m fl] assms(2) k(3) by auto
  obtain vs where vs: "SmoothPCM fl xs ys = Some vs" "length vs = k * m"
    using xs(2) ys(2) by (simp add: SmoothPCM_def Let_def)
  obtain ds where ds: "pcm_frames_of (4 * m) vs = Some ds" "length ds = k" "\<forall>d\<in>set ds. length d = 4 * m"
    using pcm_frames_of_works [OF assms(1) vs(2)] by blast
  have "pre \<noteq> []" using k by auto
  then show ?thesis
    using k xs(1) ys(1) vs(1) ds by (auto simp: pcm_Pop_def GetOverLapSizeFrameToFloat_def)
qed

text \<open>Popping \<open>k\<close> frames.\<close>

fun pcm_pops :: "float_ops \<Rightarrow> nat \<Rightarrow> DecodedSmoothPCMQueue \<Rightarrow> (u8 list list \<times> DecodedSmoothPCMQueue) option" where
  "pcm_pops fl 0 q = Some ([], q)"
| "pcm_pops fl (Suc k) q =
     do { (ret, out, range_pop, q1) \<leftarrow> pcm_Pop fl q; d \<leftarrow> out; (ds, q2) \<leftarrow> pcm_pops fl k q1; Some (d # ds, q2) }"

lemma pops_plain:
  "\<forall>d\<in>set ds. length d = n \<Longrightarrow>
    pcm_pops fl (length ds) \<lparr>pcm_overlap_frame_size = k, pcm_smooth_frame_count = c, pcm_frame_size = n,
      pcm_frames = map (\<lambda>d. \<lparr>fr_data = d, fr_smooth_flag = False\<rparr>) ds\<rparr>
    = Some (ds, \<lparr>pcm_overlap_frame_size = k, pcm_smooth_frame_count = c, pcm_frame_size = n, pcm_frames = []\<rparr>)"
  by (induction ds) (simp_all add: pcm_Pop_def pcm_take_first_def)

lemma pushed_smooth_frames:
  "\<forall>d\<in>set ds. length d = n \<Longrightarrow> ds \<noteq> [] \<Longrightarrow>
    fold (\<lambda>d. pcm_Push d True) ds (PCMQueue_init k) = \<lparr>pcm_overlap_frame_size = k,
      pcm_smooth_frame_count = length ds, pcm_frame_size = n,
      pcm_frames = map (\<lambda>d. \<lparr>fr_data = d, fr_smooth_flag = True\<rparr>) ds\<rparr>"
proof (induction ds rule: rev_induct)
  case (snoc d ds)
  then show ?case by (cases "ds = []") (simp_all add: pcm_Push_def PCMQueue_init_def)
qed simp

text \<open>Claim C40. The queue smooths once only: \<open>2 k\<close> frames to smooth become \<open>k\<close> frames of the same size,
  which can be popped, but the count of frames to smooth is never reduced, so after that one more frame to smooth
  makes \<^verbatim>\<open>Pop\<close> blend it with a segment that does not exist, reading outside the vector. That holds
  for every length of the overlap and whatever the arithmetic on the numbers is.\<close>

theorem second_smoothing_reads_outside:
  assumes "0 < k" "length ds = 2 * k" "0 < m" "\<forall>d\<in>set ds. length d = 4 * m" "length new = 4 * m"
  shows "\<exists>q1 outs q2.
    pcm_Pop fl (fold (\<lambda>d. pcm_Push d True) ds (PCMQueue_init k)) = Some (False, None, True, q1)
    \<and> pcm_pops fl k q1 = Some (outs, q2) \<and> length outs = k \<and> (\<forall>d\<in>set outs. length d = 4 * m)
    \<and> pcm_IsEmpty q2 \<and> pcm_Pop fl (pcm_Push new True q2) = None"
proof -
  let ?f = "\<lambda>d. \<lparr>fr_data = d, fr_smooth_flag = True\<rparr>"
  have "ds \<noteq> []" using assms(1,2) by auto
  note q0 = pushed_smooth_frames [OF assms(4) this, of k]
  have split: "map ?f ds = map ?f (take k ds) @ map ?f (drop k ds) @ []"
    by (simp flip: map_append)
  have sizes: "\<forall>f\<in>set (map ?f (take k ds) @ map ?f (drop k ds) @ []). length (fr_data f) = 4 * m"
    using assms(4) by (auto dest: in_set_takeD in_set_dropD)
  have flag: "fr_smooth_flag (hd (map ?f (take k ds)))" using assms(1) \<open>ds \<noteq> []\<close> by (simp add: hd_map)
  obtain outs where outs: "length outs = k" "\<forall>d\<in>set outs. length d = 4 * m"
      "pcm_Pop fl (fold (\<lambda>d. pcm_Push d True) ds (PCMQueue_init k)) = Some (False, None, True,
        \<lparr>pcm_overlap_frame_size = k, pcm_smooth_frame_count = length ds, pcm_frame_size = 4 * m,
         pcm_frames = map (\<lambda>d. \<lparr>fr_data = d, fr_smooth_flag = False\<rparr>) outs\<rparr>)"
    using Pop_smooths [OF assms(3) sizes assms(1) _ _ flag, of "length ds" fl] assms(2)
    unfolding q0 split [symmetric] by auto
  let ?q2 = "\<lparr>pcm_overlap_frame_size = k, pcm_smooth_frame_count = length ds, pcm_frame_size = 4 * m, pcm_frames = []\<rparr>"
  obtain xs where "pcm_samples fl (4 * m) new = Some xs" "length xs = m"
    using pcm_samples_works [OF assms(5)] by blast
  then have "pcm_Pop fl (pcm_Push new True ?q2) = None"
    using assms(1,2,3,5) by (simp add: pcm_Pop_def pcm_Push_def GetOverLapSizeFrameToFloat_def SmoothPCM_def Let_def)
  moreover have "pcm_IsEmpty ?q2" by (simp add: pcm_IsEmpty_def)
  moreover have "pcm_pops fl k (\<lparr>pcm_overlap_frame_size = k, pcm_smooth_frame_count = length ds, pcm_frame_size = 4 * m,
      pcm_frames = map (\<lambda>d. \<lparr>fr_data = d, fr_smooth_flag = False\<rparr>) outs\<rparr>) = Some (outs, ?q2)"
    using pops_plain [OF outs(2)] outs(1) by metis
  ultimately show ?thesis using outs by blast
qed

definition no_arithmetic :: float_ops where
  "no_arithmetic = \<lparr>fl_add = (\<lambda>a b. a), fl_sub = (\<lambda>a b. a), fl_mul = (\<lambda>a b. a), fl_div = (\<lambda>a b. a), fl_of_size = (\<lambda>n. 0)\<rparr>"

lemma second_smoothing_reads_outside_witness:
  "\<exists>q1 outs q2. pcm_Pop no_arithmetic (fold (\<lambda>d. pcm_Push d True) [[1, 2, 3, 4], [5, 6, 7, 8]] (PCMQueue_init 1))
      = Some (False, None, True, q1)
    \<and> pcm_pops no_arithmetic 1 q1 = Some (outs, q2) \<and> pcm_Pop no_arithmetic (pcm_Push [9, 9, 9, 9] True q2) = None"
  using second_smoothing_reads_outside [of 1 "[[1, 2, 3, 4], [5, 6, 7, 8]]" 1 "[9, 9, 9, 9]" no_arithmetic]
  by auto

end
