(* ===== verification/Spec2Isabelle.thy ===== *)
theory Spec2Isabelle
  imports Nack_Generator Retransmission_Buffer Seq_Manager Rtp_Stream Data_Calculator Rtcp_Packet
    Ntp_Time Report_Exchange Response_Json Transport_Properties Heartbeat Tcp_Buffer Rtc_Factory
    Cow_Semantics Http_Session Byte_Crypto Pcm_Queue
begin

text \<open>
  The media transport of an RTC client: a C++ library that sends and receives audio packets over
  RTP, asks for lost packets, exchanges RTCP reports, and talks to a server over a web socket.

  \<^bold>\<open>The program.\<close> An application gives data to an \<^verbatim>\<open>RtcTransport\<close> (\<^verbatim>\<open>core/src/rtc/rtc_transport.cpp\<close>).
  It composes RTP packets (\<^verbatim>\<open>rtp_packet.h\<close>) and hands them to the \<^verbatim>\<open>RtpStreamSender\<close> of the stream,
  which validates the sequence number (\<^verbatim>\<open>rtp_stream.cpp\<close>), stores the packet
  (\<^verbatim>\<open>rtp_retransmission_buffer.cpp\<close>), counts it (\<^verbatim>\<open>data_calculator.cpp\<close>) and passes it on to the
  network. Datagrams come in through \<^verbatim>\<open>Dispatch\<close>; media packets go to the \<^verbatim>\<open>RtpStreamReceiver\<close>,
  which validates and counts them, keeps a \<^verbatim>\<open>NackGenerator\<close> and hands them on; RTCP packets
  (\<^verbatim>\<open>core/src/rtc/rtcp/\<close>) carry reports between the two ends. An \<^verbatim>\<open>RtcFactory\<close>
  (\<^verbatim>\<open>api/rtc_factory.cpp\<close>) joins the parts: datagrams come in through a \<^verbatim>\<open>WebsocketClient\<close>
  (\<^verbatim>\<open>core/include/io/websocket_client.h\<close>), and received payloads go through the queue of a
  \<^verbatim>\<open>CallBackQueueThread\<close> (\<^verbatim>\<open>core/src/rtc/callback_queue_thread.cpp\<close>), which orders them, to the application.

  \<^bold>\<open>Theories.\<close>
  \<^item> \<open>Prelude\<close>: machine words and list facts, the theorem collections.
  \<^item> \<open>Seq_Order\<close>, \<open>Seq_Manager\<close>: \<^verbatim>\<open>core/include/rtc/seq_manager.h\<close>, \<^verbatim>\<open>core/src/rtc/seq_manager.cpp\<close>.
    Comparing numbers on a circle, and renumbering a stream when packets are dropped. \<open>sm_run_contiguous\<close>
    is the contract of the manager, \<open>Drop_half_circle_gap\<close> shows that its bound is exact.
  \<^item> \<open>Std_Tree\<close>: what the code uses of \<^verbatim>\<open>std::map\<close> and \<^verbatim>\<open>std::set\<close> under a comparator that orders only a
    window of the circle. The locales \<open>key_order\<close> and \<open>ranked_keys\<close> are the contract of a
    comparator on its window; they are interpreted on the comparators of the code.
  \<^item> \<open>Nack_Generator\<close>: \<^verbatim>\<open>nack_generator.cpp\<close>, every operation, with the calls of the listener as a list. The
    invariant orders and bounds the list of pending numbers (not the sets of key frames and of recovered numbers,
    which can leave the order, \<open>key_frames_leave_order\<close>); further lemmas say which numbers are asked for, when, and how often.
  \<^item> \<open>Bytes\<close>, \<open>Ntp_Time\<close>: \<^verbatim>\<open>core/include/utils/utils.h\<close>, \<^verbatim>\<open>core/src/utils/utils.cpp\<close>. The locale
    \<open>byte_field\<close> is the contract between a getter and a setter of a field, interpreted on the seven accessors.
  \<^item> \<open>Rtp_Packet\<close>: \<^verbatim>\<open>rtp_packet.h\<close>, \<^verbatim>\<open>rtp_packet.cpp\<close>. Header fields, the parsing constructor, composing a packet.
  \<^item> \<open>Retransmission_Buffer\<close>: \<^verbatim>\<open>rtp_retransmission_buffer.cpp\<close>. The invariant that a stored item sits at
    the distance of its number from the oldest one, so that the index arithmetic is a lookup by number.
  \<^item> \<open>Float32\<close>: the rounding of \<^verbatim>\<open>float\<close>. \<open>Data_Calculator\<close>: \<^verbatim>\<open>data_calculator.cpp\<close>; the ring buffer refines
    a queue of slots.
  \<^item> \<open>Rtcp_Common\<close>, \<open>Rtcp_Reports\<close>, \<open>Rtcp_Packet\<close>: the files of \<^verbatim>\<open>core/include/rtc/rtcp/\<close> and \<^verbatim>\<open>core/src/rtc/rtcp/\<close>.
    Reading and writing of reports, feedback and compound packets. The parser ends on any datagram with well-formed
    packets, and reads back the last part of what a compound packet writes. The predicates named \<open>_defined\<close> say
    when it does not use a pointer it has moved from, which is when it reads no receiver report; \<open>Dispatch\<close>
    is undefined otherwise.
  \<^item> \<open>Rtp_Stream\<close>, \<open>Stream_Sender\<close>, \<open>Stream_Receiver\<close>: \<^verbatim>\<open>rtp_stream.cpp\<close>, \<^verbatim>\<open>rtp_stream_sender.cpp\<close>,
    \<^verbatim>\<open>rtp_stream_receiver.cpp\<close>. A derived class is a record that extends the one of its base class.
    \<open>Sender_Properties\<close> holds the lemmas of the sender, \<open>Report_Exchange\<close> those of both ends together.
  \<^item> \<open>Response_Json\<close>, \<open>Transport\<close>, \<open>Transport_Properties\<close>: \<^verbatim>\<open>rtc_transport.cpp\<close>. The first holds the hand-written
    JSON reader, the second every operation of the transport, the third the reachable states, the
    exact conditions of undefined behaviour, and the delivery of data from one transport to another.

  \<^item> \<open>Heartbeat\<close>: \<^verbatim>\<open>heart_beat_packet.cpp\<close>; what of a heartbeat packet crosses the network.
  \<^item> \<open>Mem_Buffer\<close>, \<open>Tcp_Buffer\<close>: the class \<^verbatim>\<open>MemBuffer\<close> of \<^verbatim>\<open>utils.h\<close> and
    \<^verbatim>\<open>core/include/io/tcp_buffer.h\<close>. The first is a sequence of bytes below \<open>2\<^sup>3\<^sup>1\<close> bytes, the second a queue.
  \<^item> \<open>Cow_Buffer\<close>, \<open>Cow_Values\<close>, \<open>Cow_Semantics\<close>: \<^verbatim>\<open>copy_on_write_buffer.h\<close>, \<^verbatim>\<open>buffer.h\<close>,
    \<^verbatim>\<open>scoped_refptr.h\<close> and the counted objects of \<^verbatim>\<open>core/include/utils/\<close>. The first holds the heap of counted buffers and the
    operations, the second the invariant and one lemma per operation, the third the contract: objects that
    share buffers behave as values. Elsewhere a buffer is therefore a list of bytes.
  \<^item> \<open>Packet_Queue\<close>: \<^verbatim>\<open>callback_queue_thread.h\<close>, \<^verbatim>\<open>callback_queue_thread.cpp\<close>; the queue and its two condition
    variables under any interleaving of the network thread, the timer and the consumer.
  \<^item> \<open>Websocket_Client\<close>: \<^verbatim>\<open>websocket_client.h\<close>; the outcome of connecting, joining pieces of data, reading answers.
  \<^item> \<open>Data_Buffer\<close>, \<open>Ws_Frame\<close>, \<open>Ws_Session\<close>: the receiving side of the bundled web socket library
    (\<^verbatim>\<open>deps/cpp_websocket/\<close>): \<^verbatim>\<open>utils/data_buffer.hpp\<close>, \<^verbatim>\<open>websocket_frame.cpp\<close>, \<^verbatim>\<open>ws_session_base.cpp\<close> with the
    handlers of \<^verbatim>\<open>websocket_client.cpp\<close>. The buffer refines a queue of bytes, the parser the decoding of RFC
    6455, the session the handling of the decoded frames one after the other. \<open>SendWsFrame\<close> is undefined for an
    empty payload, and the contract of the session says when one is sent.
  \<^item> \<open>Base64\<close>, \<open>Sha1\<close>, \<open>Ws_Client\<close>: \<^verbatim>\<open>base64.cpp\<close>, \<^verbatim>\<open>sha1.hpp\<close>, \<^verbatim>\<open>http_client.cpp\<close>,
    \<^verbatim>\<open>websocket_client.cpp\<close>, \<^verbatim>\<open>websocket_pub.cpp\<close>; the hash is the one of FIPS 180-4, and the handshake and what
    becomes of frames that come with the answer to it are stated of the bytes that are read.
  \<^item> \<open>Http_Session\<close>: the requests of \<^verbatim>\<open>http_client.cpp\<close> and the server's side of the library,
    \<^verbatim>\<open>http_session.cpp\<close>, \<^verbatim>\<open>http_common.hpp\<close>; what is asked for is what the handler gets. \<open>Byte_Crypto\<close>:
    \<^verbatim>\<open>utils/byte_crypto.cpp\<close>, CRC-32 by table against its definition bit by bit, and the random keys.
  \<^item> \<open>Pcm_Queue\<close>: the class \<^verbatim>\<open>DecodedSmoothPCMQueue\<close> of \<^verbatim>\<open>api/rtc_factory.cpp\<close>; a queue of audio frames that
    blends restored frames, correct without smoothing, undefined when it smooths a second time.
  \<^item> \<open>Rtc_Factory\<close>: \<^verbatim>\<open>api/rtc_factory.cpp\<close>; the composition of web socket, transport and packet queue, with
    \<open>audio_reaches_listener\<close> on the way of received audio from the web socket to the application, and
    \<open>audio_is_never_sent\<close> on the way out, which is closed.

  \<^bold>\<open>Conventions.\<close> Machine integers are words of their width, so arithmetic wraps as in the code. A class is a
  record, its operations are functions on it. Calls of a listener are returned in their order. \<open>None\<close>, or the
  value \<open>UndefinedBehaviour\<close>, is undefined behaviour of the code: a null pointer, an index out of range, an
  empty stack, a conversion that does not fit, memory overrun. Pointers into a packet are offsets. The
  clock is an argument: an operation that reads it several times in one step gets one value, or a function
  from the index of the reading. A hash map is a list in the order of its iteration, and the order is arbitrary.

  \<^bold>\<open>Loops.\<close> Every loop is a recursive function with a termination proof: a distance of sequence numbers
  decreases, bits are taken off a mask, or bytes off a datagram. Four loops whose end depends on the state are
  partial functions to options: the loop over frames in \<open>HandleFrame\<close> and the recursion of \<open>http_OnRead\<close>, which
  the theorems on them show to end, the search of \<open>RemoveOldData\<close> in the rate calculator, whose refinement lemma shows
  that it ends, and the doubling of a capacity in \<open>membuf_reserve\<close>, which ends below \<open>2\<^sup>3\<^sup>1\<close> bytes. No fuel is used.

  \<^bold>\<open>Reachable states.\<close> The inductive relations \<open>nack_reachable\<close>, \<open>sender_reach\<close>, \<open>receiver_reach\<close>,
  \<open>transport_reach\<close> and \<open>factory_reach\<close> allow every operation of the code in any order. Their premise on time (the clock does not go back,
  and does not stand within its first 2500 ms) is the window of the rate calculator, whose subtraction would wrap.

  \<^bold>\<open>Not modelled.\<close> The event loop, UDP sockets and timers (\<^verbatim>\<open>core/src/io/\<close>,
  \<^verbatim>\<open>core/src/utils/timer_handler.cpp\<close>) are input and output through \<^verbatim>\<open>libuv\<close>; posting to the network thread
  is a call. The template headers for type traits have no behaviour of their own. Logging is left out. Of the bundled web socket library the
  sockets, TLS and timers (\<^verbatim>\<open>net/tcp/\<close>, \<^verbatim>\<open>utils/timer.hpp\<close>, \<^verbatim>\<open>utils/timeex.hpp\<close>) are input and output; the SHA-1 of
  OpenSSL, its HMAC and the random engine are parameters or left out, and so is the arithmetic of \<^verbatim>\<open>float\<close> in the PCM
  queue. Everything else under \<^verbatim>\<open>deps/\<close> is third-party code. Locks guard whole operations and
  are not modelled; the one read without its lock, in \<^verbatim>\<open>CallBackQueueThread::OnTimer\<close>, is an atomic step here.
\<close>

end
